(* ===== verification/Prelude.thy ===== *)
theory Prelude
  imports Main "HOL-Library.Word" "HOL-Library.List_Lexorder" "HOL-Library.Char_ord"
begin

text \<open>
  Shared vocabulary of the development: bytes and strings, the pieces of the Go standard library
  the sources use on them (\<^verbatim>\<open>encoding/hex\<close>, \<^verbatim>\<open>encoding/binary\<close>, \<^verbatim>\<open>strings\<close>,
  \<^verbatim>\<open>sort.Search\<close>, \<^verbatim>\<open>math/bits\<close>), and the generic lemmas on lists, words and
  sorted lists that the component theories rest on.  Go strings are byte strings, so a string is a
  list of 8-bit characters; a byte slice is a list of 8-bit words.
\<close>

unbundle bit_operations_syntax

named_theorems codec_simps \<open>round-trip equations of the byte-level encoders\<close>
named_theorems length_simps \<open>lengths of encoded byte strings\<close>

type_synonym byte = "8 word"
type_synonym bytes = "8 word list"
type_synonym u32 = "32 word"
type_synonym u64 = "64 word"

subsection \<open>Strings\<close>

definition bytes_of :: "string \<Rightarrow> bytes" where
  "bytes_of s = map of_char s"

definition string_of :: "bytes \<Rightarrow> string" where
  "string_of bs = map (\<lambda>b. char_of (unat b)) bs"

definition hasPrefix :: "'a list \<Rightarrow> 'a list \<Rightarrow> bool" where
  "hasPrefix s p \<longleftrightarrow> take (length p) s = p"

definition trimPrefix :: "'a list \<Rightarrow> 'a list \<Rightarrow> 'a list" where
  "trimPrefix s p = (if hasPrefix s p then drop (length p) s else s)"

definition hasSuffix :: "'a list \<Rightarrow> 'a list \<Rightarrow> bool" where
  "hasSuffix s p \<longleftrightarrow> length p \<le> length s \<and> drop (length s - length p) s = p"

definition toLowerChar :: "char \<Rightarrow> char" where
  "toLowerChar c = (let n = (of_char c :: nat) in
     if 65 \<le> n \<and> n \<le> 90 then char_of (n + 32) else c)"

definition toUpperChar :: "char \<Rightarrow> char" where
  "toUpperChar c = (let n = (of_char c :: nat) in
     if 97 \<le> n \<and> n \<le> 122 then char_of (n - 32) else c)"

definition toLower :: "string \<Rightarrow> string" where
  "toLower s = map toLowerChar s"

definition toUpper :: "string \<Rightarrow> string" where
  "toUpper s = map toUpperChar s"

text \<open>\<^verbatim>\<open>strings.EqualFold\<close>, used by the sources with one side a lower-case hex string; on
  such strings Unicode folding and ASCII folding agree.\<close>

definition equalFold :: "string \<Rightarrow> string \<Rightarrow> bool" where
  "equalFold a b \<longleftrightarrow> toLower a = toLower b"

text \<open>\<^verbatim>\<open>strings.IndexByte\<close> and \<^verbatim>\<open>bytes.Index\<close>: the first position, or none.\<close>

fun indexByte :: "'a list \<Rightarrow> 'a \<Rightarrow> nat option" where
  "indexByte [] c = None"
| "indexByte (x # xs) c = (if x = c then Some 0 else map_option Suc (indexByte xs c))"

fun indexSub :: "'a list \<Rightarrow> 'a list \<Rightarrow> nat option" where
  "indexSub [] p = (if p = [] then Some 0 else None)"
| "indexSub (x # xs) p =
     (if hasPrefix (x # xs) p then Some 0 else map_option Suc (indexSub xs p))"

text \<open>\<^verbatim>\<open>strings.Split(s, sep)\<close> for a one-character separator, and \<^verbatim>\<open>strings.Join\<close>.\<close>

fun splitOn :: "'a \<Rightarrow> 'a list \<Rightarrow> 'a list list" where
  "splitOn c [] = [[]]"
| "splitOn c (x # xs) =
     (if x = c then [] # splitOn c xs
      else (case splitOn c xs of [] \<Rightarrow> [[x]] | p # ps \<Rightarrow> (x # p) # ps))"

fun joinWith :: "'a \<Rightarrow> 'a list list \<Rightarrow> 'a list" where
  "joinWith c [] = []"
| "joinWith c [p] = p"
| "joinWith c (p # q # ps) = p @ c # joinWith c (q # ps)"

text \<open>\<^verbatim>\<open>unicode.IsSpace\<close> on ASCII, and \<^verbatim>\<open>strings.TrimSpace\<close>.\<close>

definition isSpaceChar :: "char \<Rightarrow> bool" where
  "isSpaceChar c \<longleftrightarrow> (let n = (of_char c :: nat) in (9 \<le> n \<and> n \<le> 13) \<or> n = 32)"

definition trimSpace :: "string \<Rightarrow> string" where
  "trimSpace s = rev (dropWhile isSpaceChar (rev (dropWhile isSpaceChar s)))"

subsection \<open>Hexadecimal\<close>

definition hexDigit :: "nat \<Rightarrow> char" where
  "hexDigit n = (if n < 10 then char_of (n + 48) else char_of (n + 87))"

definition fromHexChar :: "char \<Rightarrow> nat option" where
  "fromHexChar c = (let n = (of_char c :: nat) in
     if 48 \<le> n \<and> n \<le> 57 then Some (n - 48)
     else if 97 \<le> n \<and> n \<le> 102 then Some (n - 87)
     else if 65 \<le> n \<and> n \<le> 70 then Some (n - 55)
     else None)"

fun hexEncode :: "bytes \<Rightarrow> string" where
  "hexEncode [] = []"
| "hexEncode (b # bs) = hexDigit (unat b div 16) # hexDigit (unat b mod 16) # hexEncode bs"

fun hexDecode :: "string \<Rightarrow> bytes option" where
  "hexDecode [] = Some []"
| "hexDecode [c] = None"
| "hexDecode (c # d # cs) =
     (case (fromHexChar c, fromHexChar d) of
        (Some a, Some b) \<Rightarrow> map_option (\<lambda>bs. of_nat (a * 16 + b) # bs) (hexDecode cs)
      | _ \<Rightarrow> None)"

subsection \<open>Byte order\<close>

text \<open>\<^verbatim>\<open>binary.BigEndian\<close> and \<^verbatim>\<open>binary.LittleEndian\<close>: the number a byte string
  denotes, and the \<open>n\<close>-byte string of a number.\<close>

definition beNat :: "bytes \<Rightarrow> nat" where
  "beNat bs = foldl (\<lambda>a b. a * 256 + unat b) 0 bs"

fun beBytes :: "nat \<Rightarrow> nat \<Rightarrow> bytes" where
  "beBytes 0 v = []"
| "beBytes (Suc n) v = beBytes n (v div 256) @ [of_nat (v mod 256)]"

definition beWord :: "bytes \<Rightarrow> 'a::len word" where
  "beWord bs = foldl (\<lambda>a b. a * 256 + ucast b) 0 bs"

fun beBytesW :: "nat \<Rightarrow> 'a::len word \<Rightarrow> bytes" where
  "beBytesW 0 w = []"
| "beBytesW (Suc n) w = beBytesW n (drop_bit 8 w) @ [ucast w]"

definition beUint64 :: "bytes \<Rightarrow> u64" where
  "beUint64 bs = beWord (take 8 bs)"

definition bePut64 :: "u64 \<Rightarrow> bytes" where
  "bePut64 w = beBytesW 8 w"

definition leUint64 :: "bytes \<Rightarrow> u64" where
  "leUint64 bs = beWord (rev (take 8 bs))"

definition lePut64 :: "u64 \<Rightarrow> bytes" where
  "lePut64 w = rev (beBytesW 8 w)"

definition leUint32 :: "bytes \<Rightarrow> u32" where
  "leUint32 bs = beWord (rev (take 4 bs))"

subsection \<open>Bits\<close>

text \<open>The low \<open>n\<close> bits of a word, most significant first; \<^verbatim>\<open>bits.LeadingZeros64\<close> and
  \<^verbatim>\<open>bits.Len64\<close>.\<close>

definition msbBits :: "nat \<Rightarrow> 'a::len word \<Rightarrow> bool list" where
  "msbBits n w = map (bit w) (rev [0..<n])"

definition leadingZeros64 :: "u64 \<Rightarrow> nat" where
  "leadingZeros64 w = length (takeWhile Not (msbBits 64 w))"

fun len64 :: "nat \<Rightarrow> nat" where
  "len64 n = (if n = 0 then 0 else Suc (len64 (n div 2)))"

declare len64.simps [simp del]

subsection \<open>Searching\<close>

text \<open>\<^verbatim>\<open>sort.Search(n, f)\<close>: binary search for the least index in \<open>[0, n)\<close> with
  \<open>f\<close> true, over the half-open interval the library maintains.\<close>

function searchLoop :: "(nat \<Rightarrow> bool) \<Rightarrow> nat \<Rightarrow> nat \<Rightarrow> nat" where
  "searchLoop f i j =
     (if i < j then
        (let h = (i + j) div 2 in
         if \<not> f h then searchLoop f (h + 1) j else searchLoop f i h)
      else i)"
  by pat_completeness auto
termination
  by (relation "measure (\<lambda>(f, i, j). j - i)") auto

declare searchLoop.simps [simp del]

definition sortSearch :: "nat \<Rightarrow> (nat \<Rightarrow> bool) \<Rightarrow> nat" where
  "sortSearch n f = searchLoop f 0 n"

subsection \<open>Strings: lemmas\<close>

lemma hasPrefix_append [simp]: "hasPrefix (p @ s) p"
  by (simp add: hasPrefix_def)

lemma hasPrefixD: "hasPrefix s p \<Longrightarrow> s = p @ drop (length p) s"
  by (metis append_take_drop_id hasPrefix_def)

lemma hasPrefix_iff: "hasPrefix s p \<longleftrightarrow> (\<exists>t. s = p @ t)"
  using hasPrefixD by fastforce

lemma toLowerChar_idem [simp]: "toLowerChar (toLowerChar c) = toLowerChar c"
  by (simp add: toLowerChar_def Let_def)

lemma toLower_simps [simp]:
  "toLower [] = []" "toLower (c # cs) = toLowerChar c # toLower cs"
  "toLower (s @ t) = toLower s @ toLower t" "length (toLower s) = length s"
  "toLower (toLower s) = toLower s"
  by (simp_all add: toLower_def)

lemma equalFold_refl [simp]: "equalFold s s"
  by (simp add: equalFold_def)

lemma splitOn_not_Nil [simp]: "splitOn c s \<noteq> []"
  by (induction s) (auto split: list.splits)

lemma joinWith_splitOn [simp]: "joinWith c (splitOn c s) = s"
proof (induction s)
  case (Cons x xs)
  obtain p ps where ps: "splitOn c xs = p # ps"
    by (cases "splitOn c xs") auto
  with Cons show ?case by (cases ps) auto
qed simp

lemma splitOn_free: "c \<notin> set p \<Longrightarrow> splitOn c p = [p]"
  by (induction p) auto

lemma splitOn_append_sep: "c \<notin> set p \<Longrightarrow> splitOn c (p @ c # s) = p # splitOn c s"
  by (induction p) auto

lemma splitOn_joinWith:
  "ps \<noteq> [] \<Longrightarrow> \<forall>p \<in> set ps. c \<notin> set p \<Longrightarrow> splitOn c (joinWith c ps) = ps"
  by (induction c ps rule: joinWith.induct) (auto simp: splitOn_free splitOn_append_sep)

lemma indexByte_Some: "indexByte xs c = Some i \<Longrightarrow> i < length xs \<and> xs ! i = c \<and> c \<notin> set (take i xs)"
proof (induction xs c arbitrary: i rule: indexByte.induct)
  case (2 x xs c)
  then show ?case by (cases i) (auto split: if_splits)
qed simp

lemma indexByte_None: "indexByte xs c = None \<longleftrightarrow> c \<notin> set xs"
  by (induction xs) auto

subsection \<open>Hexadecimal: lemmas\<close>

lemma fromHexChar_hexDigit [simp]: "n < 16 \<Longrightarrow> fromHexChar (hexDigit n) = Some n"
  by (auto simp: fromHexChar_def hexDigit_def Let_def)

lemma fromHexChar_bound: "fromHexChar c = Some n \<Longrightarrow> n < 16"
  by (auto simp: fromHexChar_def Let_def split: if_splits)

lemma hexDigit_fromHexChar: "fromHexChar c = Some n \<Longrightarrow> hexDigit n = toLowerChar c"
  by (auto simp: fromHexChar_def hexDigit_def toLowerChar_def Let_def split: if_splits)

lemma unat_byte_bound [simp]: "unat (b :: byte) < 256"
  using unsigned_less [of b, where ?'a = nat] by simp

lemma unat_of_nat_byte: "n < 256 \<Longrightarrow> unat (of_nat n :: byte) = n"
  by (simp add: unat_of_nat)

lemma length_hexEncode [simp, length_simps]: "length (hexEncode bs) = 2 * length bs"
  by (induction bs) auto

lemma hexDecode_hexEncode [simp, codec_simps]: "hexDecode (hexEncode bs) = Some bs"
proof (induction bs)
  case (Cons b bs)
  have "unat b div 16 < 16" using unat_byte_bound [of b] by (simp add: less_mult_imp_div_less)
  moreover have "unat b div 16 * 16 + unat b mod 16 = unat b" by (rule div_mult_mod_eq)
  ultimately show ?case using Cons by simp
qed simp

lemma hexDecode_length: "hexDecode s = Some bs \<Longrightarrow> length s = 2 * length bs"
  by (induction s arbitrary: bs rule: hexDecode.induct) (auto split: option.splits)

lemma hexEncode_hexDecode: "hexDecode s = Some bs \<Longrightarrow> hexEncode bs = toLower s"
proof (induction s arbitrary: bs rule: hexDecode.induct)
  case (3 c d cs)
  from "3.prems" obtain a b bs' where ab: "fromHexChar c = Some a" "fromHexChar d = Some b"
    and bs': "hexDecode cs = Some bs'" and bs: "bs = of_nat (a * 16 + b) # bs'"
    by (auto split: option.splits)
  have lt: "a < 16" "b < 16" using ab fromHexChar_bound by auto
  then have "unat (of_nat (a * 16 + b) :: byte) = a * 16 + b" by (intro unat_of_nat_byte) simp
  then show ?case using "3.IH" [OF refl ab bs'] ab lt bs
    by (simp add: hexDigit_fromHexChar del: of_nat_add of_nat_mult)
qed auto

subsection \<open>Byte order: lemmas\<close>

lemma beNat_append: "beNat (xs @ ys) = beNat xs * 256 ^ length ys + beNat ys"
proof (induction ys rule: rev_induct)
  case (snoc y ys)
  have "beNat ((xs @ ys) @ [y]) = beNat (xs @ ys) * 256 + unat y" by (simp add: beNat_def)
  moreover have "beNat (ys @ [y]) = beNat ys * 256 + unat y" by (simp add: beNat_def)
  ultimately show ?case using snoc.IH by (simp add: algebra_simps)
qed (simp add: beNat_def)

lemma beNat_simps [simp]: "beNat [] = 0" "beNat [b] = unat b"
  by (simp_all add: beNat_def)

lemma beNat_Cons: "beNat (b # bs) = unat b * 256 ^ length bs + beNat bs"
  using beNat_append [of "[b]" bs] by simp

lemma beNat_bound: "beNat bs < 256 ^ length bs"
proof (induction bs)
  case (Cons b bs)
  have "unat b * 256 ^ length bs + beNat bs < Suc (unat b) * 256 ^ length bs"
    using Cons by simp
  also have "\<dots> \<le> 256 * 256 ^ length bs"
    by (rule mult_right_mono) (use unat_byte_bound [of b] in linarith, simp)
  finally show ?case by (simp add: beNat_Cons)
qed simp

lemma length_beBytes [simp, length_simps]: "length (beBytes n v) = n"
  by (induction n arbitrary: v) auto

lemma beNat_beBytes [codec_simps]: "beNat (beBytes n v) = v mod 256 ^ n"
proof (induction n arbitrary: v)
  case (Suc n)
  have "unat (of_nat (v mod 256) :: byte) = v mod 256" by (rule unat_of_nat_byte) simp
  then have "beNat (beBytes (Suc n) v) = (v div 256 mod 256 ^ n) * 256 + v mod 256"
    by (simp only: beBytes.simps beNat_append Suc.IH) simp
  also have "\<dots> = v mod (256 * 256 ^ n)"
    by (simp add: mod_mult2_eq [of v 256 "256 ^ n"] mult.commute)
  finally show ?case by simp
qed simp

lemma beBytes_beNat [codec_simps]: "beBytes (length bs) (beNat bs) = bs"
proof (induction bs rule: rev_induct)
  case (snoc b bs)
  have e: "beNat (bs @ [b]) = beNat bs * 256 + unat b" by (simp add: beNat_append)
  have "beNat (bs @ [b]) div 256 = beNat bs" "beNat (bs @ [b]) mod 256 = unat b"
    unfolding e using unat_byte_bound [of b] by simp_all
  then show ?case using snoc.IH by simp
qed simp

lemma beNat_less_iff: "length xs = length ys \<Longrightarrow> beNat xs < beNat ys \<longleftrightarrow> xs < ys"
proof (induction xs ys rule: list_induct2)
  case (Cons x xs y ys)
  let ?p = "256 ^ length ys :: nat"
  have bx: "beNat xs < ?p" and by_: "beNat ys < ?p"
    using beNat_bound [of xs] beNat_bound [of ys] Cons.hyps by simp_all
  have lt: "a * ?p + b < c * ?p + d" if "a < c" "b < ?p" for a b c d :: nat
  proof -
    have "a * ?p + b < Suc a * ?p" using that(2) by simp
    also have "\<dots> \<le> c * ?p" using that(1) by (intro mult_right_mono) auto
    finally show ?thesis by simp
  qed
  consider "unat x < unat y" | "unat y < unat x" | "x = y"
    by (metis linorder_neqE_nat word_unat_eq_iff)
  then show ?case
  proof cases
    case 1
    then show ?thesis using lt [OF 1 bx, of "beNat ys"] Cons.hyps
      by (simp add: beNat_Cons word_less_nat_alt)
  next
    case 2
    then show ?thesis using lt [OF 2 by_, of "beNat xs"] Cons.hyps
      by (auto simp: beNat_Cons word_less_nat_alt)
  next
    case 3
    then show ?thesis using Cons by (simp add: beNat_Cons)
  qed
qed simp

lemma beNat_inject: "length xs = length ys \<Longrightarrow> beNat xs = beNat ys \<Longrightarrow> xs = ys"
  by (metis beBytes_beNat)

lemma beWord_eq: "(beWord bs :: 'a::len word) = of_nat (beNat bs)"
proof -
  have "foldl (\<lambda>a b. a * 256 + ucast b) (of_nat n :: 'a word) bs =
      of_nat (foldl (\<lambda>a b. a * 256 + unat b) n bs)" for n
  proof (induction bs arbitrary: n)
    case (Cons b bs)
    have "(of_nat n * 256 + ucast b :: 'a word) = of_nat (n * 256 + unat b)"
      by (simp add: unsigned_of_nat of_nat_unat)
    then show ?case using Cons [of "n * 256 + unat b"] by (simp del: of_nat_add of_nat_mult)
  qed simp
  from this [of 0] show ?thesis by (simp add: beWord_def beNat_def)
qed

lemma beBytesW_eq: "beBytesW n w = beBytes n (unat w)"
proof (induction n arbitrary: w)
  case (Suc n)
  have "unat (drop_bit 8 w) = unat w div 256"
    unfolding unat_drop_bit_eq by (simp add: drop_bit_eq_div)
  moreover have "(ucast w :: byte) = of_nat (unat w mod 256)"
    by (simp add: word_unat_eq_iff unat_of_nat unsigned_ucast_eq take_bit_eq_mod)
  ultimately show ?case using Suc.IH by simp
qed simp

lemma unat_beUint64: "unat (beUint64 bs) = beNat (take 8 bs)"
proof -
  have "beNat (take 8 bs) < 256 ^ length (take 8 bs)" by (rule beNat_bound)
  also have "\<dots> \<le> 256 ^ 8" by (rule power_increasing) auto
  finally show ?thesis by (simp add: beUint64_def beWord_eq unat_of_nat)
qed

lemma beUint64_bePut64 [simp, codec_simps]: "beUint64 (bePut64 w) = w"
proof -
  have "unat w mod 256 ^ 8 = unat w" using unsigned_less [of w, where ?'a = nat] by simp
  then show ?thesis by (simp add: beUint64_def bePut64_def beNat_beBytes beWord_eq beBytesW_eq)
qed

lemma bePut64_beUint64 [codec_simps]: "length bs = 8 \<Longrightarrow> bePut64 (beUint64 bs) = bs"
  using beBytes_beNat [of bs] by (simp add: bePut64_def unat_beUint64 beBytesW_eq)

lemma length_beBytesW [simp, length_simps]: "length (beBytesW n w) = n"
  by (simp add: beBytesW_eq)

lemma length_bePut64 [simp, length_simps]: "length (bePut64 w) = 8"
  by (simp add: bePut64_def)

lemma leUint64_lePut64 [simp, codec_simps]: "leUint64 (lePut64 w) = w"
proof -
  have "unat w mod 256 ^ 8 = unat w" using unsigned_less [of w, where ?'a = nat] by simp
  then show ?thesis by (simp add: leUint64_def lePut64_def beNat_beBytes beWord_eq beBytesW_eq)
qed

lemma length_lePut64 [simp, length_simps]: "length (lePut64 w) = 8"
  by (simp add: lePut64_def)

subsection \<open>Searching: lemmas\<close>

definition searchPost :: "nat \<Rightarrow> (nat \<Rightarrow> bool) \<Rightarrow> nat \<Rightarrow> bool" where
  "searchPost n f r \<longleftrightarrow> (\<forall>k < r. \<not> f k) \<and> (\<forall>k. r \<le> k \<and> k < n \<longrightarrow> f k)"

lemma searchLoop_spec:
  assumes mono: "\<And>a b. a \<le> b \<Longrightarrow> b < n \<Longrightarrow> f a \<Longrightarrow> f b"
  shows "i \<le> j \<Longrightarrow> j \<le> n \<Longrightarrow> \<forall>k < i. \<not> f k \<Longrightarrow> \<forall>k. j \<le> k \<and> k < n \<longrightarrow> f k \<Longrightarrow>
    i \<le> searchLoop f i j \<and> searchLoop f i j \<le> j \<and> searchPost n f (searchLoop f i j)"
proof (induction "j - i" arbitrary: i j rule: less_induct)
  case less
  show ?case
  proof (cases "i < j")
    case True
    define h where "h = (i + j) div 2"
    have h: "i \<le> h" "h < j" using True by (auto simp: h_def)
    show ?thesis
    proof (cases "f h")
      case fh: True
      have 1: "\<forall>k. h \<le> k \<and> k < n \<longrightarrow> f k" using mono fh by blast
      have 2: "searchLoop f i j = searchLoop f i h"
        using True fh by (simp add: searchLoop.simps [of f i j] h_def)
      have "i \<le> searchLoop f i h \<and> searchLoop f i h \<le> h \<and> searchPost n f (searchLoop f i h)"
        by (rule less.hyps) (use h less.prems 1 in auto)
      then show ?thesis using 2 h by simp
    next
      case fh: False
      have 1: "\<forall>k < h + 1. \<not> f k"
      proof (intro allI impI)
        fix k assume "k < h + 1"
        then have "k \<le> h" by simp
        then show "\<not> f k" using mono [of k h] fh h less.prems(2) by auto
      qed
      have 2: "searchLoop f i j = searchLoop f (h + 1) j"
        using True fh by (simp add: searchLoop.simps [of f i j] h_def)
      have "h + 1 \<le> searchLoop f (h + 1) j \<and> searchLoop f (h + 1) j \<le> j \<and>
          searchPost n f (searchLoop f (h + 1) j)"
        by (rule less.hyps) (use h less.prems 1 in auto)
      then show ?thesis using 2 h by simp
    qed
  next
    case False
    then have "searchLoop f i j = i" by (simp add: searchLoop.simps [of f i j])
    then show ?thesis using less.prems False by (simp add: searchPost_def)
  qed
qed

lemma sortSearch_spec:
  assumes "\<And>a b. a \<le> b \<Longrightarrow> b < n \<Longrightarrow> f a \<Longrightarrow> f b"
  shows sortSearch_le: "sortSearch n f \<le> n"
    and sortSearch_below: "k < sortSearch n f \<Longrightarrow> \<not> f k"
    and sortSearch_above: "sortSearch n f \<le> k \<Longrightarrow> k < n \<Longrightarrow> f k"
proof -
  have "searchLoop f 0 n \<le> n \<and> searchPost n f (searchLoop f 0 n)"
    by (rule searchLoop_spec [of n f 0 n, THEN conjunct2]) (use assms in auto)
  then show "sortSearch n f \<le> n" "k < sortSearch n f \<Longrightarrow> \<not> f k"
    "sortSearch n f \<le> k \<Longrightarrow> k < n \<Longrightarrow> f k"
    by (auto simp: sortSearch_def searchPost_def)
qed

lemma sortSearch_iff:
  assumes "\<forall>a b. a \<le> b \<longrightarrow> b < n \<longrightarrow> f a \<longrightarrow> f b"
  shows "sortSearch n f \<le> n" "k < n \<Longrightarrow> sortSearch n f \<le> k \<longleftrightarrow> f k"
proof -
  have m: "\<And>a b. a \<le> b \<Longrightarrow> b < n \<Longrightarrow> f a \<Longrightarrow> f b" using assms by blast
  show "sortSearch n f \<le> n" by (rule sortSearch_le) (rule m)
  have "\<not> f k" if "k < sortSearch n f" by (rule sortSearch_below [OF _ that]) (rule m)
  moreover have "f k" if "sortSearch n f \<le> k" "k < n" by (rule sortSearch_above [OF _ that]) (rule m)
  ultimately show "k < n \<Longrightarrow> sortSearch n f \<le> k \<longleftrightarrow> f k" by (meson not_le)
qed

lemma sortSearch_member:
  fixes xs :: "'a::linorder list"
  assumes "sorted xs"
  shows "(let i = sortSearch (length xs) (\<lambda>i. h \<le> xs ! i) in i < length xs \<and> xs ! i = h) \<longleftrightarrow> h \<in> set xs"
proof -
  let ?f = "\<lambda>i. h \<le> xs ! i" and ?i = "sortSearch (length xs) (\<lambda>i. h \<le> xs ! i)"
  have mono: "\<And>a b. a \<le> b \<Longrightarrow> b < length xs \<Longrightarrow> ?f a \<Longrightarrow> ?f b"
    using assms by (meson order_trans sorted_nth_mono)
  have "?i < length xs \<and> xs ! ?i = h" if h: "h \<in> set xs"
  proof -
    obtain k where k: "k < length xs" "xs ! k = h" using h by (auto simp: in_set_conv_nth)
    then have ik: "?i \<le> k" using sortSearch_below [of "length xs" ?f k, OF mono] by force
    then have "h \<le> xs ! ?i" using sortSearch_above [of "length xs" ?f ?i, OF mono] k by auto
    moreover have "xs ! ?i \<le> h" using sorted_nth_mono [OF assms ik k(1)] k(2) by simp
    ultimately show ?thesis using ik k by simp
  qed
  then have "h \<in> set xs \<Longrightarrow> ?i < length xs \<and> xs ! ?i = h" .
  moreover have "?i < length xs \<and> xs ! ?i = h \<Longrightarrow> h \<in> set xs" by (metis nth_mem)
  ultimately show ?thesis unfolding Let_def by (rule iffI [rotated])
qed

subsection \<open>Strictly sorted lists\<close>

abbreviation strictAsc :: "'a::linorder list \<Rightarrow> bool" where
  "strictAsc \<equiv> sorted_wrt (<)"

lemma strictAsc_sorted: "strictAsc xs \<Longrightarrow> sorted xs"
  by (simp add: strict_sorted_iff)

lemma strictAsc_unique: "strictAsc xs \<Longrightarrow> strictAsc ys \<Longrightarrow> set xs = set ys \<Longrightarrow> xs = ys"
  by (rule strict_sorted_equal)

lemma strictAsc_filter: "strictAsc xs \<Longrightarrow> strictAsc (filter P xs)"
  by (rule sorted_wrt_filter)

lemma strictAsc_eq_sorted_list_of_set: "strictAsc xs \<Longrightarrow> xs = sorted_list_of_set (set xs)"
  by (rule strictAsc_unique) auto

subsection \<open>Bits: lemmas\<close>

lemma length_msbBits [simp, length_simps]: "length (msbBits n w) = n"
  by (simp add: msbBits_def)

lemma nth_msbBits: "i < n \<Longrightarrow> msbBits n w ! i = bit w (n - 1 - i)"
  by (simp add: msbBits_def rev_nth)

lemma msbBits_0 [simp]: "msbBits 0 w = []"
  by (simp add: msbBits_def)

lemma msbBits_eq_iff: "msbBits n v = msbBits m w \<longleftrightarrow> n = m \<and> (\<forall>i < n. bit v i = bit w i)"
proof
  assume e: "msbBits n v = msbBits m w"
  then have nm: "n = m" by (metis length_msbBits)
  have "bit v i = bit w i" if "i < n" for i
    using arg_cong [OF e, of "\<lambda>l. l ! (n - 1 - i)"] that nm by (simp add: nth_msbBits)
  with nm show "n = m \<and> (\<forall>i < n. bit v i = bit w i)" by blast
next
  assume "n = m \<and> (\<forall>i < n. bit v i = bit w i)"
  then show "msbBits n v = msbBits m w" unfolding msbBits_def by (intro map_cong) auto
qed

lemma msbBits_split: "msbBits (m + n) w = msbBits m (drop_bit n w) @ msbBits n w"
proof -
  have "[0..<m + n] = [0..<n] @ map (\<lambda>i. i + n) [0..<m]"
    by (metis add.commute add_0 map_add_upt upt_add_eq_append zero_le)
  then have "rev [0..<m + n] = map (\<lambda>i. i + n) (rev [0..<m]) @ rev [0..<n]"
    by (simp add: rev_map)
  moreover have "bit w \<circ> (\<lambda>i. i + n) = bit (drop_bit n w)"
    by (simp add: fun_eq_iff bit_drop_bit_eq add.commute)
  ultimately show ?thesis by (simp add: msbBits_def del: rev_map)
qed

lemma msbBits_take: "m \<le> n \<Longrightarrow> take m (msbBits n w) = msbBits m (drop_bit (n - m) w)"
  using msbBits_split [of m "n - m" w] by simp

lemma msbBits_drop: "m \<le> n \<Longrightarrow> drop m (msbBits n w) = msbBits (n - m) w"
  using msbBits_split [of m "n - m" w] by simp

subsection \<open>Strings and bytes\<close>

lemma bytes_of_simps [simp]:
  "bytes_of [] = []" "bytes_of (a @ b) = bytes_of a @ bytes_of b" "length (bytes_of s) = length s"
  by (simp_all add: bytes_of_def)

lemma string_of_bytes_of [simp, codec_simps]: "string_of (bytes_of s) = s"
proof -
  have "char_of (unat (of_char c :: byte)) = c" for c
  proof -
    have "(of_char c :: byte) = of_nat (of_char c)" by (simp only: of_nat_of_char)
    moreover have "(of_char c :: nat) < 256" by simp
    ultimately have "unat (of_char c :: byte) = of_char c"
      by (metis unat_of_nat_byte)
    then show ?thesis by simp
  qed
  then show ?thesis by (simp add: string_of_def bytes_of_def comp_def)
qed

lemma bytes_of_string_of: "bytes_of (string_of bs) = bs"
proof -
  have "of_char (char_of (unat b)) = b" for b :: byte
    using of_nat_of_char [of "char_of (unat b)", where 'a = byte, symmetric] unat_byte_bound [of b] by simp
  then show ?thesis by (induction bs) (simp_all add: bytes_of_def string_of_def)
qed

lemma string_of_eq_iff: "string_of bs = s \<longleftrightarrow> bs = bytes_of s"
  using bytes_of_string_of string_of_bytes_of by metis

end
