(* ===== verification/BitIO.thy ===== *)
theory BitIO
  imports Prelude
begin

text \<open>
  The bit streams of the index's version 2 form: the \<^verbatim>\<open>bitWriter\<close> of \<^verbatim>\<open>indexv2.go\<close> and the
  \<^verbatim>\<open>bitReader\<close> of \<^verbatim>\<open>cacheclient/indexv2.go\<close>, with their 64-bit accumulators and every
  shift at its width.  A writer stands for the bits written so far, a reader for the bits still to
  read; the lemmas say what each operation does to those bit strings.  Shift counts are natural
  numbers: the code only forms counts up to 64.
\<close>

definition lowMask :: "nat \<Rightarrow> u64" where
  "lowMask n = push_bit n 1 - 1"

subsection \<open>Writer\<close>

record bitWriter =
  bw_buf :: bytes
  bw_acc :: u64
  bw_n :: nat

function drainBytes :: "bitWriter \<Rightarrow> bitWriter" where
  "drainBytes w =
     (if bw_n w \<ge> 8
      then drainBytes (w\<lparr>bw_n := bw_n w - 8,
             bw_buf := bw_buf w @ [ucast (drop_bit (bw_n w - 8) (bw_acc w))]\<rparr>)
      else w)"
  by pat_completeness auto
termination
  by (relation "measure bw_n") auto

function writeBits :: "bitWriter \<Rightarrow> u64 \<Rightarrow> nat \<Rightarrow> bitWriter" where
  "writeBits w v nbits =
     (if nbits > 32
      then writeBits (writeBits w (drop_bit (nbits - 32) v) 32)
             (v AND (lowMask 32)) (nbits - 32)
      else drainBytes (w\<lparr>bw_acc := push_bit nbits (bw_acc w) OR (v AND (lowMask nbits)),
             bw_n := bw_n w + nbits\<rparr>))"
  by pat_completeness auto
termination
  by (relation "measure (\<lambda>(w, v, nbits). nbits)") auto

function writeUnary :: "bitWriter \<Rightarrow> u64 \<Rightarrow> bitWriter" where
  "writeUnary w q =
     (if q \<ge> 32 then writeUnary (writeBits w (lowMask 32) 32) (q - 32)
      else writeBits w (push_bit 1 (lowMask (unat q))) (unat q + 1))"
  by pat_completeness auto
termination
proof (relation "measure (\<lambda>(w, q). unat q)", goal_cases)
  case (2 w q)
  then show ?case by (simp add: unat_sub word_le_nat_alt)
qed simp

definition flushBits :: "bitWriter \<Rightarrow> bytes" where
  "flushBits w =
     (if bw_n w > 0 then bw_buf w @ [ucast (push_bit (8 - bw_n w) (bw_acc w))] else bw_buf w)"

subsection \<open>Reader\<close>

record bitReader =
  br_data :: bytes
  br_pos :: nat
  br_acc :: u64
  br_n :: nat

function refill :: "bitReader \<Rightarrow> bitReader" where
  "refill r =
     (if br_n r \<le> 56 \<and> br_pos r < length (br_data r)
      then refill (r\<lparr>br_acc := push_bit 8 (br_acc r) OR ucast (br_data r ! br_pos r),
             br_pos := br_pos r + 1, br_n := br_n r + 8\<rparr>)
      else r)"
  by pat_completeness auto
termination
  by (relation "measure (\<lambda>r. length (br_data r) - br_pos r)") auto

function readBits :: "bitReader \<Rightarrow> nat \<Rightarrow> (u64 \<times> bool) \<times> bitReader" where
  "readBits r nbits =
     (if nbits = 0 then ((0, True), r)
      else if nbits > 32
      then (case readBits r (nbits - 32) of ((hi, ok), r1) \<Rightarrow>
              if \<not> ok then ((0, False), r1)
              else (case readBits r1 32 of ((lo, ok2), r2) \<Rightarrow>
                      ((push_bit 32 hi OR lo, ok2), r2)))
      else let r1 = refill r in
        if br_n r1 < nbits then ((0, False), r1)
        else let r2 = r1\<lparr>br_n := br_n r1 - nbits\<rparr> in
          ((drop_bit (br_n r2) (br_acc r2) AND (lowMask nbits), True), r2))"
  by pat_completeness auto
termination
  by (relation "measure (\<lambda>(r, nbits). nbits)") auto

declare drainBytes.simps [simp del] writeBits.simps [simp del] writeUnary.simps [simp del]
  refill.simps [simp del] readBits.simps [simp del]

lemma refill_measure:
  "8 * (length (br_data (refill r)) - br_pos (refill r)) + br_n (refill r) =
   8 * (length (br_data r) - br_pos r) + br_n r"
proof (induction r rule: refill.induct)
  case (1 r)
  let ?r = "r\<lparr>br_acc := push_bit 8 (br_acc r) OR ucast (br_data r ! br_pos r),
             br_pos := br_pos r + 1, br_n := br_n r + 8\<rparr>"
  show ?case
  proof (cases "br_n r \<le> 56 \<and> br_pos r < length (br_data r)")
    case True
    then have "refill r = refill ?r" by (simp add: refill.simps [of r])
    moreover have "length (br_data r) - br_pos r = Suc (length (br_data r) - (br_pos r + 1))"
      using True by arith
    ultimately show ?thesis using "1.IH" True by simp
  next
    case False
    then have "refill r = r" by (subst refill.simps) auto
    then show ?thesis by simp
  qed
qed

function readUnaryLoop :: "bitReader \<Rightarrow> u64 \<Rightarrow> (u64 \<times> bool) \<times> bitReader" where
  "readUnaryLoop r q =
     (let r1 = refill r in
      if br_n r1 = 0 then ((0, False), r1)
      else let valid = push_bit (64 - br_n r1) (br_acc r1);
               ones = leadingZeros64 (NOT valid) in
        if ones < br_n r1 then ((q + of_nat ones, True), r1\<lparr>br_n := br_n r1 - (ones + 1)\<rparr>)
        else readUnaryLoop (r1\<lparr>br_n := 0\<rparr>) (q + of_nat (br_n r1)))"
  by pat_completeness auto
termination
proof (relation "measure (\<lambda>(r, q). 8 * (length (br_data r) - br_pos r) + br_n r)", goal_cases)
  case (2 r q r1 valid ones)
  then show ?case using refill_measure [of r] by simp
qed simp

declare readUnaryLoop.simps [simp del]

definition readUnary :: "bitReader \<Rightarrow> (u64 \<times> bool) \<times> bitReader" where
  "readUnary r = readUnaryLoop r 0"

subsection \<open>What a writer has written\<close>

abbreviation bytesBits :: "bytes \<Rightarrow> bool list" where
  "bytesBits bs \<equiv> concat (map (msbBits 8) bs)"

definition bwBits :: "bitWriter \<Rightarrow> bool list" where
  "bwBits w = bytesBits (bw_buf w) @ msbBits (bw_n w) (bw_acc w)"

lemma bit_low_mask: "bit (lowMask n) i \<longleftrightarrow> i < n \<and> i < 64"
proof -
  have "lowMask n = mask n" by (simp add: lowMask_def mask_eq_exp_minus_1)
  then show ?thesis by (auto simp: bit_mask_iff)
qed

lemma bit_push_low_mask: "bit (push_bit 1 (lowMask n)) j \<longleftrightarrow> 0 < j \<and> j < 64 \<and> j \<le> n"
  unfolding bit_push_bit_iff bit_low_mask by auto

lemma msbBits_ucast8: "m \<le> 8 \<Longrightarrow> msbBits m (ucast (v :: u64) :: byte) = msbBits m v"
  by (auto simp: msbBits_def bit_ucast_iff)

lemma bwBits_drainBytes: "bwBits (drainBytes w) = bwBits w \<and> bw_n (drainBytes w) < 8"
proof (induction w rule: drainBytes.induct)
  case (1 w)
  show ?case
  proof (cases "bw_n w \<ge> 8")
    case True
    let ?w = "w\<lparr>bw_n := bw_n w - 8, bw_buf := bw_buf w @ [ucast (drop_bit (bw_n w - 8) (bw_acc w))]\<rparr>"
    have "msbBits (bw_n w) (bw_acc w) =
        msbBits 8 (drop_bit (bw_n w - 8) (bw_acc w)) @ msbBits (bw_n w - 8) (bw_acc w)"
      using msbBits_split [of 8 "bw_n w - 8" "bw_acc w"] True by simp
    then have "bwBits ?w = bwBits w" by (simp add: bwBits_def msbBits_ucast8)
    moreover have "bwBits (drainBytes ?w) = bwBits ?w \<and> bw_n (drainBytes ?w) < 8"
      using "1.IH" True by simp
    moreover have "drainBytes w = drainBytes ?w" using True by (simp add: drainBytes.simps [of w])
    ultimately show ?thesis by simp
  next
    case False
    then show ?thesis by (simp add: drainBytes.simps [of w])
  qed
qed

lemma bwBits_writeBits32:
  assumes "bw_n w < 8" "nb \<le> 32"
  shows "bwBits (writeBits w v nb) = bwBits w @ msbBits nb v \<and> bw_n (writeBits w v nb) < 8"
proof -
  let ?a = "push_bit nb (bw_acc w) OR (v AND (lowMask nb))"
  let ?w = "w\<lparr>bw_acc := ?a, bw_n := bw_n w + nb\<rparr>"
  have e: "writeBits w v nb = drainBytes ?w" using assms by (simp add: writeBits.simps [of w v nb])
  have "msbBits (bw_n w) (drop_bit nb ?a) = msbBits (bw_n w) (bw_acc w)"
    unfolding msbBits_eq_iff using assms
    by (auto simp: bit_drop_bit_eq bit_or_iff bit_and_iff bit_push_bit_iff bit_low_mask)
  moreover have "msbBits nb ?a = msbBits nb v"
    unfolding msbBits_eq_iff using assms
    by (auto simp: bit_or_iff bit_and_iff bit_push_bit_iff bit_low_mask)
  ultimately have "bwBits ?w = bwBits w @ msbBits nb v"
    using msbBits_split [of "bw_n w" nb ?a] by (simp add: bwBits_def)
  then show ?thesis using bwBits_drainBytes [of ?w] e by simp
qed

lemma bwBits_writeBits:
  assumes "bw_n w < 8" "nb \<le> 64"
  shows "bwBits (writeBits w v nb) = bwBits w @ msbBits nb v \<and> bw_n (writeBits w v nb) < 8"
proof (cases "nb \<le> 32")
  case False
  let ?hi = "drop_bit (nb - 32) v" and ?lo = "v AND (lowMask 32)"
  let ?w = "writeBits w ?hi 32"
  have w: "bwBits ?w = bwBits w @ msbBits 32 ?hi \<and> bw_n ?w < 8"
    using bwBits_writeBits32 [OF assms(1)] by simp
  have "msbBits (nb - 32) ?lo = msbBits (nb - 32) v"
    unfolding msbBits_eq_iff using assms by (auto simp: bit_and_iff bit_low_mask)
  moreover have "msbBits nb v = msbBits 32 ?hi @ msbBits (nb - 32) v"
    using msbBits_split [of 32 "nb - 32" v] False by simp
  moreover have "bwBits (writeBits ?w ?lo (nb - 32)) = bwBits ?w @ msbBits (nb - 32) ?lo \<and>
      bw_n (writeBits ?w ?lo (nb - 32)) < 8"
    using bwBits_writeBits32 w assms by simp
  moreover have "writeBits w v nb = writeBits ?w ?lo (nb - 32)"
    using False by (simp add: writeBits.simps [of w v nb])
  ultimately show ?thesis using w by simp
qed (use bwBits_writeBits32 assms in blast)

lemma msbBits_ones: "m \<le> n \<Longrightarrow> n \<le> 64 \<Longrightarrow> msbBits m (lowMask n) = replicate m True"
  by (rule nth_equalityI) (auto simp: nth_msbBits bit_low_mask)

lemma msbBits_unary_tail:
  assumes "n < 32"
  shows "msbBits (n + 1) (push_bit 1 (lowMask n)) = replicate n True @ [False]"
proof -
  define x where "x = push_bit 1 (lowMask n)"
  have x: "bit x j \<longleftrightarrow> 0 < j \<and> j < 64 \<and> j \<le> n" for j
    unfolding x_def by (rule bit_push_low_mask)
  have "msbBits (n + 1) x = replicate n True @ [False]"
    using assms by (intro nth_equalityI) (auto simp: nth_msbBits nth_append x)
  then show ?thesis by (simp only: x_def)
qed

lemma bwBits_writeUnary:
  "bw_n w < 8 \<Longrightarrow> bwBits (writeUnary w q) = bwBits w @ replicate (unat q) True @ [False] \<and>
     bw_n (writeUnary w q) < 8"
proof (induction w q rule: writeUnary.induct)
  case (1 w q)
  show ?case
  proof (cases "q \<ge> 32")
    case True
    let ?w = "writeBits w (lowMask 32) 32"
    have w: "bwBits ?w = bwBits w @ replicate 32 True \<and> bw_n ?w < 8"
      using bwBits_writeBits32 [OF "1.prems", of 32 "lowMask 32"] msbBits_ones [of 32 32] by simp
    have "unat q = 32 + unat (q - 32)" using True by (simp add: unat_sub word_le_nat_alt)
    then have "replicate (unat q) True = replicate 32 True @ replicate (unat (q - 32)) True"
      by (simp add: replicate_add)
    then show ?thesis using "1.IH" [OF True] w True by (simp add: writeUnary.simps [of w q])
  next
    case False
    then have "unat q < 32" by (simp add: word_le_nat_alt)
    then show ?thesis
      using False bwBits_writeBits32 [OF "1.prems", of "unat q + 1"] msbBits_unary_tail [of "unat q"]
      by (simp add: writeUnary.simps [of w q])
  qed
qed

lemma bytesBits_flushBits:
  assumes "bw_n w < 8"
  shows "\<exists>p < 8. bytesBits (flushBits w) = bwBits w @ replicate p False"
proof (cases "bw_n w = 0")
  case False
  let ?n = "bw_n w"
  have "msbBits 8 (push_bit (8 - ?n) (bw_acc w)) = msbBits ?n (bw_acc w) @ replicate (8 - ?n) False"
  proof (rule nth_equalityI)
    fix i assume "i < length (msbBits 8 (push_bit (8 - ?n) (bw_acc w)))"
    then have "i < 8" by simp
    then show "msbBits 8 (push_bit (8 - ?n) (bw_acc w)) ! i =
        (msbBits ?n (bw_acc w) @ replicate (8 - ?n) False) ! i"
      using assms by (auto simp: nth_msbBits nth_append bit_push_bit_iff)
  qed (use assms in simp)
  then have "bytesBits (flushBits w) = bwBits w @ replicate (8 - ?n) False"
    using False by (simp add: flushBits_def bwBits_def msbBits_ucast8)
  then show ?thesis using False by (intro exI [of _ "8 - ?n"]) simp
qed (auto simp: flushBits_def bwBits_def)

subsection \<open>What a reader has left\<close>

definition brBits :: "bitReader \<Rightarrow> bool list" where
  "brBits r = msbBits (br_n r) (br_acc r) @ bytesBits (drop (br_pos r) (br_data r))"

definition brOk :: "bitReader \<Rightarrow> bool" where
  "brOk r \<longleftrightarrow> br_n r \<le> 64 \<and> br_pos r \<le> length (br_data r)"

lemma length_bytesBits [simp, length_simps]: "length (bytesBits bs) = 8 * length bs"
  by (induction bs) auto

lemma refill_step_bits:
  assumes "br_n r \<le> 56" "br_pos r < length (br_data r)"
  shows "brBits (r\<lparr>br_acc := push_bit 8 (br_acc r) OR ucast (br_data r ! br_pos r),
             br_pos := br_pos r + 1, br_n := br_n r + 8\<rparr>) = brBits r"
proof -
  let ?b = "br_data r ! br_pos r" and ?a = "push_bit 8 (br_acc r) OR ucast (br_data r ! br_pos r)"
  have "msbBits (br_n r) (drop_bit 8 ?a) = msbBits (br_n r) (br_acc r)"
    unfolding msbBits_eq_iff using assms
    by (auto simp: bit_drop_bit_eq bit_or_iff bit_push_bit_iff bit_ucast_iff dest: bit_imp_le_length)
  moreover have "msbBits 8 ?a = msbBits 8 ?b"
    by (auto simp: msbBits_def bit_or_iff bit_push_bit_iff bit_ucast_iff)
  ultimately have "msbBits (br_n r + 8) ?a = msbBits (br_n r) (br_acc r) @ msbBits 8 ?b"
    by (simp add: msbBits_split)
  then show ?thesis using assms by (simp add: brBits_def Cons_nth_drop_Suc [symmetric])
qed

lemma refill_bits:
  "brOk r \<Longrightarrow> brBits (refill r) = brBits r \<and> brOk (refill r) \<and> br_data (refill r) = br_data r \<and>
     (br_n (refill r) > 56 \<or> br_pos (refill r) = length (br_data r))"
proof (induction r rule: refill.induct)
  case (1 r)
  let ?r = "r\<lparr>br_acc := push_bit 8 (br_acc r) OR ucast (br_data r ! br_pos r),
             br_pos := br_pos r + 1, br_n := br_n r + 8\<rparr>"
  show ?case
  proof (cases "br_n r \<le> 56 \<and> br_pos r < length (br_data r)")
    case True
    then have e: "refill r = refill ?r" by (simp add: refill.simps [of r])
    have "brOk ?r" using True by (simp add: brOk_def)
    then show ?thesis using "1.IH" [OF True] refill_step_bits [of r] True e by simp
  next
    case False
    then show ?thesis using "1.prems" by (auto simp: refill.simps [of r] brOk_def)
  qed
qed

lemma refill_has:
  assumes "brOk r" "m \<le> length (brBits r)" "m \<le> 56"
  shows "m \<le> br_n (refill r)"
proof -
  have "length (brBits (refill r)) = length (brBits r)" using refill_bits [OF assms(1)] by simp
  then have "br_pos (refill r) = length (br_data r) \<Longrightarrow> br_n (refill r) = length (brBits r)"
    using refill_bits [OF assms(1)] by (simp add: brBits_def [of "refill r"])
  then show ?thesis using refill_bits [OF assms(1)] assms(2,3) by linarith
qed

lemma readBits32:
  assumes "brOk r" "nb \<le> 32" "brBits r = msbBits nb v @ rest"
  shows "\<exists>r'. readBits r nb = ((v AND lowMask nb, True), r') \<and> brOk r' \<and> brBits r' = rest \<and>
    br_data r' = br_data r"
proof (cases "nb = 0")
  case True
  have "v AND lowMask 0 = 0" by (rule bit_word_eqI) (simp add: bit_and_iff bit_low_mask)
  then show ?thesis using True assms by (simp add: readBits.simps [of r 0])
next
  case False
  let ?r = "refill r"
  let ?r' = "?r\<lparr>br_n := br_n ?r - nb\<rparr>"
  note rf = refill_bits [OF assms(1)]
  have n: "nb \<le> br_n ?r" using refill_has [OF assms(1), of nb] assms(2,3) by simp
  have split: "brBits ?r = msbBits nb (drop_bit (br_n ?r - nb) (br_acc ?r)) @ brBits ?r'"
    using msbBits_split [of nb "br_n ?r - nb" "br_acc ?r"] n by (simp add: brBits_def)
  then have "msbBits nb (drop_bit (br_n ?r - nb) (br_acc ?r)) = msbBits nb v \<and> brBits ?r' = rest"
    using rf assms(3) by (simp add: append_eq_append_conv)
  then have v: "\<forall>i < nb. bit (drop_bit (br_n ?r - nb) (br_acc ?r)) i = bit v i" and rest: "brBits ?r' = rest"
    by (simp_all add: msbBits_eq_iff)
  have "drop_bit (br_n ?r - nb) (br_acc ?r) AND lowMask nb = v AND lowMask nb"
    by (rule bit_word_eqI) (use v in \<open>auto simp: bit_and_iff bit_low_mask\<close>)
  moreover have "brOk ?r'" using rf by (auto simp: brOk_def)
  ultimately show ?thesis using False assms(2) n rest rf by (simp add: readBits.simps [of r nb] Let_def)
qed

lemma readBits_bits:
  assumes "brOk r" "nb \<le> 64" "brBits r = msbBits nb v @ rest"
  shows "\<exists>r'. readBits r nb = ((v AND lowMask nb, True), r') \<and> brOk r' \<and> brBits r' = rest \<and>
    br_data r' = br_data r"
proof (cases "nb \<le> 32")
  case False
  have "brBits r = msbBits (nb - 32) (drop_bit 32 v) @ msbBits 32 v @ rest"
    using assms(3) msbBits_split [of "nb - 32" 32 v] False by simp
  moreover have "nb - 32 \<le> 32" using assms(2) by simp
  ultimately obtain r1 where r1:
    "readBits r (nb - 32) = ((drop_bit 32 v AND lowMask (nb - 32), True), r1)"
    "brOk r1" "brBits r1 = msbBits 32 v @ rest" "br_data r1 = br_data r"
    using readBits32 [OF assms(1)] by blast
  from readBits32 [OF r1(2) _ r1(3)] obtain r2 where r2:
    "readBits r1 32 = ((v AND lowMask 32, True), r2)"
    "brOk r2" "brBits r2 = rest" "br_data r2 = br_data r1" by auto
  have "push_bit 32 (drop_bit 32 v AND lowMask (nb - 32)) OR (v AND lowMask 32) = v AND lowMask nb"
    by (rule bit_word_eqI)
      (use False assms(2) in \<open>auto simp: bit_or_iff bit_and_iff bit_push_bit_iff bit_drop_bit_eq bit_low_mask\<close>)
  then show ?thesis using False r1 r2 by (simp add: readBits.simps [of r nb])
qed (use readBits32 assms in blast)

lemma takeWhile_not_map:
  "length (takeWhile Not (map Not bs @ replicate k True)) = length (takeWhile id bs)"
proof (induction bs)
  case Nil
  then show ?case by (cases k) auto
qed simp

lemma leadingZeros64_not:
  assumes "n \<le> 64"
  shows "leadingZeros64 (NOT (push_bit (64 - n) a)) = length (takeWhile id (msbBits n a))"
proof -
  have "msbBits 64 (NOT (push_bit (64 - n) a)) = map Not (msbBits n a) @ replicate (64 - n) True"
    using assms
    by (intro nth_equalityI) (auto simp: nth_msbBits nth_append bit_not_iff bit_push_bit_iff)
  then show ?thesis by (simp add: leadingZeros64_def takeWhile_not_map)
qed

lemma takeWhile_unary: "length (takeWhile id (replicate q True @ False # rest)) = q"
  by (induction q) auto

lemma readUnaryLoop_bits:
  "brOk r \<Longrightarrow> brBits r = replicate q True @ False # rest \<Longrightarrow>
     \<exists>r'. readUnaryLoop r q0 = ((q0 + of_nat q, True), r') \<and> brOk r' \<and> brBits r' = rest \<and>
       br_data r' = br_data r"
proof (induction r q0 arbitrary: q rule: readUnaryLoop.induct)
  case (1 r q0)
  let ?r = "refill r"
  let ?n = "br_n ?r" and ?bs = "msbBits (br_n ?r) (br_acc ?r)"
  let ?ones = "leadingZeros64 (NOT (push_bit (64 - ?n) (br_acc ?r)))"
  note rf = refill_bits [OF "1.prems"(1)]
  have n0: "?n \<noteq> 0" using refill_has [OF "1.prems"(1), of 1] "1.prems"(2) by simp
  have ones: "?ones = length (takeWhile id ?bs)"
    using rf by (intro leadingZeros64_not) (simp add: brOk_def)
  have bits: "?bs @ bytesBits (drop (br_pos ?r) (br_data ?r)) = replicate q True @ False # rest"
    unfolding brBits_def [symmetric] using rf "1.prems"(2) by simp
  show ?case
  proof (cases "q < ?n")
    case True
    let ?r' = "?r\<lparr>br_n := ?n - (q + 1)\<rparr>"
    have md: "drop (Suc q) ?bs = msbBits (?n - Suc q) (br_acc ?r)"
      using msbBits_drop [of "Suc q" ?n "br_acc ?r"] True by simp
    have hd: "take (q + 1) ?bs = replicate q True @ [False]"
      using arg_cong [OF bits, of "take (q + 1)"] True by simp
    then have "?bs = (replicate q True @ [False]) @ drop (q + 1) ?bs"
      by (metis append_take_drop_id)
    then have "length (takeWhile id ?bs) = q" by (metis takeWhile_unary append.assoc append_Cons append_Nil)
    moreover have "brBits ?r' = rest"
      using arg_cong [OF bits, of "drop (q + 1)"] True
      by (simp add: brBits_def md)
    moreover have "brOk ?r'" using rf by (auto simp: brOk_def)
    ultimately show ?thesis
      using n0 True ones rf by (simp add: readUnaryLoop.simps [of r q0] Let_def)
  next
    case False
    let ?r' = "?r\<lparr>br_n := 0\<rparr>"
    have "?bs = replicate ?n True"
      using arg_cong [OF bits, of "take ?n"] False by (simp add: take_append min_def)
    then have o: "?ones = ?n" using ones by (simp add: takeWhile_replicate)
    have "brBits ?r' = replicate (q - ?n) True @ False # rest"
      using arg_cong [OF bits, of "drop ?n"] False by (simp add: brBits_def drop_append)
    moreover have "brOk ?r'" using rf by (auto simp: brOk_def)
    ultimately obtain r' where "readUnaryLoop ?r' (q0 + of_nat ?n) = ((q0 + of_nat ?n + of_nat (q - ?n), True), r')"
      "brOk r'" "brBits r' = rest" "br_data r' = br_data ?r'"
      using "1.IH" [OF refl n0 refl refl, of "q - ?n"] o by auto
    moreover have "(of_nat ?n + of_nat (q - ?n) :: u64) = of_nat q"
      using False by (metis le_add_diff_inverse not_less of_nat_add)
    ultimately show ?thesis
      using n0 o rf by (simp add: readUnaryLoop.simps [of r q0] Let_def add.assoc)
  qed
qed

lemma readUnary_bits:
  assumes "brOk r" "brBits r = replicate q True @ False # rest"
  shows "\<exists>r'. readUnary r = ((of_nat q, True), r') \<and> brOk r' \<and> brBits r' = rest \<and> br_data r' = br_data r"
  using readUnaryLoop_bits [OF assms, of 0] by (simp add: readUnary_def)

end
