(* ===== verification/ActionKey.thy ===== *)
theory ActionKey
  imports Prelude
begin

text \<open>
  Cache keys and action hashes: \<^verbatim>\<open>extractActionHash\<close> of \<^verbatim>\<open>index.go\<close>, the
  \<^verbatim>\<open>compactKey\<close> of \<^verbatim>\<open>compactkey.go\<close>, and the client's \<^verbatim>\<open>parseActionHash\<close> and
  \<^verbatim>\<open>decodeActionHash\<close> of \<^verbatim>\<open>cacheclient/web_index.go\<close>.  A \<^verbatim>\<open>[32]byte\<close> is a
  byte list of length 32.  The lemmas show when a compact key gives back the key it was made from,
  and which keys collapse onto one compact key.
\<close>

type_synonym actionHash = bytes

definition gbciKeyPrefix :: string where
  "gbciKeyPrefix = ''go-buildcache/v1''"

definition gbciHashSize :: nat where
  "gbciHashSize = 32"

definition zeroHash :: actionHash where
  "zeroHash = replicate gbciHashSize 0"

definition extractActionHash :: "string \<Rightarrow> actionHash \<times> bool" where
  "extractActionHash key =
     (if \<not> hasPrefix key gbciKeyPrefix then (zeroHash, False)
      else let hex64 = drop (length gbciKeyPrefix) key in
        if length hex64 \<noteq> gbciHashSize * 2 then (zeroHash, False)
        else case hexDecode hex64 of
               None \<Rightarrow> (zeroHash, False)
             | Some h \<Rightarrow> (h, True))"

record compactKey =
  ck_hash :: actionHash
  ck_raw :: string

definition newCompactKey :: "string \<Rightarrow> compactKey" where
  "newCompactKey key =
     (let (h, ok) = extractActionHash key in
      if ok then \<lparr>ck_hash = h, ck_raw = []\<rparr>
      else \<lparr>ck_hash = zeroHash, ck_raw = key\<rparr>)"

definition compactKey_Key :: "compactKey \<Rightarrow> string" where
  "compactKey_Key c =
     (if ck_raw c \<noteq> [] then ck_raw c else gbciKeyPrefix @ hexEncode (ck_hash c))"

definition compactKey_actionHash :: "compactKey \<Rightarrow> actionHash \<times> bool" where
  "compactKey_actionHash c = (ck_hash c, ck_raw c = [])"

text \<open>The client side: an action ID may be shorter than a whole hash, and is zero-padded.\<close>

definition parseActionHash :: "string \<Rightarrow> actionHash \<times> bool" where
  "parseActionHash actionID =
     (if length actionID = 0 \<or> length actionID > gbciHashSize * 2 \<or> length actionID mod 2 \<noteq> 0
      then (zeroHash, False)
      else case hexDecode actionID of
             None \<Rightarrow> (zeroHash, False)
           | Some h \<Rightarrow> (h @ replicate (gbciHashSize - length h) 0, True))"

definition decodeActionHash :: "string \<Rightarrow> actionHash \<times> bool" where
  "decodeActionHash key =
     (if \<not> hasPrefix key gbciKeyPrefix then (zeroHash, False)
      else parseActionHash (drop (length gbciKeyPrefix) key))"

subsection \<open>Key of a hash\<close>

text \<open>The key a well-formed hash is stored under.\<close>

definition keyOfHash :: "actionHash \<Rightarrow> string" where
  "keyOfHash h = gbciKeyPrefix @ hexEncode h"

definition canonicalKey :: "string \<Rightarrow> bool" where
  "canonicalKey key \<longleftrightarrow> compactKey_Key (newCompactKey key) = key"

lemma hashSize_simps [simp]: "length zeroHash = 32" "gbciHashSize = 32"
  by (simp_all add: zeroHash_def gbciHashSize_def)

lemma gbciKeyPrefix_not_Nil [simp]: "gbciKeyPrefix \<noteq> []"
  by (simp add: gbciKeyPrefix_def)

lemma extractActionHash_length [simp]: "length (fst (extractActionHash key)) = 32"
  by (auto simp: extractActionHash_def Let_def split: option.splits dest: hexDecode_length)

lemma extractActionHash_keyOfHash [simp]:
  "length h = 32 \<Longrightarrow> extractActionHash (keyOfHash h) = (h, True)"
  by (simp add: extractActionHash_def keyOfHash_def)

lemma extractActionHash_SomeD:
  assumes "extractActionHash key = (h, True)"
  shows "length h = 32" "keyOfHash h = gbciKeyPrefix @ toLower (drop (length gbciKeyPrefix) key)"
    "hasPrefix key gbciKeyPrefix"
  using assms
  by (auto simp: extractActionHash_def Let_def keyOfHash_def split: if_splits option.splits
      dest: hexDecode_length hexEncode_hexDecode)

lemma newCompactKey_hash: "extractActionHash key = (h, True) \<Longrightarrow>
    newCompactKey key = \<lparr>ck_hash = h, ck_raw = []\<rparr>"
  by (simp add: newCompactKey_def)

lemma newCompactKey_raw: "\<not> snd (extractActionHash key) \<Longrightarrow>
    newCompactKey key = \<lparr>ck_hash = zeroHash, ck_raw = key\<rparr>"
  by (cases "extractActionHash key") (simp add: newCompactKey_def)

lemma compactKey_Key_hash: "extractActionHash key = (h, True) \<Longrightarrow>
    compactKey_Key (newCompactKey key) = keyOfHash h"
  by (simp add: newCompactKey_hash compactKey_Key_def keyOfHash_def)

lemma compactKey_Key_raw: "\<not> snd (extractActionHash key) \<Longrightarrow> key \<noteq> [] \<Longrightarrow>
    compactKey_Key (newCompactKey key) = key"
  by (simp add: newCompactKey_raw compactKey_Key_def)

lemma canonicalKey_keyOfHash [simp]: "length h = 32 \<Longrightarrow> canonicalKey (keyOfHash h)"
  by (simp add: canonicalKey_def compactKey_Key_hash)

text \<open>A key survives the compact form exactly when it is not the empty key and its hash digits,
  if it has them, are lower case.\<close>

lemma canonicalKey_iff:
  "canonicalKey key \<longleftrightarrow> key \<noteq> [] \<and>
     (snd (extractActionHash key) \<longrightarrow>
        toLower (drop (length gbciKeyPrefix) key) = drop (length gbciKeyPrefix) key)"
proof (cases "snd (extractActionHash key)")
  case True
  then obtain h where h: "extractActionHash key = (h, True)" by (cases "extractActionHash key") auto
  have pre: "key = gbciKeyPrefix @ drop (length gbciKeyPrefix) key"
    using extractActionHash_SomeD(3) [OF h] by (rule hasPrefixD)
  have "canonicalKey key \<longleftrightarrow> keyOfHash h = key" by (simp add: canonicalKey_def compactKey_Key_hash [OF h])
  also have "\<dots> \<longleftrightarrow> toLower (drop (length gbciKeyPrefix) key) = drop (length gbciKeyPrefix) key"
    unfolding extractActionHash_SomeD(2) [OF h] by (metis pre same_append_eq)
  finally show ?thesis using True pre by auto
next
  case False
  then show ?thesis
    by (cases "key = []") (auto simp: canonicalKey_def compactKey_Key_raw, simp add: newCompactKey_raw compactKey_Key_def)
qed

lemma newCompactKey_inj:
  assumes "canonicalKey a" "canonicalKey b" "newCompactKey a = newCompactKey b"
  shows "a = b"
  using assms by (metis canonicalKey_def)

lemma compactKey_actionHash_new:
  "key \<noteq> [] \<Longrightarrow> compactKey_actionHash (newCompactKey key) =
     (if snd (extractActionHash key) then extractActionHash key else (zeroHash, False))"
  by (auto simp: compactKey_actionHash_def newCompactKey_def split: prod.splits)

lemma decodeActionHash_extract:
  "extractActionHash key = (h, True) \<Longrightarrow> decodeActionHash key = (h, True)"
  by (auto simp: extractActionHash_def decodeActionHash_def parseActionHash_def Let_def
      split: if_splits option.splits dest: hexDecode_length)

text \<open>
  The hash digits of a key are decoded in either case, while the key is rebuilt in lower case: a key
  with an upper-case digit shares its compact form with the lower-case key, and is not the key the
  compact form names.
\<close>

lemma extractActionHash_case:
  assumes "length h = 32" "toLower hx = hexEncode h" "length hx = 64"
    and "hexDecode hx = Some h"
  shows "newCompactKey (gbciKeyPrefix @ hx) = newCompactKey (keyOfHash h)"
  using assms by (simp add: newCompactKey_def extractActionHash_def keyOfHash_def)

end
