(* ===== verification/HashList.thy ===== *)
theory HashList
  imports ActionKey
begin

text \<open>
  The sorted hash lists of \<^verbatim>\<open>index.go\<close>: \<^verbatim>\<open>sortDedupeHashes\<close>,
  \<^verbatim>\<open>mergeSortedHashes\<close>, \<^verbatim>\<open>removeHash\<close>, \<^verbatim>\<open>filterHashes\<close> and the binary search
  of \<^verbatim>\<open>Index.Contains\<close>.  Each is stated for any linear order: the server sorts 32-byte hashes by
  \<^verbatim>\<open>bytes.Compare\<close>, which is the lexicographic order of byte lists.  The lemmas give each
  routine's meaning as an operation on sets of hashes, with the master list kept strictly ascending.
\<close>

text \<open>The write cursor of the dedupe loop: the last element kept, if any, and the elements
  still to read.\<close>

fun dedupeLoop :: "'a option \<Rightarrow> 'a list \<Rightarrow> 'a list" where
  "dedupeLoop prev [] = []"
| "dedupeLoop prev (x # xs) =
     (if prev = None \<or> prev \<noteq> Some x then x # dedupeLoop (Some x) xs else dedupeLoop prev xs)"

definition sortDedupeHashes :: "'a::linorder list \<Rightarrow> 'a list" where
  "sortDedupeHashes s = dedupeLoop None (sort s)"

fun mergeLoop :: "'a::linorder list \<Rightarrow> 'a list \<Rightarrow> 'a list" where
  "mergeLoop [] b = b"
| "mergeLoop (x # a) [] = x # a"
| "mergeLoop (x # a) (y # b) =
     (if x < y then x # mergeLoop a (y # b)
      else if x > y then y # mergeLoop (x # a) b
      else x # mergeLoop a b)"

definition mergeSortedHashes :: "'a::linorder list \<Rightarrow> 'a list \<Rightarrow> 'a list" where
  "mergeSortedHashes a b = (if length b = 0 then a else mergeLoop a b)"

fun removeHash :: "'a list \<Rightarrow> 'a \<Rightarrow> 'a list" where
  "removeHash [] h = []"
| "removeHash (x # s) h = (if x \<noteq> h then x # removeHash s h else removeHash s h)"

fun filterHashes :: "'a list \<Rightarrow> ('a \<Rightarrow> bool) \<Rightarrow> 'a list" where
  "filterHashes [] victims = []"
| "filterHashes (x # s) victims =
     (if \<not> victims x then x # filterHashes s victims else filterHashes s victims)"

definition containsSorted :: "'a::linorder list \<Rightarrow> 'a \<Rightarrow> bool" where
  "containsSorted hs h =
     (let i = sortSearch (length hs) (\<lambda>i. hs ! i \<ge> h) in i < length hs \<and> hs ! i = h)"

subsection \<open>Meaning\<close>

lemma set_dedupeLoop: "set (dedupeLoop prev xs) \<union> set_option prev = set xs \<union> set_option prev"
  by (induction prev xs rule: dedupeLoop.induct) auto

lemma dedupeLoop_lower:
  "sorted xs \<Longrightarrow> \<forall>p \<in> set_option prev. \<forall>x \<in> set xs. p \<le> x \<Longrightarrow>
     strictAsc (dedupeLoop prev xs) \<and> (\<forall>p \<in> set_option prev. \<forall>x \<in> set (dedupeLoop prev xs). p < x)"
proof (induction prev xs rule: dedupeLoop.induct)
  case (2 prev x xs)
  show ?case
  proof (cases "prev = Some x")
    case True
    then show ?thesis using "2.IH"(2) "2.prems" by simp
  next
    case False
    have "strictAsc (dedupeLoop (Some x) xs) \<and> (\<forall>y \<in> set (dedupeLoop (Some x) xs). x < y)"
      using "2.IH"(1) "2.prems" False by simp
    moreover have "p < x" if "prev = Some p" for p using False "2.prems"(2) that by (simp add: less_le)
    ultimately show ?thesis using False by (cases prev) (auto intro: less_trans)
  qed
qed simp

lemma set_sortDedupeHashes [simp]: "set (sortDedupeHashes s) = set s"
  using set_dedupeLoop [of None "sort s"] by (simp add: sortDedupeHashes_def)

lemma strictAsc_sortDedupeHashes [simp]: "strictAsc (sortDedupeHashes s)"
  using dedupeLoop_lower [of "sort s" None] by (simp add: sortDedupeHashes_def)

lemma sortDedupeHashes_eq: "sortDedupeHashes s = sorted_list_of_set (set s)"
  using strictAsc_eq_sorted_list_of_set [of "sortDedupeHashes s"] by simp

lemma set_mergeLoop [simp]: "set (mergeLoop a b) = set a \<union> set b"
  by (induction a b rule: mergeLoop.induct) auto

lemma strictAsc_mergeLoop: "strictAsc a \<Longrightarrow> strictAsc b \<Longrightarrow> strictAsc (mergeLoop a b)"
  by (induction a b rule: mergeLoop.induct) (auto intro: less_trans)

lemma set_mergeSortedHashes [simp]: "set (mergeSortedHashes a b) = set a \<union> set b"
  by (simp add: mergeSortedHashes_def)

lemma strictAsc_mergeSortedHashes:
  "strictAsc a \<Longrightarrow> strictAsc b \<Longrightarrow> strictAsc (mergeSortedHashes a b)"
  by (simp add: mergeSortedHashes_def strictAsc_mergeLoop)

lemma removeHash_eq: "removeHash s h = filter (\<lambda>x. x \<noteq> h) s"
  by (induction s) auto

lemma filterHashes_eq: "filterHashes s v = filter (\<lambda>x. \<not> v x) s"
  by (induction s) auto

lemma set_removeHash [simp]: "set (removeHash s h) = set s - {h}"
  by (auto simp: removeHash_eq)

lemma set_filterHashes [simp]: "set (filterHashes s v) = {x \<in> set s. \<not> v x}"
  by (auto simp: filterHashes_eq)

lemma strictAsc_removeHash: "strictAsc s \<Longrightarrow> strictAsc (removeHash s h)"
  by (simp add: removeHash_eq strictAsc_filter)

lemma strictAsc_filterHashes: "strictAsc s \<Longrightarrow> strictAsc (filterHashes s v)"
  by (simp add: filterHashes_eq strictAsc_filter)

lemma containsSorted_iff: "strictAsc hs \<Longrightarrow> containsSorted hs h \<longleftrightarrow> h \<in> set hs"
  using sortSearch_member [of hs h] by (simp add: containsSorted_def strictAsc_sorted)

text \<open>Folding a pending buffer into the master list, as \<^verbatim>\<open>mergePendingLocked\<close> does it, is
  sorting and deduplicating everything at once.\<close>

lemma merge_sortDedupe:
  assumes "strictAsc a"
  shows "mergeSortedHashes a (sortDedupeHashes b) = sortDedupeHashes (a @ b)"
  by (rule strictAsc_unique) (use assms in \<open>auto intro: strictAsc_mergeSortedHashes\<close>)

end
