(* ===== verification/Sha256.thy ===== *)
theory Sha256
  imports Prelude
begin

text \<open>
  The hash function of Go's \<^verbatim>\<open>crypto/sha256\<close>, which the sources call as
  \<^verbatim>\<open>sha256.Sum256\<close> and through the streaming \<^verbatim>\<open>sha256.New\<close>.  It is written as an
  executable function so that every definition that hashes is closed; the properties of the
  development use of it only that a digest has 32 bytes.
\<close>

definition shaK :: "u32 list" where
  "shaK = [
    1116352408, 1899447441, 3049323471, 3921009573, 961987163, 1508970993, 2453635748, 2870763221,
    3624381080, 310598401, 607225278, 1426881987, 1925078388, 2162078206, 2614888103, 3248222580,
    3835390401, 4022224774, 264347078, 604807628, 770255983, 1249150122, 1555081692, 1996064986,
    2554220882, 2821834349, 2952996808, 3210313671, 3336571891, 3584528711, 113926993, 338241895,
    666307205, 773529912, 1294757372, 1396182291, 1695183700, 1986661051, 2177026350, 2456956037,
    2730485921, 2820302411, 3259730800, 3345764771, 3516065817, 3600352804, 4094571909, 275423344,
    430227734, 506948616, 659060556, 883997877, 958139571, 1322822218, 1537002063, 1747873779,
    1955562222, 2024104815, 2227730452, 2361852424, 2428436474, 2756734187, 3204031479, 3329325298]"

definition shaInit :: "u32 list" where
  "shaInit = [
    1779033703, 3144134277, 1013904242, 2773480762, 1359893119, 2600822924, 528734635, 1541459225]"

definition ror32 :: "nat \<Rightarrow> u32 \<Rightarrow> u32" where
  "ror32 n w = drop_bit n w OR push_bit (32 - n) w"

definition shaPad :: "bytes \<Rightarrow> bytes" where
  "shaPad m = (let l = length m; z = (119 - l mod 64) mod 64
     in m @ [128] @ replicate z 0 @ beBytes 8 (8 * l))"

fun chunksOf :: "nat \<Rightarrow> nat \<Rightarrow> 'a list \<Rightarrow> 'a list list" where
  "chunksOf k 0 xs = []"
| "chunksOf k (Suc n) xs = take k xs # chunksOf k n (drop k xs)"

text \<open>The message schedule, newest word first.\<close>

fun shaSchedule :: "nat \<Rightarrow> u32 list \<Rightarrow> u32 list" where
  "shaSchedule 0 ws = ws"
| "shaSchedule (Suc n) ws =
     (let a = ws ! 14; b = ws ! 1;
          s0 = ror32 7 a XOR ror32 18 a XOR drop_bit 3 a;
          s1 = ror32 17 b XOR ror32 19 b XOR drop_bit 10 b
      in shaSchedule n ((s1 + ws ! 6 + s0 + ws ! 15) # ws))"

fun shaRound :: "u32 list \<Rightarrow> u32 \<Rightarrow> u32 list" where
  "shaRound [a, b, c, d, e, f, g, h] kw =
     (let t1 = h + (ror32 6 e XOR ror32 11 e XOR ror32 25 e) +
               ((e AND f) XOR (NOT e AND g)) + kw;
          t2 = (ror32 2 a XOR ror32 13 a XOR ror32 22 a) +
               ((a AND b) XOR (a AND c) XOR (b AND c))
      in [t1 + t2, a, b, c, d + t1, e, f, g])"
| "shaRound st kw = st"

definition shaBlock :: "u32 list \<Rightarrow> bytes \<Rightarrow> u32 list" where
  "shaBlock st blk =
     (let ws = rev (shaSchedule 48 (rev (map beWord (chunksOf 4 16 blk))))
      in map2 (+) st (foldl shaRound st (map2 (+) shaK ws)))"

definition sha256 :: "bytes \<Rightarrow> bytes" where
  "sha256 m = (let p = shaPad m
     in concat (map (\<lambda>w. beBytesW 4 w)
          (foldl shaBlock shaInit (chunksOf 64 (length p div 64) p))))"

lemma length_shaRound: "length (shaRound st kw) = length st"
  by (induction st kw rule: shaRound.induct) (auto simp: Let_def)

lemma length_foldl_shaRound: "length (foldl shaRound st kws) = length st"
  by (induction kws arbitrary: st) (auto simp: length_shaRound)

lemma length_shaBlock: "length (shaBlock st blk) = length st"
  by (simp add: shaBlock_def length_foldl_shaRound)

lemma length_foldl_shaBlock: "length (foldl shaBlock st blks) = length st"
  by (induction blks arbitrary: st) (auto simp: length_shaBlock)

lemma length_concat_uniform: "(\<And>x. x \<in> set xs \<Longrightarrow> length (f x) = k) \<Longrightarrow> length (concat (map f xs)) = k * length xs"
  by (induction xs) auto

lemma length_sha256 [simp, length_simps]: "length (sha256 m) = 32"
  by (simp add: sha256_def Let_def length_concat_uniform [where k = 4] length_foldl_shaBlock
      shaInit_def)

end
