(* ===== verification/RiceIndex.thy ===== *)
theory RiceIndex
  imports BitIO HashList Sha256
begin

text \<open>
  The version 2 form of the index blob: Rice-coded gaps between ascending hash prefixes.  The server
  writes it (\<^verbatim>\<open>marshalGBCI2\<close>, \<^verbatim>\<open>gbci2Size\<close>, \<^verbatim>\<open>prefixValues\<close>) and the client
  reads it (\<^verbatim>\<open>ParseIndexV2\<close>) and writes it again for its disk copy (\<^verbatim>\<open>MarshalIndexV2\<close>).
  The theory shows that the client reads back exactly the values the server wrote, that the size the
  server reports without writing is the size it writes, that both encoders agree, and how large a blob
  can get.
\<close>

definition gbciMagic :: bytes where
  "gbciMagic = bytes_of ''GBCI''"

definition gbciHeaderSize :: nat where
  "gbciHeaderSize = 24"

definition gbciVersion2 :: byte where
  "gbciVersion2 = 2"

definition indexHashBitsMin :: nat where "indexHashBitsMin = 32"

definition indexHashBitsMax :: nat where "indexHashBitsMax = 64"

definition riceParam :: "nat \<Rightarrow> nat \<Rightarrow> nat" where
  "riceParam widthBits n =
     (let k = int widthBits - (if n > 1 then int (len64 (n - 1)) else 0)
      in nat (max 0 (min k 63)))"

text \<open>The gap before the value at position \<open>i\<close>, and the loop that writes each gap.\<close>

definition gapOf :: "nat \<Rightarrow> u64 \<Rightarrow> u64 \<Rightarrow> u64" where
  "gapOf i prev v = (if i > 0 then v - prev - 1 else v)"

fun writeGaps :: "nat \<Rightarrow> nat \<Rightarrow> u64 \<Rightarrow> u64 list \<Rightarrow> bitWriter \<Rightarrow> bitWriter" where
  "writeGaps k i prev [] w = w"
| "writeGaps k i prev (v # vs) w =
     (let g = gapOf i prev v in
      writeGaps k (i + 1) v vs (writeBits (writeUnary w (drop_bit k g)) (g AND lowMask k) k))"

definition gbciFrame :: "byte \<Rightarrow> byte \<Rightarrow> byte \<Rightarrow> nat \<Rightarrow> bytes \<Rightarrow> bytes" where
  "gbciFrame version width k n body =
     (let hdr = gbciMagic @ [version, width, k, 0] @ take 8 (sha256 body) @ lePut64 (of_nat n)
      in hdr @ body @ sha256 (hdr @ body))"

definition marshalGBCI2 :: "nat \<Rightarrow> u64 list \<Rightarrow> bytes" where
  "marshalGBCI2 widthBits vals =
     (let n = length vals; k = riceParam widthBits n;
          w = \<lparr>bw_buf = replicate gbciHeaderSize 0, bw_acc = 0, bw_n = 0\<rparr>;
          blob = flushBits (writeGaps k 0 0 vals w)
      in gbciFrame gbciVersion2 (of_nat widthBits) (of_nat k) n (drop gbciHeaderSize blob))"

fun gapBitsTotal :: "nat \<Rightarrow> nat \<Rightarrow> u64 \<Rightarrow> u64 list \<Rightarrow> u64 \<Rightarrow> u64" where
  "gapBitsTotal k i prev [] tot = tot"
| "gapBitsTotal k i prev (v # vs) tot =
     (let g = gapOf i prev v in
      gapBitsTotal k (i + 1) v vs (tot + (drop_bit k g + of_nat k + 1)))"

definition gbci2Size :: "nat \<Rightarrow> u64 list \<Rightarrow> nat" where
  "gbci2Size widthBits vals =
     (let k = riceParam widthBits (length vals); tot = gapBitsTotal k 0 0 vals 0
      in gbciHeaderSize + unat ((tot + 7) div 8) + 32)"

definition prefixLimit :: "nat \<Rightarrow> u64" where
  "prefixLimit widthBits = (if widthBits \<ge> 64 then NOT 0 else push_bit widthBits 1 - 1)"

datatype marshalPanic = WidthOutside nat | ValueOutOfOrder nat

fun marshalValues :: "u64 \<Rightarrow> nat \<Rightarrow> nat \<Rightarrow> u64 \<Rightarrow> u64 list \<Rightarrow> bitWriter \<Rightarrow> marshalPanic + bitWriter" where
  "marshalValues limit k i prev [] w = Inr w"
| "marshalValues limit k i prev (v # vs) w =
     (if v > limit \<or> (i > 0 \<and> v \<le> prev) then Inl (ValueOutOfOrder i)
      else let g = (if i > 0 then v - prev - 1 else v) in
        marshalValues limit k (i + 1) v vs
          (writeBits (writeUnary w (drop_bit k g)) (g AND lowMask k) k))"

definition MarshalIndexV2 :: "nat \<Rightarrow> u64 list \<Rightarrow> marshalPanic + bytes" where
  "MarshalIndexV2 widthBits vals =
     (if widthBits < indexHashBitsMin \<or> widthBits > indexHashBitsMax then Inl (WidthOutside widthBits)
      else let k = riceParam widthBits (length vals);
               w = \<lparr>bw_buf = replicate gbciHeaderSize 0, bw_acc = 0, bw_n = 0\<rparr>
        in case marshalValues (prefixLimit widthBits) k 0 0 vals w of
             Inl p \<Rightarrow> Inl p
           | Inr w' \<Rightarrow> Inr (gbciFrame gbciVersion2 (of_nat widthBits) (of_nat k) (length vals)
                             (drop gbciHeaderSize (flushBits w'))))"

definition IndexV2Size :: "nat \<Rightarrow> u64 list \<Rightarrow> nat" where
  "IndexV2Size widthBits vals =
     (let k = riceParam widthBits (length vals); tot = gapBitsTotal k 0 0 vals 0
      in gbciHeaderSize + unat ((tot + 7) div 8) + 32)"

subsection \<open>The client's decoder\<close>

datatype parseError =
    BlobTooSmall nat | BadMagic | UnsupportedVersion byte | UnsupportedWidth nat | RiceOver63 nat
  | TrailerMismatch | CountDoesNotFit u64 | BodyEnds nat | ValueOverflows nat
  | ValueOverflowsBits nat | BytesFollow | UnsupportedHashSize byte | LengthMismatch

fun parseGaps :: "nat \<Rightarrow> u64 \<Rightarrow> nat \<Rightarrow> nat \<Rightarrow> u64 \<Rightarrow> bitReader \<Rightarrow> parseError + (u64 list \<times> bitReader)" where
  "parseGaps k limit 0 i prev r = Inr ([], r)"
| "parseGaps k limit (Suc count) i prev r =
     (case readUnary r of ((q, ok), r1) \<Rightarrow>
        if \<not> ok then Inl (BodyEnds i)
        else case readBits r1 k of ((low, ok2), r2) \<Rightarrow>
          if \<not> ok2 then Inl (BodyEnds i)
          else if k > 0 \<and> drop_bit (64 - k) q \<noteq> 0 then Inl (ValueOverflows i)
          else let g = push_bit k q OR low in
            if i > 0 \<and> (prev \<ge> limit \<or> g > limit - prev - 1) then Inl (ValueOverflowsBits i)
            else let v = (if i > 0 then prev + g + 1 else g) in
              if v > limit then Inl (ValueOverflowsBits i)
              else case parseGaps k limit count (i + 1) v r2 of
                     Inl e \<Rightarrow> Inl e
                   | Inr (vs, r3) \<Rightarrow> Inr (v # vs, r3))"

definition ParseIndexV2 :: "bytes \<Rightarrow> parseError + (u64 list \<times> nat)" where
  "ParseIndexV2 blob =
     (if length blob < gbciHeaderSize + 32 then Inl (BlobTooSmall (length blob))
      else if take 4 blob \<noteq> gbciMagic then Inl BadMagic
      else if blob ! 4 \<noteq> gbciVersion2 then Inl (UnsupportedVersion (blob ! 4))
      else let widthBits = unat (blob ! 5) in
        if widthBits < indexHashBitsMin \<or> widthBits > indexHashBitsMax
        then Inl (UnsupportedWidth widthBits)
        else let k = unat (blob ! 6) in
          if k > 63 then Inl (RiceOver63 k)
          else let bodyEnd = length blob - 32 in
            if sha256 (take bodyEnd blob) \<noteq> drop bodyEnd blob then Inl TrailerMismatch
            else let body = drop gbciHeaderSize (take bodyEnd blob);
                     count = leUint64 (take 8 (drop 16 blob)) in
              if count > of_nat (length body) * 8 div of_nat (k + 1) then Inl (CountDoesNotFit count)
              else case parseGaps k (prefixLimit widthBits) (unat count) 0 0
                          \<lparr>br_data = body, br_pos = 0, br_acc = 0, br_n = 0\<rparr> of
                     Inl e \<Rightarrow> Inl e
                   | Inr (vs, r) \<Rightarrow>
                       if br_pos r < length body \<or> br_n r \<ge> 8 then Inl BytesFollow
                       else Inr (vs, widthBits))"

subsection \<open>The bits of a body\<close>

definition riceCode :: "nat \<Rightarrow> u64 \<Rightarrow> bool list" where
  "riceCode k g = replicate (unat (drop_bit k g)) True @ False # msbBits k g"

fun gapsFrom :: "nat \<Rightarrow> u64 \<Rightarrow> u64 list \<Rightarrow> u64 list" where
  "gapsFrom i prev [] = []"
| "gapsFrom i prev (v # vs) = gapOf i prev v # gapsFrom (i + 1) v vs"

abbreviation riceBits :: "nat \<Rightarrow> nat \<Rightarrow> u64 \<Rightarrow> u64 list \<Rightarrow> bool list" where
  "riceBits k i prev vs \<equiv> concat (map (riceCode k) (gapsFrom i prev vs))"

lemma length_gapsFrom [simp, length_simps]: "length (gapsFrom i prev vs) = length vs"
  by (induction i prev vs rule: gapsFrom.induct) auto

lemma length_riceCode [simp, length_simps]: "length (riceCode k g) = unat (drop_bit k g) + k + 1"
  by (simp add: riceCode_def)

lemma msbBits_and_mask: "n \<le> 64 \<Longrightarrow> msbBits n (g AND lowMask n) = msbBits n g"
  by (auto simp: msbBits_eq_iff bit_and_iff bit_low_mask)

lemma riceParam_le: "riceParam widthBits n \<le> 63"
  by (simp add: riceParam_def Let_def)

lemma bwBits_writeGaps:
  "k \<le> 63 \<Longrightarrow> bw_n w < 8 \<Longrightarrow> bwBits (writeGaps k i prev vs w) = bwBits w @ riceBits k i prev vs \<and>
    bw_n (writeGaps k i prev vs w) < 8"
proof (induction k i prev vs w rule: writeGaps.induct)
  case (2 k i prev v vs w)
  let ?g = "gapOf i prev v"
  let ?w1 = "writeUnary w (drop_bit k ?g)"
  let ?w2 = "writeBits ?w1 (?g AND lowMask k) k"
  have 1: "bwBits ?w1 = bwBits w @ replicate (unat (drop_bit k ?g)) True @ [False]" "bw_n ?w1 < 8"
    using bwBits_writeUnary 2(3) by auto
  have w2: "bwBits ?w2 = bwBits w @ riceCode k ?g" "bw_n ?w2 < 8"
    using bwBits_writeBits [OF 1(2), of k "?g AND lowMask k"] 1(1) 2(2)
    by (simp_all add: riceCode_def msbBits_and_mask)
  show ?case using "2.IH" [OF refl 2(2) w2(2)] w2(1) by (simp add: Let_def)
qed simp

definition gbci2Body :: "nat \<Rightarrow> u64 list \<Rightarrow> bytes" where
  "gbci2Body k vals = drop gbciHeaderSize (flushBits (writeGaps k 0 0 vals
     \<lparr>bw_buf = replicate gbciHeaderSize 0, bw_acc = 0, bw_n = 0\<rparr>))"

lemma marshalGBCI2_eq:
  "marshalGBCI2 widthBits vals =
     (let k = riceParam widthBits (length vals) in
      gbciFrame gbciVersion2 (of_nat widthBits) (of_nat k) (length vals) (gbci2Body k vals))"
  by (simp add: marshalGBCI2_def gbci2Body_def Let_def)

lemma bytesBits_drop: "bytesBits (drop n bs) = drop (8 * n) (bytesBits bs)"
proof (induction bs arbitrary: n)
  case (Cons b bs)
  then show ?case by (cases n) simp_all
qed simp

lemma gbci2Body_bits:
  assumes "k \<le> 63"
  shows "\<exists>p < 8. bytesBits (gbci2Body k vals) = riceBits k 0 0 vals @ replicate p False"
proof -
  let ?w = "\<lparr>bw_buf = replicate gbciHeaderSize 0, bw_acc = 0, bw_n = 0\<rparr>"
  have w: "bwBits (writeGaps k 0 0 vals ?w) = bytesBits (replicate gbciHeaderSize 0) @ riceBits k 0 0 vals"
    "bw_n (writeGaps k 0 0 vals ?w) < 8"
    using bwBits_writeGaps [OF assms, of ?w 0 0 vals] by (simp_all add: bwBits_def)
  obtain p where "p < 8" "bytesBits (flushBits (writeGaps k 0 0 vals ?w)) =
      bytesBits (replicate gbciHeaderSize 0) @ riceBits k 0 0 vals @ replicate p False"
    using bytesBits_flushBits [OF w(2)] w(1) by auto
  then show ?thesis
    by (intro exI [of _ p]) (simp add: gbci2Body_def bytesBits_drop del: map_replicate)
qed

subsection \<open>Reading a body back\<close>

lemma join_low_high: "push_bit k (drop_bit k g) OR (g AND lowMask k) = (g :: u64)" if "k \<le> 63"
  by (rule bit_word_eqI) (use that in \<open>auto simp: bit_or_iff bit_and_iff bit_push_bit_iff bit_drop_bit_eq bit_low_mask\<close>)

lemma drop_bit_beyond: "drop_bit (64 - k) (drop_bit k (g :: u64)) = 0" if "k \<le> 64"
proof (rule bit_word_eqI)
  fix n
  show "bit (drop_bit (64 - k) (drop_bit k g)) n = bit (0 :: u64) n"
    using that bit_imp_le_length [of g "64 + n"] by (auto simp: bit_drop_bit_eq)
qed

lemma readCode:
  assumes "brOk r" "k \<le> 63" "brBits r = riceCode k g @ rest"
  shows "\<exists>r1 r2. readUnary r = ((drop_bit k g, True), r1) \<and> readBits r1 k = ((g AND lowMask k, True), r2) \<and>
    brOk r2 \<and> brBits r2 = rest \<and> br_data r2 = br_data r"
proof -
  have "brBits r = replicate (unat (drop_bit k g)) True @ False # (msbBits k g @ rest)"
    using assms(3) by (simp add: riceCode_def)
  from readUnary_bits [OF assms(1) this] obtain r1 where
    r1: "readUnary r = ((drop_bit k g, True), r1)" "brOk r1" "brBits r1 = msbBits k g @ rest"
      "br_data r1 = br_data r" by auto
  from readBits_bits [OF r1(2) _ r1(3)] assms(2) show ?thesis using r1 by auto
qed

lemma unat_gap:
  fixes v prev :: u64
  assumes "prev < v"
  shows "unat (v - prev - 1) = unat v - unat prev - 1"
proof -
  have lt: "unat prev + 1 < 2 ^ 64" "unat prev < unat v"
    using assms unsigned_less [of v, where ?'a = nat] by (simp_all add: word_less_nat_alt)
  have s: "unat (prev + 1) = unat prev + 1" using lt by (simp add: unat_word_ariths)
  have "unat (v - (prev + 1)) = unat v - unat (prev + 1)"
    by (rule unat_sub) (use lt s in \<open>simp add: word_le_nat_alt\<close>)
  then show ?thesis using s by (simp add: diff_diff_eq)
qed

lemma gap_bounds:
  fixes v prev limit :: u64
  assumes "prev < v" "v \<le> limit"
  shows "prev < limit" "v - prev - 1 \<le> limit - prev - 1" "prev + (v - prev - 1) + 1 = v"
proof -
  show "prev < limit" using assms by simp
  have n: "unat prev < unat v" "unat v \<le> unat limit" using assms by (simp_all add: word_less_nat_alt word_le_nat_alt)
  have "v - prev - 1 \<le> limit - prev - 1 \<longleftrightarrow> unat v - unat prev - 1 \<le> unat limit - unat prev - 1"
    unfolding word_le_nat_alt using unat_gap [OF assms(1)] unat_gap [OF \<open>prev < limit\<close>] by simp
  then show "v - prev - 1 \<le> limit - prev - 1"
    using n by simp
  show "prev + (v - prev - 1) + 1 = v" by simp
qed

lemma parseGaps_riceBits:
  "brOk r \<Longrightarrow> k \<le> 63 \<Longrightarrow> brBits r = riceBits k i prev vs @ rest \<Longrightarrow> strictAsc vs \<Longrightarrow>
     (\<forall>v \<in> set vs. v \<le> limit \<and> (i > 0 \<longrightarrow> prev < v)) \<Longrightarrow>
     \<exists>r'. parseGaps k limit (length vs) i prev r = Inr (vs, r') \<and> brOk r' \<and> brBits r' = rest \<and>
       br_data r' = br_data r"
proof (induction vs arbitrary: i prev r)
  case (Cons v vs)
  let ?g = "gapOf i prev v"
  have "brBits r = riceCode k ?g @ (riceBits k (i + 1) v vs @ rest)" using Cons.prems(3) by simp
  from readCode [OF Cons.prems(1,2) this] obtain r1 r2 where
    r: "readUnary r = ((drop_bit k ?g, True), r1)" "readBits r1 k = ((?g AND lowMask k, True), r2)"
      "brOk r2" "brBits r2 = riceBits k (i + 1) v vs @ rest" "br_data r2 = br_data r" by blast
  have asc: "strictAsc vs" "\<forall>u \<in> set vs. u \<le> limit \<and> (i + 1 > 0 \<longrightarrow> v < u)"
    using Cons.prems(4,5) by auto
  from Cons.IH [OF r(3) Cons.prems(2) r(4) asc] obtain r' where
    r': "parseGaps k limit (length vs) (i + 1) v r2 = Inr (vs, r')" "brOk r'" "brBits r' = rest"
      "br_data r' = br_data r2" by blast
  have "v \<le> limit" "i > 0 \<Longrightarrow> prev < v" using Cons.prems(5) by auto
  then have "parseGaps k limit (Suc (length vs)) i prev r = Inr (v # vs, r')"
    using r r' gap_bounds [of prev v limit] Cons.prems(2)
    by (auto simp: Let_def join_low_high drop_bit_beyond gapOf_def not_le)
  then show ?case using r r' by simp
qed simp

subsection \<open>How long a body is\<close>

lemma len64_upper: "n > 0 \<Longrightarrow> 2 ^ len64 n \<le> 2 * n"
proof (induction n rule: len64.induct)
  case (1 n)
  show ?case
  proof (cases "n div 2 = 0")
    case True
    then have "n = 1" using 1(2) by simp
    then show ?thesis by (simp add: len64.simps)
  next
    case False
    have "len64 n = Suc (len64 (n div 2))" using 1(2) by (subst len64.simps) simp
    moreover have "2 ^ len64 (n div 2) \<le> 2 * (n div 2)" using 1 False by simp
    ultimately show ?thesis by simp
  qed
qed

lemma riceParam_width:
  assumes "widthBits \<le> 64"
  shows "2 ^ widthBits \<le> 2 ^ riceParam widthBits n * (2 * max n 1)"
proof (cases "n > 1")
  case False
  then have "riceParam widthBits n = min widthBits 63" by (auto simp: riceParam_def Let_def min_def)
  moreover have "(2 :: nat) ^ widthBits \<le> 2 ^ Suc (min widthBits 63)" using assms by (intro power_increasing) auto
  moreover have "max n 1 = 1" using False by simp
  ultimately show ?thesis by simp
next
  case True
  let ?l = "len64 (n - 1)"
  have l: "2 ^ ?l \<le> 2 * (n - 1)" using len64_upper [of "n - 1"] True by simp
  have pos: "?l > 0" using True by (subst len64.simps) simp
  have w: "widthBits \<le> riceParam widthBits n + ?l"
    using True pos assms by (auto simp: riceParam_def Let_def max_def min_def)
  have "(2 :: nat) ^ widthBits \<le> 2 ^ (riceParam widthBits n + ?l)" using w by (intro power_increasing) auto
  also have "\<dots> \<le> 2 ^ riceParam widthBits n * (2 * max n 1)"
    unfolding power_add using l True by (intro mult_le_mono) auto
  finally show ?thesis .
qed

lemma unat_prefixLimit: "widthBits \<le> 64 \<Longrightarrow> unat (prefixLimit widthBits) = 2 ^ widthBits - 1"
proof -
  assume w: "widthBits \<le> 64"
  show ?thesis
  proof (cases "widthBits = 64")
    case True
    then show ?thesis by (simp add: prefixLimit_def unsigned_minus_1_eq_mask mask_eq_exp_minus_1)
  next
    case False
    then have p2: "unat (push_bit widthBits 1 :: u64) = 2 ^ widthBits"
      using w unat_of_nat [of "2 ^ widthBits", where ?'a = 64]
        power_strict_increasing [of widthBits 64 "2 :: nat"] by simp
    have "unat (push_bit widthBits 1 - 1 :: u64) = unat (push_bit widthBits 1 :: u64) - 1"
      by (rule unat_minus_one) (use p2 False w in auto)
    then show ?thesis using False w p2 by (simp add: prefixLimit_def)
  qed
qed

lemma gaps_sum:
  "strictAsc vs \<Longrightarrow> (\<forall>v \<in> set vs. v \<le> limit \<and> (i > 0 \<longrightarrow> prev < v)) \<Longrightarrow>
     sum_list (map unat (gapsFrom i prev vs)) + length vs
       \<le> (if i > 0 then unat limit - unat prev else unat limit + 1)"
proof (induction vs arbitrary: i prev)
  case (Cons v vs)
  have "sum_list (map unat (gapsFrom (i + 1) v vs)) + length vs \<le> unat limit - unat v"
    using Cons.IH [of "i + 1" v] Cons.prems by auto
  moreover have "unat v \<le> unat limit" "i > 0 \<Longrightarrow> unat prev < unat v"
    using Cons.prems(2) by (auto simp: word_le_nat_alt word_less_nat_alt)
  moreover have "unat (gapOf i prev v) = (if i > 0 then unat v - unat prev - 1 else unat v)"
    using Cons.prems(2) unat_gap [of prev v] by (simp add: gapOf_def)
  ultimately show ?case by (cases "i > 0") auto
qed simp

lemma div_sum_list: "sum_list (map (\<lambda>g. f g div d) gs) \<le> sum_list (map f gs) div (d :: nat)"
proof (induction gs)
  case (Cons g gs)
  then show ?case using div_add1_eq [of "f g" "sum_list (map f gs)" d] by simp
qed simp

lemma length_riceBits:
  "length (riceBits k i prev vs) =
     sum_list (map (\<lambda>g. unat g div 2 ^ k) (gapsFrom i prev vs)) + length vs * (k + 1)"
proof -
  have q: "unat (drop_bit k g) = unat g div 2 ^ k" for g :: u64
    unfolding unat_drop_bit_eq by (simp add: drop_bit_eq_div)
  have "length (concat (map (riceCode k) gs)) = sum_list (map (\<lambda>g. unat g div 2 ^ k) gs) + length gs * (k + 1)" for gs
    by (induction gs) (simp_all add: q)
  then show ?thesis by simp
qed

text \<open>Values a blob of width \<open>w\<close> can carry: ascending, without repeats, of at most \<open>w\<close> bits.\<close>

definition indexValues :: "nat \<Rightarrow> u64 list \<Rightarrow> bool" where
  "indexValues widthBits vals \<longleftrightarrow> strictAsc vals \<and> (\<forall>v \<in> set vals. v \<le> prefixLimit widthBits)"

lemma riceBits_bound:
  assumes "indexValues widthBits vals" "widthBits \<le> 64" "k = riceParam widthBits (length vals)"
  shows "length (riceBits k 0 0 vals) \<le> length vals * (k + 1) + 2 * max (length vals) 1"
proof -
  have "sum_list (map unat (gapsFrom 0 0 vals)) \<le> 2 ^ widthBits"
    using gaps_sum [of vals "prefixLimit widthBits" 0 0] assms(1) unat_prefixLimit [OF assms(2)]
    by (simp add: indexValues_def)
  also have "\<dots> \<le> 2 ^ k * (2 * max (length vals) 1)" using riceParam_width [OF assms(2)] assms(3) by simp
  finally have "sum_list (map unat (gapsFrom 0 0 vals)) div 2 ^ k \<le> 2 * max (length vals) 1"
    using div_le_mono [of _ _ "2 ^ k"] by fastforce
  then show ?thesis
    unfolding length_riceBits using div_sum_list [of unat "2 ^ k" "gapsFrom 0 0 vals"] by linarith
qed

lemma gbci2Body_length:
  assumes "k \<le> 63"
  shows "length (gbci2Body k vals) = (length (riceBits k 0 0 vals) + 7) div 8"
proof -
  obtain p where p: "p < 8" "bytesBits (gbci2Body k vals) = riceBits k 0 0 vals @ replicate p False"
    using gbci2Body_bits [OF assms] by blast
  have "8 * length (gbci2Body k vals) = length (riceBits k 0 0 vals) + p"
    using arg_cong [OF p(2), of length] unfolding length_append length_bytesBits length_replicate .
  then show ?thesis using p(1) by linarith
qed

lemma gapBitsTotal_eq: "gapBitsTotal k i prev vs tot = tot + of_nat (length (riceBits k i prev vs))"
  by (induction k i prev vs tot rule: gapBitsTotal.induct) (simp_all add: Let_def)

subsection \<open>Frames\<close>

lemma gbciMagic_simp: "gbciMagic = [0x47, 0x42, 0x43, 0x49]"
  by (simp add: gbciMagic_def bytes_of_def)

lemma length_gbciMagic [simp]: "length gbciMagic = 4"
  by (simp add: gbciMagic_simp)

lemma length_gbciFrame [simp]: "length (gbciFrame version width k n body) = 56 + length body"
  by (simp add: gbciFrame_def Let_def)

lemma gbciFrame_split:
  "\<exists>hdr. gbciFrame version width k n body = hdr @ body @ sha256 (hdr @ body) \<and> length hdr = 24"
  by (intro exI [of _ "gbciMagic @ [version, width, k, 0] @ take 8 (sha256 body) @ lePut64 (of_nat n)"])
    (simp add: gbciFrame_def Let_def)

lemma gbciFrame_fields:
  fixes version width k n body
  defines "blob \<equiv> gbciFrame version width k n body"
  shows "take 4 blob = gbciMagic" "blob ! 4 = version" "blob ! 5 = width" "blob ! 6 = k"
    "sha256 (take (length blob - 32) blob) = drop (length blob - 32) blob"
    "drop 24 (take (length blob - 32) blob) = body"
    "take 8 (drop 16 blob) = lePut64 (of_nat n)"
proof -
  define hdr where "hdr = gbciMagic @ [version, width, k, 0] @ take 8 (sha256 body) @ lePut64 (of_nat n)"
  have b: "blob = hdr @ body @ sha256 (hdr @ body)" and h: "length hdr = 24"
    by (simp_all add: blob_def gbciFrame_def Let_def hdr_def)
  have "take (length blob - 32) blob = hdr @ body" "drop (length blob - 32) blob = sha256 (hdr @ body)"
    using b by simp_all
  then show "sha256 (take (length blob - 32) blob) = drop (length blob - 32) blob"
    "drop 24 (take (length blob - 32) blob) = body" using h by simp_all
  show "take 4 blob = gbciMagic" "blob ! 4 = version" "blob ! 5 = width" "blob ! 6 = k"
    by (simp_all add: b hdr_def nth_append)
  show "take 8 (drop 16 blob) = lePut64 (of_nat n)" by (simp add: b hdr_def)
qed

subsection \<open>The codec\<close>

lemma count_fits:
  assumes "n * (k + 1) \<le> 8 * m" "8 * m < 2 ^ 64" "k \<le> 63" "(n :: nat) < 2 ^ 64"
  shows "(of_nat n :: u64) \<le> of_nat m * 8 div of_nat (k + 1)" "unat (of_nat n :: u64) = n"
proof -
  show n: "unat (of_nat n :: u64) = n" using assms(4) by (simp add: unat_of_nat)
  have "unat (of_nat m * 8 :: u64) = 8 * m"
    using assms(2) unat_of_nat [of "8 * m", where ?'a = 64] by (simp add: mult.commute)
  moreover have "unat (of_nat (k + 1) :: u64) = k + 1"
    using assms(3) unat_of_nat [of "k + 1", where ?'a = 64] by simp
  ultimately have "unat (of_nat m * 8 div of_nat (k + 1) :: u64) = (8 * m) div (k + 1)"
    by (simp only: unat_div)
  moreover have "n \<le> (8 * m) div (k + 1)" using assms(1) by (simp add: less_eq_div_iff_mult_less_eq)
  ultimately show "(of_nat n :: u64) \<le> of_nat m * 8 div of_nat (k + 1)"
    using n by (simp add: word_le_nat_alt)
qed

lemma body_bounds:
  assumes "indexValues widthBits vals" "widthBits \<le> 64" "length vals < 2 ^ 56"
    "k = riceParam widthBits (length vals)"
  shows "length vals * (k + 1) \<le> 8 * length (gbci2Body k vals)" "8 * length (gbci2Body k vals) < 2 ^ 64"
    "length (riceBits k 0 0 vals) + 7 < 2 ^ 64"
proof -
  have k: "k \<le> 63" using riceParam_le assms(4) by simp
  let ?L = "length (riceBits k 0 0 vals)"
  have len: "8 * length (gbci2Body k vals) < ?L + 8" "?L \<le> 8 * length (gbci2Body k vals)"
    using gbci2Body_length [OF k, of vals] by linarith+
  have "length vals * (k + 1) \<le> length vals * 64" using k by (intro mult_le_mono) auto
  moreover have "max (length vals) 1 \<le> length vals + 1" by simp
  ultimately have "?L \<le> length vals * 64 + 2 * (length vals + 1)"
    by (rule order_trans [OF riceBits_bound [OF assms(1,2,4)] add_mono [OF _ mult_le_mono2]])
  then have "?L \<le> 66 * 2 ^ 56 + 2" using assms(3) by simp
  then show "8 * length (gbci2Body k vals) < 2 ^ 64" "?L + 7 < 2 ^ 64" using len by simp_all
  show "length vals * (k + 1) \<le> 8 * length (gbci2Body k vals)"
    using len(2) length_riceBits [of k 0 0 vals] by linarith
qed

lemma parseGaps_body:
  assumes "indexValues widthBits vals" "k \<le> 63"
  shows "\<exists>r. parseGaps k (prefixLimit widthBits) (length vals) 0 0
      \<lparr>br_data = gbci2Body k vals, br_pos = 0, br_acc = 0, br_n = 0\<rparr> = Inr (vals, r) \<and>
    \<not> br_pos r < length (gbci2Body k vals) \<and> br_n r < 8"
proof -
  let ?r = "\<lparr>br_data = gbci2Body k vals, br_pos = 0, br_acc = 0, br_n = 0\<rparr>"
  obtain p where p: "p < 8" "bytesBits (gbci2Body k vals) = riceBits k 0 0 vals @ replicate p False"
    using gbci2Body_bits [OF assms(2)] by blast
  have "brOk ?r" "brBits ?r = riceBits k 0 0 vals @ replicate p False"
    using p by (simp_all add: brOk_def brBits_def)
  then obtain r where r: "parseGaps k (prefixLimit widthBits) (length vals) 0 0 ?r = Inr (vals, r)"
      "brOk r" "brBits r = replicate p False" "br_data r = gbci2Body k vals"
    using parseGaps_riceBits [of ?r k 0 0 vals "replicate p False" "prefixLimit widthBits"] assms
    by (auto simp: indexValues_def)
  have "br_n r + 8 * (length (gbci2Body k vals) - br_pos r) = p"
    using arg_cong [OF r(3), of length] r(4) by (simp add: brBits_def)
  then show ?thesis using r(1) p(1) by (intro exI [of _ r]) auto
qed

lemma ParseIndexV2_roundtrip:
  assumes "indexValues widthBits vals" "indexHashBitsMin \<le> widthBits" "widthBits \<le> indexHashBitsMax"
    "length vals < 2 ^ 56"
  shows "ParseIndexV2 (marshalGBCI2 widthBits vals) = Inr (vals, widthBits)"
proof -
  define k where "k = riceParam widthBits (length vals)"
  have w: "32 \<le> widthBits" "widthBits \<le> 64" and k: "k \<le> 63"
    using assms riceParam_le by (simp_all add: indexHashBitsMin_def indexHashBitsMax_def k_def)
  let ?blob = "gbciFrame gbciVersion2 (of_nat widthBits) (of_nat k) (length vals) (gbci2Body k vals)"
  note b = body_bounds [OF assms(1) w(2) assms(4) k_def]
  have n: "length vals < 2 ^ 64" using assms(4) by simp
  note fit = count_fits [OF b(1,2) k n]
  obtain r where r: "parseGaps k (prefixLimit widthBits) (length vals) 0 0
      \<lparr>br_data = gbci2Body k vals, br_pos = 0, br_acc = 0, br_n = 0\<rparr> = Inr (vals, r)"
      "\<not> br_pos r < length (gbci2Body k vals)" "br_n r < 8"
    using parseGaps_body [OF assms(1) k] by blast
  have c: "unat (of_nat widthBits :: byte) = widthBits" "unat (of_nat k :: byte) = k"
    using w k by (simp_all add: unat_of_nat)
  have "ParseIndexV2 ?blob = Inr (vals, widthBits)"
    using w k r fit c gbciFrame_fields [of gbciVersion2 "of_nat widthBits" "of_nat k" "length vals" "gbci2Body k vals"]
    by (simp add: ParseIndexV2_def Let_def gbciHeaderSize_def indexHashBitsMin_def indexHashBitsMax_def
          leUint64_lePut64 not_less)
  then show ?thesis by (simp add: marshalGBCI2_eq k_def Let_def)
qed

text \<open>(C15) Round trip of the version 2 index: from any blob the server writes for ascending prefixes of
  32 to 64 bits, the client decodes exactly those prefixes and that width; no check of the decoder
  (magic, version, width, Rice parameter, trailer, count, gap overflow, trailing bytes) refuses it.\<close>

theorem ParseIndexV2_marshalGBCI2:
  assumes "indexValues widthBits vals" "indexHashBitsMin \<le> widthBits" "widthBits \<le> indexHashBitsMax"
    "length vals < 2 ^ 56"
  shows "ParseIndexV2 (marshalGBCI2 widthBits vals) = Inr (vals, widthBits)"
  using assms by (rule ParseIndexV2_roundtrip)

theorem ParseIndexV2_marshalGBCI2_witness:
  "ParseIndexV2 (marshalGBCI2 48 [5, 7, 0xFFFFFFFFFFFF]) = Inr ([5, 7, 0xFFFFFFFFFFFF], 48)"
  by (rule ParseIndexV2_marshalGBCI2)
    (simp_all add: indexValues_def indexHashBitsMin_def indexHashBitsMax_def prefixLimit_def)

lemma gbci2Size_eq:
  assumes "indexValues widthBits vals" "widthBits \<le> 64" "length vals < 2 ^ 56"
  shows "gbci2Size widthBits vals = length (marshalGBCI2 widthBits vals)"
proof -
  define k where "k = riceParam widthBits (length vals)"
  define L where "L = length (riceBits k 0 0 vals)"
  have L: "L + 7 < 2 ^ 64" using body_bounds(3) [OF assms k_def] by (simp add: L_def)
  have "unat (of_nat L + 7 :: u64) = L + 7"
    using L unat_of_nat [of "L + 7", where ?'a = 64] by simp
  then have "unat ((of_nat L + 7 :: u64) div 8) = (L + 7) div 8" by (simp add: unat_div)
  moreover have "length (gbci2Body k vals) = (L + 7) div 8"
    using gbci2Body_length riceParam_le by (simp add: L_def k_def)
  ultimately show ?thesis
    by (simp add: gbci2Size_def marshalGBCI2_eq Let_def gapBitsTotal_eq gbciHeaderSize_def
         flip: k_def L_def)
qed

text \<open>The size the server reports for a version 2 form without building it is the length of the blob
  it builds.\<close>

theorem gbci2Size_exact:
  assumes "indexValues widthBits vals" "widthBits \<le> 64" "length vals < 2 ^ 56"
  shows "gbci2Size widthBits vals = length (marshalGBCI2 widthBits vals)"
  using assms by (rule gbci2Size_eq)

theorem gbci2Size_exact_witness:
  "gbci2Size 48 [5, 7, 0xFFFFFFFFFFFF] = length (marshalGBCI2 48 [5, 7, 0xFFFFFFFFFFFF])"
  by (rule gbci2Size_exact) (simp_all add: indexValues_def prefixLimit_def)

text \<open>The version 2 form costs at most \<open>k + 3\<close> bits a key beyond its header and trailer, where
  \<open>k\<close> is the Rice parameter chosen for the number of keys: the unary parts together never take more
  than two further bits a key.\<close>

theorem marshalGBCI2_size_bound:
  assumes "indexValues widthBits vals" "widthBits \<le> 64" "vals \<noteq> []"
  shows "length (marshalGBCI2 widthBits vals)
    \<le> 56 + (length vals * (riceParam widthBits (length vals) + 3) + 7) div 8"
proof -
  define k where "k = riceParam widthBits (length vals)"
  have "max (length vals) 1 = length vals" using assms(3) by (cases vals) auto
  then have "length (riceBits k 0 0 vals) \<le> length vals * (k + 3)"
    using riceBits_bound [OF assms(1,2) k_def] by (simp add: algebra_simps)
  then have "length (gbci2Body k vals) \<le> (length vals * (k + 3) + 7) div 8"
    using gbci2Body_length [of k vals] riceParam_le [of widthBits "length vals"]
    by (simp add: k_def div_le_mono)
  then show ?thesis by (simp add: marshalGBCI2_eq Let_def flip: k_def)
qed

theorem marshalGBCI2_size_bound_witness:
  "length (marshalGBCI2 48 [5, 7, 0xFFFFFFFFFFFF]) \<le> 56 + (3 * (riceParam 48 (Suc (Suc (Suc 0))) + 3) + 7) div 8"
  using marshalGBCI2_size_bound [of 48 "[5, 7, 0xFFFFFFFFFFFF]"]
  by (simp add: indexValues_def prefixLimit_def)

subsection \<open>The two encoders\<close>

lemma marshalValues_ok:
  "strictAsc vs \<Longrightarrow> (\<forall>v \<in> set vs. v \<le> limit \<and> (i > 0 \<longrightarrow> prev < v)) \<Longrightarrow>
     marshalValues limit k i prev vs w = Inr (writeGaps k i prev vs w)"
proof (induction vs arbitrary: i prev w)
  case (Cons v vs)
  then show ?case by (auto simp: Let_def gapOf_def not_le)
qed simp

lemma marshalValues_bad:
  "\<not> (strictAsc vs \<and> (\<forall>v \<in> set vs. v \<le> limit \<and> (i > 0 \<longrightarrow> prev < v))) \<Longrightarrow>
     \<exists>j. marshalValues limit k i prev vs w = Inl (ValueOutOfOrder j)"
proof (induction vs arbitrary: i prev w)
  case (Cons v vs)
  show ?case
  proof (cases "v > limit \<or> (i > 0 \<and> v \<le> prev)")
    case False
    then have v: "v \<le> limit" "i > 0 \<Longrightarrow> prev < v" by auto
    have "\<not> (strictAsc vs \<and> (\<forall>u \<in> set vs. u \<le> limit \<and> (i + 1 > 0 \<longrightarrow> v < u)))"
      using Cons.prems v by (auto intro: less_trans)
    from Cons.IH [OF this] show ?thesis using False by (auto simp: Let_def)
  qed auto
qed simp

lemma MarshalIndexV2_eq:
  assumes "indexHashBitsMin \<le> widthBits" "widthBits \<le> indexHashBitsMax" "indexValues widthBits vals"
  shows "MarshalIndexV2 widthBits vals = Inr (marshalGBCI2 widthBits vals)"
proof -
  have "marshalValues (prefixLimit widthBits) k 0 0 vals w = Inr (writeGaps k 0 0 vals w)" for k w
    using assms(3) by (intro marshalValues_ok) (simp_all add: indexValues_def)
  then show ?thesis using assms(1,2) by (simp add: MarshalIndexV2_def marshalGBCI2_def Let_def)
qed

text \<open>The client's encoder either panics, exactly when the width is outside 32 to 64 bits or the
  values are not ascending prefixes of that width, or writes the very bytes the server writes.\<close>

theorem MarshalIndexV2_marshalGBCI2:
  "if indexHashBitsMin \<le> widthBits \<and> widthBits \<le> indexHashBitsMax \<and> indexValues widthBits vals
   then MarshalIndexV2 widthBits vals = Inr (marshalGBCI2 widthBits vals)
   else (\<exists>p. MarshalIndexV2 widthBits vals = Inl p)"
proof (cases "indexHashBitsMin \<le> widthBits \<and> widthBits \<le> indexHashBitsMax")
  case w: True
  show ?thesis
  proof (cases "indexValues widthBits vals")
    case True
    then show ?thesis using MarshalIndexV2_eq w by simp
  next
    case False
    then have "\<exists>j. marshalValues (prefixLimit widthBits) k 0 0 vals w = Inl (ValueOutOfOrder j)" for k w
      by (intro marshalValues_bad) (simp add: indexValues_def)
    then obtain j where "marshalValues (prefixLimit widthBits) (riceParam widthBits (length vals)) 0 0 vals
      \<lparr>bw_buf = replicate gbciHeaderSize 0, bw_acc = 0, bw_n = 0\<rparr> = Inl (ValueOutOfOrder j)" by blast
    then show ?thesis using False by (simp add: MarshalIndexV2_def Let_def)
  qed
qed (auto simp: MarshalIndexV2_def)

end
