(* ===== verification/KeySets.thy ===== *)
theory KeySets
  imports HashList "HOL-Library.FSet" "HOL-Library.Multiset"
begin

text \<open>
  The client's sets of action-hash prefixes (\<^verbatim>\<open>cacheclient/hashset.go\<close> and
  \<^verbatim>\<open>cacheclient/indexkey.go\<close>): a sorted slice with a buffer of additions and a buffer of
  deletions, merged into the slice from its end.  The two buffers are sets of a package outside the
  repository, so its operations are a parameter, \<open>setOps\<close>, with the laws \<open>setLaws\<close>.  The locale
  \<open>dynamic_set\<close> is the contract of such a set; \<^verbatim>\<open>hashSet\<close>, \<^verbatim>\<open>keySet\<close> and
  \<^verbatim>\<open>widthSet\<close> are shown to meet it.
\<close>

subsection \<open>The package's set\<close>

record ('k, 's) setOps =
  set_new :: 's
  set_contains :: "'s \<Rightarrow> 'k \<Rightarrow> bool"
  set_add :: "'s \<Rightarrow> 'k \<Rightarrow> 's"
  set_remove :: "'s \<Rightarrow> 'k \<Rightarrow> 's"
  set_clear :: "'s \<Rightarrow> 's"
  set_len :: "'s \<Rightarrow> nat"
  set_values :: "'s \<Rightarrow> 'k list"

definition setLaws :: "('k, 's) setOps \<Rightarrow> bool" where
  "setLaws ops \<longleftrightarrow>
     (\<forall>x. \<not> set_contains ops (set_new ops) x) \<and>
     (\<forall>s x. \<not> set_contains ops (set_clear ops s) x) \<and>
     (\<forall>s k x. set_contains ops (set_add ops s k) x \<longleftrightarrow> x = k \<or> set_contains ops s x) \<and>
     (\<forall>s k x. set_contains ops (set_remove ops s k) x \<longleftrightarrow> x \<noteq> k \<and> set_contains ops s x) \<and>
     (\<forall>s. distinct (set_values ops s) \<and> set_len ops s = length (set_values ops s)) \<and>
     (\<forall>s x. x \<in> set (set_values ops s) \<longleftrightarrow> set_contains ops s x)"

lemma setLawsD:
  assumes "setLaws ops"
  shows "\<not> set_contains ops (set_new ops) x" "\<not> set_contains ops (set_clear ops s) x"
    "set_contains ops (set_add ops s k) x \<longleftrightarrow> x = k \<or> set_contains ops s x"
    "set_contains ops (set_remove ops s k) x \<longleftrightarrow> x \<noteq> k \<and> set_contains ops s x"
    "distinct (set_values ops s)" "set_len ops s = length (set_values ops s)"
    "x \<in> set (set_values ops s) \<longleftrightarrow> set_contains ops s x"
  using assms unfolding setLaws_def by simp_all

lemma setLaws_empty_iff:
  assumes "setLaws ops"
  shows "set_len ops s = 0 \<longleftrightarrow> (\<forall>x. \<not> set_contains ops s x)"
  unfolding setLawsD(6) [OF assms] setLawsD(7) [OF assms, symmetric] by auto

text \<open>Finite sets are one implementation, so the laws can be met.\<close>

definition fsetOps :: "('k::linorder, 'k fset) setOps" where
  "fsetOps = \<lparr>set_new = fempty, set_contains = (\<lambda>s k. fmember k s), set_add = (\<lambda>s k. finsert k s),
     set_remove = (\<lambda>s k. s |-| {|k|}), set_clear = (\<lambda>_. fempty), set_len = fcard,
     set_values = sorted_list_of_fset\<rparr>"

lemma setLaws_fsetOps: "setLaws fsetOps"
  by (auto simp: setLaws_def fsetOps_def sorted_list_of_fset.rep_eq fcard.rep_eq)

text \<open>Where only membership is used, these laws are enough, and plain sets meet them.\<close>

definition setMemberLaws :: "('k, 's) setOps \<Rightarrow> bool" where
  "setMemberLaws ops \<longleftrightarrow>
     (\<forall>x. \<not> set_contains ops (set_new ops) x) \<and>
     (\<forall>s k x. set_contains ops (set_add ops s k) x \<longleftrightarrow> x = k \<or> set_contains ops s x)"

lemma setLaws_member: "setLaws ops \<Longrightarrow> setMemberLaws ops"
  by (simp add: setLaws_def setMemberLaws_def)

lemma set_contains_foldl:
  assumes "setMemberLaws ops"
  shows "set_contains ops (foldl (set_add ops) s ks) x \<longleftrightarrow> x \<in> set ks \<or> set_contains ops s x"
  using assms by (induction ks arbitrary: s) (auto simp: setMemberLaws_def)

definition memOps :: "('k, 'k set) setOps" where
  "memOps = \<lparr>set_new = {}, set_contains = (\<lambda>s k. k \<in> s), set_add = (\<lambda>s k. insert k s),
     set_remove = (\<lambda>s k. s - {k}), set_clear = (\<lambda>_. {}), set_len = (\<lambda>_. 0), set_values = (\<lambda>_. [])\<rparr>"

lemma setMemberLaws_memOps: "setMemberLaws memOps"
  by (simp add: setMemberLaws_def memOps_def)

subsection \<open>The sorted set with buffers\<close>

record ('k, 's) hashSet =
  hs_sorted :: "'k list"
  hs_pending :: 's
  hs_removed :: 's

definition compactAt :: nat where
  "compactAt = 512"

definition newSortedSet :: "('k, 's) setOps \<Rightarrow> nat \<Rightarrow> ('k, 's) hashSet" where
  "newSortedSet ops n = \<lparr>hs_sorted = [], hs_pending = set_new ops, hs_removed = set_new ops\<rparr>"

definition adoptSorted :: "('k::linorder, 's) setOps \<Rightarrow> 'k list \<Rightarrow> ('k, 's) hashSet" where
  "adoptSorted ops keys =
     (let s = (if sorted keys then keys else sort keys)
      in \<lparr>hs_sorted = dedupeLoop None s, hs_pending = set_new ops, hs_removed = set_new ops\<rparr>)"

definition hashSet_Len :: "('k, 's) setOps \<Rightarrow> ('k, 's) hashSet \<Rightarrow> int" where
  "hashSet_Len ops s = int (length (hs_sorted s)) + int (set_len ops (hs_pending s)) - int (set_len ops (hs_removed s))"

definition hashSet_Contains :: "('k::linorder, 's) setOps \<Rightarrow> ('k, 's) hashSet \<Rightarrow> 'k \<Rightarrow> bool" where
  "hashSet_Contains ops s h =
     (if set_contains ops (hs_removed s) h then False
      else if set_contains ops (hs_pending s) h then True
      else containsSorted (hs_sorted s) h)"

text \<open>The merge of \<^verbatim>\<open>compact\<close>: \<open>i\<close> and \<open>j\<close> are how many elements of the slice and of the
  additions are still to be placed, so the slot written is \<open>i + j - 1\<close>.\<close>

fun mergeEnd :: "'k::linorder list \<Rightarrow> 'k list \<Rightarrow> nat \<Rightarrow> nat \<Rightarrow> 'k list" where
  "mergeEnd s add i 0 = s"
| "mergeEnd s add i (Suc j) =
     (if i > 0 \<and> s ! (i - 1) > add ! j then mergeEnd (s[i + j := s ! (i - 1)]) add (i - 1) (Suc j)
      else mergeEnd (s[i + j := add ! j]) add i j)"

declare mergeEnd.simps(2) [simp del]

definition hashSet_compact :: "('k::linorder, 's) setOps \<Rightarrow> ('k, 's) hashSet \<Rightarrow> ('k, 's) hashSet" where
  "hashSet_compact ops s =
     (let s1 = (if set_len ops (hs_removed s) > 0
                then s\<lparr>hs_sorted := filter (\<lambda>k. \<not> set_contains ops (hs_removed s) k) (hs_sorted s),
                       hs_removed := set_clear ops (hs_removed s)\<rparr>
                else s)
      in if set_len ops (hs_pending s1) = 0 then s1
         else let add = sort (set_values ops (hs_pending s1)); n = length (hs_sorted s1)
              in s1\<lparr>hs_sorted := mergeEnd (hs_sorted s1 @ add) add n (length add),
                    hs_pending := set_clear ops (hs_pending s1)\<rparr>)"

definition hashSet_Add :: "('k::linorder, 's) setOps \<Rightarrow> ('k, 's) hashSet \<Rightarrow> 'k \<Rightarrow> ('k, 's) hashSet" where
  "hashSet_Add ops s h =
     (if set_contains ops (hs_removed s) h then s\<lparr>hs_removed := set_remove ops (hs_removed s) h\<rparr>
      else if set_contains ops (hs_pending s) h then s
      else if containsSorted (hs_sorted s) h then s
      else let s1 = s\<lparr>hs_pending := set_add ops (hs_pending s) h\<rparr>
           in if set_len ops (hs_pending s1) \<ge> compactAt then hashSet_compact ops s1 else s1)"

definition hashSet_Remove :: "('k::linorder, 's) setOps \<Rightarrow> ('k, 's) hashSet \<Rightarrow> 'k \<Rightarrow> ('k, 's) hashSet" where
  "hashSet_Remove ops s h =
     (if set_contains ops (hs_pending s) h then s\<lparr>hs_pending := set_remove ops (hs_pending s) h\<rparr>
      else if \<not> containsSorted (hs_sorted s) h then s
      else let s1 = s\<lparr>hs_removed := set_add ops (hs_removed s) h\<rparr>
           in if set_len ops (hs_removed s1) \<ge> compactAt then hashSet_compact ops s1 else s1)"

definition hashSet_All :: "('k, 's) setOps \<Rightarrow> ('k, 's) hashSet \<Rightarrow> 'k list" where
  "hashSet_All ops s =
     filter (\<lambda>h. \<not> set_contains ops (hs_removed s) h) (hs_sorted s) @ set_values ops (hs_pending s)"

subsection \<open>Its invariant and meaning\<close>

definition hashSetOk :: "('k::linorder, 's) setOps \<Rightarrow> ('k, 's) hashSet \<Rightarrow> bool" where
  "hashSetOk ops s \<longleftrightarrow> strictAsc (hs_sorted s) \<and>
     (\<forall>k. set_contains ops (hs_pending s) k \<longrightarrow> k \<notin> set (hs_sorted s)) \<and>
     (\<forall>k. set_contains ops (hs_removed s) k \<longrightarrow> k \<in> set (hs_sorted s))"

definition hashSetElems :: "('k, 's) setOps \<Rightarrow> ('k, 's) hashSet \<Rightarrow> 'k set" where
  "hashSetElems ops s =
     {k \<in> set (hs_sorted s). \<not> set_contains ops (hs_removed s) k} \<union> {k. set_contains ops (hs_pending s) k}"

lemma sort_snoc_max:
  assumes "\<forall>y \<in> set ys. y \<le> x"
  shows "sort (ys @ [x]) = sort ys @ [x]"
  by (rule properties_for_sort) (use assms in \<open>auto simp: sorted_append\<close>)

lemma sort_append_max:
  assumes "\<forall>y \<in> set xs \<union> set ys. y \<le> x"
  shows "sort ((xs @ [x]) @ ys) = sort (xs @ ys) @ [x]"
proof -
  have "sort ((xs @ [x]) @ ys) = sort ((xs @ ys) @ [x])" by (rule properties_for_sort) auto
  then show ?thesis using assms sort_snoc_max [of "xs @ ys" x] by simp
qed

lemma take_Suc_snoc: "i < length xs \<Longrightarrow> take (Suc i) xs = take i xs @ [xs ! i]"
  by (rule take_Suc_conv_app_nth)

lemma drop_update: "i < length xs \<Longrightarrow> drop i (xs[i := v]) = v # drop (Suc i) xs"
  by (simp add: Cons_nth_drop_Suc [symmetric] drop_update_swap)

lemma mergeEnd_spec:
  "i + j \<le> length s \<Longrightarrow> j \<le> length add \<Longrightarrow> sorted (take i s) \<Longrightarrow> sorted (take j add) \<Longrightarrow>
     mergeEnd s add i j = sort (take i s @ take j add) @ drop (i + j) s"
proof (induction s add i j rule: mergeEnd.induct)
  case (1 s add i)
  then show ?case by (simp add: sorted_sort_id)
next
  case (2 s add i j)
  have aj: "take (Suc j) add = take j add @ [add ! j]" using 2(4) by (intro take_Suc_snoc) simp
  have la: "\<forall>y \<in> set (take j add). y \<le> add ! j" using 2(6) aj by (simp add: sorted_append)
  show ?case
  proof (cases "i > 0 \<and> s ! (i - 1) > add ! j")
    case True
    let ?x = "s ! (i - 1)"
    obtain i' where i: "i = Suc i'" using True by (cases i) auto
    have e: "i - 1 = i'" using i by simp
    have ti: "take i s = take i' s @ [?x]" using 2(3) i take_Suc_snoc [of i' s] by simp
    have ls: "\<forall>y \<in> set (take i' s). y \<le> ?x" using 2(5) ti by (simp add: sorted_append)
    have "add ! j \<le> ?x" using True less_imp_le by blast
    then have max: "\<forall>y \<in> set (take i' s) \<union> set (take (Suc j) add). y \<le> ?x"
      using ls la unfolding aj by (auto intro: order_trans [of _ "add ! j"])
    have "mergeEnd s add i (Suc j) = mergeEnd (s[i + j := ?x]) add i' (Suc j)"
      using trans [OF mergeEnd.simps(2) if_P [OF True]] unfolding e .
    also have "\<dots> = sort (take i' s @ take (Suc j) add) @ drop (i' + Suc j) (s[i + j := ?x])"
      using "2.IH"(1) [OF True] 2(3-6) i ti by (simp add: sorted_append)
    also have "drop (i' + Suc j) (s[i + j := ?x]) = ?x # drop (i + Suc j) s"
      using 2(3) i drop_update [of "i + j" s ?x] by simp
    finally show ?thesis unfolding ti using sort_append_max [OF max] by simp
  next
    case False
    have max: "\<forall>y \<in> set (take i s @ take j add). y \<le> add ! j"
    proof (cases i)
      case (Suc i')
      then have "take i s = take i' s @ [s ! i']" using 2(3) take_Suc_snoc [of i' s] by simp
      then have "\<forall>y \<in> set (take i s). y \<le> s ! i'" using 2(5) by (simp add: sorted_append)
      moreover have "s ! i' \<le> add ! j" using False Suc by simp
      ultimately have "\<forall>y \<in> set (take i s). y \<le> add ! j" using order_trans by blast
      then show ?thesis using la by (metis Un_iff set_append)
    next
      case 0
      then show ?thesis using la by simp
    qed
    have "mergeEnd s add i (Suc j) = mergeEnd (s[i + j := add ! j]) add i j"
      by (rule trans [OF mergeEnd.simps(2) if_not_P [OF False]])
    also have "\<dots> = sort (take i s @ take j add) @ drop (i + j) (s[i + j := add ! j])"
      using "2.IH"(2) [OF False] 2(3-6) aj by (simp add: sorted_append)
    also have "drop (i + j) (s[i + j := add ! j]) = add ! j # drop (i + Suc j) s"
      using 2(3) drop_update [of "i + j" s] by simp
    finally show ?thesis unfolding aj using sort_snoc_max [OF max] by simp
  qed
qed

lemma compact_elems:
  assumes "setLaws ops" "hashSetOk ops s"
  shows "strictAsc (hs_sorted (hashSet_compact ops s)) \<and>
    set (hs_sorted (hashSet_compact ops s)) = hashSetElems ops s \<and>
    (\<forall>k. \<not> set_contains ops (hs_pending (hashSet_compact ops s)) k) \<and>
    (\<forall>k. \<not> set_contains ops (hs_removed (hashSet_compact ops s)) k)"
proof -
  let ?live = "filter (\<lambda>k. \<not> set_contains ops (hs_removed s) k) (hs_sorted s)"
  define s1 where "s1 = (if set_len ops (hs_removed s) > 0
    then s\<lparr>hs_sorted := ?live, hs_removed := set_clear ops (hs_removed s)\<rparr> else s)"
  have none: "?live = hs_sorted s" if "set_len ops (hs_removed s) = 0"
    using setLaws_empty_iff [OF assms(1), of "hs_removed s"] that by simp
  have s1: "hs_sorted s1 = ?live" "hs_pending s1 = hs_pending s" "\<not> set_contains ops (hs_removed s1) k" for k
    using none setLaws_empty_iff [OF assms(1), of "hs_removed s"] setLawsD(2) [OF assms(1)]
    by (auto simp: s1_def)
  have asc: "strictAsc ?live" using assms(2) by (simp add: hashSetOk_def strictAsc_filter)
  show ?thesis
  proof (cases "set_len ops (hs_pending s) = 0")
    case True
    then have "hashSet_compact ops s = s1" by (simp add: hashSet_compact_def Let_def flip: s1_def) (simp add: s1)
    then show ?thesis using s1 asc True setLaws_empty_iff [OF assms(1), of "hs_pending s"]
      by (auto simp: hashSetElems_def)
  next
    case False
    define add where "add = sort (set_values ops (hs_pending s))"
    have c: "hashSet_compact ops s = s1\<lparr>hs_sorted := mergeEnd (?live @ add) add (length ?live) (length add),
        hs_pending := set_clear ops (hs_pending s)\<rparr>"
      using False by (simp add: hashSet_compact_def Let_def add_def s1 flip: s1_def)
    have m: "mergeEnd (?live @ add) add (length ?live) (length add) = sort (?live @ add)"
      using mergeEnd_spec [of "length ?live" "length add" "?live @ add" add] asc
      by (simp add: strictAsc_sorted add_def)
    have set_add: "set add = {k. set_contains ops (hs_pending s) k}" "distinct add"
      using setLawsD(5,7) [OF assms(1)] by (auto simp: add_def)
    have "distinct (?live @ add)" using set_add assms(2) asc by (auto simp: hashSetOk_def strict_sorted_iff)
    then have "strictAsc (sort (?live @ add))" by (simp add: strict_sorted_iff)
    then show ?thesis using set_add s1 setLawsD(2) [OF assms(1)] by (auto simp: c m hashSetElems_def)
  qed
qed

lemma compact_ok:
  assumes "setLaws ops" "hashSetOk ops s"
  shows "hashSetOk ops (hashSet_compact ops s)" "hashSetElems ops (hashSet_compact ops s) = hashSetElems ops s"
  using compact_elems [OF assms] by (auto simp: hashSetOk_def) (auto simp: hashSetElems_def)

lemma hashSet_Contains_iff:
  assumes "hashSetOk ops s"
  shows "hashSet_Contains ops s h \<longleftrightarrow> h \<in> hashSetElems ops s"
  using assms containsSorted_iff [of "hs_sorted s" h]
  by (auto simp: hashSet_Contains_def hashSetElems_def hashSetOk_def)

lemma hashSet_Add_ok:
  assumes "setLaws ops" "hashSetOk ops s"
  shows "hashSetOk ops (hashSet_Add ops s h)" "hashSetElems ops (hashSet_Add ops s h) = insert h (hashSetElems ops s)"
proof -
  let ?s1 = "s\<lparr>hs_pending := set_add ops (hs_pending s) h\<rparr>"
  note laws = setLawsD [OF assms(1)] and ok = assms(2) [unfolded hashSetOk_def]
  have "hashSetOk ops (hashSet_Add ops s h) \<and> hashSetElems ops (hashSet_Add ops s h) = insert h (hashSetElems ops s)"
  proof (cases "set_contains ops (hs_removed s) h \<or> set_contains ops (hs_pending s) h \<or> containsSorted (hs_sorted s) h")
    case True
    then show ?thesis using ok containsSorted_iff [of "hs_sorted s" h]
      by (auto simp: hashSet_Add_def hashSetOk_def hashSetElems_def laws)
  next
    case False
    then have "h \<notin> set (hs_sorted s)" using ok containsSorted_iff [of "hs_sorted s" h] by simp
    then have s1: "hashSetOk ops ?s1" "hashSetElems ops ?s1 = insert h (hashSetElems ops s)"
      using ok by (auto simp: hashSetOk_def hashSetElems_def laws)
    then show ?thesis using False compact_ok [OF assms(1) s1(1)] by (simp add: hashSet_Add_def Let_def)
  qed
  then show "hashSetOk ops (hashSet_Add ops s h)" "hashSetElems ops (hashSet_Add ops s h) = insert h (hashSetElems ops s)"
    by simp_all
qed

lemma hashSet_Remove_ok:
  assumes "setLaws ops" "hashSetOk ops s"
  shows "hashSetOk ops (hashSet_Remove ops s h)" "hashSetElems ops (hashSet_Remove ops s h) = hashSetElems ops s - {h}"
proof -
  let ?s1 = "s\<lparr>hs_removed := set_add ops (hs_removed s) h\<rparr>"
  note laws = setLawsD [OF assms(1)] and ok = assms(2) [unfolded hashSetOk_def]
  have "hashSetOk ops (hashSet_Remove ops s h) \<and> hashSetElems ops (hashSet_Remove ops s h) = hashSetElems ops s - {h}"
  proof (cases "set_contains ops (hs_pending s) h \<or> \<not> containsSorted (hs_sorted s) h")
    case True
    then show ?thesis using ok containsSorted_iff [of "hs_sorted s" h]
      by (auto simp: hashSet_Remove_def hashSetOk_def hashSetElems_def laws)
  next
    case False
    then have "h \<in> set (hs_sorted s)" using ok containsSorted_iff [of "hs_sorted s" h] by simp
    then have s1: "hashSetOk ops ?s1" "hashSetElems ops ?s1 = hashSetElems ops s - {h}"
      using ok by (auto simp: hashSetOk_def hashSetElems_def laws)
    then show ?thesis using False compact_ok [OF assms(1) s1(1)] by (simp add: hashSet_Remove_def Let_def)
  qed
  then show "hashSetOk ops (hashSet_Remove ops s h)" "hashSetElems ops (hashSet_Remove ops s h) = hashSetElems ops s - {h}"
    by simp_all
qed

lemma hashSet_All_ok:
  assumes "setLaws ops" "hashSetOk ops s"
  shows "distinct (hashSet_All ops s)" "set (hashSet_All ops s) = hashSetElems ops s"
    "hashSet_Len ops s = int (card (hashSetElems ops s))"
proof -
  note laws = setLawsD [OF assms(1)] and ok = assms(2) [unfolded hashSetOk_def]
  show d: "distinct (hashSet_All ops s)"
    using ok laws(5) by (auto simp: hashSet_All_def strict_sorted_iff laws(7))
  show e: "set (hashSet_All ops s) = hashSetElems ops s"
    by (auto simp: hashSet_All_def hashSetElems_def laws(7))
  let ?R = "filter (set_contains ops (hs_removed s)) (hs_sorted s)"
  have "set ?R = set (set_values ops (hs_removed s))" using ok by (auto simp: laws(7))
  then have "length ?R = set_len ops (hs_removed s)"
    using ok laws(5,6) by (metis distinct_card distinct_filter strict_sorted_iff)
  moreover have "length ?R + length (filter (\<lambda>k. \<not> set_contains ops (hs_removed s) k) (hs_sorted s)) = length (hs_sorted s)"
    by (rule sum_length_filter_compl)
  moreover have "card (hashSetElems ops s) = length (hashSet_All ops s)" using d e distinct_card by metis
  ultimately show "hashSet_Len ops s = int (card (hashSetElems ops s))"
    by (simp add: hashSet_Len_def hashSet_All_def laws(6))
qed

lemma newSortedSet_ok:
  assumes "setLaws ops"
  shows "hashSetOk ops (newSortedSet ops n)" "hashSetElems ops (newSortedSet ops n) = {}"
  by (auto simp: newSortedSet_def hashSetOk_def hashSetElems_def setLawsD [OF assms])

lemma adoptSorted_ok:
  assumes "setLaws ops"
  shows "hashSetOk ops (adoptSorted ops keys)" "hashSetElems ops (adoptSorted ops keys) = set keys"
proof -
  have "dedupeLoop None (if sorted keys then keys else sort keys) = sortDedupeHashes keys"
    by (simp add: sortDedupeHashes_def sorted_sort_id)
  then show "hashSetOk ops (adoptSorted ops keys)" "hashSetElems ops (adoptSorted ops keys) = set keys"
    by (auto simp: adoptSorted_def Let_def hashSetOk_def hashSetElems_def setLawsD [OF assms])
qed

subsection \<open>The contract of a set of keys\<close>

datatype 'h setOp = OpAdd 'h | OpRemove 'h

fun runSetOps :: "('st \<Rightarrow> 'h \<Rightarrow> 'st) \<Rightarrow> ('st \<Rightarrow> 'h \<Rightarrow> 'st) \<Rightarrow> 'st \<Rightarrow> 'h setOp list \<Rightarrow> 'st" where
  "runSetOps add remove st [] = st"
| "runSetOps add remove st (OpAdd h # os) = runSetOps add remove (add st h) os"
| "runSetOps add remove st (OpRemove h # os) = runSetOps add remove (remove st h) os"

locale dynamic_set =
  fixes ok :: "'st \<Rightarrow> bool" and elems :: "'st \<Rightarrow> 'k set" and key :: "'st \<Rightarrow> 'h \<Rightarrow> 'k"
    and contains :: "'st \<Rightarrow> 'h \<Rightarrow> bool" and add :: "'st \<Rightarrow> 'h \<Rightarrow> 'st" and remove :: "'st \<Rightarrow> 'h \<Rightarrow> 'st"
  assumes contains_iff: "ok st \<Longrightarrow> contains st h \<longleftrightarrow> key st h \<in> elems st"
    and add_ok: "ok st \<Longrightarrow> ok (add st h)"
    and add_elems: "ok st \<Longrightarrow> elems (add st h) = insert (key st h) (elems st)"
    and add_key: "ok st \<Longrightarrow> key (add st h) = key st"
    and remove_ok: "ok st \<Longrightarrow> ok (remove st h)"
    and remove_elems: "ok st \<Longrightarrow> elems (remove st h) = elems st - {key st h}"
    and remove_key: "ok st \<Longrightarrow> key (remove st h) = key st"
begin

lemma contains_add: "ok st \<Longrightarrow> contains (add st h) h' \<longleftrightarrow> key st h' = key st h \<or> contains st h'"
  by (simp add: contains_iff add_ok add_elems add_key)

lemma contains_remove: "ok st \<Longrightarrow> contains (remove st h) h' \<longleftrightarrow> key st h' \<noteq> key st h \<and> contains st h'"
  by (auto simp: contains_iff remove_ok remove_elems remove_key)

lemma run_ok: "ok st \<Longrightarrow> ok (runSetOps add remove st os) \<and> key (runSetOps add remove st os) = key st"
proof (induction os arbitrary: st)
  case (Cons oper os)
  then show ?case by (cases oper) (simp_all add: add_ok add_key remove_ok remove_key)
qed simp

lemma run_elems:
  "ok st \<Longrightarrow> elems (runSetOps add remove st os) =
     runSetOps (\<lambda>E h. insert (key st h) E) (\<lambda>E h. E - {key st h}) (elems st) os"
proof (induction os arbitrary: st)
  case (Cons oper os)
  then show ?case
    by (cases oper) (simp_all add: add_ok add_key add_elems remove_ok remove_key remove_elems)
qed simp

lemma contains_run:
  "ok st \<Longrightarrow> contains (runSetOps add remove st os) h \<longleftrightarrow>
     key st h \<in> runSetOps (\<lambda>E h. insert (key st h) E) (\<lambda>E h. E - {key st h}) (elems st) os"
  using run_ok run_elems contains_iff by simp

end

text \<open>\<^verbatim>\<open>hashSet\<close> meets it.  The package's operations are part of the state here, so that the laws
  they owe are part of its invariant.\<close>

interpretation hs: dynamic_set
  "\<lambda>(ops, s). setLaws ops \<and> hashSetOk ops s" "\<lambda>(ops, s). hashSetElems ops s" "\<lambda>_ h. h"
  "\<lambda>(ops, s). hashSet_Contains ops s" "\<lambda>(ops, s) h. (ops, hashSet_Add ops s h)"
  "\<lambda>(ops, s) h. (ops, hashSet_Remove ops s h)"
  by unfold_locales (auto simp: hashSet_Contains_iff hashSet_Add_ok hashSet_Remove_ok)

subsection \<open>Sets of key prefixes\<close>

definition keyMask :: "nat \<Rightarrow> u64" where
  "keyMask shift = push_bit shift (NOT 0)"

definition keyOf :: "bytes \<Rightarrow> bytes" where
  "keyOf h = take 8 (h @ replicate 8 0)"

record 's keySet =
  ks_keys :: "(bytes, 's) hashSet"
  ks_shift :: nat

definition newKeySet :: "(bytes, 's) setOps \<Rightarrow> nat \<Rightarrow> 's keySet" where
  "newKeySet ops n = \<lparr>ks_keys = newSortedSet ops n, ks_shift = 0\<rparr>"

definition adoptSortedKeysAt :: "(bytes, 's) setOps \<Rightarrow> bytes list \<Rightarrow> nat \<Rightarrow> 's keySet" where
  "adoptSortedKeysAt ops keys widthBits = \<lparr>ks_keys = adoptSorted ops keys, ks_shift = 64 - widthBits\<rparr>"

definition adoptSortedKeys :: "(bytes, 's) setOps \<Rightarrow> bytes list \<Rightarrow> 's keySet" where
  "adoptSortedKeys ops keys = adoptSortedKeysAt ops keys 64"

definition keySet_width :: "'s keySet \<Rightarrow> nat" where
  "keySet_width s = 64 - ks_shift s"

definition maskKey :: "nat \<Rightarrow> bytes \<Rightarrow> bytes" where
  "maskKey shift k = bePut64 (beUint64 k AND keyMask shift)"

definition keySet_key :: "'s keySet \<Rightarrow> bytes \<Rightarrow> bytes" where
  "keySet_key s h = maskKey (ks_shift s) (keyOf h)"

text \<open>A nil set holds nothing and ignores changes.\<close>

definition keySet_Len :: "(bytes, 's) setOps \<Rightarrow> 's keySet option \<Rightarrow> int" where
  "keySet_Len ops p = (case p of None \<Rightarrow> 0 | Some s \<Rightarrow> hashSet_Len ops (ks_keys s))"

definition keySet_Contains :: "(bytes, 's) setOps \<Rightarrow> 's keySet option \<Rightarrow> bytes \<Rightarrow> bool" where
  "keySet_Contains ops p h =
     (case p of None \<Rightarrow> False | Some s \<Rightarrow> hashSet_Contains ops (ks_keys s) (keySet_key s h))"

definition keySet_Add :: "(bytes, 's) setOps \<Rightarrow> 's keySet option \<Rightarrow> bytes \<Rightarrow> 's keySet option" where
  "keySet_Add ops p h =
     (case p of None \<Rightarrow> None
      | Some s \<Rightarrow> Some (s\<lparr>ks_keys := hashSet_Add ops (ks_keys s) (keySet_key s h)\<rparr>))"

definition keySet_Remove :: "(bytes, 's) setOps \<Rightarrow> 's keySet option \<Rightarrow> bytes \<Rightarrow> 's keySet option" where
  "keySet_Remove ops p h =
     (case p of None \<Rightarrow> None
      | Some s \<Rightarrow> Some (s\<lparr>ks_keys := hashSet_Remove ops (ks_keys s) (keySet_key s h)\<rparr>))"

definition keySet_All :: "(bytes, 's) setOps \<Rightarrow> 's keySet option \<Rightarrow> bytes list" where
  "keySet_All ops p = (case p of None \<Rightarrow> [] | Some s \<Rightarrow> hashSet_All ops (ks_keys s))"

definition keySet_narrowTo :: "(bytes, 's) setOps \<Rightarrow> 's keySet \<Rightarrow> nat \<Rightarrow> 's keySet" where
  "keySet_narrowTo ops s shift =
     (let ks = hashSet_compact ops (ks_keys s)
      in \<lparr>ks_keys = ks\<lparr>hs_sorted := dedupeLoop None (map (maskKey shift) (hs_sorted ks))\<rparr>, ks_shift = shift\<rparr>)"

definition keySet_addAll :: "(bytes, 's) setOps \<Rightarrow> 's keySet \<Rightarrow> 's keySet \<Rightarrow> 's keySet" where
  "keySet_addAll ops s other =
     (let s1 = (if ks_shift other > ks_shift s then keySet_narrowTo ops s (ks_shift other) else s)
      in s1\<lparr>ks_keys := foldl (\<lambda>ks k. hashSet_Add ops ks (maskKey (ks_shift s1) k)) (ks_keys s1)
                        (keySet_All ops (Some other))\<rparr>)"

subsection \<open>Masking\<close>

lemma and_keyMask: "x AND keyMask shift = push_bit shift (drop_bit shift x)"
  by (rule bit_word_eqI) (auto simp: keyMask_def bit_and_iff bit_push_bit_iff bit_drop_bit_eq bit_not_iff bit_mask_iff)

lemma and_keyMask_mono:
  assumes "x \<le> (y :: u64)"
  shows "x AND keyMask shift \<le> y AND keyMask shift"
proof -
  have q: "unat (push_bit shift (drop_bit shift x)) = unat x div 2 ^ shift * 2 ^ shift" for x :: u64
  proof -
    have "unat x div 2 ^ shift * 2 ^ shift < 2 ^ 64"
      using order.strict_trans1 [OF div_times_less_eq_dividend [of "unat x" "2 ^ shift"]
          unsigned_less [of x, where ?'a = nat]] by simp
    then show ?thesis
      unfolding unsigned_push_bit_eq unat_drop_bit_eq
      by (simp add: take_bit_eq_mod push_bit_eq_mult drop_bit_eq_div)
  qed
  show ?thesis unfolding and_keyMask word_le_nat_alt q
    using assms by (simp add: word_le_nat_alt div_le_mono)
qed

lemma beUint64_mono:
  assumes "length a = 8" "length b = 8" "a \<le> b"
  shows "beUint64 a \<le> beUint64 b"
proof (cases "a = b")
  case False
  then have "a < b" using assms(3) by simp
  then show ?thesis using assms beNat_less_iff [of a b] by (simp add: word_le_nat_alt unat_beUint64)
qed simp

lemma bePut64_mono: "x \<le> y \<Longrightarrow> bePut64 x \<le> bePut64 y"
proof -
  assume "x \<le> y"
  moreover have "beNat (bePut64 w) = unat w" for w
    using unat_beUint64 [of "bePut64 w"] by simp
  ultimately have "\<not> beNat (bePut64 y) < beNat (bePut64 x)" by (simp add: word_le_nat_alt)
  then show ?thesis using beNat_less_iff [of "bePut64 y" "bePut64 x"] by simp
qed

lemma maskKey_mono: "length a = 8 \<Longrightarrow> length b = 8 \<Longrightarrow> a \<le> b \<Longrightarrow> maskKey shift a \<le> maskKey shift b"
  unfolding maskKey_def by (intro bePut64_mono and_keyMask_mono beUint64_mono)

lemma length_maskKey [simp]: "length (maskKey shift k) = 8"
  by (simp add: maskKey_def)

lemma length_keyOf [simp]: "length (keyOf h) = 8"
  by (simp add: keyOf_def)

lemma maskKey_0: "length k = 8 \<Longrightarrow> maskKey 0 k = k"
  by (simp add: maskKey_def keyMask_def bePut64_beUint64)

lemma maskKey_maskKey: "maskKey a (maskKey b k) = maskKey (max a b) k"
proof -
  have "(x AND keyMask b) AND keyMask a = x AND keyMask (max a b)" for x :: u64
    by (rule bit_word_eqI) (auto simp: keyMask_def bit_and_iff bit_push_bit_iff bit_not_iff bit_mask_iff)
  then show ?thesis by (simp add: maskKey_def)
qed

definition keySetOk :: "(bytes, 's) setOps \<Rightarrow> 's keySet \<Rightarrow> bool" where
  "keySetOk ops s \<longleftrightarrow> hashSetOk ops (ks_keys s) \<and>
     (\<forall>k \<in> hashSetElems ops (ks_keys s). length k = 8 \<and> maskKey (ks_shift s) k = k)"

lemma keySet_key_mask: "maskKey (ks_shift s) (keySet_key s h) = keySet_key s h"
  by (simp add: keySet_key_def maskKey_maskKey)

interpretation ks: dynamic_set
  "\<lambda>(ops, s). setLaws ops \<and> keySetOk ops s" "\<lambda>(ops, s). hashSetElems ops (ks_keys s)"
  "\<lambda>(ops, s). keySet_key s"
  "\<lambda>(ops, s). keySet_Contains ops (Some s)"
  "\<lambda>(ops, s) h. (ops, the (keySet_Add ops (Some s) h))"
  "\<lambda>(ops, s) h. (ops, the (keySet_Remove ops (Some s) h))"
proof unfold_locales
  fix st :: "(bytes, 's) setOps \<times> 's keySet" and h
  obtain ops s where st: "st = (ops, s)" by (cases st)
  assume "case st of (ops, s) \<Rightarrow> setLaws ops \<and> keySetOk ops s"
  then have ok: "setLaws ops" "keySetOk ops s" "hashSetOk ops (ks_keys s)" by (simp_all add: st keySetOk_def)
  note add = hashSet_Add_ok [OF ok(1,3)] and rem = hashSet_Remove_ok [OF ok(1,3)]
  have len: "length (keySet_key s h) = 8" by (simp add: keySet_key_def)
  show "(case st of (ops, s) \<Rightarrow> keySet_Contains ops (Some s)) h =
      ((case st of (ops, s) \<Rightarrow> keySet_key s) h \<in> (case st of (ops, s) \<Rightarrow> hashSetElems ops (ks_keys s)))"
    using ok by (simp add: st keySet_Contains_def hashSet_Contains_iff)
qed (auto simp: keySet_Add_def keySet_Remove_def keySetOk_def hashSet_Add_ok hashSet_Remove_ok
       keySet_key_mask keySet_key_def maskKey_maskKey fun_eq_iff)

lemma dedupe_mono_map:
  assumes "strictAsc xs" "\<forall>a \<in> set xs. \<forall>b \<in> set xs. a \<le> b \<longrightarrow> f a \<le> f b"
  shows "strictAsc (dedupeLoop None (map f xs))" "set (dedupeLoop None (map f xs)) = f ` set xs"
proof -
  have "sorted_wrt (\<lambda>a b. f a \<le> f b) xs"
    by (rule sorted_wrt_mono_rel [OF _ assms(1)]) (use assms(2) in auto)
  then have "sorted (map f xs)" by (simp add: sorted_wrt_map)
  then show "strictAsc (dedupeLoop None (map f xs))" using dedupeLoop_lower [of "map f xs" None] by simp
  show "set (dedupeLoop None (map f xs)) = f ` set xs" using set_dedupeLoop [of None "map f xs"] by simp
qed

lemma keySet_narrowTo_ok:
  assumes "setLaws ops" "keySetOk ops s"
  shows "keySetOk ops (keySet_narrowTo ops s shift) \<and>
    hashSetElems ops (ks_keys (keySet_narrowTo ops s shift)) = maskKey shift ` hashSetElems ops (ks_keys s)"
proof -
  let ?ks = "hashSet_compact ops (ks_keys s)"
  have ok: "hashSetOk ops (ks_keys s)" "\<forall>k \<in> hashSetElems ops (ks_keys s). length k = 8"
    using assms(2) by (auto simp: keySetOk_def)
  note c = compact_elems [OF assms(1) ok(1)]
  have m: "strictAsc (dedupeLoop None (map (maskKey shift) (hs_sorted ?ks)))"
    "set (dedupeLoop None (map (maskKey shift) (hs_sorted ?ks))) = maskKey shift ` hashSetElems ops (ks_keys s)"
    using dedupe_mono_map [of "hs_sorted ?ks" "maskKey shift"] c ok(2) maskKey_mono by auto
  then show ?thesis using c
    by (auto simp: keySet_narrowTo_def Let_def keySetOk_def hashSetOk_def hashSetElems_def maskKey_maskKey)
qed

lemma hashSet_Add_foldl:
  assumes "setLaws ops" "hashSetOk ops s"
  shows "hashSetOk ops (foldl (\<lambda>ks k. hashSet_Add ops ks (f k)) s xs) \<and>
    hashSetElems ops (foldl (\<lambda>ks k. hashSet_Add ops ks (f k)) s xs) = hashSetElems ops s \<union> f ` set xs"
  using assms(2) by (induction xs arbitrary: s) (auto simp: hashSet_Add_ok assms(1))

lemma keySet_addAll_ok:
  assumes "setLaws ops" "keySetOk ops s" "keySetOk ops other"
  shows "keySetOk ops (keySet_addAll ops s other)" "ks_shift (keySet_addAll ops s other) = max (ks_shift s) (ks_shift other)"
    "hashSetElems ops (ks_keys (keySet_addAll ops s other)) =
       maskKey (max (ks_shift s) (ks_shift other)) ` (hashSetElems ops (ks_keys s) \<union> hashSetElems ops (ks_keys other))"
proof -
  define s1 where "s1 = (if ks_shift other > ks_shift s then keySet_narrowTo ops s (ks_shift other) else s)"
  have sh: "ks_shift s1 = max (ks_shift s) (ks_shift other)" by (auto simp: s1_def keySet_narrowTo_def Let_def)
  have s1: "keySetOk ops s1" "hashSetElems ops (ks_keys s1) = maskKey (ks_shift s1) ` hashSetElems ops (ks_keys s)"
    using keySet_narrowTo_ok [OF assms(1,2), of "ks_shift other"] assms(2) sh
    by (auto simp: s1_def keySetOk_def image_iff)
  have o: "set (keySet_All ops (Some other)) = hashSetElems ops (ks_keys other)"
    using hashSet_All_ok(2) [OF assms(1)] assms(3) by (simp add: keySet_All_def keySetOk_def)
  have a: "keySet_addAll ops s other = s1\<lparr>ks_keys := foldl (\<lambda>ks k. hashSet_Add ops ks (maskKey (ks_shift s1) k))
      (ks_keys s1) (keySet_All ops (Some other))\<rparr>"
    by (simp add: keySet_addAll_def Let_def s1_def)
  note f = hashSet_Add_foldl [OF assms(1), of "ks_keys s1" "maskKey (ks_shift s1)" "keySet_All ops (Some other)"]
  show "ks_shift (keySet_addAll ops s other) = max (ks_shift s) (ks_shift other)" using a sh by simp
  show "hashSetElems ops (ks_keys (keySet_addAll ops s other)) =
       maskKey (max (ks_shift s) (ks_shift other)) ` (hashSetElems ops (ks_keys s) \<union> hashSetElems ops (ks_keys other))"
    using f s1 o a sh by (simp add: keySetOk_def image_Un)
  show "keySetOk ops (keySet_addAll ops s other)"
    using f s1 o a by (auto simp: keySetOk_def maskKey_maskKey)
qed

subsection \<open>Sets of 64-bit keys\<close>

record 's widthSet =
  ws_set :: "(u64, 's) hashSet"
  ws_shift :: nat

definition keyOf64 :: "bytes \<Rightarrow> u64" where
  "keyOf64 h = beUint64 h"

definition newWidthSet :: "(u64, 's) setOps \<Rightarrow> nat \<Rightarrow> 's widthSet" where
  "newWidthSet ops n = \<lparr>ws_set = newSortedSet ops n, ws_shift = 0\<rparr>"

definition newWidthSetFromSorted :: "(u64, 's) setOps \<Rightarrow> u64 list \<Rightarrow> nat \<Rightarrow> 's widthSet" where
  "newWidthSetFromSorted ops keys widthBits = \<lparr>ws_set = adoptSorted ops keys, ws_shift = 64 - widthBits\<rparr>"

definition widthSet_key :: "'s widthSet \<Rightarrow> bytes \<Rightarrow> u64" where
  "widthSet_key s h = keyOf64 h AND keyMask (ws_shift s)"

definition widthSet_Contains :: "(u64, 's) setOps \<Rightarrow> 's widthSet \<Rightarrow> bytes \<Rightarrow> bool" where
  "widthSet_Contains ops s h = hashSet_Contains ops (ws_set s) (widthSet_key s h)"

definition widthSet_bufferKey :: "(u64, 's) setOps \<Rightarrow> 's widthSet \<Rightarrow> u64 \<Rightarrow> 's widthSet" where
  "widthSet_bufferKey ops s k0 =
     (let k = k0 AND keyMask (ws_shift s); hs = ws_set s in
      if set_contains ops (hs_removed hs) k
      then s\<lparr>ws_set := hs\<lparr>hs_removed := set_remove ops (hs_removed hs) k\<rparr>\<rparr>
      else if set_contains ops (hs_pending hs) k then s
      else if containsSorted (hs_sorted hs) k then s
      else s\<lparr>ws_set := hs\<lparr>hs_pending := set_add ops (hs_pending hs) k\<rparr>\<rparr>)"

definition widthSet_addKey :: "(u64, 's) setOps \<Rightarrow> 's widthSet \<Rightarrow> u64 \<Rightarrow> 's widthSet" where
  "widthSet_addKey ops s k =
     (let s1 = widthSet_bufferKey ops s k in
      if set_len ops (hs_pending (ws_set s1)) \<ge> compactAt
      then s1\<lparr>ws_set := hashSet_compact ops (ws_set s1)\<rparr> else s1)"

definition widthSet_Add :: "(u64, 's) setOps \<Rightarrow> 's widthSet \<Rightarrow> bytes \<Rightarrow> 's widthSet" where
  "widthSet_Add ops s h = widthSet_addKey ops s (widthSet_key s h)"

definition widthSet_Remove :: "(u64, 's) setOps \<Rightarrow> 's widthSet \<Rightarrow> bytes \<Rightarrow> 's widthSet" where
  "widthSet_Remove ops s h = s\<lparr>ws_set := hashSet_Remove ops (ws_set s) (widthSet_key s h)\<rparr>"

definition widthSet_narrowTo :: "(u64, 's) setOps \<Rightarrow> 's widthSet \<Rightarrow> nat \<Rightarrow> 's widthSet" where
  "widthSet_narrowTo ops s shift =
     (let hs = hashSet_compact ops (ws_set s)
      in \<lparr>ws_set = hs\<lparr>hs_sorted := dedupeLoop None (map (\<lambda>k. k AND keyMask shift) (hs_sorted hs))\<rparr>,
          ws_shift = shift\<rparr>)"

definition widthSet_addAll :: "(u64, 's) setOps \<Rightarrow> 's widthSet \<Rightarrow> 's widthSet \<Rightarrow> 's widthSet" where
  "widthSet_addAll ops s src =
     (let s1 = (if ws_shift src > ws_shift s then widthSet_narrowTo ops s (ws_shift src) else s);
          s2 = foldl (widthSet_bufferKey ops) s1 (hashSet_All ops (ws_set src))
      in s2\<lparr>ws_set := hashSet_compact ops (ws_set s2)\<rparr>)"

definition widthSetOk :: "(u64, 's) setOps \<Rightarrow> 's widthSet \<Rightarrow> bool" where
  "widthSetOk ops s \<longleftrightarrow> hashSetOk ops (ws_set s) \<and>
     (\<forall>k \<in> hashSetElems ops (ws_set s). k AND keyMask (ws_shift s) = k)"

lemma keyMask_keyMask: "(x AND keyMask b) AND keyMask a = (x :: u64) AND keyMask (max a b)"
  by (rule bit_word_eqI) (auto simp: keyMask_def bit_and_iff bit_push_bit_iff bit_not_iff bit_mask_iff)

lemma widthSet_bufferKey_ok:
  assumes "setLaws ops" "hashSetOk ops (ws_set s)"
  shows "hashSetOk ops (ws_set (widthSet_bufferKey ops s k)) \<and> ws_shift (widthSet_bufferKey ops s k) = ws_shift s \<and>
    hashSetElems ops (ws_set (widthSet_bufferKey ops s k)) = insert (k AND keyMask (ws_shift s)) (hashSetElems ops (ws_set s))"
  using assms(2) containsSorted_iff [of "hs_sorted (ws_set s)" "k AND keyMask (ws_shift s)"]
  by (auto simp: widthSet_bufferKey_def Let_def hashSetOk_def hashSetElems_def setLawsD [OF assms(1)])

lemma widthSet_addKey_ok:
  assumes "setLaws ops" "hashSetOk ops (ws_set s)"
  shows "hashSetOk ops (ws_set (widthSet_addKey ops s k)) \<and> ws_shift (widthSet_addKey ops s k) = ws_shift s \<and>
    hashSetElems ops (ws_set (widthSet_addKey ops s k)) = insert (k AND keyMask (ws_shift s)) (hashSetElems ops (ws_set s))"
proof -
  note b = widthSet_bufferKey_ok [OF assms, of k]
  then show ?thesis using compact_ok [OF assms(1), of "ws_set (widthSet_bufferKey ops s k)"]
    by (simp add: widthSet_addKey_def Let_def)
qed

interpretation ws: dynamic_set
  "\<lambda>(ops, s). setLaws ops \<and> widthSetOk ops s" "\<lambda>(ops, s). hashSetElems ops (ws_set s)"
  "\<lambda>(ops, s). widthSet_key s"
  "\<lambda>(ops, s). widthSet_Contains ops s" "\<lambda>(ops, s) h. (ops, widthSet_Add ops s h)"
  "\<lambda>(ops, s) h. (ops, widthSet_Remove ops s h)"
  by unfold_locales
    (auto simp: widthSet_Contains_def widthSet_Add_def widthSet_Remove_def widthSetOk_def hashSet_Contains_iff
       widthSet_addKey_ok hashSet_Remove_ok widthSet_key_def keyMask_keyMask fun_eq_iff)

lemma widthSet_buffer_foldl:
  assumes "setLaws ops" "hashSetOk ops (ws_set s)"
  shows "hashSetOk ops (ws_set (foldl (widthSet_bufferKey ops) s ks)) \<and>
    ws_shift (foldl (widthSet_bufferKey ops) s ks) = ws_shift s \<and>
    hashSetElems ops (ws_set (foldl (widthSet_bufferKey ops) s ks)) =
      hashSetElems ops (ws_set s) \<union> (\<lambda>k. k AND keyMask (ws_shift s)) ` set ks"
  using assms(2)
proof (induction ks arbitrary: s)
  case (Cons k ks)
  then show ?case using widthSet_bufferKey_ok [OF assms(1) Cons.prems, of k] by auto
qed simp

lemma widthSet_narrowTo_ok:
  assumes "setLaws ops" "hashSetOk ops (ws_set s)"
  shows "hashSetOk ops (ws_set (widthSet_narrowTo ops s shift)) \<and> ws_shift (widthSet_narrowTo ops s shift) = shift \<and>
    hashSetElems ops (ws_set (widthSet_narrowTo ops s shift)) = (\<lambda>k. k AND keyMask shift) ` hashSetElems ops (ws_set s)"
proof -
  let ?hs = "hashSet_compact ops (ws_set s)" and ?f = "\<lambda>k. k AND keyMask shift"
  note c = compact_elems [OF assms]
  have "strictAsc (dedupeLoop None (map ?f (hs_sorted ?hs)))"
    "set (dedupeLoop None (map ?f (hs_sorted ?hs))) = ?f ` hashSetElems ops (ws_set s)"
    using dedupe_mono_map [of "hs_sorted ?hs" ?f] c and_keyMask_mono by auto
  then show ?thesis using c by (auto simp: widthSet_narrowTo_def Let_def hashSetOk_def hashSetElems_def)
qed

lemma widthSet_addAll_ok:
  assumes "setLaws ops" "widthSetOk ops s" "widthSetOk ops src"
  shows "widthSetOk ops (widthSet_addAll ops s src) \<and>
    ws_shift (widthSet_addAll ops s src) = max (ws_shift s) (ws_shift src) \<and>
    hashSetElems ops (ws_set (widthSet_addAll ops s src)) =
      (\<lambda>k. k AND keyMask (max (ws_shift s) (ws_shift src))) ` (hashSetElems ops (ws_set s) \<union> hashSetElems ops (ws_set src))"
proof -
  define s1 where "s1 = (if ws_shift src > ws_shift s then widthSet_narrowTo ops s (ws_shift src) else s)"
  define s2 where "s2 = foldl (widthSet_bufferKey ops) s1 (hashSet_All ops (ws_set src))"
  define m where "m = max (ws_shift s) (ws_shift src)"
  have s1: "hashSetOk ops (ws_set s1)" "ws_shift s1 = m"
      "hashSetElems ops (ws_set s1) = (\<lambda>k. k AND keyMask m) ` hashSetElems ops (ws_set s)"
    using widthSet_narrowTo_ok [OF assms(1), of s "ws_shift src"] assms(2)
    by (auto simp: s1_def m_def widthSetOk_def max_def image_iff)
  have o: "set (hashSet_All ops (ws_set src)) = hashSetElems ops (ws_set src)"
    using hashSet_All_ok(2) [OF assms(1)] assms(3) by (simp add: widthSetOk_def)
  have s2: "hashSetOk ops (ws_set s2)" "ws_shift s2 = m"
      "hashSetElems ops (ws_set s2) = (\<lambda>k. k AND keyMask m) ` (hashSetElems ops (ws_set s) \<union> hashSetElems ops (ws_set src))"
    using widthSet_buffer_foldl [OF assms(1) s1(1), of "hashSet_All ops (ws_set src)"] s1 o
    by (auto simp: s2_def)
  have "widthSet_addAll ops s src = s2\<lparr>ws_set := hashSet_compact ops (ws_set s2)\<rparr>"
    by (simp add: widthSet_addAll_def Let_def s1_def s2_def)
  then show ?thesis using compact_ok [OF assms(1) s2(1)] s2
    by (auto simp: widthSetOk_def keyMask_keyMask simp flip: m_def)
qed

subsection \<open>Properties\<close>

lemma run_pair:
  "runSetOps (\<lambda>(ops, s) h. (ops, add ops s h)) (\<lambda>(ops, s) h. (ops, remove ops s h)) (ops, s) os =
     (ops, runSetOps (add ops) (remove ops) s os)"
  by (induction "add ops" "remove ops" s os rule: runSetOps.induct) auto

text \<open>(C16) A client set after any sequence of additions and deletions, merged into its sorted slice as
  often as the buffers fill, answers every lookup and reports a length as the plain mathematical set
  after the same operations would, and keeps its slice strictly ascending.\<close>

theorem hashSet_refines_set:
  fixes ops :: "('k::linorder, 's) setOps" and os :: "'k setOp list"
  assumes "setLaws ops" "hashSetOk ops s"
  defines "s' \<equiv> runSetOps (hashSet_Add ops) (hashSet_Remove ops) s os"
    and "E' \<equiv> runSetOps (\<lambda>E k. insert k E) (\<lambda>E k. E - {k}) (hashSetElems ops s) os"
  shows "hashSetOk ops s' \<and> (\<forall>h. hashSet_Contains ops s' h = (h \<in> E')) \<and>
    set (hashSet_All ops s') = E' \<and> hashSet_Len ops s' = int (card E')"
proof -
  have ok: "setLaws ops \<and> hashSetOk ops s'"
    using hs.run_ok [of "(ops, s)" os] assms(1,2) by (simp add: run_pair s'_def)
  moreover have e: "hashSetElems ops s' = E'"
    using hs.run_elems [of "(ops, s)" os] assms(1,2) by (simp add: run_pair s'_def E'_def)
  ultimately show ?thesis
    using hashSet_Contains_iff [of ops s'] hashSet_All_ok(2,3) [of ops s'] by simp
qed

theorem hashSet_refines_set_witness:
  "hashSet_Contains fsetOps (runSetOps (hashSet_Add fsetOps) (hashSet_Remove fsetOps)
     (adoptSorted fsetOps [7 :: nat, 3]) [OpAdd 5, OpRemove 3]) 5"
  using hashSet_refines_set [OF setLaws_fsetOps adoptSorted_ok(1) [OF setLaws_fsetOps], of "[7 :: nat, 3]" "[OpAdd 5, OpRemove 3]"]
    adoptSorted_ok(2) [OF setLaws_fsetOps, of "[7 :: nat, 3]"] by simp

text \<open>Folding one prefix set into another of any width loses no key: the result holds the narrower of
  the two widths, and it contains a hash exactly when, on the bits of that width, the hash agrees with a
  member of either set.\<close>

theorem keySet_addAll_contains:
  assumes "setLaws ops" "keySetOk ops s" "keySetOk ops other"
  defines "m \<equiv> max (ks_shift s) (ks_shift other)"
  shows "keySetOk ops (keySet_addAll ops s other) \<and> ks_shift (keySet_addAll ops s other) = m \<and>
    (keySet_Contains ops (Some (keySet_addAll ops s other)) h \<longleftrightarrow>
      (\<exists>k \<in> set (keySet_All ops (Some s)) \<union> set (keySet_All ops (Some other)). maskKey m k = maskKey m (keyOf h)))"
proof -
  note a = keySet_addAll_ok [OF assms(1-3), folded m_def]
  have all: "set (keySet_All ops (Some t)) = hashSetElems ops (ks_keys t)" if "keySetOk ops t" for t
    using hashSet_All_ok(2) [OF assms(1)] that by (simp add: keySet_All_def keySetOk_def)
  have "keySet_Contains ops (Some (keySet_addAll ops s other)) h \<longleftrightarrow>
      maskKey m (keyOf h) \<in> maskKey m ` (hashSetElems ops (ks_keys s) \<union> hashSetElems ops (ks_keys other))"
    using a hashSet_Contains_iff [of ops "ks_keys (keySet_addAll ops s other)"]
    by (simp add: keySet_Contains_def keySetOk_def keySet_key_def)
  moreover have "x \<in> f ` A \<longleftrightarrow> (\<exists>k \<in> A. f k = x)" for x :: bytes and f :: "bytes \<Rightarrow> bytes" and A by auto
  ultimately show ?thesis using a(1,2) unfolding all [OF assms(2)] all [OF assms(3)] by simp
qed

definition demoKeySet :: "bytes list \<Rightarrow> nat \<Rightarrow> bytes fset keySet" where
  "demoKeySet ks bits = adoptSortedKeysAt fsetOps (map (maskKey (64 - bits)) ks) bits"

lemma demoKeySet_ok: "keySetOk fsetOps (demoKeySet ks bits)"
  by (auto simp: demoKeySet_def keySetOk_def adoptSortedKeysAt_def adoptSorted_ok [OF setLaws_fsetOps] maskKey_maskKey)

lemma demoKeySet_All:
  "set (keySet_All fsetOps (Some (demoKeySet ks bits))) = maskKey (64 - bits) ` set ks"
  unfolding demoKeySet_def keySet_All_def adoptSortedKeysAt_def
  by (simp add: hashSet_All_ok(2) [OF setLaws_fsetOps adoptSorted_ok(1) [OF setLaws_fsetOps]]
        adoptSorted_ok(2) [OF setLaws_fsetOps])

theorem keySet_addAll_contains_witness:
  "keySet_Contains fsetOps
     (Some (keySet_addAll fsetOps (demoKeySet [replicate 8 7] 64) (demoKeySet [replicate 8 9] 40))) (replicate 32 9)"
proof -
  have "keyOf (replicate 32 9) = replicate 8 9" by (simp add: keyOf_def)
  moreover have "ks_shift (demoKeySet ks bits) = 64 - bits" for ks bits
    by (simp add: demoKeySet_def adoptSortedKeysAt_def)
  ultimately show ?thesis
    using keySet_addAll_contains [OF setLaws_fsetOps demoKeySet_ok [of "[replicate 8 7]" 64]
        demoKeySet_ok [of "[replicate 8 9]" 40], of "replicate 32 9"]
    by (simp add: demoKeySet_All maskKey_maskKey)
qed

end
