(* ===== verification/GbciBlob.thy ===== *)
theory GbciBlob
  imports RiceIndex ActionKey KeySets
begin

text \<open>
  The forms the server writes the index in, and the client's decoder for all of them.  A form is a
  version and a width: bytes of each hash for version 1, bits of each hash for version 2.  The theory
  models \<^verbatim>\<open>indexForm\<close>, \<^verbatim>\<open>marshalForm\<close>, \<^verbatim>\<open>prefixValues\<close>,
  \<^verbatim>\<open>marshalGBCIWidth\<close> and \<^verbatim>\<open>blobETag\<close> of the server, and \<^verbatim>\<open>parseIndexBlob\<close>
  with its two decoders of the client, and shows what set of prefixes each form carries.
\<close>

definition gbciVersion :: byte where
  "gbciVersion = 1"

definition gbciPrefixSize :: nat where
  "gbciPrefixSize = 8"

record indexForm =
  form_version :: byte
  form_width :: nat

definition indexFormV1 :: "nat \<Rightarrow> indexForm" where
  "indexFormV1 widthBytes = \<lparr>form_version = gbciVersion, form_width = widthBytes\<rparr>"

datatype gbciFormat = gbciFull | gbciPrefix

definition gbciFormat_version :: "gbciFormat \<Rightarrow> byte" where
  "gbciFormat_version f = (if f = gbciPrefix then gbciVersion else gbciVersion)"

definition gbciFormat_entrySize :: "gbciFormat \<Rightarrow> nat" where
  "gbciFormat_entrySize f = (if f = gbciPrefix then gbciPrefixSize else gbciHashSize)"

definition gbciFormat_form :: "gbciFormat \<Rightarrow> indexForm" where
  "gbciFormat_form f = \<lparr>form_version = gbciFormat_version f, form_width = gbciFormat_entrySize f\<rparr>"

subsection \<open>Prefixes of a hash list\<close>

text \<open>\<^verbatim>\<open>prefixValues\<close> walks two sorted lists at once and yields each prefix the first time it
  comes up.  \<open>first\<close> and \<open>prev\<close> are one option: none before the first value.\<close>

fun prefixValuesLoop :: "nat \<Rightarrow> u64 option \<Rightarrow> bytes list \<Rightarrow> bytes list \<Rightarrow> u64 list" where
  "prefixValuesLoop shift prev [] [] = []"
| "prefixValuesLoop shift prev (x # a) [] =
     (let v = drop_bit shift (beUint64 (take 8 x)) in
      if prev = Some v then prefixValuesLoop shift prev a []
      else v # prefixValuesLoop shift (Some v) a [])"
| "prefixValuesLoop shift prev [] (y # b) =
     (let v = drop_bit shift (beUint64 (take 8 y)) in
      if prev = Some v then prefixValuesLoop shift prev [] b
      else v # prefixValuesLoop shift (Some v) [] b)"
| "prefixValuesLoop shift prev (x # a) (y # b) =
     (if x \<le> y
      then let v = drop_bit shift (beUint64 (take 8 x)) in
           if prev = Some v then prefixValuesLoop shift prev a (y # b)
           else v # prefixValuesLoop shift (Some v) a (y # b)
      else let v = drop_bit shift (beUint64 (take 8 y)) in
           if prev = Some v then prefixValuesLoop shift prev (x # a) b
           else v # prefixValuesLoop shift (Some v) (x # a) b)"

definition prefixValues :: "bytes list \<Rightarrow> bytes list \<Rightarrow> nat \<Rightarrow> u64 list" where
  "prefixValues a b bits = prefixValuesLoop (64 - bits) None a b"

text \<open>\<^verbatim>\<open>marshalGBCIWidth\<close> fills the body left to right; an entry equal to the last
  \<open>width\<close> bytes written is skipped.\<close>

fun marshalWidthBody :: "nat \<Rightarrow> bytes \<Rightarrow> bytes list \<Rightarrow> bytes" where
  "marshalWidthBody width body [] = body"
| "marshalWidthBody width body (h # hs) =
     (let entry = take width h in
      if body \<noteq> [] \<and> drop (length body - width) body = entry
      then marshalWidthBody width body hs
      else marshalWidthBody width (body @ entry) hs)"

definition marshalGBCIWidth :: "bytes list \<Rightarrow> nat \<Rightarrow> bytes" where
  "marshalGBCIWidth hashes width =
     (let body = marshalWidthBody width [] hashes
      in gbciFrame gbciVersion (of_nat width) 0 (length body div width) body)"

definition marshalForm :: "bytes list \<Rightarrow> indexForm \<Rightarrow> bytes" where
  "marshalForm hashes form =
     (if form_version form = gbciVersion2
      then marshalGBCI2 (form_width form) (prefixValues hashes [] (form_width form))
      else marshalGBCIWidth hashes (form_width form))"

definition marshalGBCI :: "bytes list \<Rightarrow> gbciFormat \<Rightarrow> bytes" where
  "marshalGBCI hashes f = marshalForm hashes (gbciFormat_form f)"

definition blobETag :: "bytes \<Rightarrow> string" where
  "blobETag blob = [CHR 0x22] @ hexEncode (drop (length blob - 32) blob) @ [CHR 0x22]"

subsection \<open>The client's decoder\<close>

definition parseIndexV1 :: "(bytes, 's) setOps \<Rightarrow> bytes \<Rightarrow> string \<Rightarrow> parseError + ('s keySet \<times> string)" where
  "parseIndexV1 ops blob etag =
     (let size = unat (blob ! 5) in
      if size \<noteq> gbciHashSize \<and> size \<noteq> gbciPrefixSize then Inl (UnsupportedHashSize (blob ! 5))
      else let count = leUint64 (take 8 (drop 16 blob)); bodyLen = length blob - gbciHeaderSize - 32 in
        if bodyLen mod size \<noteq> 0 \<or> count \<noteq> of_nat (bodyLen div size) then Inl LengthMismatch
        else let bodyEnd = gbciHeaderSize + bodyLen in
          if sha256 (take bodyEnd blob) \<noteq> drop bodyEnd blob then Inl TrailerMismatch
          else Inr (adoptSortedKeys ops
                 (map (\<lambda>i. take 8 (drop (gbciHeaderSize + i * size) blob)) [0..<unat count]), etag))"

definition parseIndexBlob :: "(bytes, 's) setOps \<Rightarrow> bytes \<Rightarrow> parseError + ('s keySet \<times> string)" where
  "parseIndexBlob ops blob =
     (if length blob < gbciHeaderSize + 32 then Inl (BlobTooSmall (length blob))
      else if take 4 blob \<noteq> gbciMagic then Inl BadMagic
      else let etag = [CHR 0x22] @ hexEncode (drop (length blob - 32) blob) @ [CHR 0x22] in
        if blob ! 4 = gbciVersion then parseIndexV1 ops blob etag
        else if blob ! 4 = gbciVersion2 then
          (case ParseIndexV2 blob of
             Inl e \<Rightarrow> Inl e
           | Inr (vals, width) \<Rightarrow>
               Inr (adoptSortedKeysAt ops (map (\<lambda>v. bePut64 (push_bit (64 - width) v)) vals) width, etag))
        else Inl (UnsupportedVersion (blob ! 4)))"

definition marshalIndex :: "(bytes, 's) setOps \<Rightarrow> 's keySet \<Rightarrow> marshalPanic + bytes" where
  "marshalIndex ops keys =
     MarshalIndexV2 (keySet_width keys)
       (map (\<lambda>k. drop_bit (ks_shift keys) (beUint64 k)) (sort (keySet_All ops (Some keys))))"

datatype mergeError = MergeParse parseError | MergePanic marshalPanic

definition mergeIndexBlob :: "(bytes, 's) setOps \<Rightarrow> bytes \<Rightarrow> 's keySet \<Rightarrow> mergeError + bytes" where
  "mergeIndexBlob ops base added =
     (case parseIndexBlob ops base of
        Inl e \<Rightarrow> Inl (MergeParse e)
      | Inr (keys, _) \<Rightarrow>
          (case marshalIndex ops (keySet_addAll ops keys added) of
             Inl p \<Rightarrow> Inl (MergePanic p)
           | Inr blob \<Rightarrow> Inr blob))"

subsection \<open>Which prefixes a hash list has\<close>

definition prefixOf :: "nat \<Rightarrow> bytes \<Rightarrow> u64" where
  "prefixOf bits h = drop_bit (64 - bits) (beUint64 h)"

lemma beUint64_take8 [simp]: "beUint64 (take 8 h) = beUint64 h"
  by (simp add: beUint64_def)

fun mergeDup :: "'a::linorder list \<Rightarrow> 'a list \<Rightarrow> 'a list" where
  "mergeDup [] b = b"
| "mergeDup (x # a) [] = x # a"
| "mergeDup (x # a) (y # b) = (if x \<le> y then x # mergeDup a (y # b) else y # mergeDup (x # a) b)"

lemma set_mergeDup [simp]: "set (mergeDup a b) = set a \<union> set b"
  by (induction a b rule: mergeDup.induct) auto

lemma sorted_mergeDup: "sorted a \<Longrightarrow> sorted b \<Longrightarrow> sorted (mergeDup a b)"
  by (induction a b rule: mergeDup.induct) auto

lemma mergeDup_Nil [simp]: "mergeDup a [] = a"
  by (cases a) auto

lemma dedupeLoop_None_Some:
  "prev \<noteq> Some v \<Longrightarrow> dedupeLoop prev (v # vs) = v # dedupeLoop (Some v) vs"
  "dedupeLoop (Some v) (v # vs) = dedupeLoop (Some v) vs"
  by auto

lemma prefixValuesLoop_eq:
  "prefixValuesLoop (64 - bits) prev a b = dedupeLoop prev (map (prefixOf bits) (mergeDup a b))"
  by (induction "64 - bits" prev a b rule: prefixValuesLoop.induct)
    (auto simp: Let_def prefixOf_def dedupeLoop_None_Some)

lemma take_mono_lex: "xs \<le> ys \<Longrightarrow> take n xs \<le> take n (ys :: 'a::linorder list)"
proof (induction n arbitrary: xs ys)
  case (Suc n)
  then show ?case by (cases xs; cases ys) auto
qed simp

lemma prefixOf_mono:
  assumes "length a \<ge> 8" "length b \<ge> 8" "a \<le> b"
  shows "prefixOf bits a \<le> prefixOf bits b"
proof -
  have "beUint64 a \<le> beUint64 b"
    using beUint64_mono [of "take 8 a" "take 8 b"] take_mono_lex [OF assms(3)] assms by simp
  then show ?thesis
    unfolding prefixOf_def word_le_nat_alt unat_drop_bit_eq by (simp add: drop_bit_eq_div div_le_mono)
qed

lemma prefixOf_limit: "bits \<le> 64 \<Longrightarrow> prefixOf bits h \<le> prefixLimit bits"
proof -
  assume b: "bits \<le> 64"
  have "unat (beUint64 h) < 2 ^ bits * 2 ^ (64 - bits)"
    using b unsigned_less [of "beUint64 h", where ?'a = nat] by (simp add: power_add [symmetric])
  then have "unat (beUint64 h) div 2 ^ (64 - bits) < 2 ^ bits" by (simp add: less_mult_imp_div_less)
  then show ?thesis
    unfolding word_le_nat_alt unat_prefixLimit [OF b] prefixOf_def unat_drop_bit_eq
    by (simp add: drop_bit_eq_div)
qed

lemma prefixValues_ok:
  assumes "strictAsc a" "strictAsc b" "\<forall>h \<in> set a \<union> set b. length h \<ge> 8" "bits \<le> 64"
  shows "set (prefixValues a b bits) = prefixOf bits ` (set a \<union> set b)" "indexValues bits (prefixValues a b bits)"
proof -
  let ?m = "mergeDup a b"
  have e: "prefixValues a b bits = dedupeLoop None (map (prefixOf bits) ?m)"
    by (simp add: prefixValues_def prefixValuesLoop_eq)
  have "sorted_wrt (\<le>) ?m" using assms by (simp add: sorted_mergeDup strictAsc_sorted)
  then have "sorted_wrt (\<lambda>x y. prefixOf bits x \<le> prefixOf bits y) ?m"
    by (rule sorted_wrt_mono_rel [rotated]) (use assms(3) prefixOf_mono in auto)
  then have s: "sorted (map (prefixOf bits) ?m)" by (simp add: sorted_wrt_map)
  show st: "set (prefixValues a b bits) = prefixOf bits ` (set a \<union> set b)"
    using set_dedupeLoop [of None "map (prefixOf bits) ?m"] by (simp add: e)
  have "strictAsc (prefixValues a b bits)"
    using dedupeLoop_lower [OF s, of None] by (simp add: e)
  then show "indexValues bits (prefixValues a b bits)"
    using st prefixOf_limit [OF assms(4)] by (auto simp: indexValues_def)
qed

lemma length_dedupeLoop: "length (dedupeLoop prev xs) \<le> length xs"
  by (induction prev xs rule: dedupeLoop.induct) auto

lemma length_mergeDup: "length (mergeDup a b) = length a + length b"
  by (induction a b rule: mergeDup.induct) auto

lemma length_prefixValues: "length (prefixValues a b bits) \<le> length a + length b"
  using length_dedupeLoop [of None "map (prefixOf bits) (mergeDup a b)"]
  by (simp add: prefixValues_def prefixValuesLoop_eq length_mergeDup)

subsection \<open>Version 1 bodies\<close>

lemma marshalWidthBody_eq:
  assumes "width > 0" "\<forall>e \<in> set es. length e = width"
  shows "\<forall>h \<in> set hs. width \<le> length h \<Longrightarrow> marshalWidthBody width (concat es) hs =
    concat (es @ dedupeLoop (if es = [] then None else Some (last es)) (map (take width) hs))"
  using assms(2)
proof (induction hs arbitrary: es)
  case (Cons h hs)
  let ?e = "take width h"
  have le: "length ?e = width" using Cons.prems(1) by simp
  have tail: "drop (length (concat es) - width) (concat es) = last es \<and> concat es \<noteq> []" if ne: "es \<noteq> []"
  proof -
    have "es = butlast es @ [last es]" using ne by simp
    then have c: "concat es = concat (butlast es) @ last es" by (metis concat.simps concat_append append_Nil2)
    moreover have "length (last es) = width" using Cons.prems(2) ne by simp
    ultimately show ?thesis using assms(1) by auto
  qed
  show ?case
  proof (cases "es \<noteq> [] \<and> last es = ?e")
    case True
    then show ?thesis using tail Cons by simp
  next
    case False
    then have "\<not> (concat es \<noteq> [] \<and> drop (length (concat es) - width) (concat es) = ?e)"
      using tail by (cases "es = []") auto
    then have "marshalWidthBody width (concat es) (h # hs) = marshalWidthBody width (concat (es @ [?e])) hs"
      by (auto simp: Let_def)
    also have "\<dots> = concat ((es @ [?e]) @ dedupeLoop (Some ?e) (map (take width) hs))"
      using Cons.IH [of "es @ [?e]"] Cons.prems le by simp
    finally show ?thesis using False by auto
  qed
qed simp

lemma concat_chunk:
  "\<forall>e \<in> set es. length e = n \<Longrightarrow> i < length es \<Longrightarrow> take n (drop (i * n) (concat es @ rest)) = es ! i"
proof (induction es arbitrary: i)
  case (Cons e es)
  then show ?case by (cases i) auto
qed simp

definition gbciEntries :: "nat \<Rightarrow> bytes list \<Rightarrow> bytes list" where
  "gbciEntries width hashes = dedupeLoop None (map (take width) hashes)"

lemma marshalGBCIWidth_eq:
  assumes "width > 0" "\<forall>h \<in> set hashes. width \<le> length h"
  shows "marshalGBCIWidth hashes width = gbciFrame gbciVersion (of_nat width) 0
    (length (gbciEntries width hashes)) (concat (gbciEntries width hashes))"
proof -
  have b: "marshalWidthBody width [] hashes = concat (gbciEntries width hashes)"
    using marshalWidthBody_eq [of width "[]" hashes] assms by (simp add: gbciEntries_def)
  have "\<forall>e \<in> set (gbciEntries width hashes). length e = width"
    using set_dedupeLoop [of None "map (take width) hashes"] assms(2) by (auto simp: gbciEntries_def)
  then have "length (concat (gbciEntries width hashes)) = length (gbciEntries width hashes) * width"
    by (induction "gbciEntries width hashes") (auto simp: length_concat sum_list_triv cong: map_cong)
  then show ?thesis using assms(1) by (simp add: marshalGBCIWidth_def b Let_def)
qed

lemma gbciEntries_lengths:
  assumes "\<forall>h \<in> set hashes. width \<le> length h"
  shows "\<forall>e \<in> set (gbciEntries width hashes). length e = width"
    "set (gbciEntries width hashes) = take width ` set hashes"
    "length (concat (gbciEntries width hashes)) = length (gbciEntries width hashes) * width"
    "length (gbciEntries width hashes) \<le> length hashes"
proof -
  show s: "set (gbciEntries width hashes) = take width ` set hashes"
    using set_dedupeLoop [of None "map (take width) hashes"] by (simp add: gbciEntries_def)
  then show l: "\<forall>e \<in> set (gbciEntries width hashes). length e = width" using assms by auto
  have "length (concat es) = length es * width" if "\<forall>e \<in> set es. length e = width" for es :: "bytes list"
    using that by (induction es) auto
  then show "length (concat (gbciEntries width hashes)) = length (gbciEntries width hashes) * width" using l by blast
  show "length (gbciEntries width hashes) \<le> length hashes"
    using length_dedupeLoop [of None "map (take width) hashes"] by (simp add: gbciEntries_def)
qed

lemma parseIndexV1_frame:
  assumes "width = gbciHashSize \<or> width = gbciPrefixSize" "\<forall>h \<in> set hashes. length h = gbciHashSize"
    "length hashes < 2 ^ 56"
  shows "parseIndexV1 ops (marshalGBCIWidth hashes width) etag =
    Inr (adoptSortedKeys ops (map (take 8) (gbciEntries width hashes)), etag)"
proof -
  define es where "es = gbciEntries width hashes"
  define blob where "blob = gbciFrame gbciVersion (of_nat width) 0 (length es) (concat es)"
  have w: "width = 32 \<or> width = 8" "width \<le> 32" "width > 0" "8 \<le> width"
    using assms(1) by (auto simp: gbciHashSize_def gbciPrefixSize_def)
  have hw: "\<forall>h \<in> set hashes. width \<le> length h" using assms(2) w by (auto simp: gbciHashSize_def)
  note es = gbciEntries_lengths [OF hw, folded es_def]
  have uw: "unat (of_nat width :: byte) = width" using w(2) by (simp add: unat_of_nat)
  have n: "unat (of_nat (length es) :: u64) = length es" using es(4) assms(3) by (simp add: unat_of_nat)
  note f = gbciFrame_fields [of gbciVersion "of_nat width" 0 "length es" "concat es", folded blob_def]
  have len: "length blob = 56 + length es * width" by (simp add: blob_def es(3))
  obtain hdr where b: "blob = hdr @ concat es @ sha256 (hdr @ concat es)" "length hdr = 24"
    using gbciFrame_split [of gbciVersion "of_nat width" 0 "length es" "concat es"] by (auto simp: blob_def)
  have k: "take 8 (drop (24 + i * width) blob) = take 8 (es ! i)" if "i < length es" for i
  proof -
    define X where "X = drop (i * width) (concat es @ sha256 (hdr @ concat es))"
    have "drop 24 blob = concat es @ sha256 (hdr @ concat es)" using b by simp
    then have "drop (24 + i * width) blob = X" unfolding X_def by (metis add.commute drop_drop)
    moreover have "take width X = es ! i" unfolding X_def by (rule concat_chunk [OF es(1) that])
    moreover have "take 8 (take width X) = take 8 X" using w(4) by (simp add: min_def)
    ultimately show ?thesis by simp
  qed
  have m: "map (\<lambda>i. take 8 (drop (gbciHeaderSize + i * width) blob)) [0..<length es] = map (take 8) es"
    using k by (intro nth_equalityI) (auto simp: gbciHeaderSize_def)
  have g: "unat (blob ! 5) = width" "leUint64 (take 8 (drop 16 blob)) = of_nat (length es)"
      "length blob - gbciHeaderSize - 32 = length es * width" "gbciHeaderSize + length es * width = length blob - 32"
    using f(3,7) uw len by (simp_all add: gbciHeaderSize_def)
  have s: "\<not> (width \<noteq> gbciHashSize \<and> width \<noteq> gbciPrefixSize)" using assms(1) by blast
  have d: "\<not> (length es * width mod width \<noteq> 0 \<or> (of_nat (length es) :: u64) \<noteq> of_nat (length es * width div width))"
    using w(3) by simp
  have "parseIndexV1 ops blob etag = Inr (adoptSortedKeys ops (map (take 8) es), etag)"
    unfolding parseIndexV1_def Let_def g if_not_P [OF s] if_not_P [OF d] using f(5) n m by simp
  then show ?thesis using marshalGBCIWidth_eq [OF w(3) hw] by (simp add: blob_def es_def)
qed

definition validForm :: "indexForm \<Rightarrow> bool" where
  "validForm form \<longleftrightarrow>
     (form_version form = gbciVersion \<and> (form_width form = gbciHashSize \<or> form_width form = gbciPrefixSize)) \<or>
     (form_version form = gbciVersion2 \<and> indexHashBitsMin \<le> form_width form \<and> form_width form \<le> indexHashBitsMax)"

definition formShift :: "indexForm \<Rightarrow> nat" where
  "formShift form = (if form_version form = gbciVersion2 then 64 - form_width form else 0)"

definition hashList :: "bytes list \<Rightarrow> bool" where
  "hashList hs \<longleftrightarrow> strictAsc hs \<and> (\<forall>h \<in> set hs. length h = gbciHashSize) \<and> length hs < 2 ^ 56"

lemma keyOf_take: "length h \<ge> 8 \<Longrightarrow> keyOf h = take 8 h"
  by (simp add: keyOf_def)

lemma adoptSortedKeysAt_ok:
  assumes "setLaws ops" "\<forall>k \<in> set keys. length k = 8 \<and> maskKey (64 - bits) k = k"
  shows "keySetOk ops (adoptSortedKeysAt ops keys bits)" "ks_shift (adoptSortedKeysAt ops keys bits) = 64 - bits"
    "hashSetElems ops (ks_keys (adoptSortedKeysAt ops keys bits)) = set keys"
  using adoptSorted_ok [OF assms(1), of keys] assms(2) by (simp_all add: keySetOk_def adoptSortedKeysAt_def)

lemma parse_marshalForm:
  assumes "setLaws ops" "hashList hashes" "validForm form"
  shows "\<exists>ks. parseIndexBlob ops (marshalForm hashes form) = Inr (ks, blobETag (marshalForm hashes form)) \<and>
    keySetOk ops ks \<and> ks_shift ks = formShift form \<and>
    hashSetElems ops (ks_keys ks) = (\<lambda>h. maskKey (formShift form) (keyOf h)) ` set hashes"
proof (cases "form_version form = gbciVersion2")
  case False
  then have f: "form_version form = gbciVersion" "form_width form = gbciHashSize \<or> form_width form = gbciPrefixSize"
    using assms(3) by (auto simp: validForm_def)
  let ?w = "form_width form" and ?keys = "map (take 8) (gbciEntries (form_width form) hashes)"
  have hl: "\<forall>h \<in> set hashes. length h = gbciHashSize" "length hashes < 2 ^ 56" "\<forall>h \<in> set hashes. ?w \<le> length h"
    and w: "8 \<le> ?w" "?w > 0"
    using assms(2) f(2) by (auto simp: hashList_def gbciHashSize_def gbciPrefixSize_def)
  have "set ?keys = (\<lambda>h. take 8 (take ?w h)) ` set hashes"
    using gbciEntries_lengths(2) [OF hl(3)] by (simp add: image_image)
  also have "\<dots> = keyOf ` set hashes"
    using hl w by (intro image_cong refl) (auto simp: keyOf_take min_def gbciHashSize_def)
  finally have keys: "set ?keys = keyOf ` set hashes" .
  have p: "parseIndexBlob ops (marshalForm hashes form) = Inr (adoptSortedKeys ops ?keys, blobETag (marshalForm hashes form))"
    using parseIndexV1_frame [OF f(2) hl(1,2), of ops] marshalGBCIWidth_eq [OF w(2) hl(3)] False
      gbciFrame_fields [of gbciVersion "of_nat ?w" 0]
    by (simp add: parseIndexBlob_def marshalForm_def gbciHeaderSize_def blobETag_def)
  have "\<forall>k \<in> set ?keys. length k = 8 \<and> maskKey (64 - 64) k = k" using keys by (auto simp: maskKey_0)
  note a = adoptSortedKeysAt_ok [OF assms(1) this, folded adoptSortedKeys_def]
  have "(\<lambda>h. maskKey 0 (keyOf h)) ` set hashes = keyOf ` set hashes" by (simp add: maskKey_0)
  then show ?thesis using p a keys False by (auto simp: formShift_def)
next
  case True
  let ?w = "form_width form" and ?vals = "prefixValues hashes [] (form_width form)"
  have w: "indexHashBitsMin \<le> ?w" "?w \<le> indexHashBitsMax" "?w \<le> 64"
    using assms(3) True by (auto simp: validForm_def gbciVersion_def gbciVersion2_def indexHashBitsMax_def)
  have hl: "strictAsc hashes" "\<forall>h \<in> set hashes \<union> set []. 8 \<le> length h" "length ?vals < 2 ^ 56" "strictAsc ([] :: bytes list)"
    using assms(2) length_prefixValues [of hashes "[]" ?w] by (auto simp: hashList_def gbciHashSize_def)
  note pv = prefixValues_ok [OF hl(1,4,2) w(3)]
  let ?keys = "map (\<lambda>v. bePut64 (push_bit (64 - ?w) v)) ?vals"
  have mk: "bePut64 (push_bit (64 - ?w) (prefixOf ?w h)) = maskKey (64 - ?w) (keyOf h)" if "h \<in> set hashes" for h
    using hl(2) that by (simp add: prefixOf_def maskKey_def keyOf_take and_keyMask)
  have keys: "set ?keys = (\<lambda>h. maskKey (64 - ?w) (keyOf h)) ` set hashes"
    using pv(1) mk by (simp add: image_image)
  have v: "ParseIndexV2 (marshalGBCI2 ?w ?vals) = Inr (?vals, ?w)"
    by (rule ParseIndexV2_roundtrip [OF pv(2) w(1,2) hl(3)])
  have p: "parseIndexBlob ops (marshalForm hashes form) =
      Inr (adoptSortedKeysAt ops ?keys ?w, blobETag (marshalForm hashes form))"
    using v True gbciFrame_fields(1,2) [of gbciVersion2] 
    by (simp add: parseIndexBlob_def marshalForm_def marshalGBCI2_eq Let_def gbciHeaderSize_def blobETag_def
         gbciVersion_def gbciVersion2_def)
  have "\<forall>k \<in> set ?keys. length k = 8 \<and> maskKey (64 - ?w) k = k" unfolding keys by (auto simp: maskKey_maskKey)
  from adoptSortedKeysAt_ok [OF assms(1) this] show ?thesis using p keys True by (auto simp: formShift_def)
qed

lemma parse_marshalGBCI2:
  assumes "setLaws ops" "indexValues w vals" "indexHashBitsMin \<le> w" "w \<le> indexHashBitsMax" "length vals < 2 ^ 56"
  shows "parseIndexBlob ops (marshalGBCI2 w vals) =
    Inr (adoptSortedKeysAt ops (map (\<lambda>v. bePut64 (push_bit (64 - w) v)) vals) w, blobETag (marshalGBCI2 w vals))"
  using ParseIndexV2_roundtrip [OF assms(2-5)] gbciFrame_fields(1,2) [of gbciVersion2]
  by (simp add: parseIndexBlob_def marshalGBCI2_eq Let_def gbciHeaderSize_def blobETag_def
       gbciVersion_def gbciVersion2_def)

lemma drop_bit_masked_less:
  assumes "x < y" "x AND keyMask shift = x" "y AND keyMask shift = (y :: u64)"
  shows "drop_bit shift x < drop_bit shift y"
proof -
  have "drop_bit shift x \<noteq> drop_bit shift y" using assms and_keyMask by (metis order.irrefl)
  moreover have "drop_bit shift x \<le> drop_bit shift y"
    using assms(1) unfolding word_le_nat_alt word_less_nat_alt unat_drop_bit_eq
    by (simp add: drop_bit_eq_div div_le_mono)
  ultimately show ?thesis by simp
qed

lemma marshalIndex_ok:
  assumes "setLaws ops" "keySetOk ops ks" "ks_shift ks \<le> 32" "card (hashSetElems ops (ks_keys ks)) < 2 ^ 56"
  shows "\<exists>blob ks'. marshalIndex ops ks = Inr blob \<and> parseIndexBlob ops blob = Inr (ks', blobETag blob) \<and>
    keySetOk ops ks' \<and> ks_shift ks' = ks_shift ks \<and> hashSetElems ops (ks_keys ks') = hashSetElems ops (ks_keys ks)"
proof -
  let ?E = "hashSetElems ops (ks_keys ks)" and ?sh = "ks_shift ks" and ?w = "keySet_width ks"
  define sks where "sks = sort (keySet_All ops (Some ks))"
  define vals where "vals = map (\<lambda>k. drop_bit ?sh (beUint64 k)) sks"
  have all: "distinct (keySet_All ops (Some ks))" "set (keySet_All ops (Some ks)) = ?E"
    using hashSet_All_ok [OF assms(1)] assms(2) by (simp_all add: keySet_All_def keySetOk_def)
  have asc: "strictAsc sks" "set sks = ?E" using all by (auto simp: sks_def strict_sorted_iff)
  have E: "\<forall>k \<in> ?E. length k = 8 \<and> maskKey ?sh k = k" using assms(2) by (simp add: keySetOk_def)
  have masked: "beUint64 k AND keyMask ?sh = beUint64 k" if "k \<in> ?E" for k
    using E that by (metis beUint64_bePut64 maskKey_def)
  have w: "?w = 64 - ?sh" "64 - ?w = ?sh" "indexHashBitsMin \<le> ?w" "?w \<le> indexHashBitsMax" "?w \<le> 64"
    using assms(3) by (simp_all add: keySet_width_def indexHashBitsMin_def indexHashBitsMax_def)
  have lt: "drop_bit ?sh (beUint64 a) < drop_bit ?sh (beUint64 b)" if "a \<in> ?E" "b \<in> ?E" "a < b" for a b
    using that E masked beNat_less_iff [of a b]
    by (intro drop_bit_masked_less) (auto simp: word_less_nat_alt unat_beUint64)
  have "sorted_wrt (\<lambda>a b. drop_bit ?sh (beUint64 a) < drop_bit ?sh (beUint64 b)) sks"
    by (rule sorted_wrt_mono_rel [OF _ asc(1)]) (use lt asc(2) in auto)
  then have iv: "indexValues ?w vals"
    using prefixOf_limit [OF w(5)] w(2) by (auto simp: indexValues_def vals_def sorted_wrt_map prefixOf_def)
  have len: "length vals < 2 ^ 56"
    using assms(4) all distinct_card [of "keySet_All ops (Some ks)"] by (simp add: vals_def sks_def)
  have m: "marshalIndex ops ks = Inr (marshalGBCI2 ?w vals)"
    using MarshalIndexV2_eq [OF w(3,4) iv] by (simp add: marshalIndex_def vals_def sks_def)
  have ks: "map (\<lambda>v. bePut64 (push_bit (64 - ?w) v)) vals = sks"
    unfolding vals_def map_map w(2)
  proof (rule map_idI)
    fix k assume "k \<in> set sks"
    then show "((\<lambda>v. bePut64 (push_bit ?sh v)) \<circ> (\<lambda>k. drop_bit ?sh (beUint64 k))) k = k"
      using E asc(2) by (simp add: maskKey_def flip: and_keyMask)
  qed
  note a = adoptSortedKeysAt_ok [OF assms(1), of sks ?w]
  show ?thesis using m parse_marshalGBCI2 [OF assms(1) iv w(3,4) len] a E asc(2) w(2) unfolding ks by auto
qed

subsection \<open>Properties\<close>

text \<open>(C12) What the client learns from a blob: whatever form the server serves the index in, the client's
  decoder accepts it, derives the ETag the server sends with it, and holds a key set in which a lookup
  succeeds exactly for the hashes that agree with a served hash on the bits of that form.  In
  particular no served hash is ever reported absent.\<close>

theorem parseIndexBlob_marshalForm:
  assumes "setLaws ops" "hashList hashes" "validForm form"
  shows "\<exists>ks. parseIndexBlob ops (marshalForm hashes form) = Inr (ks, blobETag (marshalForm hashes form)) \<and>
    (\<forall>h. keySet_Contains ops (Some ks) h =
       (\<exists>h' \<in> set hashes. maskKey (formShift form) (keyOf h') = maskKey (formShift form) (keyOf h)))"
proof -
  obtain ks where ks: "parseIndexBlob ops (marshalForm hashes form) = Inr (ks, blobETag (marshalForm hashes form))"
    "keySetOk ops ks" "ks_shift ks = formShift form"
    "hashSetElems ops (ks_keys ks) = (\<lambda>h. maskKey (formShift form) (keyOf h)) ` set hashes"
    using parse_marshalForm [OF assms] by blast
  then have "keySet_Contains ops (Some ks) h =
       (\<exists>h' \<in> set hashes. maskKey (formShift form) (keyOf h') = maskKey (formShift form) (keyOf h))" for h
    by (auto simp: keySet_Contains_def keySetOk_def hashSet_Contains_iff keySet_key_def intro: rev_image_eqI)
  then show ?thesis using ks(1) by blast
qed

theorem parseIndexBlob_marshalForm_witness:
  "\<exists>ks. parseIndexBlob fsetOps (marshalForm [replicate 32 1, replicate 32 2] \<lparr>form_version = 2, form_width = 40\<rparr>) =
     Inr (ks, blobETag (marshalForm [replicate 32 1, replicate 32 2] \<lparr>form_version = 2, form_width = 40\<rparr>)) \<and>
     keySet_Contains fsetOps (Some ks) (replicate 32 2)"
proof -
  have "replicate 32 x = x # replicate 31 x" for x :: byte by (simp flip: replicate_Suc)
  then have "hashList [replicate 32 1, replicate 32 2]" by (simp add: hashList_def gbciHashSize_def)
  from parseIndexBlob_marshalForm [OF setLaws_fsetOps this, of "\<lparr>form_version = 2, form_width = 40\<rparr>"]
  show ?thesis by (auto simp: validForm_def gbciVersion2_def indexHashBitsMin_def indexHashBitsMax_def)
qed

text \<open>The client's disk copy: merging a delta into the copy writes a blob that decodes to exactly the
  union of the copy's keys and the delta's, at the narrower of the two widths, and never panics.\<close>

theorem mergeIndexBlob_union:
  assumes "setLaws ops" "parseIndexBlob ops base = Inr (ks, etag)" "keySetOk ops ks" "keySetOk ops added"
    "ks_shift ks \<le> 32" "ks_shift added \<le> 32"
    "card (hashSetElems ops (ks_keys (keySet_addAll ops ks added))) < 2 ^ 56"
  shows "\<exists>blob ks'. mergeIndexBlob ops base added = Inr blob \<and> parseIndexBlob ops blob = Inr (ks', blobETag blob) \<and>
    ks_shift ks' = max (ks_shift ks) (ks_shift added) \<and>
    hashSetElems ops (ks_keys ks') = maskKey (max (ks_shift ks) (ks_shift added)) `
      (hashSetElems ops (ks_keys ks) \<union> hashSetElems ops (ks_keys added))"
proof -
  note a = keySet_addAll_ok [OF assms(1,3,4)]
  have "ks_shift (keySet_addAll ops ks added) \<le> 32" using a(2) assms(5,6) by simp
  from marshalIndex_ok [OF assms(1) a(1) this assms(7)] show ?thesis
    using a assms(2) by (auto simp: mergeIndexBlob_def)
qed

theorem mergeIndexBlob_union_witness:
  "\<exists>blob. mergeIndexBlob fsetOps (marshalGBCI2 40 [5]) (demoKeySet [replicate 8 9] 64) = Inr blob"
proof -
  let ?ks = "adoptSortedKeysAt fsetOps (map (\<lambda>v. bePut64 (push_bit (64 - 40) v)) [5]) 40"
  have iv: "indexValues 40 [5]" by (simp add: indexValues_def prefixLimit_def)
  have p: "parseIndexBlob fsetOps (marshalGBCI2 40 [5]) = Inr (?ks, blobETag (marshalGBCI2 40 [5]))"
    by (rule parse_marshalGBCI2 [OF setLaws_fsetOps iv]) (simp_all add: indexHashBitsMin_def indexHashBitsMax_def)
  have "bePut64 (push_bit 24 5) = maskKey 24 (bePut64 (push_bit 24 5))"
    by (simp add: maskKey_def keyMask_def mask_eq_exp_minus_1)
  then have ks: "keySetOk fsetOps ?ks" "ks_shift ?ks = 24" "hashSetElems fsetOps (ks_keys ?ks) = {bePut64 (push_bit 24 5)}"
    using adoptSortedKeysAt_ok [OF setLaws_fsetOps, of "map (\<lambda>v. bePut64 (push_bit (64 - 40) v)) [5]" 40] by simp_all
  have d: "keySetOk fsetOps (demoKeySet [replicate 8 9] 64)" "ks_shift (demoKeySet [replicate 8 9] 64) = 0"
    "hashSetElems fsetOps (ks_keys (demoKeySet [replicate 8 9] 64)) = {maskKey 0 (replicate 8 9)}"
    using demoKeySet_ok [of "[replicate 8 9]" 64] by (simp_all add: demoKeySet_def adoptSortedKeysAt_def adoptSorted_ok [OF setLaws_fsetOps])
  have c: "card (hashSetElems fsetOps (ks_keys (keySet_addAll fsetOps ?ks (demoKeySet [replicate 8 9] 64)))) \<le> 2"
    unfolding keySet_addAll_ok(3) [OF setLaws_fsetOps ks(1) d(1)] ks(3) d(3)
    by (rule order_trans [OF card_image_le]) (auto simp: card_insert_if)
  from mergeIndexBlob_union [OF setLaws_fsetOps p ks(1) d(1)] show ?thesis
    using ks(2) d(2) c by fastforce
qed

end
