(* ===== verification/IndexState.thy ===== *)
theory IndexState
  imports GbciBlob "HOL-Library.Signed_Division"
begin

text \<open>
  The server's in-memory index (\<^verbatim>\<open>index.go\<close>, \<^verbatim>\<open>indexdelta.go\<close>).  Each method of
  \<^verbatim>\<open>Index\<close> runs under its mutex and is one function on the record \<open>Index\<close>.  The clock and the
  random epoch a method may draw are arguments.  Lengths, sequence numbers and the mutation counter are
  natural numbers.  A nil blob is the empty list and a nil map is the empty map.  The gauges a method
  refreshes are left out.
\<close>

subsection \<open>State\<close>

record indexGen =
  gen_epoch :: u64
  gen_seq :: nat

record indexEntry =
  ie_key :: compactKey
  ie_mtimeUnix :: int

record indexBlobCache =
  c_blob :: bytes
  c_etag :: string
  c_gen :: indexGen
  c_builtAt :: int
  c_mutation :: nat

record Index =
  ix_entries :: "indexEntry list"
  ix_entriesOff :: bool
  ix_pendingEntries :: "indexEntry list"
  ix_hashes :: "actionHash list"
  ix_pending :: "actionHash list"
  ix_mutations :: nat
  ix_forms :: "indexForm \<Rightarrow> indexBlobCache option"
  ix_blobMinInterval :: int
  ix_hashBits :: nat
  ix_addEpoch :: u64
  ix_added :: "actionHash list"
  ix_addLogLimit :: nat

definition zeroTime :: int where
  "zeroTime = - 62135596800 * 1000000000"

definition maxDuration :: int where
  "maxDuration = 2 ^ 63 - 1"

text \<open>\<^verbatim>\<open>time.Since\<close> saturates at the ends of the duration range.\<close>

definition timeSince :: "int \<Rightarrow> int \<Rightarrow> int" where
  "timeSince now t = max (- (2 ^ 63)) (min maxDuration (now - t))"

definition defaultIndexHashBits :: nat where
  "defaultIndexHashBits = 40"

definition defaultIndexBlobInterval :: int where
  "defaultIndexBlobInterval = 15 * 1000000000"

definition maxAddLog :: nat where
  "maxAddLog = 2 ^ 20"

subsection \<open>Settings\<close>

definition SetHashBits :: "nat \<Rightarrow> Index \<Rightarrow> Index" where
  "SetHashBits n idx = idx\<lparr>ix_hashBits := n, ix_forms := (\<lambda>_. None)\<rparr>"

definition hashBitsLocked :: "Index \<Rightarrow> nat" where
  "hashBitsLocked idx = (if ix_hashBits idx = 0 then defaultIndexHashBits else ix_hashBits idx)"

definition FormV2 :: "Index \<Rightarrow> indexForm" where
  "FormV2 idx = \<lparr>form_version = gbciVersion2, form_width = hashBitsLocked idx\<rparr>"

definition SetBlobInterval :: "int \<Rightarrow> Index \<Rightarrow> Index" where
  "SetBlobInterval d idx = idx\<lparr>ix_blobMinInterval := d\<rparr>"

definition DisableEntryTracking :: "Index \<Rightarrow> Index" where
  "DisableEntryTracking idx = idx\<lparr>ix_entriesOff := True, ix_entries := [], ix_pendingEntries := []\<rparr>"

definition EntryTrackingEnabled :: "Index \<Rightarrow> bool" where
  "EntryTrackingEnabled idx = (\<not> ix_entriesOff idx)"

subsection \<open>The add log\<close>

definition resetAddLogLocked :: "u64 \<Rightarrow> Index \<Rightarrow> Index" where
  "resetAddLogLocked epoch idx =
     idx\<lparr>ix_addEpoch := epoch, ix_added := [], ix_mutations := ix_mutations idx + 1,
         ix_forms := (\<lambda>f. map_option (\<lambda>c. c\<lparr>c_builtAt := zeroTime\<rparr>) (ix_forms idx f))\<rparr>"

definition appendAddLocked :: "u64 \<Rightarrow> actionHash \<Rightarrow> Index \<Rightarrow> Index" where
  "appendAddLocked epoch hash idx =
     (let limit = (if ix_addLogLimit idx = 0 then maxAddLog else ix_addLogLimit idx);
          idx1 = (if length (ix_added idx) \<ge> limit then resetAddLogLocked epoch idx else idx)
      in idx1\<lparr>ix_added := ix_added idx1 @ [hash]\<rparr>)"

subsection \<open>Changes\<close>

definition Index_Put :: "int \<Rightarrow> u64 \<Rightarrow> string \<Rightarrow> Index \<Rightarrow> Index" where
  "Index_Put now epoch key idx =
     (let ck = newCompactKey key; (hash, hashOK) = compactKey_actionHash ck;
          idx1 = (if \<not> ix_entriesOff idx
                  then idx\<lparr>ix_pendingEntries := ix_pendingEntries idx @ [\<lparr>ie_key = ck, ie_mtimeUnix = now\<rparr>]\<rparr>
                  else idx)
      in if hashOK
         then let idx2 = appendAddLocked epoch hash (idx1\<lparr>ix_pending := ix_pending idx1 @ [hash]\<rparr>)
              in idx2\<lparr>ix_mutations := ix_mutations idx2 + 1\<rparr>
         else idx1)"

text \<open>\<^verbatim>\<open>sort.Slice\<close> leaves the order of entries with equal times open; the model takes the one of a stable sort.  The
  theorems use that the result is a sorted rearrangement, not which of them.\<close>

definition sortEntriesByMtime :: "indexEntry list \<Rightarrow> indexEntry list" where
  "sortEntriesByMtime es = sort_key ie_mtimeUnix es"

definition drainEntriesLocked :: "Index \<Rightarrow> Index" where
  "drainEntriesLocked idx =
     (if ix_pendingEntries idx = [] then idx
      else idx\<lparr>ix_entries := sortEntriesByMtime (ix_entries idx @ ix_pendingEntries idx), ix_pendingEntries := []\<rparr>)"

fun dropFirstEntry :: "compactKey \<Rightarrow> indexEntry list \<Rightarrow> indexEntry list" where
  "dropFirstEntry ck [] = []"
| "dropFirstEntry ck (e # es) = (if ie_key e = ck then es else e # dropFirstEntry ck es)"

definition Index_Remove :: "u64 \<Rightarrow> string \<Rightarrow> Index \<Rightarrow> Index" where
  "Index_Remove epoch key idx =
     (let ck = newCompactKey key; (hash, hashOK) = compactKey_actionHash ck;
          idx1 = drainEntriesLocked idx;
          idx2 = idx1\<lparr>ix_entries := dropFirstEntry ck (ix_entries idx1)\<rparr>
      in if hashOK
         then resetAddLogLocked epoch
                (idx2\<lparr>ix_pending := removeHash (ix_pending idx2) hash, ix_hashes := removeHash (ix_hashes idx2) hash\<rparr>)
         else idx2)"

fun victimHashes :: "string list \<Rightarrow> actionHash list" where
  "victimHashes [] = []"
| "victimHashes (k # ks) =
     (let (h, ok) = compactKey_actionHash (newCompactKey k) in
      if ok then h # victimHashes ks else victimHashes ks)"

definition Index_RemoveKeys :: "(compactKey, 's) setOps \<Rightarrow> u64 \<Rightarrow> string list \<Rightarrow> Index \<Rightarrow> Index" where
  "Index_RemoveKeys ops epoch keys idx =
     (if keys = [] then idx
      else let victimKeys = foldl (set_add ops) (set_new ops) (map newCompactKey keys);
               victims = victimHashes keys;
               idx1 = drainEntriesLocked idx;
               idx2 = idx1\<lparr>ix_entries := filter (\<lambda>e. \<not> set_contains ops victimKeys (ie_key e)) (ix_entries idx1)\<rparr>
           in if victims \<noteq> []
              then resetAddLogLocked epoch
                     (idx2\<lparr>ix_hashes := filterHashes (ix_hashes idx2) (\<lambda>x. x \<in> set victims),
                           ix_pending := filterHashes (ix_pending idx2) (\<lambda>x. x \<in> set victims)\<rparr>)
              else idx2)"

subsection \<open>Lookup and serialization\<close>

definition Index_Contains :: "Index \<Rightarrow> actionHash \<Rightarrow> bool" where
  "Index_Contains idx h =
     (if containsSorted (ix_hashes idx) h then True else h \<in> set (ix_pending idx))"

definition blobServableLocked :: "int \<Rightarrow> Index \<Rightarrow> indexBlobCache option \<Rightarrow> bool" where
  "blobServableLocked now idx c =
     (case c of None \<Rightarrow> False
      | Some c \<Rightarrow>
          if c_blob c = [] then False
          else c_mutation c = ix_mutations idx \<or> timeSince now (c_builtAt c) < ix_blobMinInterval idx)"

definition mergePendingLocked :: "Index \<Rightarrow> indexGen \<times> Index" where
  "mergePendingLocked idx =
     (let idx1 = (if ix_pending idx \<noteq> []
                  then idx\<lparr>ix_hashes := mergeSortedHashes (ix_hashes idx) (sortDedupeHashes (ix_pending idx)),
                           ix_pending := []\<rparr>
                  else idx)
      in (\<lparr>gen_epoch = ix_addEpoch idx1, gen_seq = length (ix_added idx1)\<rparr>, idx1))"

definition BlobGenForm :: "int \<Rightarrow> indexForm \<Rightarrow> Index \<Rightarrow> (bytes \<times> string \<times> indexGen) \<times> Index" where
  "BlobGenForm now form idx =
     (let c = ix_forms idx form in
      if blobServableLocked now idx c then ((c_blob (the c), c_etag (the c), c_gen (the c)), idx)
      else let (gen, idx1) = mergePendingLocked idx;
               blob = marshalForm (ix_hashes idx1) form;
               c' = \<lparr>c_blob = blob, c_etag = blobETag blob, c_gen = gen, c_builtAt = now,
                     c_mutation = ix_mutations idx1\<rparr>
           in ((c_blob c', c_etag c', c_gen c'), idx1\<lparr>ix_forms := (ix_forms idx1)(form := Some c')\<rparr>))"

definition BlobGen :: "int \<Rightarrow> Index \<Rightarrow> (bytes \<times> string \<times> indexGen) \<times> Index" where
  "BlobGen now idx = BlobGenForm now (indexFormV1 gbciHashSize) idx"

definition Blob :: "int \<Rightarrow> Index \<Rightarrow> (bytes \<times> string) \<times> Index" where
  "Blob now idx = (let ((blob, etag, _), idx') = BlobGen now idx in ((blob, etag), idx'))"

definition BlobGenFormat :: "int \<Rightarrow> gbciFormat \<Rightarrow> Index \<Rightarrow> (bytes \<times> string \<times> indexGen) \<times> Index" where
  "BlobGenFormat now f idx = BlobGenForm now (gbciFormat_form f) idx"

definition DeltaForm :: "indexGen \<Rightarrow> indexForm \<Rightarrow> Index \<Rightarrow> (bytes \<times> indexGen) option" where
  "DeltaForm from form idx =
     (if gen_epoch from \<noteq> ix_addEpoch idx \<or> gen_seq from > length (ix_added idx) then None
      else Some (marshalForm (sortDedupeHashes (drop (gen_seq from) (ix_added idx))) form,
                 \<lparr>gen_epoch = ix_addEpoch idx, gen_seq = length (ix_added idx)\<rparr>))"

definition Delta :: "indexGen \<Rightarrow> Index \<Rightarrow> (bytes \<times> indexGen) option" where
  "Delta from idx = DeltaForm from (indexFormV1 gbciHashSize) idx"

definition DeltaFormat :: "indexGen \<Rightarrow> gbciFormat \<Rightarrow> Index \<Rightarrow> (bytes \<times> indexGen) option" where
  "DeltaFormat from f idx = DeltaForm from (gbciFormat_form f) idx"

definition WireSize :: "int \<Rightarrow> Index \<Rightarrow> int" where
  "WireSize now idx =
     (let bits = hashBitsLocked idx;
          c = ix_forms idx \<lparr>form_version = gbciVersion2, form_width = bits\<rparr> in
      if blobServableLocked now idx c then int (length (c_blob (the c)))
      else let fresh = (if ix_pending idx \<noteq> [] then sortDedupeHashes (ix_pending idx) else [])
           in int (gbci2Size bits (prefixValues (ix_hashes idx) fresh bits)))"

subsection \<open>Rebuilds\<close>

record listObject =
  lo_key :: string
  lo_lastModified :: int

record indexBuild =
  ib_entries :: "indexEntry list"
  ib_hashes :: "actionHash list"
  ib_sorted :: bool
  ib_entriesOff :: bool

definition newIndexBuild :: "nat \<Rightarrow> bool \<Rightarrow> indexBuild" where
  "newIndexBuild sizeHint entriesOff =
     \<lparr>ib_entries = [], ib_hashes = [], ib_sorted = False, ib_entriesOff = entriesOff\<rparr>"

definition indexBuild_add :: "indexBuild \<Rightarrow> listObject \<Rightarrow> indexBuild" where
  "indexBuild_add b obj =
     (let ck = newCompactKey (lo_key obj);
          b1 = (if \<not> ib_entriesOff b
                then b\<lparr>ib_entries := ib_entries b @ [\<lparr>ie_key = ck, ie_mtimeUnix = lo_lastModified obj\<rparr>]\<rparr>
                else b);
          (h, ok) = compactKey_actionHash ck
      in if ok then b1\<lparr>ib_hashes := ib_hashes b1 @ [h]\<rparr> else b1)"

definition indexBuild_finish :: "indexBuild \<Rightarrow> indexBuild" where
  "indexBuild_finish b =
     (if ib_sorted b then b
      else b\<lparr>ib_entries := sortEntriesByMtime (ib_entries b), ib_hashes := sortDedupeHashes (ib_hashes b),
             ib_sorted := True\<rparr>)"

definition applyRebuild :: "u64 \<Rightarrow> indexBuild \<Rightarrow> Index \<Rightarrow> (nat \<times> nat) \<times> Index" where
  "applyRebuild epoch b0 idx =
     (let b = indexBuild_finish b0;
          idx1 = idx\<lparr>ix_entries := ib_entries b, ix_hashes := ib_hashes b, ix_forms := (\<lambda>_. None)\<rparr>;
          idx2 = resetAddLogLocked epoch idx1
      in ((length (ib_entries b), length (ix_hashes idx2) + length (ix_pending idx2)), idx2))"

definition hashCount :: "Index \<Rightarrow> nat" where
  "hashCount idx = length (ix_hashes idx) + length (ix_pending idx)"

text \<open>\<^verbatim>\<open>rebuild\<close> with the objects the walk reported, or none when the walk failed.\<close>

definition Index_rebuild :: "u64 \<Rightarrow> listObject list option \<Rightarrow> Index \<Rightarrow> Index" where
  "Index_rebuild epoch walk idx =
     (case walk of None \<Rightarrow> idx
      | Some objs \<Rightarrow>
          let b = foldl indexBuild_add (newIndexBuild (hashCount idx) (\<not> EntryTrackingEnabled idx)) objs
          in snd (applyRebuild epoch (indexBuild_finish b) idx))"

definition emptyIndex :: "u64 \<Rightarrow> bool \<Rightarrow> Index" where
  "emptyIndex epoch entriesDefault =
     \<lparr>ix_entries = [], ix_entriesOff = \<not> entriesDefault, ix_pendingEntries = [], ix_hashes = [], ix_pending = [],
      ix_mutations = 0, ix_forms = (\<lambda>_. None), ix_blobMinInterval = defaultIndexBlobInterval, ix_hashBits = 0,
      ix_addEpoch = epoch, ix_added = [], ix_addLogLimit = 0\<rparr>"

definition NewIndex :: "bool \<Rightarrow> u64 \<Rightarrow> u64 \<Rightarrow> listObject list option \<Rightarrow> Index" where
  "NewIndex entriesDefault epoch epoch2 walk = Index_rebuild epoch2 walk (emptyIndex epoch entriesDefault)"

subsection \<open>What the index advertises\<close>

definition advertised :: "Index \<Rightarrow> actionHash set" where
  "advertised idx = set (ix_hashes idx) \<union> set (ix_pending idx)"

definition keyHash :: "string \<Rightarrow> actionHash option" where
  "keyHash key = (let (h, ok) = compactKey_actionHash (newCompactKey key) in if ok then Some h else None)"

definition indexOk :: "Index \<Rightarrow> bool" where
  "indexOk idx \<longleftrightarrow> strictAsc (ix_hashes idx) \<and> (\<forall>h \<in> advertised idx. length h = 32) \<and>
     set (ix_added idx) \<subseteq> advertised idx \<and>
     (\<forall>f c. ix_forms idx f = Some c \<longrightarrow> c_mutation c \<le> ix_mutations idx)"

lemma set_dropFirstEntry: "set (dropFirstEntry ck es) \<subseteq> set es"
  by (induction es) auto

lemma keyHash_length: "keyHash key = Some h \<Longrightarrow> length h = 32"
  by (auto simp: keyHash_def compactKey_actionHash_def newCompactKey_def split: prod.splits if_splits)
    (metis extractActionHash_length fst_conv)

lemma keyHash_keyOfHash: "length h = 32 \<Longrightarrow> keyHash (keyOfHash h) = Some h"
  by (simp add: keyHash_def compactKey_actionHash_def newCompactKey_def)

lemma set_victimHashes: "set (victimHashes keys) = {h. \<exists>k \<in> set keys. keyHash k = Some h}"
  by (induction keys) (auto simp: keyHash_def Let_def split: prod.splits if_splits)

text \<open>The fields a change to the entry list leaves alone.\<close>

lemma drainEntries_fields [simp]:
  "ix_hashes (drainEntriesLocked idx) = ix_hashes idx" "ix_pending (drainEntriesLocked idx) = ix_pending idx"
  "ix_mutations (drainEntriesLocked idx) = ix_mutations idx" "ix_forms (drainEntriesLocked idx) = ix_forms idx"
  "ix_addEpoch (drainEntriesLocked idx) = ix_addEpoch idx" "ix_added (drainEntriesLocked idx) = ix_added idx"
  "ix_blobMinInterval (drainEntriesLocked idx) = ix_blobMinInterval idx"
  by (simp_all add: drainEntriesLocked_def)

lemma resetAddLog_fields [simp]:
  "ix_hashes (resetAddLogLocked e idx) = ix_hashes idx" "ix_pending (resetAddLogLocked e idx) = ix_pending idx"
  "ix_mutations (resetAddLogLocked e idx) = ix_mutations idx + 1" "ix_addEpoch (resetAddLogLocked e idx) = e"
  "ix_added (resetAddLogLocked e idx) = []" "advertised (resetAddLogLocked e idx) = advertised idx"
  "ix_blobMinInterval (resetAddLogLocked e idx) = ix_blobMinInterval idx"
  "ix_forms (resetAddLogLocked e idx) f = map_option (\<lambda>c. c\<lparr>c_builtAt := zeroTime\<rparr>) (ix_forms idx f)"
  by (simp_all add: resetAddLogLocked_def advertised_def)

text \<open>Each change, by what it does to the log: nothing, one more hash, or a new epoch.\<close>

lemma Index_Put_none:
  assumes "keyHash key = None"
  shows "ix_hashes (Index_Put now e key idx) = ix_hashes idx" "ix_pending (Index_Put now e key idx) = ix_pending idx"
    "ix_mutations (Index_Put now e key idx) = ix_mutations idx" "ix_forms (Index_Put now e key idx) = ix_forms idx"
    "ix_addEpoch (Index_Put now e key idx) = ix_addEpoch idx" "ix_added (Index_Put now e key idx) = ix_added idx"
  using assms by (auto simp: Index_Put_def keyHash_def Let_def split: prod.splits if_splits)

definition logFull :: "Index \<Rightarrow> bool" where
  "logFull idx \<longleftrightarrow> length (ix_added idx) \<ge> (if ix_addLogLimit idx = 0 then maxAddLog else ix_addLogLimit idx)"

lemma Index_Put_hash:
  assumes "keyHash key = Some h"
  shows "ix_hashes (Index_Put now e key idx) = ix_hashes idx" "ix_pending (Index_Put now e key idx) = ix_pending idx @ [h]"
    "advertised (Index_Put now e key idx) = insert h (advertised idx)"
    "ix_mutations (Index_Put now e key idx) > ix_mutations idx"
    "ix_forms (Index_Put now e key idx) f =
       (if logFull idx then map_option (\<lambda>c. c\<lparr>c_builtAt := zeroTime\<rparr>) (ix_forms idx f) else ix_forms idx f)"
    "ix_addEpoch (Index_Put now e key idx) = (if logFull idx then e else ix_addEpoch idx)"
    "ix_added (Index_Put now e key idx) = (if logFull idx then [h] else ix_added idx @ [h])"
  using assms
  by (auto simp: Index_Put_def keyHash_def Let_def logFull_def appendAddLocked_def advertised_def
      split: prod.splits if_splits)

lemma Index_Remove_none:
  assumes "keyHash key = None"
  shows "ix_hashes (Index_Remove e key idx) = ix_hashes idx" "ix_pending (Index_Remove e key idx) = ix_pending idx"
    "ix_mutations (Index_Remove e key idx) = ix_mutations idx" "ix_forms (Index_Remove e key idx) = ix_forms idx"
    "ix_addEpoch (Index_Remove e key idx) = ix_addEpoch idx" "ix_added (Index_Remove e key idx) = ix_added idx"
  using assms by (auto simp: Index_Remove_def keyHash_def Let_def split: prod.splits if_splits)

lemma Index_Remove_hash:
  assumes "keyHash key = Some h"
  shows "ix_hashes (Index_Remove e key idx) = removeHash (ix_hashes idx) h"
    "ix_pending (Index_Remove e key idx) = removeHash (ix_pending idx) h"
    "ix_mutations (Index_Remove e key idx) = ix_mutations idx + 1"
    "ix_forms (Index_Remove e key idx) f = map_option (\<lambda>c. c\<lparr>c_builtAt := zeroTime\<rparr>) (ix_forms idx f)"
    "ix_addEpoch (Index_Remove e key idx) = e" "ix_added (Index_Remove e key idx) = []"
    "ix_blobMinInterval (Index_Remove e key idx) = ix_blobMinInterval idx"
  using assms by (auto simp: Index_Remove_def keyHash_def Let_def split: prod.splits if_splits)

lemma Index_RemoveKeys_none:
  assumes "victimHashes keys = []"
  shows "ix_hashes (Index_RemoveKeys ops e keys idx) = ix_hashes idx" "ix_pending (Index_RemoveKeys ops e keys idx) = ix_pending idx"
    "ix_mutations (Index_RemoveKeys ops e keys idx) = ix_mutations idx" "ix_forms (Index_RemoveKeys ops e keys idx) = ix_forms idx"
    "ix_addEpoch (Index_RemoveKeys ops e keys idx) = ix_addEpoch idx" "ix_added (Index_RemoveKeys ops e keys idx) = ix_added idx"
  using assms by (simp_all add: Index_RemoveKeys_def Let_def)

lemma Index_RemoveKeys_hash:
  assumes "victimHashes keys \<noteq> []"
  shows "ix_hashes (Index_RemoveKeys ops e keys idx) = filterHashes (ix_hashes idx) (\<lambda>x. x \<in> set (victimHashes keys))"
    "ix_pending (Index_RemoveKeys ops e keys idx) = filterHashes (ix_pending idx) (\<lambda>x. x \<in> set (victimHashes keys))"
    "ix_mutations (Index_RemoveKeys ops e keys idx) = ix_mutations idx + 1"
    "ix_forms (Index_RemoveKeys ops e keys idx) f = map_option (\<lambda>c. c\<lparr>c_builtAt := zeroTime\<rparr>) (ix_forms idx f)"
    "ix_addEpoch (Index_RemoveKeys ops e keys idx) = e" "ix_added (Index_RemoveKeys ops e keys idx) = []"
proof -
  have "keys \<noteq> []" using assms by auto
  then show "ix_hashes (Index_RemoveKeys ops e keys idx) = filterHashes (ix_hashes idx) (\<lambda>x. x \<in> set (victimHashes keys))"
    "ix_pending (Index_RemoveKeys ops e keys idx) = filterHashes (ix_pending idx) (\<lambda>x. x \<in> set (victimHashes keys))"
    "ix_mutations (Index_RemoveKeys ops e keys idx) = ix_mutations idx + 1"
    "ix_forms (Index_RemoveKeys ops e keys idx) f = map_option (\<lambda>c. c\<lparr>c_builtAt := zeroTime\<rparr>) (ix_forms idx f)"
    "ix_addEpoch (Index_RemoveKeys ops e keys idx) = e" "ix_added (Index_RemoveKeys ops e keys idx) = []"
    using assms by (simp_all add: Index_RemoveKeys_def Let_def)
qed

lemma mergePending_fields:
  assumes "mergePendingLocked idx = (g, idx1)"
  shows "g = \<lparr>gen_epoch = ix_addEpoch idx, gen_seq = length (ix_added idx)\<rparr>" "ix_pending idx1 = []"
    "set (ix_hashes idx1) = advertised idx" "advertised idx1 = advertised idx" "ix_mutations idx1 = ix_mutations idx"
    "ix_forms idx1 = ix_forms idx" "ix_addEpoch idx1 = ix_addEpoch idx" "ix_added idx1 = ix_added idx"
    "strictAsc (ix_hashes idx) \<Longrightarrow> strictAsc (ix_hashes idx1)"
  using assms
  by (auto simp: mergePendingLocked_def Let_def advertised_def strictAsc_mergeSortedHashes split: if_splits)

subsection \<open>Runs of the index\<close>

text \<open>A run of the index, in any order its lock lets the operations take.  \<open>U\<close> collects the epochs drawn
  so far: a new one differs from all of them.  \<open>I\<close> collects every position the index has told a client,
  with the hashes that client then has: those of the blob the position came with, or those it had before
  together with those of the delta.\<close>

inductive indexRun :: "(compactKey, 's) setOps \<Rightarrow> Index \<Rightarrow> u64 set \<Rightarrow> (indexGen \<times> actionHash set) set \<Rightarrow> bool"
  for ops where
  run_init: "indexRun ops (emptyIndex e d) {e} {}"
| run_put: "indexRun ops idx U I \<Longrightarrow> e \<notin> U \<Longrightarrow> indexRun ops (Index_Put now e key idx) (insert e U) I"
| run_remove: "indexRun ops idx U I \<Longrightarrow> e \<notin> U \<Longrightarrow> indexRun ops (Index_Remove e key idx) (insert e U) I"
| run_removeKeys: "indexRun ops idx U I \<Longrightarrow> e \<notin> U \<Longrightarrow> indexRun ops (Index_RemoveKeys ops e keys idx) (insert e U) I"
| run_rebuild: "indexRun ops idx U I \<Longrightarrow> e \<notin> U \<Longrightarrow> indexRun ops (Index_rebuild e walk idx) (insert e U) I"
| run_hashBits: "indexRun ops idx U I \<Longrightarrow> indexRun ops (SetHashBits n idx) U I"
| run_interval: "indexRun ops idx U I \<Longrightarrow> indexRun ops (SetBlobInterval d idx) U I"
| run_entriesOff: "indexRun ops idx U I \<Longrightarrow> indexRun ops (DisableEntryTracking idx) U I"
| run_cached: "indexRun ops idx U I \<Longrightarrow> blobServableLocked now idx (ix_forms idx form) \<Longrightarrow>
    BlobGenForm now form idx = ((blob, etag, gen), idx') \<Longrightarrow> indexRun ops idx' U I"
| run_serialize: "indexRun ops idx U I \<Longrightarrow> \<not> blobServableLocked now idx (ix_forms idx form) \<Longrightarrow>
    BlobGenForm now form idx = ((blob, etag, gen), idx') \<Longrightarrow>
    indexRun ops idx' U (insert (gen, set (ix_hashes idx')) I)"
| run_delta: "indexRun ops idx U I \<Longrightarrow> (from, S) \<in> I \<Longrightarrow> DeltaForm from form idx = Some (blob, to) \<Longrightarrow>
    indexRun ops idx U (insert (to, S \<union> set (drop (gen_seq from) (ix_added idx))) I)"

definition logInv :: "Index \<Rightarrow> u64 set \<Rightarrow> (indexGen \<times> actionHash set) set \<Rightarrow> bool" where
  "logInv idx U I \<longleftrightarrow> ix_addEpoch idx \<in> U \<and>
     (\<forall>(g, S) \<in> I. gen_epoch g \<in> U \<and> (gen_epoch g = ix_addEpoch idx \<longrightarrow>
        gen_seq g \<le> length (ix_added idx) \<and> advertised idx = S \<union> set (drop (gen_seq g) (ix_added idx))))"

definition cacheOk :: "Index \<Rightarrow> (indexGen \<times> actionHash set) set \<Rightarrow> indexForm \<Rightarrow> indexBlobCache \<Rightarrow> bool" where
  "cacheOk idx I f c \<longleftrightarrow> (\<exists>hs. strictAsc hs \<and> (\<forall>h \<in> set hs. length h = 32) \<and> c_blob c = marshalForm hs f \<and>
     c_etag c = blobETag (c_blob c) \<and> (c_gen c, set hs) \<in> I \<and>
     (c_mutation c = ix_mutations idx \<longrightarrow> set hs = advertised idx))"

definition runInv :: "Index \<Rightarrow> u64 set \<Rightarrow> (indexGen \<times> actionHash set) set \<Rightarrow> bool" where
  "runInv idx U I \<longleftrightarrow> indexOk idx \<and> logInv idx U I \<and> (\<forall>f c. ix_forms idx f = Some c \<longrightarrow> cacheOk idx I f c)"

lemma runInv_same:
  assumes "runInv idx U I" "ix_hashes idx' = ix_hashes idx" "ix_pending idx' = ix_pending idx"
    "ix_mutations idx' = ix_mutations idx" "ix_forms idx' = ix_forms idx" "ix_addEpoch idx' = ix_addEpoch idx"
    "ix_added idx' = ix_added idx" "U \<subseteq> U'"
  shows "runInv idx' U' I"
proof -
  have a: "advertised idx' = advertised idx" using assms by (simp add: advertised_def)
  show ?thesis using assms unfolding runInv_def indexOk_def logInv_def cacheOk_def a
    by (auto split: prod.splits)
qed

text \<open>A change of epoch: whatever happened to the advertised set, no position told so far is in the new
  epoch, and no cached blob is current.\<close>

lemma runInv_epoch:
  assumes "runInv idx U I" "e \<notin> U" "ix_addEpoch idx' = e" "set (ix_added idx') \<subseteq> advertised idx'"
    "ix_mutations idx' > ix_mutations idx" "strictAsc (ix_hashes idx')" "\<forall>h \<in> advertised idx'. length h = 32"
    "\<And>f. ix_forms idx' f = None \<or> (\<exists>t. ix_forms idx' f = map_option (\<lambda>c. c\<lparr>c_builtAt := t\<rparr>) (ix_forms idx f))"
  shows "runInv idx' (insert e U) I"
proof -
  have c: "\<exists>c0 t. ix_forms idx f = Some c0 \<and> c = c0\<lparr>c_builtAt := t\<rparr>" if "ix_forms idx' f = Some c" for f c
    using assms(8) [of f] that by (cases "ix_forms idx f") auto
  have m: "c_mutation c < ix_mutations idx'" if "ix_forms idx' f = Some c" for f c
  proof -
    have "c_mutation c \<le> ix_mutations idx" using c [OF that] assms(1) by (auto simp: runInv_def indexOk_def)
    then show ?thesis using assms(5) by simp
  qed
  have "cacheOk idx' I f c" if "ix_forms idx' f = Some c" for f c
    using c [OF that] m [OF that] assms(1) by (fastforce simp: runInv_def cacheOk_def)
  moreover have "logInv idx' (insert e U) I" using assms(1-3) by (auto simp: runInv_def logInv_def)
  moreover have "indexOk idx'" using assms(4,6,7) m by (auto simp: indexOk_def less_imp_le)
  ultimately show ?thesis by (simp add: runInv_def)
qed

lemma runInv_put:
  assumes "runInv idx U I" "e \<notin> U"
  shows "runInv (Index_Put now e key idx) (insert e U) I"
proof (cases "keyHash key")
  case None
  show ?thesis by (rule runInv_same [OF assms(1) Index_Put_none [OF None]]) auto
next
  case (Some h)
  note p = Index_Put_hash [OF Some, where now = now and e = e and idx = idx]
  have len: "\<forall>x \<in> insert h (advertised idx). length x = 32"
    using assms(1) keyHash_length [OF Some] by (simp add: runInv_def indexOk_def)
  have asc: "strictAsc (ix_hashes idx)" using assms(1) by (simp add: runInv_def indexOk_def)
  show ?thesis
  proof (cases "logFull idx")
    case True
    show ?thesis by (rule runInv_epoch [OF assms]) (use p True len asc in auto)
  next
    case False
    have "logInv (Index_Put now e key idx) (insert e U) I"
      using assms(1) p False by (auto simp: runInv_def logInv_def split: prod.splits)
    moreover have m: "cacheOk idx I f c \<and> c_mutation c < ix_mutations (Index_Put now e key idx)"
      if "ix_forms (Index_Put now e key idx) f = Some c" for f c
    proof -
      have "ix_forms idx f = Some c" using that p(5) False by simp
      then have "cacheOk idx I f c" "c_mutation c \<le> ix_mutations idx"
        using assms(1) by (auto simp: runInv_def indexOk_def)
      then show ?thesis using p(4) by simp
    qed
    moreover have "cacheOk (Index_Put now e key idx) I f c" if "ix_forms (Index_Put now e key idx) f = Some c" for f c
      using m [OF that] by (auto simp: cacheOk_def)
    moreover have "indexOk (Index_Put now e key idx)"
      using assms(1) p(1,3,7) False len m by (auto simp: runInv_def indexOk_def less_imp_le)
    ultimately show ?thesis by (simp add: runInv_def)
  qed
qed

lemma runInv_remove:
  assumes "runInv idx U I" "e \<notin> U"
  shows "runInv (Index_Remove e key idx) (insert e U) I"
proof (cases "keyHash key")
  case None
  show ?thesis by (rule runInv_same [OF assms(1) Index_Remove_none [OF None]]) auto
next
  case (Some h)
  note p = Index_Remove_hash [OF Some, of e idx]
  show ?thesis
    by (rule runInv_epoch [OF assms])
      (use p assms(1) in \<open>auto simp: runInv_def indexOk_def advertised_def strictAsc_removeHash\<close>)
qed

lemma runInv_removeKeys:
  assumes "runInv idx U I" "e \<notin> U"
  shows "runInv (Index_RemoveKeys ops e keys idx) (insert e U) I"
proof (cases "victimHashes keys = []")
  case True
  show ?thesis by (rule runInv_same [OF assms(1) Index_RemoveKeys_none [OF True]]) auto
next
  case False
  note p = Index_RemoveKeys_hash [OF False, of ops e idx]
  show ?thesis
    by (rule runInv_epoch [OF assms])
      (use p assms(1) in \<open>auto simp: runInv_def indexOk_def advertised_def strictAsc_filterHashes\<close>)
qed

lemma indexBuild_hashes:
  assumes "\<forall>h \<in> set (ib_hashes b). length h = 32"
  shows "\<forall>h \<in> set (ib_hashes (foldl indexBuild_add b objs)). length h = 32"
    "ib_sorted (foldl indexBuild_add b objs) = ib_sorted b"
    "set (ib_hashes (foldl indexBuild_add b objs)) =
       set (ib_hashes b) \<union> {h. \<exists>ob \<in> set objs. keyHash (lo_key ob) = Some h}"
proof -
  have one: "set (ib_hashes (indexBuild_add b ob)) = set (ib_hashes b) \<union> set_option (keyHash (lo_key ob))"
    "ib_sorted (indexBuild_add b ob) = ib_sorted b" for b ob
    by (auto simp: indexBuild_add_def keyHash_def Let_def split: prod.splits)
  show s: "set (ib_hashes (foldl indexBuild_add b objs)) =
       set (ib_hashes b) \<union> {h. \<exists>ob \<in> set objs. keyHash (lo_key ob) = Some h}"
    by (induction objs arbitrary: b) (auto simp: one elem_set)
  show "ib_sorted (foldl indexBuild_add b objs) = ib_sorted b"
    by (induction objs arbitrary: b) (auto simp: one)
  show "\<forall>h \<in> set (ib_hashes (foldl indexBuild_add b objs)). length h = 32"
    unfolding s using assms keyHash_length by auto
qed

lemma Index_rebuild_fields:
  assumes "walk = Some objs"
  shows "ix_hashes (Index_rebuild e walk idx) = sorted_list_of_set {h. \<exists>ob \<in> set objs. keyHash (lo_key ob) = Some h}"
    "ix_pending (Index_rebuild e walk idx) = ix_pending idx" "ix_added (Index_rebuild e walk idx) = []"
    "ix_addEpoch (Index_rebuild e walk idx) = e" "ix_mutations (Index_rebuild e walk idx) = ix_mutations idx + 1"
    "ix_forms (Index_rebuild e walk idx) f = None"
  using indexBuild_hashes [of "newIndexBuild (hashCount idx) (\<not> EntryTrackingEnabled idx)" objs] assms
  by (simp_all add: Index_rebuild_def Let_def applyRebuild_def indexBuild_finish_def newIndexBuild_def sortDedupeHashes_eq)

lemma finite_keyHashes: "finite {h. \<exists>ob \<in> set objs. keyHash (lo_key ob) = Some h}"
proof -
  have "{h. \<exists>ob \<in> set objs. keyHash (lo_key ob) = Some h} \<subseteq> (\<lambda>ob. the (keyHash (lo_key ob))) ` set objs" by force
  then show ?thesis by (rule finite_subset) simp
qed

lemma runInv_rebuild:
  assumes "runInv idx U I" "e \<notin> U"
  shows "runInv (Index_rebuild e walk idx) (insert e U) I"
proof (cases walk)
  case None
  show ?thesis unfolding None Index_rebuild_def by (rule runInv_same [OF assms(1)]) auto
next
  case (Some objs)
  note p = Index_rebuild_fields [OF Some, of e idx]
  show ?thesis
    by (rule runInv_epoch [OF assms])
      (use p assms(1) finite_keyHashes [of objs] keyHash_length in
        \<open>auto simp: runInv_def indexOk_def advertised_def\<close>)
qed

lemma BlobGenForm_cached:
  assumes "blobServableLocked now idx (ix_forms idx form)"
  shows "\<exists>c. ix_forms idx form = Some c \<and> BlobGenForm now form idx = ((c_blob c, c_etag c, c_gen c), idx) \<and>
    (c_mutation c = ix_mutations idx \<or> timeSince now (c_builtAt c) < ix_blobMinInterval idx)"
  using assms by (auto simp: BlobGenForm_def blobServableLocked_def Let_def split: option.splits if_splits)

lemma BlobGenForm_fresh:
  assumes "\<not> blobServableLocked now idx (ix_forms idx form)"
  shows "\<exists>g idx1. mergePendingLocked idx = (g, idx1) \<and>
    BlobGenForm now form idx = ((marshalForm (ix_hashes idx1) form, blobETag (marshalForm (ix_hashes idx1) form), g),
      idx1\<lparr>ix_forms := (ix_forms idx1)(form := Some \<lparr>c_blob = marshalForm (ix_hashes idx1) form,
        c_etag = blobETag (marshalForm (ix_hashes idx1) form), c_gen = g, c_builtAt = now,
        c_mutation = ix_mutations idx1\<rparr>)\<rparr>)"
  using assms by (cases "mergePendingLocked idx") (simp add: BlobGenForm_def Let_def)

lemma runInv_serialize:
  assumes inv: "runInv idx U I" and ns: "\<not> blobServableLocked now idx (ix_forms idx form)"
    and blob: "BlobGenForm now form idx = ((blob, etag, gen), idx')"
  shows "runInv idx' U (insert (gen, set (ix_hashes idx')) I)"
    "set (ix_hashes idx') = advertised idx" "blob = marshalForm (ix_hashes idx') form" "etag = blobETag blob"
    "advertised idx' = advertised idx" "strictAsc (ix_hashes idx')"
proof -
  obtain g idx1 where m: "mergePendingLocked idx = (g, idx1)" and
    b: "gen = g" "blob = marshalForm (ix_hashes idx1) form" "etag = blobETag blob"
    and i: "idx' = idx1\<lparr>ix_forms := (ix_forms idx1)(form := Some \<lparr>c_blob = blob, c_etag = blobETag blob, c_gen = g,
        c_builtAt = now, c_mutation = ix_mutations idx1\<rparr>)\<rparr>"
    using BlobGenForm_fresh [OF ns] blob by auto
  have asc: "strictAsc (ix_hashes idx)" using inv by (simp add: runInv_def indexOk_def)
  note f = mergePending_fields [OF m] and f9 = mergePending_fields(9) [OF m asc]
  have adv: "advertised idx' = advertised idx" "ix_hashes idx' = ix_hashes idx1" "ix_mutations idx' = ix_mutations idx"
    "ix_addEpoch idx' = ix_addEpoch idx" "ix_added idx' = ix_added idx"
    using f by (simp_all add: i advertised_def)
  show "set (ix_hashes idx') = advertised idx" "blob = marshalForm (ix_hashes idx') form" "etag = blobETag blob"
    "advertised idx' = advertised idx" "strictAsc (ix_hashes idx')" using adv f f9 b by simp_all
  have len: "\<forall>h \<in> advertised idx. length h = 32" using inv by (simp add: runInv_def indexOk_def)
  have "cacheOk idx' (insert (gen, set (ix_hashes idx')) I) fm c" if "ix_forms idx' fm = Some c" for fm c
  proof (cases "fm = form")
    case True
    then have "c = \<lparr>c_blob = blob, c_etag = blobETag blob, c_gen = g, c_builtAt = now, c_mutation = ix_mutations idx1\<rparr>"
      using that by (simp add: i)
    then show ?thesis using f f9 b adv len True by (auto simp: cacheOk_def)
  next
    case False
    then have "ix_forms idx fm = Some c" using that f by (simp add: i)
    then have "cacheOk idx I fm c" using inv by (auto simp: runInv_def)
    then show ?thesis using adv by (auto simp: cacheOk_def)
  qed
  moreover have "logInv idx' U (insert (gen, set (ix_hashes idx')) I)"
    using inv adv f b by (auto simp: runInv_def logInv_def)
  moreover have "indexOk idx'" using inv adv f f9 by (auto simp: runInv_def indexOk_def i)
  ultimately show "runInv idx' U (insert (gen, set (ix_hashes idx')) I)" by (simp add: runInv_def)
qed

lemma DeltaForm_SomeD:
  assumes "DeltaForm from form idx = Some (blob, to)"
  shows "gen_epoch from = ix_addEpoch idx" "gen_seq from \<le> length (ix_added idx)"
    "blob = marshalForm (sortDedupeHashes (drop (gen_seq from) (ix_added idx))) form"
    "to = \<lparr>gen_epoch = ix_addEpoch idx, gen_seq = length (ix_added idx)\<rparr>"
  using assms by (auto simp: DeltaForm_def split: if_splits)

lemma runInv_delta:
  assumes "runInv idx U I" "(from, S) \<in> I" "DeltaForm from form idx = Some (blob, to)"
  shows "S \<union> set (drop (gen_seq from) (ix_added idx)) = advertised idx"
    "runInv idx U (insert (to, S \<union> set (drop (gen_seq from) (ix_added idx))) I)"
proof -
  note d = DeltaForm_SomeD [OF assms(3)]
  show adv: "S \<union> set (drop (gen_seq from) (ix_added idx)) = advertised idx"
    using assms(1,2) d by (fastforce simp: runInv_def logInv_def)
  have "logInv idx U (insert (to, advertised idx) I)"
    using assms(1) d by (auto simp: runInv_def logInv_def)
  moreover have "cacheOk idx (insert (to, advertised idx) I) f c" if "ix_forms idx f = Some c" for f c
    using assms(1) that by (fastforce simp: runInv_def cacheOk_def)
  ultimately show "runInv idx U (insert (to, S \<union> set (drop (gen_seq from) (ix_added idx))) I)"
    using assms(1) unfolding adv runInv_def by blast
qed

lemma indexRun_inv: "indexRun ops idx U I \<Longrightarrow> runInv idx U I"
proof (induction rule: indexRun.induct)
  case (run_init e d)
  then show ?case by (simp add: runInv_def indexOk_def logInv_def emptyIndex_def advertised_def)
next
  case (run_hashBits idx U I n)
  then show ?case by (simp add: runInv_def indexOk_def logInv_def SetHashBits_def advertised_def)
next
  case (run_interval idx U I d)
  show ?case by (rule runInv_same [OF run_interval.IH]) (simp_all add: SetBlobInterval_def)
next
  case (run_entriesOff idx U I)
  show ?case by (rule runInv_same [OF run_entriesOff.IH]) (simp_all add: DisableEntryTracking_def)
next
  case (run_cached idx U I now form blob etag gen idx')
  then show ?case using BlobGenForm_cached [OF run_cached.hyps(2)] by auto
qed (simp_all add: runInv_put runInv_remove runInv_removeKeys runInv_rebuild runInv_serialize(1) runInv_delta(2))

subsection \<open>Properties\<close>

text \<open>A concrete run for the witnesses: an empty index serves a blob, then stores one key.\<close>

definition demoHash :: actionHash where
  "demoHash = replicate 32 1"

definition demoServed :: Index where
  "demoServed = snd (BlobGenForm 100 (indexFormV1 32) (emptyIndex 1 True))"

definition demoIndex :: Index where
  "demoIndex = Index_Put 200 2 (keyOfHash demoHash) demoServed"

definition demoGen :: indexGen where
  "demoGen = \<lparr>gen_epoch = 1, gen_seq = 0\<rparr>"

lemma demoServed_run: "indexRun memOps demoServed {1} {(demoGen, {})}"
proof -
  let ?i = "emptyIndex 1 True"
  obtain blob etag gen idx' where b: "BlobGenForm 100 (indexFormV1 32) ?i = ((blob, etag, gen), idx')"
    by (metis prod.exhaust)
  have ns: "\<not> blobServableLocked 100 ?i (ix_forms ?i (indexFormV1 32))"
    by (simp add: blobServableLocked_def emptyIndex_def)
  have "mergePendingLocked ?i = (demoGen, ?i)"
    by (simp add: mergePendingLocked_def emptyIndex_def demoGen_def)
  then have "gen = demoGen" "ix_hashes idx' = []" using BlobGenForm_fresh [OF ns] b by (auto simp: emptyIndex_def)
  then show ?thesis using run_serialize [OF run_init ns b] b by (simp add: demoServed_def)
qed

lemma demoIndex_run: "indexRun memOps demoIndex {2, 1} {(demoGen, {})}"
  unfolding demoIndex_def by (rule run_put [OF demoServed_run]) simp

lemma demoServed_fields: "ix_addEpoch demoServed = 1" "ix_added demoServed = []" "ix_addLogLimit demoServed = 0"
    "ix_hashes demoServed = []" "ix_pending demoServed = []" "ix_blobMinInterval demoServed = defaultIndexBlobInterval"
    "ix_hashBits demoServed = 0"
  by (simp_all add: demoServed_def BlobGenForm_def blobServableLocked_def emptyIndex_def mergePendingLocked_def Let_def)

lemma demoIndex_fields: "ix_addEpoch demoIndex = 1" "ix_added demoIndex = [demoHash]"
    "ix_hashes demoIndex = []" "ix_pending demoIndex = [demoHash]" "ix_blobMinInterval demoIndex = defaultIndexBlobInterval"
    "ix_hashBits demoIndex = 0"
proof -
  have k: "keyHash (keyOfHash demoHash) = Some demoHash" by (simp add: keyHash_keyOfHash demoHash_def)
  have "\<not> logFull demoServed" by (simp add: logFull_def demoServed_fields maxAddLog_def)
  then show "ix_addEpoch demoIndex = 1" "ix_added demoIndex = [demoHash]"
    "ix_hashes demoIndex = []" "ix_pending demoIndex = [demoHash]"
    using Index_Put_hash [OF k, where idx = demoServed and now = 200 and e = 2, folded demoIndex_def]
    by (simp_all add: demoServed_fields)
  show "ix_blobMinInterval demoIndex = defaultIndexBlobInterval" "ix_hashBits demoIndex = 0"
    by (simp_all add: demoIndex_def Index_Put_def Let_def appendAddLocked_def resetAddLogLocked_def demoServed_fields split: prod.splits)
qed

text \<open>(C5) Delta updates are complete.  Take any run of the index with fresh epochs: uploads, deletions,
  batch evictions, rebuilds, serializations and deltas in any order.  If the index once told a client a
  position together with the hashes \<open>S\<close>, and it now answers a delta request from that position, then the
  delta's hashes together with \<open>S\<close> are exactly the hashes the index advertises at this moment.\<close>

theorem DeltaForm_complete:
  assumes "indexRun ops idx U I" "(from, S) \<in> I" "DeltaForm from form idx = Some (blob, to)"
  shows "\<exists>hs. blob = marshalForm hs form \<and> strictAsc hs \<and> S \<union> set hs = advertised idx \<and>
    to = \<lparr>gen_epoch = ix_addEpoch idx, gen_seq = length (ix_added idx)\<rparr>"
  using runInv_delta(1) [OF indexRun_inv [OF assms(1)] assms(2,3)] DeltaForm_SomeD [OF assms(3)]
  by (intro exI [of _ "sortDedupeHashes (drop (gen_seq from) (ix_added idx))"]) simp

theorem DeltaForm_complete_witness:
  "\<exists>hs. marshalForm [demoHash] (indexFormV1 32) = marshalForm hs (indexFormV1 32) \<and> set hs = {demoHash}"
proof -
  have "DeltaForm demoGen (indexFormV1 32) demoIndex =
      Some (marshalForm [demoHash] (indexFormV1 32), \<lparr>gen_epoch = 1, gen_seq = 1\<rparr>)"
    by (simp add: DeltaForm_def demoGen_def demoIndex_fields sortDedupeHashes_def)
  from DeltaForm_complete [OF demoIndex_run _ this, of "{}"] show ?thesis
    by (auto simp: advertised_def demoIndex_fields)
qed

text \<open>(C14) Every blob the index serves, from its cache or built on the spot, is the canonical encoding of
  a set of hashes in the requested form, carries that blob's ETag, and names a position at which that set
  was what the index advertised; the set is the currently advertised one unless the blob is a cached one
  younger than the blob interval.\<close>

theorem BlobGenForm_serves:
  assumes "indexRun ops idx U I" "BlobGenForm now form idx = ((blob, etag, gen), idx')"
  shows "\<exists>S I'. finite S \<and> blob = marshalForm (sorted_list_of_set S) form \<and> etag = blobETag blob \<and>
    indexRun ops idx' U I' \<and> I \<subseteq> I' \<and> (gen, S) \<in> I' \<and> advertised idx' = advertised idx \<and>
    (S = advertised idx \<or> (\<exists>c. ix_forms idx form = Some c \<and> c_blob c = blob \<and>
       timeSince now (c_builtAt c) < ix_blobMinInterval idx))"
proof (cases "blobServableLocked now idx (ix_forms idx form)")
  case True
  obtain c where c: "ix_forms idx form = Some c" "blob = c_blob c" "etag = c_etag c" "gen = c_gen c" "idx' = idx"
    "c_mutation c = ix_mutations idx \<or> timeSince now (c_builtAt c) < ix_blobMinInterval idx"
    using BlobGenForm_cached [OF True] assms(2) by auto
  have "cacheOk idx I form c" using indexRun_inv [OF assms(1)] c(1) by (simp add: runInv_def)
  then obtain hs where "strictAsc hs" "c_blob c = marshalForm hs form" "c_etag c = blobETag (c_blob c)"
    "(c_gen c, set hs) \<in> I" "c_mutation c = ix_mutations idx \<longrightarrow> set hs = advertised idx"
    by (auto simp: cacheOk_def)
  then show ?thesis using c assms(1) strictAsc_eq_sorted_list_of_set [of hs]
    by (intro exI [of _ "set hs"] exI [of _ I]) auto
next
  case False
  note s = runInv_serialize [OF indexRun_inv [OF assms(1)] False assms(2)]
  have "indexRun ops idx' U (insert (gen, set (ix_hashes idx')) I)"
    by (rule run_serialize [OF assms(1) False assms(2)])
  moreover have "finite (advertised idx)" by (simp add: advertised_def)
  ultimately show ?thesis using s strictAsc_eq_sorted_list_of_set [OF s(6)]
    by (intro exI [of _ "set (ix_hashes idx')"] exI [of _ "insert (gen, set (ix_hashes idx')) I"]) auto
qed

theorem BlobGenForm_serves_witness:
  "fst (snd (fst (BlobGenForm 300 (indexFormV1 32) demoIndex))) = blobETag (fst (fst (BlobGenForm 300 (indexFormV1 32) demoIndex)))"
proof -
  obtain blob etag gen idx' where b: "BlobGenForm 300 (indexFormV1 32) demoIndex = ((blob, etag, gen), idx')"
    by (metis prod.exhaust)
  from BlobGenForm_serves [OF demoIndex_run b] show ?thesis unfolding b by auto
qed

text \<open>(C17) A deletion takes effect on the next read: after a key's hash is removed, the next blob in any form
  is rebuilt, even inside the blob interval, and does not carry the hash; neither does the lookup find it,
  and every position told before the removal is refused as the start of a delta.\<close>

theorem Index_Remove_effective:
  assumes "indexRun ops idx U I" "e \<notin> U" "keyHash key = Some h" "ix_blobMinInterval idx \<le> maxDuration"
    "now \<ge> 0" "BlobGenForm now form (Index_Remove e key idx) = ((blob, etag, gen), idx')"
  shows "(\<exists>hs. blob = marshalForm hs form \<and> strictAsc hs \<and> set hs = advertised idx - {h}) \<and>
    \<not> Index_Contains (Index_Remove e key idx) h \<and>
    (\<forall>(g, S) \<in> I. DeltaForm g form (Index_Remove e key idx) = None)"
proof -
  let ?idx = "Index_Remove e key idx"
  note r = Index_Remove_hash [OF assms(3), of e idx]
  have inv: "runInv ?idx (insert e U) I" by (rule runInv_remove [OF indexRun_inv [OF assms(1)] assms(2)])
  have m: "c_mutation c \<le> ix_mutations idx" if "ix_forms idx f = Some c" for f c
    using indexRun_inv [OF assms(1)] that by (auto simp: runInv_def indexOk_def)
  have "timeSince now zeroTime = maxDuration"
    using assms(5) by (simp add: timeSince_def zeroTime_def maxDuration_def)
  then have ns: "\<not> blobServableLocked now ?idx (ix_forms ?idx form)"
  proof (cases "ix_forms idx form")
    case (Some c)
    then show ?thesis using m [OF Some] assms(4) r(3,7) r(4) [of form] \<open>timeSince now zeroTime = maxDuration\<close>
      by (simp add: blobServableLocked_def)
  qed (simp add: blobServableLocked_def r(4))
  note s = runInv_serialize [OF inv ns assms(6)]
  have adv: "advertised ?idx = advertised idx - {h}" using r(1,2) by (auto simp: advertised_def)
  have "\<not> Index_Contains ?idx h"
    using adv inv by (auto simp: Index_Contains_def advertised_def containsSorted_iff runInv_def indexOk_def)
  moreover have "\<forall>(g, S) \<in> I. DeltaForm g form ?idx = None"
    using indexRun_inv [OF assms(1)] assms(2) r(5) by (auto simp: DeltaForm_def runInv_def logInv_def)
  ultimately show ?thesis using s adv by auto
qed

theorem Index_Remove_effective_witness:
  "\<not> Index_Contains (Index_Remove 3 (keyOfHash demoHash) demoIndex) demoHash"
proof -
  obtain blob etag gen idx' where
    b: "BlobGenForm 300 (indexFormV1 32) (Index_Remove 3 (keyOfHash demoHash) demoIndex) = ((blob, etag, gen), idx')"
    by (metis prod.exhaust)
  have "keyHash (keyOfHash demoHash) = Some demoHash" by (simp add: keyHash_keyOfHash demoHash_def)
  from Index_Remove_effective [OF demoIndex_run _ this _ _ b] show ?thesis
    by (simp add: demoIndex_fields defaultIndexBlobInterval_def maxDuration_def)
qed

text \<open>A lookup in the index succeeds exactly for the hashes it advertises, whether merged into the sorted
  list yet or still pending.\<close>

theorem Index_Contains_iff:
  assumes "indexRun ops idx U I"
  shows "Index_Contains idx h \<longleftrightarrow> h \<in> advertised idx"
  using indexRun_inv [OF assms] containsSorted_iff [of "ix_hashes idx" h]
  by (auto simp: Index_Contains_def advertised_def runInv_def indexOk_def)

theorem Index_Contains_iff_witness: "Index_Contains demoIndex demoHash"
  using Index_Contains_iff [OF demoIndex_run, of demoHash] by (simp add: advertised_def demoIndex_fields)

text \<open>The reported wire size is the length of the body a version 2 request would be sent at the same
  moment, cached or not, and asking for it changes nothing.\<close>

theorem WireSize_exact:
  assumes "indexRun ops idx U I" "hashBitsLocked idx \<le> 64" "length (ix_hashes idx) + length (ix_pending idx) < 2 ^ 56"
  shows "WireSize now idx = int (length (fst (fst (BlobGenForm now (FormV2 idx) idx))))"
proof (cases "blobServableLocked now idx (ix_forms idx (FormV2 idx))")
  case True
  then show ?thesis by (simp add: WireSize_def BlobGenForm_def FormV2_def Let_def)
next
  case False
  let ?bits = "hashBitsLocked idx" and ?fresh = "if ix_pending idx \<noteq> [] then sortDedupeHashes (ix_pending idx) else []"
  have ok: "strictAsc (ix_hashes idx)" "\<forall>h \<in> advertised idx. length h = 32"
    using indexRun_inv [OF assms(1)] by (simp_all add: runInv_def indexOk_def)
  obtain g idx1 where m: "mergePendingLocked idx = (g, idx1)" by (cases "mergePendingLocked idx")
  note f = mergePending_fields [OF m] and asc1 = mergePending_fields(9) [OF m ok(1)]
  have fr: "strictAsc ?fresh" "set (ix_hashes idx) \<union> set ?fresh = advertised idx" "length ?fresh \<le> length (ix_pending idx)"
    using length_dedupeLoop [of None "sort (ix_pending idx)", folded sortDedupeHashes_def] by (auto simp: advertised_def)
  have a: "set (prefixValues (ix_hashes idx) ?fresh ?bits) = prefixOf ?bits ` advertised idx"
    "indexValues ?bits (prefixValues (ix_hashes idx) ?fresh ?bits)"
    using prefixValues_ok [OF ok(1) fr(1) _ assms(2)] ok(2) fr(2) by auto
  have b: "set (prefixValues (ix_hashes idx1) [] ?bits) = prefixOf ?bits ` advertised idx"
    "indexValues ?bits (prefixValues (ix_hashes idx1) [] ?bits)"
    using prefixValues_ok [OF asc1 _ _ assms(2), of "[]"] ok(2) f(3) by auto
  have eq: "prefixValues (ix_hashes idx) ?fresh ?bits = prefixValues (ix_hashes idx1) [] ?bits"
    by (rule strictAsc_unique) (use a b in \<open>auto simp: indexValues_def\<close>)
  have len: "length (prefixValues (ix_hashes idx) ?fresh ?bits) < 2 ^ 56"
    using length_prefixValues [of "ix_hashes idx" ?fresh ?bits] fr(3) assms(3) by linarith
  have "WireSize now idx = int (gbci2Size ?bits (prefixValues (ix_hashes idx) ?fresh ?bits))"
    using False by (simp add: WireSize_def Let_def FormV2_def)
  also have "\<dots> = int (length (marshalForm (ix_hashes idx1) (FormV2 idx)))"
    using gbci2Size_eq [OF a(2) assms(2) len] unfolding eq by (simp add: marshalForm_def FormV2_def)
  finally show ?thesis using BlobGenForm_fresh [OF False] m by auto
qed

theorem WireSize_exact_witness:
  "WireSize 300 demoIndex = int (length (fst (fst (BlobGenForm 300 (FormV2 demoIndex) demoIndex))))"
  by (rule WireSize_exact [OF demoIndex_run])
    (simp_all add: hashBitsLocked_def demoIndex_fields defaultIndexHashBits_def)

end
