(* ===== verification/LruCache.thy ===== *)
theory LruCache
  imports Prelude
begin

text \<open>
  The sharded, byte-bounded cache of \<^verbatim>\<open>lrucache.go\<close>.  A shard's \<^verbatim>\<open>container/list\<close> is a list of
  elements, front first; an element is an identity and an entry, so that the map from keys to elements is
  the map from keys to identities.  The shard hash and the size function the cache is built with are
  arguments.  The locale \<open>lossy_cache\<close> is what the cache promises its users: a lookup gives the last value
  stored for the key or nothing.
\<close>

definition lruShardCount :: nat where
  "lruShardCount = 64"

record ('k, 'v) lruEntry =
  le_key :: 'k
  le_val :: 'v
  le_size :: int

record ('k, 'v) lruShard =
  sh_ll :: "(nat \<times> ('k, 'v) lruEntry) list"
  sh_items :: "'k \<Rightarrow> nat option"
  sh_bytes :: int
  sh_next :: nat

record ('k, 'v) lruCache =
  lc_budget :: int
  lc_bytes :: int
  lc_evictions :: nat
  lc_shards :: "('k, 'v) lruShard list"

definition emptyShard :: "('k, 'v) lruShard" where
  "emptyShard = \<lparr>sh_ll = [], sh_items = (\<lambda>_. None), sh_bytes = 0, sh_next = 0\<rparr>"

definition newLRUCache :: "int \<Rightarrow> ('k, 'v) lruCache" where
  "newLRUCache budget =
     \<lparr>lc_budget = budget, lc_bytes = 0, lc_evictions = 0, lc_shards = replicate lruShardCount emptyShard\<rparr>"

definition shardIndex :: "('k \<Rightarrow> u32) \<Rightarrow> 'k \<Rightarrow> nat" where
  "shardIndex shardOf k = unat (shardOf k) mod lruShardCount"

definition shardBudget :: "('k, 'v) lruCache \<Rightarrow> int" where
  "shardBudget c = (let b = lc_budget c div int lruShardCount in if b < 1 then 1 else b)"

subsection \<open>The recency list\<close>

definition elemAt :: "nat \<Rightarrow> (nat \<times> 'e) list \<Rightarrow> 'e option" where
  "elemAt i ll = map_of ll i"

definition listRemove :: "nat \<Rightarrow> (nat \<times> 'e) list \<Rightarrow> (nat \<times> 'e) list" where
  "listRemove i ll = filter (\<lambda>(j, e). j \<noteq> i) ll"

definition moveToFront :: "nat \<Rightarrow> (nat \<times> 'e) list \<Rightarrow> (nat \<times> 'e) list" where
  "moveToFront i ll = (case elemAt i ll of None \<Rightarrow> ll | Some e \<Rightarrow> (i, e) # listRemove i ll)"

subsection \<open>Operations\<close>

definition lru_Get :: "('k \<Rightarrow> u32) \<Rightarrow> ('k, 'v) lruCache \<Rightarrow> 'k \<Rightarrow> 'v option \<times> ('k, 'v) lruCache" where
  "lru_Get shardOf c k =
     (let i = shardIndex shardOf k; sh = lc_shards c ! i in
      case sh_items sh k of
        None \<Rightarrow> (None, c)
      | Some el \<Rightarrow>
          let sh' = sh\<lparr>sh_ll := moveToFront el (sh_ll sh)\<rparr>
          in (map_option le_val (elemAt el (sh_ll sh')), c\<lparr>lc_shards := (lc_shards c)[i := sh']\<rparr>))"

function evictLocked :: "int \<Rightarrow> ('k, 'v) lruShard \<times> int \<times> nat \<Rightarrow> ('k, 'v) lruShard \<times> int \<times> nat" where
  "evictLocked budget (sh, bytes, evictions) =
     (if sh_bytes sh > budget \<and> length (sh_ll sh) > 1 then
        let (i, e) = last (sh_ll sh) in
        evictLocked budget
          (sh\<lparr>sh_ll := butlast (sh_ll sh), sh_items := (sh_items sh)(le_key e := None),
              sh_bytes := sh_bytes sh - le_size e\<rparr>,
           bytes - le_size e, evictions + 1)
      else (sh, bytes, evictions))"
  by pat_completeness auto
termination
  by (relation "measure (\<lambda>(budget, sh, bytes, evictions). length (sh_ll sh))") auto

declare evictLocked.simps [simp del]

definition lru_Put :: "('k \<Rightarrow> u32) \<Rightarrow> ('k \<Rightarrow> 'v \<Rightarrow> int) \<Rightarrow> ('k, 'v) lruCache \<Rightarrow> 'k \<Rightarrow> 'v \<Rightarrow> ('k, 'v) lruCache" where
  "lru_Put shardOf sizeOf c k v =
     (let size = sizeOf k v; i = shardIndex shardOf k; sh = lc_shards c ! i; budget = shardBudget c;
          (sh1, bytes1) =
            (case sh_items sh k of
               Some el \<Rightarrow>
                 let old = le_size (the (elemAt el (sh_ll sh)));
                     ll = map (\<lambda>(j, e). if j = el then (j, e\<lparr>le_val := v, le_size := size\<rparr>) else (j, e)) (sh_ll sh)
                 in (sh\<lparr>sh_bytes := sh_bytes sh + (size - old), sh_ll := moveToFront el ll\<rparr>,
                     lc_bytes c + (size - old))
             | None \<Rightarrow>
                 (sh\<lparr>sh_ll := (sh_next sh, \<lparr>le_key = k, le_val = v, le_size = size\<rparr>) # sh_ll sh,
                     sh_items := (sh_items sh)(k \<mapsto> sh_next sh), sh_bytes := sh_bytes sh + size,
                     sh_next := sh_next sh + 1\<rparr>,
                  lc_bytes c + size));
          (sh2, bytes2, evictions2) = evictLocked budget (sh1, bytes1, lc_evictions c)
      in c\<lparr>lc_bytes := bytes2, lc_evictions := evictions2, lc_shards := (lc_shards c)[i := sh2]\<rparr>)"

definition lru_Forget :: "('k \<Rightarrow> u32) \<Rightarrow> ('k, 'v) lruCache \<Rightarrow> 'k \<Rightarrow> ('k, 'v) lruCache" where
  "lru_Forget shardOf c k =
     (let i = shardIndex shardOf k; sh = lc_shards c ! i in
      case sh_items sh k of
        None \<Rightarrow> c
      | Some el \<Rightarrow>
          let size = le_size (the (elemAt el (sh_ll sh))) in
          c\<lparr>lc_bytes := lc_bytes c - size,
            lc_shards := (lc_shards c)[i := sh\<lparr>sh_ll := listRemove el (sh_ll sh),
              sh_items := (sh_items sh)(k := None), sh_bytes := sh_bytes sh - size\<rparr>]\<rparr>)"

fun evictShards :: "int \<Rightarrow> ('k, 'v) lruShard list \<Rightarrow> int \<Rightarrow> nat \<Rightarrow> ('k, 'v) lruShard list \<times> int \<times> nat" where
  "evictShards per [] bytes evictions = ([], bytes, evictions)"
| "evictShards per (sh # shs) bytes evictions =
     (let (sh', bytes', evictions') = evictLocked per (sh, bytes, evictions);
          (shs', bytes'', evictions'') = evictShards per shs bytes' evictions'
      in (sh' # shs', bytes'', evictions''))"

definition lru_SetBudget :: "('k, 'v) lruCache \<Rightarrow> int \<Rightarrow> ('k, 'v) lruCache" where
  "lru_SetBudget c budget0 =
     (let budget = (if budget0 < 0 then 0 else budget0); c1 = c\<lparr>lc_budget := budget\<rparr>;
          (shs, bytes, evictions) = evictShards (shardBudget c1) (lc_shards c1) (lc_bytes c1) (lc_evictions c1)
      in c1\<lparr>lc_shards := shs, lc_bytes := bytes, lc_evictions := evictions\<rparr>)"

fun clearShards :: "('k, 'v) lruShard list \<Rightarrow> int \<Rightarrow> ('k, 'v) lruShard list \<times> int" where
  "clearShards [] bytes = ([], bytes)"
| "clearShards (sh # shs) bytes =
     (let (shs', bytes') = clearShards shs (bytes - sh_bytes sh)
      in (sh\<lparr>sh_bytes := 0, sh_ll := [], sh_items := (\<lambda>_. None)\<rparr> # shs', bytes'))"

definition lru_Clear :: "('k, 'v) lruCache \<Rightarrow> ('k, 'v) lruCache" where
  "lru_Clear c = (let (shs, bytes) = clearShards (lc_shards c) (lc_bytes c) in c\<lparr>lc_shards := shs, lc_bytes := bytes\<rparr>)"

definition lru_Range :: "('k, 'v) lruCache \<Rightarrow> ('k \<times> 'v) list" where
  "lru_Range c = concat (map (\<lambda>sh. map (\<lambda>(i, e). (le_key e, le_val e)) (sh_ll sh)) (lc_shards c))"

definition lru_Len :: "('k, 'v) lruCache \<Rightarrow> nat" where
  "lru_Len c = sum_list (map (\<lambda>sh. card (dom (sh_items sh))) (lc_shards c))"

fun fnv1aLoop :: "u32 \<Rightarrow> string \<Rightarrow> u32" where
  "fnv1aLoop h [] = h"
| "fnv1aLoop h (x # xs) = fnv1aLoop ((h XOR of_nat (of_char x)) * 16777619) xs"

definition fnv1a :: "string \<Rightarrow> u32" where
  "fnv1a s = fnv1aLoop 2166136261 s"

subsection \<open>Shards\<close>

definition shardOk :: "('k \<Rightarrow> u32) \<Rightarrow> nat \<Rightarrow> ('k, 'v) lruShard \<Rightarrow> bool" where
  "shardOk shardOf i sh \<longleftrightarrow> distinct (map fst (sh_ll sh)) \<and> distinct (map (\<lambda>(j, e). le_key e) (sh_ll sh)) \<and>
     (\<forall>k j. sh_items sh k = Some j \<longleftrightarrow> (\<exists>e. (j, e) \<in> set (sh_ll sh) \<and> le_key e = k)) \<and>
     sh_bytes sh = sum_list (map (\<lambda>(j, e). le_size e) (sh_ll sh)) \<and>
     (\<forall>(j, e) \<in> set (sh_ll sh). j < sh_next sh \<and> shardIndex shardOf (le_key e) = i)"

definition shardRecency :: "('k, 'v) lruShard \<Rightarrow> ('k \<times> 'v) list" where
  "shardRecency sh = map (\<lambda>(j, e). (le_key e, le_val e)) (sh_ll sh)"

lemma shardOkD:
  assumes "shardOk shardOf i sh"
  shows "distinct (map fst (sh_ll sh))" "distinct (map (\<lambda>(j, e). le_key e) (sh_ll sh))"
    "sh_items sh k = Some j \<longleftrightarrow> (\<exists>e. (j, e) \<in> set (sh_ll sh) \<and> le_key e = k)"
    "sh_bytes sh = sum_list (map (\<lambda>(j, e). le_size e) (sh_ll sh))"
    "(j, e) \<in> set (sh_ll sh) \<Longrightarrow> j < sh_next sh \<and> shardIndex shardOf (le_key e) = i"
  using assms by (auto simp: shardOk_def)

lemma key_unique:
  assumes "distinct (map (\<lambda>(j, e). le_key e) ll)" "(j, e) \<in> set ll" "(j', e') \<in> set ll" "le_key e = le_key e'"
  shows "j = j' \<and> e = e'"
  using assms by (induction ll) force+

lemma shard_drop_last:
  assumes ok: "shardOk shardOf i sh" and ll: "sh_ll sh = xs @ [(j, e)]"
  shows "shardOk shardOf i (sh\<lparr>sh_ll := xs, sh_items := (sh_items sh)(le_key e := None), sh_bytes := sh_bytes sh - le_size e\<rparr>)"
proof -
  have d: "distinct (map fst (xs @ [(j, e)]))" "distinct (map (\<lambda>(j, e). le_key e) (xs @ [(j, e)]))"
    using ok ll by (simp_all add: shardOk_def)
  have k: "le_key e' \<noteq> le_key e" if "(j', e') \<in> set xs" for j' e'
    using d(2) that by (force simp: image_iff)
  have "((sh_items sh)(le_key e := None)) k' = Some j' \<longleftrightarrow> (\<exists>e'. (j', e') \<in> set xs \<and> le_key e' = k')" for k' j'
    using shardOkD(3) [OF ok, of k' j'] k by (auto simp: ll)
  then show ?thesis using ok d unfolding shardOk_def ll by auto
qed

lemma evictLocked_spec:
  assumes "shardOk shardOf i sh" "evictLocked budget (sh, bytes, ev) = (sh', bytes', ev')"
  shows "shardOk shardOf i sh' \<and> bytes' - sh_bytes sh' = bytes - sh_bytes sh \<and>
    (sh_bytes sh' \<le> budget \<or> length (sh_ll sh') \<le> 1) \<and>
    (\<exists>n. sh_ll sh' = take n (sh_ll sh) \<and> n \<le> length (sh_ll sh) \<and> (sh_ll sh \<noteq> [] \<longrightarrow> 0 < n) \<and> ev' = ev + (length (sh_ll sh) - n) \<and>
      (n < length (sh_ll sh) \<longrightarrow> sum_list (map (\<lambda>(j, e). le_size e) (take (Suc n) (sh_ll sh))) > budget))"
  using assms
proof (induction "length (sh_ll sh)" arbitrary: sh bytes ev rule: less_induct)
  case less
  show ?case
  proof (cases "sh_bytes sh > budget \<and> length (sh_ll sh) > 1")
    case True
    obtain xs j e where ll: "sh_ll sh = xs @ [(j, e)]"
      using True by (metis append_butlast_last_id length_0_conv not_less_zero prod.exhaust)
    define sh1 where "sh1 = sh\<lparr>sh_ll := xs, sh_items := (sh_items sh)(le_key e := None), sh_bytes := sh_bytes sh - le_size e\<rparr>"
    have f: "sh_ll sh1 = xs" "sh_bytes sh1 = sh_bytes sh - le_size e" by (simp_all add: sh1_def)
    have ev: "evictLocked budget (sh1, bytes - le_size e, ev + 1) = (sh', bytes', ev')"
      using less.prems(2) True ll unfolding sh1_def by (subst (asm) evictLocked.simps) simp
    have ok: "shardOk shardOf i sh1" unfolding sh1_def by (rule shard_drop_last [OF less.prems(1) ll])
    have "length (sh_ll sh1) < length (sh_ll sh)" using ll f by simp
    note IH = less.hyps [OF this ok ev, unfolded f]
    then obtain n where n: "sh_ll sh' = take n xs" "n \<le> length xs" "xs \<noteq> [] \<longrightarrow> 0 < n" "ev' = ev + 1 + (length xs - n)"
      "n < length xs \<longrightarrow> sum_list (map (\<lambda>(j, e). le_size e) (take (Suc n) xs)) > budget" by blast
    have "xs \<noteq> []" using True ll by auto
    moreover have "sum_list (map (\<lambda>(j, e). le_size e) (take (Suc n) (sh_ll sh))) > budget"
    proof (cases "n = length xs")
      case True
      then show ?thesis using \<open>sh_bytes sh > budget \<and> length (sh_ll sh) > 1\<close> shardOkD(4) [OF less.prems(1)]
        by (simp add: ll)
    next
      case False
      then have "take (Suc n) (sh_ll sh) = take (Suc n) xs" using n(2) by (simp add: ll)
      then show ?thesis using n(2,5) False by simp
    qed
    ultimately have "\<exists>n. sh_ll sh' = take n (sh_ll sh) \<and> n \<le> length (sh_ll sh) \<and> (sh_ll sh \<noteq> [] \<longrightarrow> 0 < n) \<and>
        ev' = ev + (length (sh_ll sh) - n) \<and>
        (n < length (sh_ll sh) \<longrightarrow> sum_list (map (\<lambda>(j, e). le_size e) (take (Suc n) (sh_ll sh))) > budget)"
      using n(1-4) by (intro exI [of _ n]) (auto simp: ll)
    then show ?thesis using IH by simp
  next
    case False
    then have "(sh', bytes', ev') = (sh, bytes, ev)" using less.prems(2) by (subst (asm) evictLocked.simps) auto
    then show ?thesis using less.prems(1) False by (auto intro!: exI [of _ "length (sh_ll sh)"])
  qed
qed

lemma elemAt_eq:
  assumes "distinct (map fst ll)"
  shows "elemAt i ll = Some e \<longleftrightarrow> (i, e) \<in> set ll"
  using assms by (simp add: elemAt_def)

lemma sum_listRemove:
  "distinct (map fst ll) \<Longrightarrow> (i, e) \<in> set ll \<Longrightarrow>
     sum_list (map (\<lambda>(j, e). f e) (listRemove i ll)) = sum_list (map (\<lambda>(j, e). f e) ll) - (f e :: int)"
proof (induction ll)
  case (Cons x ll)
  obtain j d where x: "x = (j, d)" by (cases x)
  show ?case
  proof (cases "j = i")
    case True
    then have "d = e" "listRemove i ll = ll"
      using Cons.prems x by (force simp: listRemove_def filter_id_conv)+
    then show ?thesis using True x by (simp add: listRemove_def)
  next
    case False
    then show ?thesis using Cons x by (auto simp: listRemove_def)
  qed
qed simp

lemma set_listRemove: "set (listRemove i ll) = {(j, e). (j, e) \<in> set ll \<and> j \<noteq> i}"
  by (auto simp: listRemove_def)

lemma distinct_listRemove: "distinct (map g ll) \<Longrightarrow> distinct (map g (listRemove i ll))"
  by (simp add: listRemove_def distinct_map_filter)

subsection \<open>Shard changes\<close>

lemma filter_key_listRemove:
  assumes "shardOk shardOf i sh" "(j, e) \<in> set (sh_ll sh)"
  shows "map (\<lambda>(j, e). (le_key e, le_val e)) (listRemove j (sh_ll sh)) =
    filter (\<lambda>(k, v). k \<noteq> le_key e) (shardRecency sh)"
proof -
  have "j' \<noteq> j \<longleftrightarrow> le_key e' \<noteq> le_key e" if "(j', e') \<in> set (sh_ll sh)" for j' e'
    using key_unique [OF shardOkD(2) [OF assms(1)] that assms(2)] that assms(2) shardOkD(1) [OF assms(1)]
    by (metis eq_key_imp_eq_value)
  then have "filter (\<lambda>(j', e'). j' \<noteq> j) (sh_ll sh) = filter (\<lambda>(j', e'). le_key e' \<noteq> le_key e) (sh_ll sh)"
    by (intro filter_cong refl) auto
  then show ?thesis by (simp add: listRemove_def shardRecency_def filter_map comp_def case_prod_unfold)
qed

lemma shard_touch:
  assumes ok: "shardOk shardOf i sh" and it: "sh_items sh k = Some el"
  shows "\<exists>e. (el, e) \<in> set (sh_ll sh) \<and> le_key e = k \<and>
    shardOk shardOf i (sh\<lparr>sh_ll := moveToFront el (sh_ll sh)\<rparr>) \<and>
    elemAt el (moveToFront el (sh_ll sh)) = Some e \<and>
    shardRecency (sh\<lparr>sh_ll := moveToFront el (sh_ll sh)\<rparr>) = (k, le_val e) # filter (\<lambda>(k', v). k' \<noteq> k) (shardRecency sh)"
proof -
  obtain e where e: "(el, e) \<in> set (sh_ll sh)" "le_key e = k" using shardOkD(3) [OF ok] it by blast
  note d = shardOkD(1,2) [OF ok]
  have m: "moveToFront el (sh_ll sh) = (el, e) # listRemove el (sh_ll sh)"
    using elemAt_eq [OF d(1), THEN iffD2, OF e(1)] by (simp add: moveToFront_def)
  have "el \<notin> fst ` set (listRemove el (sh_ll sh))" by (auto simp: set_listRemove)
  moreover have "k \<notin> (\<lambda>(j, e). le_key e) ` set (listRemove el (sh_ll sh))"
    using key_unique [OF d(2) e(1)] e(2) by (auto simp: set_listRemove)
  moreover have "set (moveToFront el (sh_ll sh)) = set (sh_ll sh)"
    using e(1) d(1) by (auto simp: m set_listRemove dest: eq_key_imp_eq_value)
  moreover have "sum_list (map (\<lambda>(j, e). le_size e) (moveToFront el (sh_ll sh))) = sh_bytes sh"
    using sum_listRemove [OF d(1) e(1), of le_size] shardOkD(4) [OF ok] by (simp add: m)
  ultimately have "shardOk shardOf i (sh\<lparr>sh_ll := moveToFront el (sh_ll sh)\<rparr>)"
    using ok e(2) d by (simp add: shardOk_def m distinct_listRemove)
  moreover have "shardRecency (sh\<lparr>sh_ll := moveToFront el (sh_ll sh)\<rparr>) = (k, le_val e) # filter (\<lambda>(k', v). k' \<noteq> k) (shardRecency sh)"
    using filter_key_listRemove [OF ok e(1)] e(2) by (simp add: shardRecency_def m)
  ultimately show ?thesis using e m by (intro exI [of _ e]) (simp add: elemAt_def)
qed

lemma shard_insert:
  fixes v :: 'v and sz :: int
  assumes ok: "shardOk shardOf i (sh :: ('k, 'v) lruShard)" and it: "sh_items sh k = None" and ix: "shardIndex shardOf k = i"
  defines "sh' \<equiv> sh\<lparr>sh_ll := (sh_next sh, \<lparr>le_key = k, le_val = v, le_size = sz\<rparr>) # sh_ll sh,
    sh_items := (sh_items sh)(k \<mapsto> sh_next sh), sh_bytes := sh_bytes sh + sz, sh_next := sh_next sh + 1\<rparr>"
  shows "shardOk shardOf i sh'" "shardRecency sh' = (k, v) # filter (\<lambda>(k', v). k' \<noteq> k) (shardRecency sh)"
proof -
  have nk: "le_key e \<noteq> k" if "(j, e) \<in> set (sh_ll sh)" for j e
    using shardOkD(3) [OF ok, of k j] it that by auto
  have nj: "j \<noteq> sh_next sh" if "(j, e) \<in> set (sh_ll sh)" for j e
    using shardOkD(5) [OF ok that] by auto
  have "((sh_items sh)(k \<mapsto> sh_next sh)) k' = Some j \<longleftrightarrow>
      (\<exists>e. (j, e) \<in> set ((sh_next sh, \<lparr>le_key = k, le_val = v, le_size = sz\<rparr>) # sh_ll sh) \<and> le_key e = k')" for k' j
    using shardOkD(3) [OF ok, of k' j] nk by auto
  moreover have "sh_next sh \<notin> fst ` set (sh_ll sh)" "k \<notin> (\<lambda>(j, e). le_key e) ` set (sh_ll sh)"
    using nj nk by force+
  ultimately show "shardOk shardOf i sh'"
    using ok ix unfolding shardOk_def sh'_def by (auto simp: less_Suc_eq)
  have "filter (\<lambda>(k', v). k' \<noteq> k) (shardRecency sh) = shardRecency sh"
    using nk by (auto simp: shardRecency_def filter_id_conv)
  then show "shardRecency sh' = (k, v) # filter (\<lambda>(k', v). k' \<noteq> k) (shardRecency sh)"
    by (simp add: sh'_def shardRecency_def)
qed

text \<open>Overwriting the value of an element in place.\<close>

definition setElem :: "nat \<Rightarrow> 'v \<Rightarrow> int \<Rightarrow> (nat \<times> ('k, 'v) lruEntry) list \<Rightarrow> (nat \<times> ('k, 'v) lruEntry) list" where
  "setElem el v sz ll = map (\<lambda>(j, e). if j = el then (j, e\<lparr>le_val := v, le_size := sz\<rparr>) else (j, e)) ll"

lemma sum_setElem:
  "distinct (map fst ll) \<Longrightarrow> (el, e) \<in> set ll \<Longrightarrow>
     sum_list (map (\<lambda>(j, e). le_size e) (setElem el v sz ll)) = sum_list (map (\<lambda>(j, e). le_size e) ll) + (sz - le_size e)"
proof (induction ll)
  case (Cons x ll)
  obtain j d where x: "x = (j, d)" by (cases x)
  show ?case
  proof (cases "j = el")
    case True
    then have "el \<notin> fst ` set ll" "d = e" using Cons.prems x by force+
    then have "setElem el v sz ll = ll" unfolding setElem_def by (intro map_idI) force
    then show ?thesis using True x \<open>d = e\<close> by (simp add: setElem_def)
  next
    case False
    then show ?thesis using Cons x by (auto simp: setElem_def)
  qed
qed simp

lemma shard_overwrite:
  fixes v :: 'v and sz :: int
  assumes ok: "shardOk shardOf i (sh :: ('k, 'v) lruShard)" and e: "(el, e) \<in> set (sh_ll sh)"
  defines "sh' \<equiv> sh\<lparr>sh_bytes := sh_bytes sh + (sz - le_size e), sh_ll := setElem el v sz (sh_ll sh)\<rparr>"
  shows "shardOk shardOf i sh'" "(el, e\<lparr>le_val := v, le_size := sz\<rparr>) \<in> set (sh_ll sh')"
    "map fst (shardRecency sh') = map fst (shardRecency sh)"
    "filter (\<lambda>(k', v). k' \<noteq> le_key e) (shardRecency sh') = filter (\<lambda>(k', v). k' \<noteq> le_key e) (shardRecency sh)"
proof -
  note d = shardOkD(1,2) [OF ok]
  have f: "map fst (setElem el v sz (sh_ll sh)) = map fst (sh_ll sh)"
    "map (\<lambda>(j, e). le_key e) (setElem el v sz (sh_ll sh)) = map (\<lambda>(j, e). le_key e) (sh_ll sh)"
    by (auto simp: setElem_def)
  have ids: "map (\<lambda>(j, e). (j, le_key e)) (setElem el v sz ll) = map (\<lambda>(j, e). (j, le_key e)) ll"
    for ll :: "(nat \<times> ('k, 'v) lruEntry) list" by (auto simp: setElem_def)
  have ex: "(\<exists>d. (j, d) \<in> set ll \<and> le_key d = k) \<longleftrightarrow> (j, k) \<in> set (map (\<lambda>(j, e). (j, le_key e)) ll)"
    for j k and ll :: "(nat \<times> ('k, 'v) lruEntry) list" by force
  have mem: "(\<exists>d. (j, d) \<in> set (setElem el v sz ll) \<and> le_key d = k) \<longleftrightarrow> (\<exists>d. (j, d) \<in> set ll \<and> le_key d = k)"
    for j k and ll :: "(nat \<times> ('k, 'v) lruEntry) list" unfolding ex ids by (rule refl)
  have "j < sh_next sh \<and> shardIndex shardOf (le_key d) = i" if "(j, d) \<in> set (setElem el v sz (sh_ll sh))" for j d
    using mem [of j "sh_ll sh" "le_key d"] that shardOkD(5) [OF ok] by metis
  then have "\<forall>(j, d) \<in> set (setElem el v sz (sh_ll sh)). j < sh_next sh \<and> shardIndex shardOf (le_key d) = i" by blast
  then show "shardOk shardOf i sh'"
    using ok d sum_setElem [OF d(1) e] unfolding shardOk_def sh'_def by (simp add: f mem)
  show "(el, e\<lparr>le_val := v, le_size := sz\<rparr>) \<in> set (sh_ll sh')" using e by (force simp: sh'_def setElem_def)
  show "map fst (shardRecency sh') = map fst (shardRecency sh)"
    by (auto simp: sh'_def shardRecency_def setElem_def)
  have k: "j = el \<Longrightarrow> le_key d = le_key e" if "(j, d) \<in> set (sh_ll sh)" for j d
    using that e d(1) by (metis eq_key_imp_eq_value)
  then have "filter (\<lambda>(k', v). k' \<noteq> le_key e) (map (\<lambda>(j, e). (le_key e, le_val e)) (setElem el v sz ll)) =
      filter (\<lambda>(k', v). k' \<noteq> le_key e) (map (\<lambda>(j, e). (le_key e, le_val e)) ll)" if "set ll \<subseteq> set (sh_ll sh)" for ll
    using that by (induction ll) (auto simp: setElem_def split: if_splits)
  then show "filter (\<lambda>(k', v). k' \<noteq> le_key e) (shardRecency sh') = filter (\<lambda>(k', v). k' \<noteq> le_key e) (shardRecency sh)"
    by (simp add: sh'_def shardRecency_def)
qed

subsection \<open>The cache\<close>

definition lruOk :: "('k \<Rightarrow> u32) \<Rightarrow> ('k, 'v) lruCache \<Rightarrow> bool" where
  "lruOk shardOf c \<longleftrightarrow> length (lc_shards c) = lruShardCount \<and>
     (\<forall>i < lruShardCount. shardOk shardOf i (lc_shards c ! i)) \<and>
     lc_bytes c = sum_list (map sh_bytes (lc_shards c))"

definition lruLookup :: "('k \<Rightarrow> u32) \<Rightarrow> ('k, 'v) lruCache \<Rightarrow> 'k \<Rightarrow> 'v option" where
  "lruLookup shardOf c k = map_of (shardRecency (lc_shards c ! shardIndex shardOf k)) k"

lemma shardIndex_less [simp]: "shardIndex shardOf k < lruShardCount"
  by (simp add: shardIndex_def lruShardCount_def)

lemma sum_list_update: "i < length xs \<Longrightarrow> sum_list (map f (xs[i := y])) = sum_list (map f xs) + (f y - f (xs ! i) :: int)"
proof (induction xs arbitrary: i)
  case (Cons x xs)
  then show ?case by (cases i) auto
qed simp

lemma lruOk_update:
  assumes "lruOk shardOf c" "i < lruShardCount" "shardOk shardOf i sh"
    "bytes = lc_bytes c + (sh_bytes sh - sh_bytes (lc_shards c ! i))"
  shows "lruOk shardOf (c\<lparr>lc_bytes := bytes, lc_evictions := ev, lc_shards := (lc_shards c)[i := sh]\<rparr>)"
  using assms by (auto simp: lruOk_def sum_list_update nth_list_update)

lemma lookup_filter: "map_of ((k, v) # filter (\<lambda>(k', v). k' \<noteq> k) xs) k' = (if k' = k then Some v else map_of xs k')"
  by (induction xs) auto

lemma lookup_take: "map_of (take n xs) k = None \<or> map_of (take n xs) k = map_of xs k"
proof -
  have "map_of xs k = (case map_of (take n xs) k of None \<Rightarrow> map_of (drop n xs) k | Some v \<Rightarrow> Some v)"
    using map_of_append [of "take n xs" "drop n xs"] by (simp add: map_add_def split: option.splits)
  then show ?thesis by (cases "map_of (take n xs) k") auto
qed

lemma items_lookup:
  assumes "shardOk shardOf i sh"
  shows "sh_items sh k = None \<longleftrightarrow> map_of (shardRecency sh) k = None"
    "(el, e) \<in> set (sh_ll sh) \<Longrightarrow> map_of (shardRecency sh) (le_key e) = Some (le_val e)"
proof -
  have d: "distinct (map fst (shardRecency sh))"
    using shardOkD(2) [OF assms] by (simp add: shardRecency_def comp_def case_prod_unfold)
  have "map_of (shardRecency sh) k = None \<longleftrightarrow> \<not> (\<exists>j e. (j, e) \<in> set (sh_ll sh) \<and> le_key e = k)"
    by (force simp: map_of_eq_None_iff shardRecency_def)
  then show "sh_items sh k = None \<longleftrightarrow> map_of (shardRecency sh) k = None"
    using shardOkD(3) [OF assms, of k] by (metis not_None_eq)
  show "map_of (shardRecency sh) (le_key e) = Some (le_val e)" if "(el, e) \<in> set (sh_ll sh)"
    using d that by (force simp: map_of_eq_Some_iff shardRecency_def)
qed

lemma lru_Get_ok:
  assumes "lruOk shardOf c" "lru_Get shardOf c k = (r, c')"
  shows "r = lruLookup shardOf c k" "lruOk shardOf c'" "lruLookup shardOf c' = lruLookup shardOf c"
proof -
  let ?i = "shardIndex shardOf k" and ?sh = "lc_shards c ! shardIndex shardOf k"
  have ok: "shardOk shardOf ?i ?sh" and len: "length (lc_shards c) = lruShardCount"
    using assms(1) by (simp_all add: lruOk_def)
  have "r = lruLookup shardOf c k \<and> lruOk shardOf c' \<and> lruLookup shardOf c' = lruLookup shardOf c"
  proof (cases "sh_items ?sh k")
    case None
    then show ?thesis using assms items_lookup(1) [OF ok, of k] by (simp add: lru_Get_def lruLookup_def)
  next
    case (Some el)
    let ?sh' = "?sh\<lparr>sh_ll := moveToFront el (sh_ll ?sh)\<rparr>"
    obtain e where e: "(el, e) \<in> set (sh_ll ?sh)" "le_key e = k" "shardOk shardOf ?i ?sh'"
      "elemAt el (moveToFront el (sh_ll ?sh)) = Some e"
      "shardRecency ?sh' = (k, le_val e) # filter (\<lambda>(k', v). k' \<noteq> k) (shardRecency ?sh)"
      using shard_touch [OF ok Some] by blast
    have l: "map_of (shardRecency ?sh) k = Some (le_val e)" using items_lookup(2) [OF ok e(1)] e(2) by simp
    have c': "c' = c\<lparr>lc_shards := (lc_shards c)[?i := ?sh']\<rparr>" "r = Some (le_val e)"
      using assms(2) Some e(4) by (simp_all add: lru_Get_def Let_def)
    have "lruOk shardOf c'"
      using lruOk_update [OF assms(1) _ e(3), of "lc_bytes c" "lc_evictions c"] c' by simp
    moreover have "lruLookup shardOf c' k' = lruLookup shardOf c k'" for k'
    proof (cases "shardIndex shardOf k' = ?i")
      case True
      then show ?thesis using l len by (simp add: lruLookup_def c' e(5) lookup_filter del: map_of.simps)
    qed (simp add: lruLookup_def c')
    ultimately show ?thesis using c' l by (auto simp: lruLookup_def)
  qed
  then show "r = lruLookup shardOf c k" "lruOk shardOf c'" "lruLookup shardOf c' = lruLookup shardOf c" by simp_all
qed

lemma evict_recency:
  assumes "shardOk shardOf i sh" "evictLocked budget (sh, bytes, ev) = (sh', bytes', ev')"
  shows "\<exists>n. shardRecency sh' = take n (shardRecency sh) \<and> (shardRecency sh \<noteq> [] \<longrightarrow> 0 < n)"
proof -
  obtain n where "sh_ll sh' = take n (sh_ll sh)" "sh_ll sh \<noteq> [] \<longrightarrow> 0 < n"
    using evictLocked_spec [OF assms] by blast
  then show ?thesis by (intro exI [of _ n]) (simp add: shardRecency_def take_map)
qed

lemma put_stage:
  fixes sh :: "('k, 'v) lruShard" and v :: 'v and sz b :: int
  assumes ok: "shardOk shardOf i sh" and ix: "shardIndex shardOf k = i"
  defines "st \<equiv> (case sh_items sh k of
      Some el \<Rightarrow> (sh\<lparr>sh_bytes := sh_bytes sh + (sz - le_size (the (elemAt el (sh_ll sh)))),
                       sh_ll := moveToFront el (setElem el v sz (sh_ll sh))\<rparr>,
                     b + (sz - le_size (the (elemAt el (sh_ll sh)))))
    | None \<Rightarrow> (sh\<lparr>sh_ll := (sh_next sh, \<lparr>le_key = k, le_val = v, le_size = sz\<rparr>) # sh_ll sh,
                   sh_items := (sh_items sh)(k \<mapsto> sh_next sh), sh_bytes := sh_bytes sh + sz,
                   sh_next := sh_next sh + 1\<rparr>, b + sz))"
  shows "shardOk shardOf i (fst st)" "shardRecency (fst st) = (k, v) # filter (\<lambda>(k', v). k' \<noteq> k) (shardRecency sh)"
    "snd st - sh_bytes (fst st) = b - sh_bytes sh"
proof -
  have "shardOk shardOf i (fst st) \<and> shardRecency (fst st) = (k, v) # filter (\<lambda>(k', v). k' \<noteq> k) (shardRecency sh) \<and>
    snd st - sh_bytes (fst st) = b - sh_bytes sh"
  proof (cases "sh_items sh k")
    case None
    then show ?thesis using shard_insert [OF ok None ix, where v = v and sz = sz] by (simp add: st_def)
  next
    case (Some el)
    obtain e where e: "(el, e) \<in> set (sh_ll sh)" "le_key e = k" using shardOkD(3) [OF ok] Some by blast
    have at: "elemAt el (sh_ll sh) = Some e" using elemAt_eq [OF shardOkD(1) [OF ok]] e(1) by blast
    define sh1 where "sh1 = sh\<lparr>sh_bytes := sh_bytes sh + (sz - le_size e), sh_ll := setElem el v sz (sh_ll sh)\<rparr>"
    note w = shard_overwrite [OF ok e(1), where v = v and sz = sz, folded sh1_def]
    have it: "sh_items sh1 k = Some el" using Some by (simp add: sh1_def)
    obtain e' where e': "(el, e') \<in> set (sh_ll sh1)" "shardOk shardOf i (sh1\<lparr>sh_ll := moveToFront el (sh_ll sh1)\<rparr>)"
      "shardRecency (sh1\<lparr>sh_ll := moveToFront el (sh_ll sh1)\<rparr>) = (k, le_val e') # filter (\<lambda>(k', v). k' \<noteq> k) (shardRecency sh1)"
      using shard_touch [OF w(1) it] by blast
    have "e' = e\<lparr>le_val := v, le_size := sz\<rparr>" using e'(1) w(1,2) by (meson eq_key_imp_eq_value shardOkD(1))
    moreover have "fst st = sh1\<lparr>sh_ll := moveToFront el (sh_ll sh1)\<rparr>" "snd st = b + (sz - le_size e)"
      using Some at by (simp_all add: st_def sh1_def)
    ultimately show ?thesis using e' w(4) e(2) by (simp add: sh1_def)
  qed
  then show "shardOk shardOf i (fst st)" "shardRecency (fst st) = (k, v) # filter (\<lambda>(k', v). k' \<noteq> k) (shardRecency sh)"
    "snd st - sh_bytes (fst st) = b - sh_bytes sh" by simp_all
qed

lemma lru_Put_ok:
  fixes c :: "('k, 'v) lruCache" and v :: 'v and sizeOf :: "'k \<Rightarrow> 'v \<Rightarrow> int" and k :: 'k
  assumes "lruOk shardOf c"
  defines "c' \<equiv> lru_Put shardOf sizeOf c k v" and "i \<equiv> shardIndex shardOf k"
  shows "lruOk shardOf c' \<and> lc_budget c' = lc_budget c \<and>
    (\<exists>n > 0. shardRecency (lc_shards c' ! i) = take n ((k, v) # filter (\<lambda>(k', v). k' \<noteq> k) (shardRecency (lc_shards c ! i)))) \<and>
    (\<forall>j. j \<noteq> i \<longrightarrow> lc_shards c' ! j = lc_shards c ! j) \<and>
    (sh_bytes (lc_shards c' ! i) \<le> shardBudget c \<or> length (shardRecency (lc_shards c' ! i)) = 1)"
proof -
  let ?sh = "lc_shards c ! i"
  have ok: "shardOk shardOf i ?sh" and len: "length (lc_shards c) = lruShardCount"
    using assms(1) by (simp_all add: lruOk_def i_def)
  have ix: "shardIndex shardOf k = i" by (simp add: i_def)
  define st where "st = (case sh_items ?sh k of
      Some el \<Rightarrow> (?sh\<lparr>sh_bytes := sh_bytes ?sh + (sizeOf k v - le_size (the (elemAt el (sh_ll ?sh)))),
                       sh_ll := moveToFront el (setElem el v (sizeOf k v) (sh_ll ?sh))\<rparr>,
                     lc_bytes c + (sizeOf k v - le_size (the (elemAt el (sh_ll ?sh)))))
    | None \<Rightarrow> (?sh\<lparr>sh_ll := (sh_next ?sh, \<lparr>le_key = k, le_val = v, le_size = sizeOf k v\<rparr>) # sh_ll ?sh,
                   sh_items := (sh_items ?sh)(k \<mapsto> sh_next ?sh), sh_bytes := sh_bytes ?sh + sizeOf k v,
                   sh_next := sh_next ?sh + 1\<rparr>, lc_bytes c + sizeOf k v))"
  note p = put_stage [OF ok ix, where v = v and sz = "sizeOf k v" and b = "lc_bytes c", folded st_def]
  obtain sh2 b2 ev2 where ev: "evictLocked (shardBudget c) (fst st, snd st, lc_evictions c) = (sh2, b2, ev2)"
    by (metis prod.exhaust)
  have c': "c' = c\<lparr>lc_bytes := b2, lc_evictions := ev2, lc_shards := (lc_shards c)[i := sh2]\<rparr>"
    using ev by (cases st) (simp add: c'_def lru_Put_def Let_def st_def i_def setElem_def split: option.splits)
  note e = evictLocked_spec [OF p(1) ev] and r = evict_recency [OF p(1) ev]
  have "lruOk shardOf c'" unfolding c'
    by (rule lruOk_update [OF assms(1)]) (use e p(3) in \<open>auto simp: i_def\<close>)
  moreover obtain n where n: "n > 0" "shardRecency sh2 = take n ((k, v) # filter (\<lambda>(k', v). k' \<noteq> k) (shardRecency ?sh))"
    using r unfolding p(2) by blast
  moreover have "lc_shards c' ! i = sh2" using len by (simp add: c' i_def)
  moreover have "sh_bytes sh2 \<le> shardBudget c \<or> length (shardRecency sh2) = 1"
  proof -
    have "shardRecency sh2 \<noteq> []" using n by simp
    then show ?thesis using e by (auto simp: shardRecency_def le_Suc_eq)
  qed
  ultimately show ?thesis by (auto simp: c')
qed

lemma lru_Put_lookup:
  assumes "lruOk shardOf c"
  shows "lruLookup shardOf (lru_Put shardOf sizeOf c k v) k = Some v"
    "k' \<noteq> k \<Longrightarrow> lruLookup shardOf (lru_Put shardOf sizeOf c k v) k' \<in> {None, lruLookup shardOf c k'}"
proof -
  let ?c = "lru_Put shardOf sizeOf c k v" and ?i = "shardIndex shardOf k"
  obtain n where n: "n > 0" "shardRecency (lc_shards ?c ! ?i) =
      take n ((k, v) # filter (\<lambda>(k', v). k' \<noteq> k) (shardRecency (lc_shards c ! ?i)))"
    using lru_Put_ok [OF assms] by blast
  show "lruLookup shardOf ?c k = Some v" using n by (cases n) (simp_all add: lruLookup_def)
  show "lruLookup shardOf ?c k' \<in> {None, lruLookup shardOf c k'}" if "k' \<noteq> k"
  proof (cases "shardIndex shardOf k' = ?i")
    case True
    then show ?thesis
      using lookup_take [of n "(k, v) # filter (\<lambda>(k', v). k' \<noteq> k) (shardRecency (lc_shards c ! ?i))" k'] that
      unfolding lookup_filter lruLookup_def True n(2) by auto
  next
    case False
    then show ?thesis using lru_Put_ok [OF assms, where k = k and v = v and sizeOf = sizeOf] by (simp add: lruLookup_def)
  qed
qed

lemma lru_Forget_ok:
  assumes "lruOk shardOf c"
  shows "lruOk shardOf (lru_Forget shardOf c k)"
    "lruLookup shardOf (lru_Forget shardOf c k) k' = (if k' = k then None else lruLookup shardOf c k')"
proof -
  let ?i = "shardIndex shardOf k" and ?sh = "lc_shards c ! shardIndex shardOf k"
  have ok: "shardOk shardOf ?i ?sh" and len: "length (lc_shards c) = lruShardCount"
    using assms(1) by (simp_all add: lruOk_def)
  have "lruOk shardOf (lru_Forget shardOf c k) \<and>
    lruLookup shardOf (lru_Forget shardOf c k) k' = (if k' = k then None else lruLookup shardOf c k')"
  proof (cases "sh_items ?sh k")
    case None
    then show ?thesis using assms items_lookup(1) [OF ok, of k] by (simp add: lru_Forget_def lruLookup_def)
  next
    case (Some el)
    obtain e where e: "(el, e) \<in> set (sh_ll ?sh)" "le_key e = k" using shardOkD(3) [OF ok] Some by blast
    have at: "elemAt el (sh_ll ?sh) = Some e" using elemAt_eq [OF shardOkD(1) [OF ok]] e(1) by blast
    define sh' where "sh' = ?sh\<lparr>sh_ll := listRemove el (sh_ll ?sh), sh_items := (sh_items ?sh)(k := None),
      sh_bytes := sh_bytes ?sh - le_size e\<rparr>"
    note d = shardOkD(1,2) [OF ok]
    have "((sh_items ?sh)(k := None)) k'' = Some j \<longleftrightarrow> (\<exists>d. (j, d) \<in> set (listRemove el (sh_ll ?sh)) \<and> le_key d = k'')" for k'' j
    proof (cases "k'' = k")
      case True
      have "j = el" if "(j, d) \<in> set (sh_ll ?sh)" "le_key d = k" for d
        using key_unique [OF d(2) that(1) e(1)] that(2) e(2) by simp
      then show ?thesis using True by (auto simp: set_listRemove)
    next
      case False
      have "j \<noteq> el" if "(j, d) \<in> set (sh_ll ?sh)" "le_key d = k''" for d
        using that e False eq_key_imp_eq_value [OF d(1), of el d e] by auto
      then show ?thesis using False shardOkD(3) [OF ok, of k'' j] by (auto simp: set_listRemove)
    qed
    then have ok': "shardOk shardOf ?i sh'"
      using ok d sum_listRemove [OF d(1) e(1), of le_size] unfolding shardOk_def sh'_def
      by (auto simp: distinct_listRemove set_listRemove)
    have c': "lru_Forget shardOf c k = c\<lparr>lc_bytes := lc_bytes c - le_size e, lc_shards := (lc_shards c)[?i := sh']\<rparr>"
      using Some at by (simp add: lru_Forget_def Let_def sh'_def)
    have "lruOk shardOf (lru_Forget shardOf c k)"
      using lruOk_update [OF assms _ ok', of "lc_bytes c - le_size e" "lc_evictions c"] by (simp add: c' sh'_def)
    moreover have "shardRecency sh' = filter (\<lambda>(k', v). k' \<noteq> k) (shardRecency ?sh)"
      using filter_key_listRemove [OF ok e(1)] e(2) by (simp add: sh'_def shardRecency_def)
    moreover have "map_of (filter (\<lambda>(k', v). k' \<noteq> k) xs) k' = (if k' = k then None else map_of xs k')" for xs :: "('a \<times> 'b) list"
      by (induction xs) auto
    ultimately show ?thesis using len by (cases "shardIndex shardOf k' = ?i") (auto simp: lruLookup_def c')
  qed
  then show "lruOk shardOf (lru_Forget shardOf c k)"
    "lruLookup shardOf (lru_Forget shardOf c k) k' = (if k' = k then None else lruLookup shardOf c k')" by simp_all
qed

lemma evictShards_ok:
  assumes "evictShards per shs bytes ev = (shs', bytes', ev')" "\<forall>i < length shs. shardOk shardOf (off + i) (shs ! i)"
  shows "length shs' = length shs \<and> bytes' - sum_list (map sh_bytes shs') = bytes - sum_list (map sh_bytes shs) \<and>
    (\<forall>i < length shs. shardOk shardOf (off + i) (shs' ! i) \<and>
      (sh_bytes (shs' ! i) \<le> per \<or> length (sh_ll (shs' ! i)) \<le> 1) \<and>
      (\<exists>n. shardRecency (shs' ! i) = take n (shardRecency (shs ! i))))"
  using assms
proof (induction shs arbitrary: bytes ev shs' bytes' ev' off)
  case (Cons sh shs)
  obtain s1 b1 e1 where 1: "evictLocked per (sh, bytes, ev) = (s1, b1, e1)" by (metis prod.exhaust)
  obtain s2 b2 e2 where 2: "evictShards per shs b1 e1 = (s2, b2, e2)" by (metis prod.exhaust)
  have r: "shs' = s1 # s2" "bytes' = b2" using Cons.prems(1) 1 2 by (simp_all add: Let_def)
  have sh: "shardOk shardOf off sh" using Cons.prems(2) [rule_format, of 0] by simp
  have "\<forall>i < length shs. shardOk shardOf (Suc off + i) (shs ! i)" using Cons.prems(2) by force
  note IH = Cons.IH [OF 2 this]
  note e = evictLocked_spec [OF sh 1] and rc = evict_recency [OF sh 1]
  have "shardOk shardOf (off + i) (shs' ! i) \<and> (sh_bytes (shs' ! i) \<le> per \<or> length (sh_ll (shs' ! i)) \<le> 1) \<and>
      (\<exists>n. shardRecency (shs' ! i) = take n (shardRecency ((sh # shs) ! i)))" if "i < length (sh # shs)" for i
  proof (cases i)
    case 0
    then show ?thesis using e rc r by auto
  next
    case (Suc i')
    then show ?thesis using IH r that by auto
  qed
  then show ?case using IH e r by simp
qed simp

lemma lru_SetBudget_ok:
  fixes b :: int
  assumes "lruOk shardOf c"
  defines "c' \<equiv> lru_SetBudget c b"
  shows "lruOk shardOf c' \<and> lc_budget c' = max b 0 \<and>
    (\<forall>i < lruShardCount. sh_bytes (lc_shards c' ! i) \<le> shardBudget c' \<or> length (shardRecency (lc_shards c' ! i)) \<le> 1) \<and>
    (\<forall>i < lruShardCount. \<exists>n. shardRecency (lc_shards c' ! i) = take n (shardRecency (lc_shards c ! i)))"
proof -
  define c1 where "c1 = c\<lparr>lc_budget := (if b < 0 then 0 else b)\<rparr>"
  obtain shs bt ev where e: "evictShards (shardBudget c1) (lc_shards c) (lc_bytes c) (lc_evictions c) = (shs, bt, ev)"
    by (metis prod.exhaust)
  have c': "c' = c1\<lparr>lc_shards := shs, lc_bytes := bt, lc_evictions := ev\<rparr>"
    using e by (simp add: c'_def lru_SetBudget_def Let_def c1_def)
  have "\<forall>i < length (lc_shards c). shardOk shardOf (0 + i) (lc_shards c ! i)" using assms(1) by (simp add: lruOk_def)
  note s = evictShards_ok [OF e this]
  have "shardBudget c' = shardBudget c1" by (simp add: c' shardBudget_def)
  then show ?thesis using s assms(1) by (auto simp: lruOk_def c' c1_def shardRecency_def)
qed

lemma lru_SetBudget_lookup:
  assumes "lruOk shardOf c" shows "lruLookup shardOf (lru_SetBudget c b) k \<in> {None, lruLookup shardOf c k}"
proof -
  obtain n where "shardRecency (lc_shards (lru_SetBudget c b) ! shardIndex shardOf k) = take n (shardRecency (lc_shards c ! shardIndex shardOf k))"
    using lru_SetBudget_ok [OF assms, of b, THEN conjunct2, THEN conjunct2, THEN conjunct2, rule_format, OF shardIndex_less] by (rule exE)
  then show ?thesis using lookup_take [of n "shardRecency (lc_shards c ! shardIndex shardOf k)" k] by (auto simp: lruLookup_def)
qed

lemma clearShards_eq:
  "clearShards shs bytes = (map (\<lambda>sh. sh\<lparr>sh_bytes := 0, sh_ll := [], sh_items := (\<lambda>_. None)\<rparr>) shs, bytes - sum_list (map sh_bytes shs))"
  by (induction shs arbitrary: bytes) (simp_all add: Let_def)

lemma lru_Clear_ok:
  assumes "lruOk shardOf c"
  shows "lruOk shardOf (lru_Clear c)" "lc_bytes (lru_Clear c) = 0" "lruLookup shardOf (lru_Clear c) k = None"
  using assms by (auto simp: lruOk_def lru_Clear_def clearShards_eq shardOk_def lruLookup_def shardRecency_def comp_def)

lemma newLRUCache_ok: "lruOk shardOf (newLRUCache b)" "lruLookup shardOf (newLRUCache b) k = None"
  by (simp_all add: lruOk_def newLRUCache_def shardOk_def emptyShard_def lruLookup_def shardRecency_def sum_list_replicate)

subsection \<open>What a user of the cache may rely on\<close>

datatype ('k, 'v) cacheOp = OpGet 'k | OpPut 'k 'v | OpForget 'k | OpSetBudget int | OpClear

fun runCacheOps :: "('c \<Rightarrow> 'k \<Rightarrow> 'v option \<times> 'c) \<Rightarrow> ('c \<Rightarrow> 'k \<Rightarrow> 'v \<Rightarrow> 'c) \<Rightarrow> ('c \<Rightarrow> 'k \<Rightarrow> 'c) \<Rightarrow> ('c \<Rightarrow> int \<Rightarrow> 'c) \<Rightarrow> ('c \<Rightarrow> 'c) \<Rightarrow>
    'c \<Rightarrow> ('k, 'v) cacheOp list \<Rightarrow> 'c" where
  "runCacheOps get put forget budget clear c [] = c"
| "runCacheOps get put forget budget clear c (OpGet k # os) = runCacheOps get put forget budget clear (snd (get c k)) os"
| "runCacheOps get put forget budget clear c (OpPut k v # os) = runCacheOps get put forget budget clear (put c k v) os"
| "runCacheOps get put forget budget clear c (OpForget k # os) = runCacheOps get put forget budget clear (forget c k) os"
| "runCacheOps get put forget budget clear c (OpSetBudget b # os) = runCacheOps get put forget budget clear (budget c b) os"
| "runCacheOps get put forget budget clear c (OpClear # os) = runCacheOps get put forget budget clear (clear c) os"

text \<open>What was last stored for a key, if it was not forgotten since.\<close>

fun lastStored :: "'k \<Rightarrow> 'v option \<Rightarrow> ('k, 'v) cacheOp list \<Rightarrow> 'v option" where
  "lastStored k r [] = r"
| "lastStored k r (OpGet k' # os) = lastStored k r os"
| "lastStored k r (OpPut k' v # os) = lastStored k (if k' = k then Some v else r) os"
| "lastStored k r (OpForget k' # os) = lastStored k (if k' = k then None else r) os"
| "lastStored k r (OpSetBudget b # os) = lastStored k r os"
| "lastStored k r (OpClear # os) = lastStored k None os"

locale lossy_cache =
  fixes ok :: "'c \<Rightarrow> bool" and lookup :: "'c \<Rightarrow> 'k \<Rightarrow> 'v option"
    and get :: "'c \<Rightarrow> 'k \<Rightarrow> 'v option \<times> 'c" and put :: "'c \<Rightarrow> 'k \<Rightarrow> 'v \<Rightarrow> 'c" and forget :: "'c \<Rightarrow> 'k \<Rightarrow> 'c"
    and budget :: "'c \<Rightarrow> int \<Rightarrow> 'c" and clear :: "'c \<Rightarrow> 'c"
  assumes get_value: "ok c \<Longrightarrow> fst (get c k) = lookup c k"
    and get_ok: "ok c \<Longrightarrow> ok (snd (get c k))"
    and get_lookup: "ok c \<Longrightarrow> lookup (snd (get c k)) = lookup c"
    and put_ok: "ok c \<Longrightarrow> ok (put c k v)"
    and put_same: "ok c \<Longrightarrow> lookup (put c k v) k = Some v"
    and put_other: "ok c \<Longrightarrow> k' \<noteq> k \<Longrightarrow> lookup (put c k v) k' \<in> {None, lookup c k'}"
    and forget_ok: "ok c \<Longrightarrow> ok (forget c k)"
    and forget_lookup: "ok c \<Longrightarrow> lookup (forget c k) k' = (if k' = k then None else lookup c k')"
    and budget_ok: "ok c \<Longrightarrow> ok (budget c b)"
    and budget_lookup: "ok c \<Longrightarrow> lookup (budget c b) k \<in> {None, lookup c k}"
    and clear_ok: "ok c \<Longrightarrow> ok (clear c)"
    and clear_lookup: "ok c \<Longrightarrow> lookup (clear c) k = None"
begin

lemma run_ok: "ok c \<Longrightarrow> ok (runCacheOps get put forget budget clear c os)"
proof (induction os arbitrary: c)
  case (Cons oper os)
  then show ?case by (cases oper) (simp_all add: get_ok put_ok forget_ok budget_ok clear_ok)
qed simp

lemma run_lookup:
  "ok c \<Longrightarrow> lookup c k \<in> {None, r} \<Longrightarrow> lookup (runCacheOps get put forget budget clear c os) k \<in> {None, lastStored k r os}"
proof (induction os arbitrary: c r)
  case (Cons oper os)
  show ?case
  proof (cases oper)
    case (OpGet k')
    then show ?thesis using Cons by (simp add: get_ok get_lookup)
  next
    case (OpPut k' v)
    have "lookup (put c k' v) k \<in> {None, if k' = k then Some v else r}"
      using put_same [OF Cons.prems(1), of k' v] put_other [OF Cons.prems(1), of k k' v] Cons.prems(2) by auto
    then show ?thesis using Cons.IH [of "put c k' v" "if k' = k then Some v else r"] put_ok Cons.prems(1) OpPut by simp
  next
    case (OpForget k')
    have "lookup (forget c k') k \<in> {None, if k' = k then None else r}"
      using forget_lookup [OF Cons.prems(1)] Cons.prems(2) by auto
    then show ?thesis using Cons.IH [of "forget c k'"] forget_ok Cons.prems(1) OpForget by simp
  next
    case (OpSetBudget b)
    have "lookup (budget c b) k \<in> {None, r}" using budget_lookup [OF Cons.prems(1), of b k] Cons.prems(2) by auto
    then show ?thesis using Cons.IH [of "budget c b"] budget_ok Cons.prems(1) OpSetBudget by simp
  next
    case OpClear
    then show ?thesis using Cons.IH [of "clear c" None] clear_ok clear_lookup Cons.prems(1) by simp
  qed
qed simp

lemma run_get: "ok c \<Longrightarrow> lookup c k = None \<Longrightarrow>
    fst (get (runCacheOps get put forget budget clear c os) k) \<in> {None, lastStored k None os}"
  using run_lookup [of c k None os] run_ok [of c os] get_value by simp

end

text \<open>The cache meets the contract.  The shard hash and the size function are part of the state here.\<close>

interpretation lru: lossy_cache
  "\<lambda>(shardOf, sizeOf, c). lruOk shardOf c" "\<lambda>(shardOf, sizeOf, c). lruLookup shardOf c"
  "\<lambda>(shardOf, sizeOf, c) k. (fst (lru_Get shardOf c k), (shardOf, sizeOf, snd (lru_Get shardOf c k)))"
  "\<lambda>(shardOf, sizeOf, c) k v. (shardOf, sizeOf, lru_Put shardOf sizeOf c k v)"
  "\<lambda>(shardOf, sizeOf, c) k. (shardOf, sizeOf, lru_Forget shardOf c k)"
  "\<lambda>(shardOf, sizeOf, c) b. (shardOf, sizeOf, lru_SetBudget c b)" "\<lambda>(shardOf, sizeOf, c). (shardOf, sizeOf, lru_Clear c)"
  by unfold_locales
    (auto simp: lru_Put_ok lru_Put_lookup lru_Forget_ok lru_SetBudget_ok lru_Clear_ok intro: lru_Get_ok [OF _ prod.collapse [symmetric]]
      dest: lru_Put_lookup(2) lru_SetBudget_lookup split: prod.splits)

subsection \<open>Properties\<close>

lemma run_triple:
  "runCacheOps (\<lambda>(shardOf, sizeOf, c) k. (fst (lru_Get shardOf c k), (shardOf, sizeOf, snd (lru_Get shardOf c k))))
     (\<lambda>(shardOf, sizeOf, c) k v. (shardOf, sizeOf, lru_Put shardOf sizeOf c k v))
     (\<lambda>(shardOf, sizeOf, c) k. (shardOf, sizeOf, lru_Forget shardOf c k)) (\<lambda>(shardOf, sizeOf, c) b. (shardOf, sizeOf, lru_SetBudget c b))
     (\<lambda>(shardOf, sizeOf, c). (shardOf, sizeOf, lru_Clear c)) (shardOf, sizeOf, c) os =
   (shardOf, sizeOf, runCacheOps (lru_Get shardOf) (lru_Put shardOf sizeOf) (lru_Forget shardOf) lru_SetBudget lru_Clear c os)"
proof (induction os arbitrary: c)
  case (Cons oper os)
  then show ?case by (cases oper) simp_all
qed simp

text \<open>(C11) The cache never gives a wrong answer: after any sequence of lookups, stores, deletions, changes of the budget
  and clearings on a new cache, under any budget, shard hash and size function, a lookup gives the value last stored
  for that key and not deleted or cleared since, or nothing.\<close>

theorem lru_never_wrong:
  "fst (lru_Get shardOf (runCacheOps (lru_Get shardOf) (lru_Put shardOf sizeOf) (lru_Forget shardOf) lru_SetBudget lru_Clear
       (newLRUCache budget) os) k)
     \<in> {None, lastStored k None os}"
proof -
  have "lruOk shardOf (newLRUCache budget)" "lruLookup shardOf (newLRUCache budget) k = None" by (rule newLRUCache_ok)+
  then show ?thesis using lru.run_get [of "(shardOf, sizeOf, newLRUCache budget)" k os] by (simp add: run_triple)
qed

text \<open>(C20) Storing an entry keeps the cache's books and its bound: the new entry is held, the shard keeps a
  prefix of its recency order, so only least recently used entries go, the shard fits its slice of the
  budget or holds that one entry alone, the byte count stays the sum of the entries' sizes, and the other
  shards are untouched.\<close>

theorem lru_Put_bounded:
  assumes "lruOk shardOf c"
  shows "lruOk shardOf (lru_Put shardOf sizeOf c k v) \<and>
    (\<exists>n > 0. shardRecency (lc_shards (lru_Put shardOf sizeOf c k v) ! shardIndex shardOf k) =
       take n ((k, v) # filter (\<lambda>(k', v). k' \<noteq> k) (shardRecency (lc_shards c ! shardIndex shardOf k)))) \<and>
    (sh_bytes (lc_shards (lru_Put shardOf sizeOf c k v) ! shardIndex shardOf k) \<le> shardBudget c \<or>
     length (shardRecency (lc_shards (lru_Put shardOf sizeOf c k v) ! shardIndex shardOf k)) = 1) \<and>
    (\<forall>j. j \<noteq> shardIndex shardOf k \<longrightarrow> lc_shards (lru_Put shardOf sizeOf c k v) ! j = lc_shards c ! j)"
  using lru_Put_ok [OF assms, where k = k and v = v and sizeOf = sizeOf] by blast

theorem lru_Put_bounded_witness:
  "lruOk fnv1a (lru_Put fnv1a (\<lambda>k v. 100) (lru_Put fnv1a (\<lambda>k v. 100) (newLRUCache 64) ''a'' (1 :: nat)) ''b'' 2)"
  by (rule lru_Put_bounded [OF lru_Put_bounded [OF newLRUCache_ok(1), THEN conjunct1], THEN conjunct1])

text \<open>Lowering the budget takes effect at once: every shard then fits its slice of the new budget or holds
  a single entry, and keeps a prefix of its recency order.\<close>

theorem lru_SetBudget_bounded:
  assumes "lruOk shardOf c"
  shows "lruOk shardOf (lru_SetBudget c b) \<and> lc_budget (lru_SetBudget c b) = max b 0 \<and>
    (\<forall>i < lruShardCount. (sh_bytes (lc_shards (lru_SetBudget c b) ! i) \<le> shardBudget (lru_SetBudget c b) \<or>
       length (shardRecency (lc_shards (lru_SetBudget c b) ! i)) \<le> 1) \<and>
      (\<exists>n. shardRecency (lc_shards (lru_SetBudget c b) ! i) = take n (shardRecency (lc_shards c ! i))))"
  using lru_SetBudget_ok [OF assms, of b] by blast

theorem lru_SetBudget_bounded_witness:
  "lc_budget (lru_SetBudget (lru_Put fnv1a (\<lambda>k v. 100) (newLRUCache 64) ''a'' (1 :: nat)) 10) = 10"
proof -
  have "lruOk fnv1a (lru_Put fnv1a (\<lambda>k v. 100) (newLRUCache 64) ''a'' (1 :: nat))"
    by (rule lru_Put_ok [OF newLRUCache_ok(1), THEN conjunct1])
  from lru_SetBudget_bounded [OF this, of 10] show ?thesis by simp
qed

end
