(* ===== verification/ObjAttrs.thy ===== *)
theory ObjAttrs
  imports Prelude "HOL-Library.AList" "HOL-Library.Multiset"
begin

text \<open>
  The metadata attribute of a stored object (\<^verbatim>\<open>storage_unix.go\<close>): its encoding as length-prefixed
  pairs, its decoder, and the write that drops optional fields when the file system has no room for
  the value.  A Go map from strings to strings is an association list with distinct keys; the order
  in which a \<^verbatim>\<open>range\<close> visits a map is an argument where the result depends on it.
\<close>

section \<open>Definitions\<close>

type_synonym kvMap = "(string \<times> string) list"

subsection \<open>Variable-length integers\<close>

text \<open>\<^verbatim>\<open>binary.AppendUvarint\<close>: seven bits a byte, least significant first, the top bit set on
  all but the last.\<close>

function putUvarint :: "u64 \<Rightarrow> bytes" where
  "putUvarint x =
    (if x < 0x80 then [ucast x] else (ucast x OR 0x80) # putUvarint (drop_bit 7 x))"
  by pat_completeness auto
termination
  by (relation "measure unat")
    (auto simp: drop_bit_eq_div unat_div word_less_nat_alt not_less)

declare putUvarint.simps [simp del]

text \<open>\<^verbatim>\<open>binary.Uvarint\<close>: the value and the number of bytes read; 0 bytes when the buffer is too
  short, a negative count when the value does not fit in 64 bits.\<close>

fun uvarintLoop :: "nat \<Rightarrow> nat \<Rightarrow> u64 \<Rightarrow> bytes \<Rightarrow> u64 \<times> int" where
  "uvarintLoop i s x [] = (0, 0)"
| "uvarintLoop i s x (b # bs) =
    (if i = 10 then (0, - (int i + 1))
     else if b < 0x80 then
       (if i = 9 \<and> 1 < b then (0, - (int i + 1)) else (x OR push_bit s (ucast b), int i + 1))
     else uvarintLoop (i + 1) (s + 7) (x OR push_bit s (ucast (b AND 0x7f))) bs)"

definition uvarint :: "bytes \<Rightarrow> u64 \<times> int" where
  "uvarint buf = uvarintLoop 0 0 0 buf"

subsection \<open>The attribute value\<close>

record objAttrs =
  meta :: kvMap
  audit :: kvMap

definition objAttrVersion :: byte where
  "objAttrVersion = 1"

definition kvGet :: "kvMap \<Rightarrow> string \<Rightarrow> string" where
  "kvGet kv k = (case map_of kv k of Some v \<Rightarrow> v | None \<Rightarrow> [])"

definition appendPair :: "kvMap \<Rightarrow> bytes \<Rightarrow> string \<Rightarrow> bytes" where
  "appendPair kv buf k =
    buf @ putUvarint (of_nat (length k)) @ bytes_of k
        @ putUvarint (of_nat (length (kvGet kv k))) @ bytes_of (kvGet kv k)"

definition appendKV :: "bytes \<Rightarrow> kvMap \<Rightarrow> bytes" where
  "appendKV buf kv = foldl (appendPair kv) buf (sort (map fst kv))"

definition encodeObjAttrs :: "objAttrs \<Rightarrow> bytes" where
  "encodeObjAttrs a =
    (let buf = [objAttrVersion] @ putUvarint (of_nat (length (meta a)))
                 @ putUvarint (of_nat (length (audit a)));
         buf = appendKV buf (meta a)
     in appendKV buf (audit a))"

datatype attrErr = ErrObjAttrCorrupt

definition readUvarintString :: "bytes \<Rightarrow> attrErr + (string \<times> bytes)" where
  "readUvarintString buf =
    (let (sz, width) = uvarint buf in
     if width \<le> 0 \<or> (of_int (int (length buf) - width) :: u64) < sz then Inl ErrObjAttrCorrupt
     else let end = nat width + unat sz in
       Inr (string_of (take (unat sz) (drop (nat width) buf)), drop end buf))"

fun decodePairs :: "kvMap \<Rightarrow> bytes \<Rightarrow> nat \<Rightarrow> attrErr + (kvMap \<times> bytes)" where
  "decodePairs out buf 0 = Inr (out, buf)"
| "decodePairs out buf (Suc n) =
    (case readUvarintString buf of Inl e \<Rightarrow> Inl e
     | Inr (key, rest) \<Rightarrow>
       (case readUvarintString rest of Inl e \<Rightarrow> Inl e
        | Inr (val, rest) \<Rightarrow> decodePairs (AList.update key val out) rest n))"

definition decodeObjAttrs :: "bytes \<Rightarrow> attrErr + objAttrs" where
  "decodeObjAttrs buf =
    (if buf = [] \<or> hd buf \<noteq> objAttrVersion then Inl ErrObjAttrCorrupt
     else let buf = tl buf; (nMeta, width) = uvarint buf in
     if width \<le> 0 then Inl ErrObjAttrCorrupt
     else let buf = drop (nat width) buf; (nAudit, width) = uvarint buf in
     if width \<le> 0 then Inl ErrObjAttrCorrupt
     else let buf = drop (nat width) buf; n = (of_nat (length buf) :: u64) in
     if nMeta > n \<or> nAudit > n \<or> (nMeta + nAudit) * 2 > n then Inl ErrObjAttrCorrupt
     else case decodePairs [] buf (unat nMeta) of Inl e \<Rightarrow> Inl e
       | Inr (m, buf) \<Rightarrow>
         (case decodePairs [] buf (unat nAudit) of Inl e \<Rightarrow> Inl e
          | Inr (au, buf) \<Rightarrow>
            if buf \<noteq> [] then Inl ErrObjAttrCorrupt else Inr \<lparr>meta = m, audit = au\<rparr>))"

subsection \<open>Writing and reading the attribute\<close>

text \<open>The errors of the attribute system calls.\<close>

datatype errno = E2BIG | ENOSPC | EDQUOT | ERANGE | ENODATA | OtherErrno nat

datatype objErr = SetXattrErr errno

definition metadataProtectedKeys :: "string set" where
  "metadataProtectedKeys = {''outputid'', ''compression'', ''storedsha256''}"

fun isNoSpace :: "errno option \<Rightarrow> bool" where
  "isNoSpace (Some e) \<longleftrightarrow> e = E2BIG \<or> e = ENOSPC \<or> e = EDQUOT"
| "isNoSpace None \<longleftrightarrow> False"

definition wrapObjErr :: "errno option \<Rightarrow> objErr option" where
  "wrapObjErr err = map_option SetXattrErr err"

text \<open>The setter is a system call on the file: from the state of the file and the value to an error
  and the new state.  One \<^verbatim>\<open>range\<close> over the metadata picks the key to drop.\<close>

type_synonym 'f setter = "'f \<Rightarrow> bytes \<Rightarrow> errno option \<times> 'f"

definition pickLonger :: "kvMap \<Rightarrow> string \<Rightarrow> string \<times> string \<Rightarrow> string" where
  "pickLonger m longest kv =
    (if fst kv \<notin> metadataProtectedKeys \<and>
        (longest = [] \<or> length (snd kv) > length (kvGet m longest))
     then fst kv else longest)"

definition longestOptional :: "(kvMap \<Rightarrow> kvMap) \<Rightarrow> kvMap \<Rightarrow> string" where
  "longestOptional order m = foldl (pickLonger m) [] (order m)"

text \<open>The loop deletes a key a round, so the number of keys bounds the rounds; \<^term>\<open>None\<close> is a loop
  that would need more.\<close>

fun dropLoop :: "nat \<Rightarrow> 'f setter \<Rightarrow> (kvMap \<Rightarrow> kvMap) \<Rightarrow> 'f \<Rightarrow> kvMap \<Rightarrow> string list \<Rightarrow> errno option
    \<Rightarrow> (errno option \<times> string list \<times> 'f) option" where
  "dropLoop fuel setter order f m dropped err =
    (if \<not> isNoSpace err then Some (err, dropped, f)
     else let longest = longestOptional order m in
     if longest = [] then Some (err, dropped, f)
     else case fuel of 0 \<Rightarrow> None
       | Suc n \<Rightarrow>
         let m = AList.delete longest m;
             (err, f) = setter f (encodeObjAttrs \<lparr>meta = m, audit = []\<rparr>)
         in dropLoop n setter order f m (dropped @ [longest]) err)"

declare dropLoop.simps [simp del]

definition writeObjAttrs ::
    "'f setter \<Rightarrow> (kvMap \<Rightarrow> kvMap) \<Rightarrow> 'f \<Rightarrow> objAttrs \<Rightarrow> (objErr option \<times> string list \<times> 'f) option" where
  "writeObjAttrs setter order f attrs =
    (let (err, f) = setter f (encodeObjAttrs attrs) in
     if \<not> isNoSpace err then Some (wrapObjErr err, [], f)
     else let (dropped, err, f) =
       (if audit attrs \<noteq> [] then
          let (err, f) = setter f (encodeObjAttrs \<lparr>meta = meta attrs, audit = []\<rparr>)
          in (map (\<lambda>kv. ''audit.'' @ fst kv) (order (audit attrs)), err, f)
        else ([], err, f)) in
     case dropLoop (length (meta attrs)) setter order f (meta attrs) dropped err of
       None \<Rightarrow> None
     | Some (err, dropped, f) \<Rightarrow> Some (wrapObjErr err, dropped, f))"

text \<open>The getter is called with the size of its buffer and answers the bytes it filled in; with no
  buffer it answers the size of the value.\<close>

record getter =
  getInto :: "nat \<Rightarrow> errno + bytes"
  getSize :: "errno + nat"

definition emptyObjAttrs :: objAttrs where
  "emptyObjAttrs = \<lparr>meta = [], audit = []\<rparr>"

definition xattrValueBufSize :: nat where
  "xattrValueBufSize = 1024"

definition readObjAttrs :: "getter \<Rightarrow> objAttrs" where
  "readObjAttrs g =
    (let r = getInto g xattrValueBufSize;
         r = (if r = Inl ERANGE then
                (case getSize g of Inl e \<Rightarrow> Inl e | Inr sz \<Rightarrow> getInto g sz)
              else r)
     in case r of Inl e \<Rightarrow> emptyObjAttrs
        | Inr buf \<Rightarrow> (case decodeObjAttrs buf of Inl e \<Rightarrow> emptyObjAttrs | Inr a \<Rightarrow> a))"

text \<open>Merging new fields over stored ones, as \<^verbatim>\<open>setMetadata\<close>, \<^verbatim>\<open>setMetadataFd\<close> and
  \<^verbatim>\<open>setAudit\<close> do before they write the value back.\<close>

definition kvMerge :: "kvMap \<Rightarrow> kvMap \<Rightarrow> kvMap" where
  "kvMerge old new = foldl (\<lambda>m kv. AList.update (fst kv) (snd kv) m) old new"

definition setMetadata ::
    "'f setter \<Rightarrow> (kvMap \<Rightarrow> kvMap) \<Rightarrow> ('f \<Rightarrow> getter) \<Rightarrow> 'f \<Rightarrow> kvMap \<Rightarrow> (objErr option \<times> string list \<times> 'f) option"
  where
  "setMetadata setter order getterOf f new =
    (let attrs = readObjAttrs (getterOf f)
     in writeObjAttrs setter order f (attrs\<lparr>meta := kvMerge (meta attrs) new\<rparr>))"

definition setAudit ::
    "'f setter \<Rightarrow> (kvMap \<Rightarrow> kvMap) \<Rightarrow> ('f \<Rightarrow> getter) \<Rightarrow> 'f \<Rightarrow> kvMap \<Rightarrow> (objErr option \<times> string list \<times> 'f) option"
  where
  "setAudit setter order getterOf f new =
    (if new = [] then Some (None, [], f)
     else let attrs = readObjAttrs (getterOf f)
       in writeObjAttrs setter order f (attrs\<lparr>audit := kvMerge (audit attrs) new\<rparr>))"

section \<open>Round trip\<close>

lemma low7_or_rest:
  fixes v :: u64
  shows "push_bit s (ucast ((ucast v OR 0x80 :: byte) AND 0x7f)) OR push_bit (s + 7) (drop_bit 7 v)
       = push_bit s v"
proof (rule bit_word_eqI)
  fix n assume "n < LENGTH(64)"
  have m: "(0x7f :: byte) = mask 7" by (simp add: mask_eq_exp_minus_1)
  have b7: "bit (0x80 :: byte) k \<longleftrightarrow> k = 7" for k
    using bit_exp_iff [of 7 k, where 'a = "8 word"] by auto
  have c7: "bit (0x80 :: int) k \<longleftrightarrow> k = 7" for k
    using bit_exp_iff [of 7 k, where 'a = int] by auto
  have "bit v (7 + (n - (s + 7))) = bit v (n - s)" if "s + 7 \<le> n"
    using that by (intro arg_cong [of _ _ "bit v"]) simp
  then show "bit (push_bit s (ucast ((ucast v OR 0x80 :: byte) AND 0x7f)) OR push_bit (s + 7) (drop_bit 7 v)) n
      = bit (push_bit s v) n"
    unfolding m using \<open>n < LENGTH(64)\<close>
    by (cases "s + 7 \<le> n")
      (auto simp: bit_or_iff bit_push_bit_iff bit_and_iff bit_mask_iff bit_drop_bit_eq bit_ucast_iff b7 c7
        not_le)
qed

lemma uvarintLoop_put:
  assumes "i \<le> 9" and "unat v < 2 ^ (64 - 7 * i)"
  shows "uvarintLoop i (7 * i) x (putUvarint v @ rest)
       = (x OR push_bit (7 * i) v, int i + int (length (putUvarint v)))"
  using assms
proof (induction v arbitrary: i x rule: putUvarint.induct)
  case (1 v)
  show ?case
  proof (cases "v < 0x80")
    case True
    then have u: "unat v < 128" by (simp add: word_less_nat_alt)
    then have b: "unat (ucast v :: byte) = unat v" by (simp add: unsigned_ucast_eq unsigned_take_bit_eq take_bit_nat_eq_self)
    have "unat (take_bit 8 v) = unat v"
      using u by (simp add: unsigned_take_bit_eq take_bit_nat_eq_self)
    then have c: "(ucast (ucast v :: byte) :: u64) = v"
      by (intro word_unat_eq_iff [THEN iffD2]) (simp add: unsigned_ucast_eq)
    have "i = 9 \<Longrightarrow> \<not> (1 :: byte) < ucast v"
      using "1.prems" by (simp add: word_less_nat_alt b)
    then show ?thesis
      using True "1.prems"(1) u by (simp add: putUvarint.simps [of v] word_less_nat_alt b c)
  next
    case False
    then have u: "128 \<le> unat v" by (simp add: word_less_nat_alt)
    have i: "i \<le> 8"
    proof (rule ccontr)
      assume "\<not> i \<le> 8"
      then have "i = 9" using "1.prems"(1) by simp
      then show False using "1.prems"(2) u by simp
    qed
    have d: "unat (drop_bit 7 v) = unat v div 128" by (simp add: drop_bit_eq_div unat_div)
    have e: "64 - 7 * i = (64 - 7 * (i + 1)) + 7" using i by simp
    have "unat v < 2 ^ (64 - 7 * (i + 1)) * 128"
      using "1.prems"(2) unfolding e by (simp add: power_add)
    then have "unat (drop_bit 7 v) < 2 ^ (64 - 7 * (i + 1))"
      unfolding d by (simp add: less_mult_imp_div_less)
    from "1.IH" [OF False _ this] i
    have IH: "uvarintLoop (i + 1) (7 * (i + 1)) y (putUvarint (drop_bit 7 v) @ rest)
      = (y OR push_bit (7 * (i + 1)) (drop_bit 7 v), int (i + 1) + int (length (putUvarint (drop_bit 7 v))))"
      for y by simp
    have hi: "\<not> (ucast v OR 0x80 :: byte) < 0x80"
    proof -
      have "bit (unat (ucast v OR 0x80 :: byte)) 7" by (simp add: bit_unsigned_iff bit_or_iff)
      then have "odd (unat (ucast v OR 0x80 :: byte) div 128)" by (simp add: bit_iff_odd)
      then show ?thesis by (auto simp: word_less_nat_alt)
    qed
    have p: "putUvarint v = (ucast v OR 0x80) # putUvarint (drop_bit 7 v)"
      using False by (simp add: putUvarint.simps [of v])
    have s: "7 * i + 7 = 7 * (i + 1)" by simp
    have l: "(x OR push_bit (7 * i) (ucast ((ucast v OR 0x80 :: byte) AND 0x7f)))
        OR push_bit (7 * (i + 1)) (drop_bit 7 v) = x OR push_bit (7 * i) v"
      using low7_or_rest [of "7 * i" v] unfolding s or.assoc by simp
    show ?thesis
      unfolding p append_Cons uvarintLoop.simps s IH l using hi i by simp
  qed
qed

lemma uvarint_put [simp, codec_simps]:
  "uvarint (putUvarint v @ rest) = (v, int (length (putUvarint v)))"
proof -
  have "unat v < 2 ^ (64 - 7 * 0)" using unsigned_less [of v] by simp
  from uvarintLoop_put [OF _ this, of 0 rest] show ?thesis by (simp add: uvarint_def)
qed

lemma putUvarint_not_Nil [simp]: "putUvarint v \<noteq> []"
  by (simp add: putUvarint.simps [of v])

lemma length_putUvarint_pos [simp]: "0 < length (putUvarint v)"
  by simp

lemma readUvarintString_put:
  assumes "length k + length rest < 2 ^ 64"
  shows "readUvarintString (putUvarint (of_nat (length k)) @ bytes_of k @ rest) = Inr (k, rest)"
proof -
  have u: "unat (of_nat (length k) :: u64) = length k"
    using assms by (simp add: unat_of_nat take_bit_nat_eq_self)
  have "\<not> (of_nat (length k + length rest) :: u64) < of_nat (length k)"
    using assms by (simp add: word_less_nat_alt unat_of_nat take_bit_nat_eq_self del: of_nat_add)
  then show ?thesis
    by (simp add: readUvarintString_def u of_nat_diff)
qed

definition pairBytes :: "kvMap \<Rightarrow> string \<Rightarrow> bytes" where
  "pairBytes kv k = appendPair kv [] k"

lemma appendPair_eq: "appendPair kv buf k = buf @ pairBytes kv k"
  by (simp add: pairBytes_def appendPair_def)

lemma appendKV_eq: "appendKV buf kv = buf @ concat (map (pairBytes kv) (sort (map fst kv)))"
proof -
  have "foldl (appendPair kv) buf ks = buf @ concat (map (pairBytes kv) ks)" for ks
    by (induction ks arbitrary: buf) (simp_all add: appendPair_eq)
  then show ?thesis by (simp add: appendKV_def)
qed

lemma length_pairBytes: "2 \<le> length (pairBytes kv k)"
  using length_putUvarint_pos [of "of_nat (length k)"] length_putUvarint_pos [of "of_nat (length (kvGet kv k))"]
  unfolding pairBytes_def appendPair_def length_append by linarith

lemma length_concat_pairBytes: "2 * length ks \<le> length (concat (map (pairBytes kv) ks))"
proof (induction ks)
  case (Cons k ks)
  then show ?case using length_pairBytes [of kv k] by simp
qed simp

lemma update_new: "k \<notin> fst ` set al \<Longrightarrow> AList.update k v al = al @ [(k, v)]"
  by (induction al) auto

lemma decodePairs_concat:
  assumes "length (concat (map (pairBytes kv) ks) @ rest) < 2 ^ 64"
    and "distinct ks" and "set ks \<inter> fst ` set out = {}"
  shows "decodePairs out (concat (map (pairBytes kv) ks) @ rest) (length ks)
       = Inr (out @ map (\<lambda>k. (k, kvGet kv k)) ks, rest)"
  using assms
proof (induction ks arbitrary: out)
  case (Cons k ks)
  let ?tail = "concat (map (pairBytes kv) ks) @ rest"
  have e: "concat (map (pairBytes kv) (k # ks)) @ rest = putUvarint (of_nat (length k)) @ bytes_of k
      @ putUvarint (of_nat (length (kvGet kv k))) @ bytes_of (kvGet kv k) @ ?tail"
    by (simp add: pairBytes_def appendPair_def)
  have len: "length k + length (putUvarint (of_nat (length (kvGet kv k)))
      @ bytes_of (kvGet kv k) @ ?tail) < 2 ^ 64"
    "length (kvGet kv k) + length ?tail < 2 ^ 64"
    using Cons.prems(1) unfolding e by simp_all
  have up: "AList.update k (kvGet kv k) out = out @ [(k, kvGet kv k)]"
    using Cons.prems(3) by (intro update_new) auto
  have "decodePairs (out @ [(k, kvGet kv k)]) ?tail (length ks)
      = Inr ((out @ [(k, kvGet kv k)]) @ map (\<lambda>k. (k, kvGet kv k)) ks, rest)"
    using Cons.prems len by (intro Cons.IH) auto
  then show ?case
    unfolding e by (simp add: readUvarintString_put [OF len(1)] readUvarintString_put [OF len(2)] up)
qed simp

lemma encodeObjAttrs_eq:
  "encodeObjAttrs a = objAttrVersion # putUvarint (of_nat (length (meta a)))
     @ putUvarint (of_nat (length (audit a)))
     @ concat (map (pairBytes (meta a)) (sort (map fst (meta a))))
     @ concat (map (pairBytes (audit a)) (sort (map fst (audit a))))"
  by (simp add: encodeObjAttrs_def appendKV_eq)

text \<open>The decoded maps list the pairs by ascending key.\<close>

definition kvSorted :: "kvMap \<Rightarrow> kvMap" where
  "kvSorted kv = map (\<lambda>k. (k, kvGet kv k)) (sort (map fst kv))"

lemma map_of_kvSorted [simp]: "map_of (kvSorted kv) = map_of kv"
proof
  fix k
  show "map_of (kvSorted kv) k = map_of kv k"
  proof (cases "k \<in> fst ` set kv")
    case True
    then obtain v where "map_of kv k = Some v"
      using weak_map_of_SomeI by fastforce
    moreover from True have "k \<in> set (sort (map fst kv))" by simp
    then have "map_of (kvSorted kv) k = Some (kvGet kv k)"
      unfolding kvSorted_def by (simp add: map_of_map_restrict restrict_map_def)
    ultimately show ?thesis by (simp add: kvGet_def)
  next
    case False
    then have "map_of kv k = None" by (simp add: map_of_eq_None_iff)
    moreover have "map_of (kvSorted kv) k = None"
      using False by (simp add: map_of_eq_None_iff kvSorted_def image_image)
    ultimately show ?thesis by simp
  qed
qed

lemma decode_encodeObjAttrs:
  assumes "distinct (map fst (meta a))" "distinct (map fst (audit a))"
    and size: "length (encodeObjAttrs a) < 2 ^ 63"
  shows "decodeObjAttrs (encodeObjAttrs a)
       = Inr \<lparr>meta = kvSorted (meta a), audit = kvSorted (audit a)\<rparr>"
proof -
  let ?M = "concat (map (pairBytes (meta a)) (sort (map fst (meta a))))"
  let ?A = "concat (map (pairBytes (audit a)) (sort (map fst (audit a))))"
  let ?n = "length (meta a)" and ?m = "length (audit a)"
  have lenM: "2 * ?n \<le> length ?M" and lenA: "2 * ?m \<le> length ?A"
    using length_concat_pairBytes [of "sort (map fst (meta a))" "meta a"]
      length_concat_pairBytes [of "sort (map fst (audit a))" "audit a"] by simp_all
  have len: "length (?M @ ?A) < 2 ^ 63"
    using size unfolding encodeObjAttrs_eq by simp
  have n: "unat (of_nat ?n :: u64) = ?n" "unat (of_nat ?m :: u64) = ?m"
    "unat (of_nat (length (?M @ ?A)) :: u64) = length (?M @ ?A)"
    using lenM lenA len by (simp_all add: unat_of_nat take_bit_nat_eq_self del: of_nat_add)
  have s: "unat ((of_nat ?n + of_nat ?m) * 2 :: u64) = (?n + ?m) * 2"
  proof -
    have "(of_nat ?n + of_nat ?m) * 2 = (of_nat ((?n + ?m) * 2) :: u64)" by simp
    then show ?thesis using lenM lenA len
      by (simp add: unat_of_nat take_bit_nat_eq_self del: of_nat_add of_nat_mult)
  qed
  have ok: "\<not> (of_nat ?n > (of_nat (length (?M @ ?A)) :: u64) \<or> of_nat ?m > (of_nat (length (?M @ ?A)) :: u64)
      \<or> (of_nat ?n + of_nat ?m) * 2 > (of_nat (length (?M @ ?A)) :: u64))"
    using lenM lenA unfolding word_less_nat_alt n s by simp
  have dM: "decodePairs [] (?M @ ?A) ?n = Inr (kvSorted (meta a), ?A)"
    using decodePairs_concat [of "meta a" "sort (map fst (meta a))" ?A "[]"] assms(1) len
    by (simp add: kvSorted_def)
  have dA: "decodePairs [] ?A ?m = Inr (kvSorted (audit a), [])"
    using decodePairs_concat [of "audit a" "sort (map fst (audit a))" "[]" "[]"] assms(2) len
    by (simp add: kvSorted_def)
  show ?thesis
    unfolding decodeObjAttrs_def encodeObjAttrs_eq
    using ok by (simp add: Let_def n dM dA)
qed

section \<open>Dropping fields that do not fit\<close>

text \<open>A \<^verbatim>\<open>range\<close> visits every pair of the map once.\<close>

definition visitsAll :: "(kvMap \<Rightarrow> kvMap) \<Rightarrow> bool" where
  "visitsAll order \<longleftrightarrow> (\<forall>m. mset (order m) = mset m)"

lemma visitsAll_set: "visitsAll order \<Longrightarrow> set (order m) = set m"
  unfolding visitsAll_def by (metis set_mset_mset)

lemma visitsAll_distinct: "visitsAll order \<Longrightarrow> distinct (map f (order m)) \<longleftrightarrow> distinct (map f m)"
  unfolding visitsAll_def by (metis mset_eq_imp_distinct_iff mset_map)

lemma pickLonger_cases:
  "pickLonger m l x = l \<and> (fst x \<in> metadataProtectedKeys \<or> l \<noteq> []) \<or>
   pickLonger m l x = fst x \<and> fst x \<notin> metadataProtectedKeys"
  by (auto simp: pickLonger_def)

lemma foldl_pickLonger_member:
  "foldl (pickLonger m) l xs = l \<or>
   foldl (pickLonger m) l xs \<in> fst ` set xs - metadataProtectedKeys"
proof (induction xs arbitrary: l)
  case (Cons x xs)
  from Cons.IH [of "pickLonger m l x"] pickLonger_cases [of m l x] show ?case
    unfolding foldl_Cons by (elim disjE) auto
qed simp

lemma foldl_pickLonger_Nil:
  "[] \<notin> fst ` set xs \<Longrightarrow> foldl (pickLonger m) l xs = []
    \<Longrightarrow> l = [] \<and> fst ` set xs \<subseteq> metadataProtectedKeys"
proof (induction xs arbitrary: l)
  case (Cons x xs)
  then have "pickLonger m l x = [] \<and> fst ` set xs \<subseteq> metadataProtectedKeys"
    by (intro Cons.IH) auto
  then show ?case using pickLonger_cases [of m l x] Cons.prems(1) by auto
qed simp

lemma longestOptional_cases:
  assumes "visitsAll order"
  shows "[] \<notin> fst ` set m \<Longrightarrow> longestOptional order m = [] \<Longrightarrow> fst ` set m \<subseteq> metadataProtectedKeys"
    and "longestOptional order m \<noteq> [] \<Longrightarrow> longestOptional order m \<in> fst ` set m - metadataProtectedKeys"
  using foldl_pickLonger_member [of m "[]" "order m"] foldl_pickLonger_Nil [of "order m" m "[]"] assms
  by (auto simp: longestOptional_def visitsAll_set)

lemma longestOptional_member:
  assumes "visitsAll order" and "longestOptional order m \<noteq> []"
  shows "longestOptional order m \<in> fst ` set m"
  using foldl_pickLonger_member [of m "[]" "order m"] assms by (auto simp: longestOptional_def visitsAll_set)

lemma dropLoop_total:
  assumes "visitsAll order" and "length m \<le> fuel"
  shows "dropLoop fuel setter order f m dropped err \<noteq> None"
  using assms(2)
proof (induction fuel arbitrary: m dropped err f)
  case 0
  then have "longestOptional order m = []" using longestOptional_member [OF assms(1), of m] by auto
  then show ?case by (simp add: dropLoop.simps [of 0])
next
  case (Suc n)
  let ?l = "longestOptional order m"
  have "length (AList.delete ?l m) \<le> n" if "?l \<noteq> []"
  proof -
    have "length (AList.delete ?l m) < length m"
      using longestOptional_member [OF assms(1) that] by (auto simp: AList.delete_eq intro!: length_filter_less)
    then show ?thesis using Suc.prems by simp
  qed
  then show ?case
    using Suc.IH by (auto simp: dropLoop.simps [of "Suc n"] Let_def split: prod.split)
qed

lemma writeObjAttrs_total:
  assumes "visitsAll order" shows "writeObjAttrs setter order f a \<noteq> None"
proof -
  have dl: "(dropLoop (length (meta a)) setter order g (meta a) d e = None) = False" for g d e
    using dropLoop_total [OF assms order_refl, where m = "meta a" and setter = setter and f = g and dropped = d and err = e]
    by simp
  show ?thesis
    unfolding writeObjAttrs_def Let_def by (auto simp: dl split: prod.split option.split)
qed

text \<open>What a chain of writes leaves: the last value tried, and the keys given up for it.\<close>

definition dropPost :: "'f setter \<Rightarrow> kvMap \<Rightarrow> string list \<Rightarrow> errno option \<times> string list \<times> 'f \<Rightarrow> bool" where
  "dropPost setter m dropped r \<longleftrightarrow> (\<exists>gone f0.
     snd r = (dropped @ gone, snd (snd r)) \<and> set gone \<subseteq> fst ` set m - metadataProtectedKeys \<and>
     setter f0 (encodeObjAttrs \<lparr>meta = filter (\<lambda>kv. fst kv \<notin> set gone) m, audit = []\<rparr>) = (fst r, snd (snd r)) \<and>
     ([] \<notin> fst ` set m \<longrightarrow> isNoSpace (fst r) \<longrightarrow> set gone = fst ` set m - metadataProtectedKeys))"

lemma dropLoop_post:
  assumes order: "visitsAll order"
  shows "length m \<le> fuel
    \<Longrightarrow> setter f0 (encodeObjAttrs \<lparr>meta = m, audit = []\<rparr>) = (err, f)
    \<Longrightarrow> \<exists>r. dropLoop fuel setter order f m dropped err = Some r \<and> dropPost setter m dropped r"
proof (induction fuel arbitrary: m dropped err f f0)
  case 0
  then have "m = []" by simp
  then have "longestOptional order m = []"
    using longestOptional_cases(2) [OF order, of m] by auto
  then show ?case
    using \<open>m = []\<close> 0
    by (auto simp: dropLoop.simps [of 0] dropPost_def intro!: exI [of _ "[]"] exI [of _ f0])
next
  case (Suc n)
  let ?l = "longestOptional order m"
  have stop: "dropPost setter m dropped (err, dropped, f)"
    if "\<not> isNoSpace err \<or> ?l = []"
    using that longestOptional_cases(1) [OF order, of m] Suc.prems(2)
    by (auto simp: dropPost_def intro!: exI [of _ "[]"] exI [of _ f0])
  show ?case
  proof (cases "\<not> isNoSpace err \<or> ?l = []")
    case True
    with stop show ?thesis by (auto simp: dropLoop.simps [of "Suc n"])
  next
    case False
    let ?m = "AList.delete ?l m"
    have l: "?l \<in> fst ` set m - metadataProtectedKeys"
      using longestOptional_cases(2) [OF order, of m] False by blast
    then have "length ?m < length m"
      by (auto simp: AList.delete_eq intro!: length_filter_less)
    then have len: "length ?m \<le> n" using Suc.prems(1) by simp
    obtain err' f' where st: "setter f (encodeObjAttrs \<lparr>meta = ?m, audit = []\<rparr>) = (err', f')"
      by fastforce
    from Suc.IH [OF len st, of "dropped @ [?l]"] obtain r where
      r: "dropLoop n setter order f' ?m (dropped @ [?l]) err' = Some r"
        "dropPost setter ?m (dropped @ [?l]) r" by blast
    then have "dropLoop (Suc n) setter order f m dropped err = Some r"
      using False st by (simp add: dropLoop.simps [of "Suc n"] Let_def)
    moreover have "dropPost setter m dropped r"
    proof -
      from r(2) obtain gone g0 where
        g: "snd r = ((dropped @ [?l]) @ gone, snd (snd r))" "set gone \<subseteq> fst ` set ?m - metadataProtectedKeys"
          "setter g0 (encodeObjAttrs \<lparr>meta = filter (\<lambda>kv. fst kv \<notin> set gone) ?m, audit = []\<rparr>) = (fst r, snd (snd r))"
          "[] \<notin> fst ` set ?m \<longrightarrow> isNoSpace (fst r) \<longrightarrow> set gone = fst ` set ?m - metadataProtectedKeys"
        unfolding dropPost_def by blast
      have "filter (\<lambda>kv. fst kv \<notin> set (?l # gone)) m = filter (\<lambda>kv. fst kv \<notin> set gone) ?m"
        by (auto simp: AList.delete_eq intro: filter_cong)
      moreover have "fst ` set ?m = fst ` set m - {?l}" by (auto simp: AList.delete_eq)
      ultimately show ?thesis
        unfolding dropPost_def using g l
        by (intro exI [of _ "?l # gone"] exI [of _ g0]) auto
    qed
    ultimately show ?thesis by blast
  qed
qed

text \<open>The value a write settles on, \<^term>\<open>b\<close>, against the value asked for, \<^term>\<open>a\<close>: no key is
  invented or changed, protected keys stay, and the report names what is missing.\<close>

definition writtenFor :: "objAttrs \<Rightarrow> objAttrs \<Rightarrow> string list \<Rightarrow> bool" where
  "writtenFor a b dropped \<longleftrightarrow>
     (b = a \<and> dropped = [] \<or>
      audit b = [] \<and> set (meta b) \<subseteq> set (meta a) \<and>
      (distinct (map fst (meta a)) \<longrightarrow> distinct (map fst (meta b))) \<and> map_of (meta b) \<subseteq>\<^sub>m map_of (meta a) \<and>
      (\<forall>k \<in> metadataProtectedKeys. map_of (meta b) k = map_of (meta a) k) \<and>
      set dropped = (\<lambda>kv. ''audit.'' @ fst kv) ` set (audit a) \<union> (fst ` set (meta a) - fst ` set (meta b)))"

lemma map_of_filter_keys: "map_of (filter (\<lambda>kv. fst kv \<notin> S) m) k = (if k \<in> S then None else map_of m k)"
  by (induction m) auto

lemma writeObjAttrs_post:
  assumes order: "visitsAll order"
  shows "\<exists>err dropped f' b f0.
    writeObjAttrs setter order f a = Some (wrapObjErr err, dropped, f') \<and>
    setter f0 (encodeObjAttrs b) = (err, f') \<and> writtenFor a b dropped \<and>
    ([] \<notin> fst ` set (meta a) \<longrightarrow> isNoSpace err \<longrightarrow> audit b = [] \<and> fst ` set (meta b) = fst ` set (meta a) \<inter> metadataProtectedKeys)"
proof -
  obtain err1 f1 where st1: "setter f (encodeObjAttrs a) = (err1, f1)" by fastforce
  show ?thesis
  proof (cases "isNoSpace err1")
    case False
    then show ?thesis
      using st1 by (intro exI [of _ err1] exI [of _ "[]"] exI [of _ f1] exI [of _ a] exI [of _ f])
        (simp add: writeObjAttrs_def writtenFor_def)
  next
    case True
    let ?aud = "map (\<lambda>kv. ''audit.'' @ fst kv) (order (audit a))"
    obtain err2 f2 f0 where st2: "(if audit a \<noteq> [] then
          let (err, f) = setter f1 (encodeObjAttrs \<lparr>meta = meta a, audit = []\<rparr>) in (?aud, err, f)
        else ([], err1, f1)) = (if audit a \<noteq> [] then ?aud else [], err2, f2)"
      and f0: "setter f0 (encodeObjAttrs \<lparr>meta = meta a, audit = []\<rparr>) = (err2, f2)"
    proof (cases "audit a = []")
      case True
      then have "\<lparr>meta = meta a, audit = []\<rparr> = a" by (cases a) simp
      then have "setter f (encodeObjAttrs \<lparr>meta = meta a, audit = []\<rparr>) = (err1, f1)"
        using st1 by simp
      with True show ?thesis using that [of err1 f1 f] by simp
    next
      case False
      obtain e g where "setter f1 (encodeObjAttrs \<lparr>meta = meta a, audit = []\<rparr>) = (e, g)" by fastforce
      then show ?thesis using False that [of e g f1] by simp
    qed
    let ?d = "if audit a \<noteq> [] then ?aud else []"
    from dropLoop_post [where setter = setter and order = order and m = "meta a" and fuel = "length (meta a)"
        and dropped = ?d, OF order order_refl f0] obtain e d f3 where
      loop: "dropLoop (length (meta a)) setter order f2 (meta a) ?d err2 = Some (e, d, f3)"
      and post: "dropPost setter (meta a) ?d (e, d, f3)" by fastforce
    have w: "writeObjAttrs setter order f a = Some (wrapObjErr e, d, f3)"
      unfolding writeObjAttrs_def using True st1 st2 loop by (simp add: Let_def)
    from post obtain gone g0 where
      d: "d = ?d @ gone" and gone: "set gone \<subseteq> fst ` set (meta a) - metadataProtectedKeys"
      and g0: "setter g0 (encodeObjAttrs \<lparr>meta = filter (\<lambda>kv. fst kv \<notin> set gone) (meta a), audit = []\<rparr>) = (e, f3)"
      and nospace: "[] \<notin> fst ` set (meta a) \<longrightarrow> isNoSpace e \<longrightarrow> set gone = fst ` set (meta a) - metadataProtectedKeys"
      unfolding dropPost_def by auto
    let ?m = "filter (\<lambda>kv. fst kv \<notin> set gone) (meta a)"
    have keys: "fst ` set ?m = fst ` set (meta a) - set gone" by auto
    have "set ?d = (\<lambda>kv. ''audit.'' @ fst kv) ` set (audit a)"
      using order by (auto simp: visitsAll_set)
    then have dropped: "set d = (\<lambda>kv. ''audit.'' @ fst kv) ` set (audit a)
        \<union> (fst ` set (meta a) - fst ` set ?m)"
      unfolding d set_append keys using gone by blast
    have wr: "writtenFor a \<lparr>meta = ?m, audit = []\<rparr> d"
      unfolding writtenFor_def using dropped gone
      by (intro disjI2) (auto simp: map_of_filter_keys map_le_def distinct_map_filter)
    have "[] \<notin> fst ` set (meta a) \<longrightarrow> isNoSpace e \<longrightarrow> fst ` set ?m = fst ` set (meta a) \<inter> metadataProtectedKeys"
      unfolding keys using nospace by blast
    then show ?thesis
      using w g0 wr
      by (intro exI [of _ e] exI [of _ d] exI [of _ f3] exI [of _ "\<lparr>meta = ?m, audit = []\<rparr>"] exI [of _ g0])
        simp
  qed
qed

section \<open>The attribute system calls\<close>

text \<open>An attribute of a file with room for \<open>cap\<close> bytes: \<^verbatim>\<open>setxattr\<close> replaces the value, fails with no
  space, or fails on the value for a reason of its own (\<open>refuses\<close>: \<^verbatim>\<open>EIO\<close>, \<^verbatim>\<open>EPERM\<close>, \<^verbatim>\<open>ENOTSUP\<close>, a quota), and a
  call that fails leaves the attribute as it was; \<^verbatim>\<open>getxattr\<close> fails on a buffer that is too small, and an empty
  buffer asks for the size.\<close>

type_synonym xattrFile = "bytes option"

definition xattrSet :: "nat \<Rightarrow> (bytes \<Rightarrow> errno option) \<Rightarrow> xattrFile setter" where
  "xattrSet cap refuses f v =
    (case refuses v of Some e \<Rightarrow> (Some e, f)
     | None \<Rightarrow> if length v \<le> cap then (None, Some v) else (Some ENOSPC, f))"

lemma xattrSet_cases:
  obtains (stored) "xattrSet cap refuses f v = (None, Some v)" "length v \<le> cap" "refuses v = None"
  | (failed) e where "xattrSet cap refuses f v = (Some e, f)"
  by (cases "refuses v"; cases "length v \<le> cap") (auto simp: xattrSet_def)

definition xattrGetter :: "xattrFile \<Rightarrow> getter" where
  "xattrGetter f = \<lparr>
     getInto = (\<lambda>n. case f of None \<Rightarrow> Inl ENODATA
       | Some v \<Rightarrow> if n = 0 \<or> length v \<le> n then Inr v else Inl ERANGE),
     getSize = (case f of None \<Rightarrow> Inl ENODATA | Some v \<Rightarrow> Inr (length v))\<rparr>"

lemma readObjAttrs_xattr:
  "readObjAttrs (xattrGetter f) =
    (case f of None \<Rightarrow> emptyObjAttrs
     | Some v \<Rightarrow> (case decodeObjAttrs v of Inl e \<Rightarrow> emptyObjAttrs | Inr a \<Rightarrow> a))"
  by (simp add: readObjAttrs_def xattrGetter_def split: option.split)

lemma readObjAttrs_encode:
  assumes "distinct (map fst (meta a))" "distinct (map fst (audit a))"
    and "length (encodeObjAttrs a) < 2 ^ 63"
  shows "readObjAttrs (xattrGetter (Some (encodeObjAttrs a)))
       = \<lparr>meta = kvSorted (meta a), audit = kvSorted (audit a)\<rparr>"
  by (simp add: readObjAttrs_xattr decode_encodeObjAttrs [OF assms])

lemma map_of_kvMerge: "map_of (kvMerge old new) = map_of old ++ map_of (rev new)"
  unfolding kvMerge_def
proof (induction new arbitrary: old)
  case (Cons kv new)
  then show ?case by (cases kv) (simp add: update_conv' map_add_def fun_eq_iff split: option.split)
qed simp

lemma distinct_kvMerge: "distinct (map fst old) \<Longrightarrow> distinct (map fst (kvMerge old new))"
  unfolding kvMerge_def by (induction new arbitrary: old) (simp_all add: distinct_update)

lemma distinct_decodePairs:
  "decodePairs out buf n = Inr (kv, rest) \<Longrightarrow> distinct (map fst out) \<Longrightarrow> distinct (map fst kv)"
  by (induction out buf n arbitrary: kv rest rule: decodePairs.induct)
    (auto split: sum.splits simp: distinct_update)

lemma distinct_decodeObjAttrs:
  "decodeObjAttrs buf = Inr a \<Longrightarrow> distinct (map fst (meta a)) \<and> distinct (map fst (audit a))"
  unfolding decodeObjAttrs_def
  by (auto simp: Let_def split: if_splits prod.splits sum.splits dest!: distinct_decodePairs)

lemma distinct_readObjAttrs:
  "distinct (map fst (meta (readObjAttrs g)))" "distinct (map fst (audit (readObjAttrs g)))"
  by (auto simp: readObjAttrs_def Let_def emptyObjAttrs_def distinct_decodeObjAttrs
      split: sum.splits if_splits)

lemma setMetadata_fits:
  assumes new: "distinct (map fst new)" and cap: "cap < 2 ^ 63"
    and fits: "length (encodeObjAttrs ((readObjAttrs (xattrGetter f))
                 \<lparr>meta := kvMerge (meta (readObjAttrs (xattrGetter f))) new\<rparr>)) \<le> cap"
  shows "\<exists>f'. setMetadata (xattrSet cap (\<lambda>_. None)) order xattrGetter f new = Some (None, [], f') \<and>
    map_of (meta (readObjAttrs (xattrGetter f'))) = map_of (meta (readObjAttrs (xattrGetter f))) ++ map_of new \<and>
    map_of (audit (readObjAttrs (xattrGetter f'))) = map_of (audit (readObjAttrs (xattrGetter f)))"
proof -
  let ?a = "readObjAttrs (xattrGetter f)"
  let ?b = "?a\<lparr>meta := kvMerge (meta ?a) new\<rparr>"
  have d: "distinct (map fst (meta ?b))" "distinct (map fst (audit ?b))"
    by (simp_all add: distinct_kvMerge distinct_readObjAttrs)
  have len: "length (encodeObjAttrs ?b) < 2 ^ 63" using fits cap by linarith
  have "map_of (rev new) = map_of new" using new by (intro map_of_inject_set [THEN iffD2]) (simp_all add: rev_map [symmetric])
  then show ?thesis
    using fits readObjAttrs_encode [OF d len]
    by (intro exI [of _ "Some (encodeObjAttrs ?b)"])
      (simp add: setMetadata_def Let_def writeObjAttrs_def xattrSet_def wrapObjErr_def map_of_kvMerge)
qed

section \<open>Properties\<close>

text \<open>(C21) Encoding an object's metadata and audit fields and decoding the bytes gives both maps back,
  for any maps whose encoding is shorter than 2 to the power of 63 bytes.\<close>

theorem objAttrs_roundtrip:
  assumes "distinct (map fst (meta a))" "distinct (map fst (audit a))"
    and "length (encodeObjAttrs a) < 2 ^ 63"
  shows "\<exists>b. decodeObjAttrs (encodeObjAttrs a) = Inr b \<and>
    map_of (meta b) = map_of (meta a) \<and> map_of (audit b) = map_of (audit a)"
  by (simp add: decode_encodeObjAttrs [OF assms])

definition demoAttrs :: objAttrs where
  "demoAttrs = \<lparr>meta = [(''pkg'', ''fmt''), (''outputid'', ''ab'')], audit = [(''ip'', ''::1'')]\<rparr>"

theorem objAttrs_roundtrip_witness:
  "distinct (map fst (meta demoAttrs)) \<and> distinct (map fst (audit demoAttrs)) \<and>
   length (encodeObjAttrs demoAttrs) < 2 ^ 63 \<and>
   (\<exists>b. decodeObjAttrs (encodeObjAttrs demoAttrs) = Inr b \<and>
    map_of (meta b) = map_of (meta demoAttrs) \<and> map_of (audit b) = map_of (audit demoAttrs))"
proof -
  have 1: "distinct (map fst (meta demoAttrs))" "distinct (map fst (audit demoAttrs))"
    by (simp_all add: demoAttrs_def)
  have "length (encodeObjAttrs demoAttrs) = 30" by code_simp
  then have 2: "length (encodeObjAttrs demoAttrs) < 2 ^ 63" by simp
  show ?thesis using objAttrs_roundtrip [OF 1 2] 1 2 by blast
qed

text \<open>(C13) A write that does not fit ends after finitely many attempts, whatever the attribute's system call
  answers.  The value of the last attempt has every protected key unchanged and invents nothing, and the report names
  exactly the fields it lacks.  When even that attempt finds no space, nothing but protected keys was left to drop,
  unless the object has a metadata field with the empty key: the loop uses the empty key as its mark for "no
  candidate" and stops when that field is the longest, so then the write can fail for space with
  optional fields left.\<close>

theorem writeObjAttrs_keeps_protected:
  assumes "visitsAll order"
  shows "\<exists>err dropped f' b f0.
    writeObjAttrs setter order f a = Some (wrapObjErr err, dropped, f') \<and>
    setter f0 (encodeObjAttrs b) = (err, f') \<and> writtenFor a b dropped \<and>
    ([] \<notin> fst ` set (meta a) \<longrightarrow> isNoSpace err \<longrightarrow>
       audit b = [] \<and> fst ` set (meta b) = fst ` set (meta a) \<inter> metadataProtectedKeys)"
  using writeObjAttrs_post [OF assms, of setter f a] .

theorem writeObjAttrs_keeps_protected_witness:
  "visitsAll rev \<and> [] \<notin> fst ` set (meta demoAttrs) \<and>
   (\<exists>err dropped f' b f0.
    writeObjAttrs (xattrSet 14 (\<lambda>_. None)) rev None demoAttrs = Some (wrapObjErr err, dropped, f') \<and>
    xattrSet 14 (\<lambda>_. None) f0 (encodeObjAttrs b) = (err, f') \<and> writtenFor demoAttrs b dropped)"
proof -
  have 1: "visitsAll rev" by (simp add: visitsAll_def)
  have 2: "[] \<notin> fst ` set (meta demoAttrs)" by (simp add: demoAttrs_def)
  show ?thesis using writeObjAttrs_keeps_protected [OF 1, of "xattrSet 14 (\<lambda>_. None)" None demoAttrs] 1 2 by blast
qed

end
