(* ===== verification/Paths.thy ===== *)
theory Paths
  imports ActionKey Sha256
begin

text \<open>
  Where an object lives: the functions of \<^verbatim>\<open>storage.go\<close> that turn a cache key into a file path
  under the data directory and back, over the parts of Go's \<^verbatim>\<open>path/filepath\<close> they use.
\<close>

section \<open>Definitions\<close>

subsection \<open>Slash-separated paths\<close>

text \<open>One step of \<^verbatim>\<open>filepath.Clean\<close> on the elements kept so far.\<close>

definition cleanStep :: "bool \<Rightarrow> string list \<Rightarrow> string \<Rightarrow> string list" where
  "cleanStep rooted acc e =
    (if e = [] \<or> e = ''.'' then acc
     else if e = ''..'' then
       (if acc \<noteq> [] \<and> last acc \<noteq> ''..'' then butlast acc
        else if rooted then acc else acc @ [''..''])
     else acc @ [e])"

definition isRooted :: "string \<Rightarrow> bool" where
  "isRooted p \<longleftrightarrow> p \<noteq> [] \<and> hd p = CHR ''/''"

definition pathElems :: "string \<Rightarrow> string list" where
  "pathElems p = foldl (cleanStep (isRooted p)) [] (splitOn CHR ''/'' p)"

definition printPath :: "bool \<Rightarrow> string list \<Rightarrow> string" where
  "printPath rooted es =
    (if rooted then CHR ''/'' # joinWith CHR ''/'' es
     else if es = [] then ''.'' else joinWith CHR ''/'' es)"

definition filepathClean :: "string \<Rightarrow> string" where
  "filepathClean p = (if p = [] then ''.'' else printPath (isRooted p) (pathElems p))"

definition filepathJoin :: "string list \<Rightarrow> string" where
  "filepathJoin es =
    (let es = dropWhile (\<lambda>e. e = []) es
     in if es = [] then [] else filepathClean (joinWith CHR ''/'' es))"

definition untilLastSlash :: "string \<Rightarrow> string" where
  "untilLastSlash p = rev (dropWhile (\<lambda>c. c \<noteq> CHR ''/'') (rev p))"

definition filepathDir :: "string \<Rightarrow> string" where
  "filepathDir p = filepathClean (untilLastSlash p)"

definition filepathBase :: "string \<Rightarrow> string" where
  "filepathBase p =
    (if p = [] then ''.''
     else let p = rev (dropWhile (\<lambda>c. c = CHR ''/'') (rev p));
              p = rev (takeWhile (\<lambda>c. c \<noteq> CHR ''/'') (rev p))
          in if p = [] then ''/'' else p)"

fun stripCommon :: "string list \<Rightarrow> string list \<Rightarrow> string list \<times> string list" where
  "stripCommon (b # bs) (t # ts) = (if b = t then stripCommon bs ts else (b # bs, t # ts))"
| "stripCommon bs ts = (bs, ts)"

text \<open>\<^verbatim>\<open>filepath.Rel\<close>; none is its error.\<close>

definition filepathRel :: "string \<Rightarrow> string \<Rightarrow> string option" where
  "filepathRel basepath targpath =
    (if filepathClean targpath = filepathClean basepath then Some ''.''
     else if isRooted basepath \<noteq> isRooted targpath then None
     else let (bs, ts) = stripCommon (pathElems basepath) (pathElems targpath) in
       if bs = [] then Some (joinWith CHR ''/'' ts)
       else if hd bs = ''..'' then None
       else Some (joinWith CHR ''/'' (replicate (length bs) ''..'' @ ts)))"

subsection \<open>Keys and paths\<close>

definition safeChar :: "char \<Rightarrow> bool" where
  "safeChar c \<longleftrightarrow> (CHR ''a'' \<le> c \<and> c \<le> CHR ''z'') \<or> (CHR ''A'' \<le> c \<and> c \<le> CHR ''Z'')
     \<or> (CHR ''0'' \<le> c \<and> c \<le> CHR ''9'') \<or> c = CHR ''/'' \<or> c = CHR ''-'' \<or> c = CHR ''_''"

definition isKeySafe :: "string \<Rightarrow> bool" where
  "isKeySafe key \<longleftrightarrow> key \<noteq> [] \<and> list_all safeChar key"

definition hashedPrefix :: string where
  "hashedPrefix = ''__hashed__''"

definition shardPath :: "string \<Rightarrow> string \<Rightarrow> string" where
  "shardPath base key =
    (let dir = filepathDir key; name = filepathBase key in
     if length name > 4 then filepathJoin [base, dir, take 2 name, take 2 (drop 2 name), drop 4 name]
     else if length name > 2 then filepathJoin [base, dir, take 2 name, drop 2 name]
     else filepathJoin [base, dir, name])"

definition keyToPath :: "string \<Rightarrow> string \<Rightarrow> string" where
  "keyToPath dataDir key =
    (if isKeySafe key then shardPath dataDir key
     else let name = hexEncode (sha256 (bytes_of key))
          in filepathJoin [dataDir, hashedPrefix, take 2 name, take 2 (drop 2 name), drop 4 name])"

text \<open>The original key of a hashed file is read from its attribute: \<^term>\<open>getOriginalKey\<close> is the
  attribute of a path.\<close>

definition joinKey :: "string list \<Rightarrow> string \<Rightarrow> string" where
  "joinKey pre name =
    (let prefix = joinWith CHR ''/'' pre
     in if prefix = [] then name else prefix @ ''/'' @ name)"

definition pathToKey :: "(string \<Rightarrow> string option) \<Rightarrow> string \<Rightarrow> string \<Rightarrow> string" where
  "pathToKey getOriginalKey dataDir path =
    (let rel = (case filepathRel dataDir path of Some r \<Rightarrow> r | None \<Rightarrow> []) in
     if hasPrefix rel (hashedPrefix @ ''/'') then
       (case getOriginalKey path of Some key \<Rightarrow> key | None \<Rightarrow> [])
     else let parts = splitOn CHR ''/'' rel; n = length parts in
     if n \<ge> 3 \<and> length (parts ! (n - 3)) = 2 \<and> length (parts ! (n - 2)) = 2 then
       joinKey (take (n - 3) parts) (parts ! (n - 3) @ parts ! (n - 2) @ parts ! (n - 1))
     else if n \<ge> 2 \<and> length (parts ! (n - 2)) = 2 then
       joinKey (take (n - 2) parts) (parts ! (n - 2) @ parts ! (n - 1))
     else rel)"

section \<open>Path lemmas\<close>

text \<open>A plain path element: not empty, no slash, neither dot name.\<close>

definition plainElem :: "string \<Rightarrow> bool" where
  "plainElem e \<longleftrightarrow> e \<noteq> [] \<and> CHR ''/'' \<notin> set e \<and> e \<noteq> ''.'' \<and> e \<noteq> ''..''"

lemma cleanStep_plain: "plainElem e \<Longrightarrow> cleanStep r acc e = acc @ [e]"
  by (simp add: cleanStep_def plainElem_def)

lemma foldl_cleanStep_plain: "list_all plainElem es \<Longrightarrow> foldl (cleanStep r) acc es = acc @ es"
  by (induction es arbitrary: acc) (simp_all add: cleanStep_plain)

lemma splitOn_append: "splitOn c (a @ c # b) = splitOn c a @ splitOn c b"
proof (induction a)
  case (Cons x a)
  then show ?case by (cases "splitOn c a") auto
qed simp

lemma joinWith_Cons_eq: "xs \<noteq> [] \<Longrightarrow> joinWith c (x # xs) = x @ c # joinWith c xs"
  by (cases xs) simp_all

lemma splitOn_joinWith_plain:
  "list_all plainElem es \<Longrightarrow> es \<noteq> [] \<Longrightarrow> splitOn CHR ''/'' (joinWith CHR ''/'' es) = es"
  by (rule splitOn_joinWith) (auto simp: plainElem_def list_all_iff)

lemma joinWith_append:
  "xs \<noteq> [] \<Longrightarrow> ys \<noteq> [] \<Longrightarrow> joinWith c (xs @ ys) = joinWith c xs @ c # joinWith c ys"
proof (induction xs)
  case (Cons x xs)
  then show ?case by (cases "xs = []") (simp_all add: joinWith_Cons_eq)
qed simp

lemma splitOn_joinWith_concat: "xs \<noteq> [] \<Longrightarrow> splitOn c (joinWith c xs) = concat (map (splitOn c) xs)"
proof (induction xs)
  case (Cons x xs)
  then show ?case by (cases "xs = []") (simp_all add: joinWith_Cons_eq splitOn_append)
qed simp

lemma splitOn_no_sep: "e \<in> set (splitOn c s) \<Longrightarrow> c \<notin> set e"
proof (induction s arbitrary: e)
  case (Cons x s)
  then show ?case by (cases "splitOn c s") (auto split: if_splits)
qed simp

lemma splitOn_chars: "e \<in> set (splitOn c s) \<Longrightarrow> set e \<subseteq> set s"
proof (induction s arbitrary: e)
  case (Cons x s)
  show ?case
  proof (cases "splitOn c s")
    case (Cons p ps)
    then have "set p \<subseteq> set s" "\<And>q. q \<in> set ps \<Longrightarrow> set q \<subseteq> set s"
      using Cons.IH by auto
    then show ?thesis using Cons.prems Cons by (auto split: if_splits)
  qed simp
qed simp

text \<open>Elements \<^verbatim>\<open>Clean\<close> drops or keeps without looking at the ones before.\<close>

definition okElem :: "string \<Rightarrow> bool" where
  "okElem e \<longleftrightarrow> e = [] \<or> e = ''.'' \<or> plainElem e"

lemma foldl_cleanStep_ok: "list_all okElem es \<Longrightarrow> foldl (cleanStep r) acc es = acc @ filter plainElem es"
  by (induction es arbitrary: acc) (auto simp: okElem_def cleanStep_def plainElem_def)

text \<open>The elements of a cleaned path: dot-dot elements first, and none in a rooted path.\<close>

definition cleanList :: "bool \<Rightarrow> string list \<Rightarrow> bool" where
  "cleanList r es \<longleftrightarrow> (\<exists>n fs. es = replicate n ''..'' @ fs \<and> list_all plainElem fs \<and> (r \<longrightarrow> n = 0))"

lemma cleanList_step:
  assumes "cleanList r acc" and "CHR ''/'' \<notin> set e"
  shows "cleanList r (cleanStep r acc e)"
proof -
  obtain n fs where acc: "acc = replicate n ''..'' @ fs" "list_all plainElem fs" "r \<longrightarrow> n = 0"
    using assms(1) unfolding cleanList_def by blast
  show ?thesis
  proof (cases "e = [] \<or> e = ''.''")
    case True
    then show ?thesis using assms(1) by (auto simp: cleanStep_def)
  next
    case e: False
    show ?thesis
    proof (cases "e = ''..''")
      case False
      then have "list_all plainElem (fs @ [e])" using e acc(2) assms(2) by (auto simp: plainElem_def)
      then show ?thesis
        using e False acc by (auto simp: cleanStep_def cleanList_def intro!: exI [of _ n] exI [of _ "fs @ [e]"])
    next
      case True
      show ?thesis
      proof (cases "fs = []")
        case True
        then have "\<not> (acc \<noteq> [] \<and> last acc \<noteq> ''..'')" using acc(1) by (cases n) auto
        then show ?thesis
          using \<open>e = ''..''\<close> True acc
          by (auto simp: cleanStep_def cleanList_def replicate_append_same intro!: exI [of _ "Suc n"] exI [of _ "[]"])
      next
        case False
        then have "last acc = last fs" "last fs \<in> set fs" using acc(1) by auto
        then have "last acc \<noteq> ''..''" using acc(2) by (auto simp: list_all_iff plainElem_def)
        moreover have "list_all plainElem (butlast fs)"
          using acc(2) by (auto simp: list_all_iff dest: in_set_butlastD)
        ultimately show ?thesis
          using \<open>e = ''..''\<close> False acc
          by (auto simp: cleanStep_def cleanList_def butlast_append intro!: exI [of _ n] exI [of _ "butlast fs"])
      qed
    qed
  qed
qed

lemma cleanList_foldl:
  "cleanList r acc \<Longrightarrow> (\<And>e. e \<in> set es \<Longrightarrow> CHR ''/'' \<notin> set e) \<Longrightarrow> cleanList r (foldl (cleanStep r) acc es)"
  by (induction es arbitrary: acc) (simp_all add: cleanList_step)

lemma cleanList_Nil [simp]: "cleanList r []"
  by (auto simp: cleanList_def)

lemma cleanList_pathElems: "cleanList (isRooted p) (pathElems p)"
  unfolding pathElems_def by (rule cleanList_foldl) (auto dest: splitOn_no_sep)

lemma cleanList_append:
  assumes "cleanList r es" and "list_all plainElem fs" shows "cleanList r (es @ fs)"
proof -
  obtain n gs where "es = replicate n ''..'' @ gs" "list_all plainElem gs" "r \<longrightarrow> n = 0"
    using assms(1) unfolding cleanList_def by blast
  then show ?thesis
    using assms(2) unfolding cleanList_def by (intro exI [of _ n] exI [of _ "gs @ fs"]) simp
qed

lemma foldl_cleanStep_dots:
  "\<not> r \<Longrightarrow> foldl (cleanStep r) (replicate k ''..'') (replicate n ''..'') = replicate (k + n) ''..''"
proof (induction n arbitrary: k)
  case (Suc n)
  have "cleanStep r (replicate k ''..'') ''..'' = replicate (Suc k) ''..''"
    using Suc.prems by (cases k) (auto simp: cleanStep_def replicate_append_same)
  then show ?case using Suc.IH [OF Suc.prems, of "Suc k"] by simp
qed simp

lemma foldl_cleanStep_cleanList:
  assumes "cleanList r es" shows "foldl (cleanStep r) [] es = es"
proof -
  obtain n fs where es: "es = replicate n ''..'' @ fs" "list_all plainElem fs" "r \<longrightarrow> n = 0"
    using assms unfolding cleanList_def by blast
  have "foldl (cleanStep r) [] (replicate n ''..'') = replicate n ''..''"
    using es(3) foldl_cleanStep_dots [of r 0 n] by (cases r) auto
  then show ?thesis using es by (simp add: foldl_cleanStep_plain)
qed

lemma cleanList_elem:
  assumes "cleanList r es" and "e \<in> set es" shows "e \<noteq> [] \<and> CHR ''/'' \<notin> set e"
proof -
  obtain n fs where es: "es = replicate n ''..'' @ fs" "list_all plainElem fs"
    using assms(1) unfolding cleanList_def by blast
  then have "e = ''..'' \<or> plainElem e" using assms(2) by (auto simp: list_all_iff)
  then show ?thesis by (auto simp: plainElem_def)
qed

lemma isRooted_printPath [simp]:
  assumes "cleanList r es" shows "isRooted (printPath r es) \<longleftrightarrow> r"
proof (cases "es")
  case Nil
  then show ?thesis by (simp add: printPath_def isRooted_def)
next
  case (Cons e fs)
  then have "e \<noteq> []" "CHR ''/'' \<notin> set e" using cleanList_elem [OF assms] by auto
  then have "hd (joinWith CHR ''/'' es) \<noteq> CHR ''/''"
    using Cons by (cases e; cases fs) auto
  then show ?thesis using Cons by (auto simp: printPath_def isRooted_def)
qed

lemma pathElems_printPath [simp]:
  assumes "cleanList r es" shows "pathElems (printPath r es) = es"
proof -
  have "foldl (cleanStep r) [] (splitOn CHR ''/'' (printPath r es)) = es"
  proof (cases "es = []")
    case True
    then show ?thesis by (simp add: printPath_def cleanStep_def)
  next
    case False
    then have "splitOn CHR ''/'' (joinWith CHR ''/'' es) = es"
      using cleanList_elem [OF assms] by (intro splitOn_joinWith) auto
    then show ?thesis
      using False foldl_cleanStep_cleanList [OF assms] by (cases r) (simp_all add: printPath_def cleanStep_def [of _ _ "[]"])
  qed
  then show ?thesis unfolding pathElems_def isRooted_printPath [OF assms] .
qed

lemma printPath_not_Nil [simp]: "cleanList r es \<Longrightarrow> printPath r es \<noteq> []"
  using isRooted_printPath [of r es] by (cases es; cases "tl es")
    (auto simp: printPath_def dest: cleanList_elem [of r])

lemma filepathClean_printPath [simp]:
  "cleanList r es \<Longrightarrow> filepathClean (printPath r es) = printPath r es"
  by (simp add: filepathClean_def)

text \<open>Joining under a directory appends the elements kept.\<close>

lemma filepathJoin_under:
  assumes "d \<noteq> []" and ok: "list_all okElem (concat (map (splitOn CHR ''/'') es))"
  shows "filepathJoin (d # es)
       = printPath (isRooted d) (pathElems d @ filter plainElem (concat (map (splitOn CHR ''/'') es)))"
proof -
  let ?p = "joinWith CHR ''/'' (d # es)"
  have r: "?p \<noteq> []" "isRooted ?p \<longleftrightarrow> isRooted d"
    using assms(1) by (cases es; cases d; simp add: isRooted_def)+
  have "splitOn CHR ''/'' ?p = splitOn CHR ''/'' d @ concat (map (splitOn CHR ''/'') es)"
    by (simp only: splitOn_joinWith_concat list.simps concat.simps simp_thms)
  then have "pathElems ?p = pathElems d @ filter plainElem (concat (map (splitOn CHR ''/'') es))"
    unfolding pathElems_def r(2) by (simp add: foldl_cleanStep_ok [OF ok])
  then show ?thesis using assms(1) r by (simp add: filepathJoin_def filepathClean_def)
qed

section \<open>Keys stay inside the data directory\<close>

lemma safeChar_dot [simp]: "\<not> safeChar CHR ''.''"
  by code_simp

lemma okElem_safe: "list_all safeChar e \<Longrightarrow> CHR ''/'' \<notin> set e \<Longrightarrow> okElem e"
  by (auto simp: okElem_def plainElem_def)

lemma okElem_splitOn_safe: "list_all safeChar s \<Longrightarrow> list_all okElem (splitOn CHR ''/'' s)"
  unfolding list_all_iff
  by (intro ballI okElem_safe) (auto simp: list_all_iff dest: splitOn_no_sep splitOn_chars)

lemma filter_plainElem_all [simp]: "list_all plainElem es \<Longrightarrow> filter plainElem es = es"
  by (induction es) auto

lemma plainElem_simps [simp]: "\<not> plainElem []" "\<not> plainElem ''.''"
  by (simp_all add: plainElem_def)

lemma okElem_simps [simp]: "okElem []" "okElem ''.''" "plainElem e \<Longrightarrow> okElem e"
  by (simp_all add: okElem_def)

lemma splitOn_printPath_plain:
  assumes "list_all plainElem es"
  shows "list_all okElem (splitOn CHR ''/'' (printPath r es))"
    and "filter plainElem (splitOn CHR ''/'' (printPath r es)) = es"
proof -
  have s: "es \<noteq> [] \<Longrightarrow> splitOn CHR ''/'' (joinWith CHR ''/'' es) = es"
    by (rule splitOn_joinWith_plain [OF assms])
  have o: "list_all okElem es" using assms by (auto simp: list_all_iff)
  show "list_all okElem (splitOn CHR ''/'' (printPath r es))"
    using s o by (cases "es = []") (simp_all add: printPath_def)
  show "filter plainElem (splitOn CHR ''/'' (printPath r es)) = es"
    using s assms by (cases "es = []") (simp_all add: printPath_def)
qed

lemma filepathDir_safe:
  assumes "list_all safeChar key"
  shows "\<exists>r es. list_all plainElem es \<and> filepathDir key = printPath r es"
proof -
  let ?u = "untilLastSlash key"
  have "set ?u \<subseteq> set key"
    using set_dropWhileD by (fastforce simp: untilLastSlash_def)
  then have "list_all safeChar ?u" using assms by (auto simp: list_all_iff)
  then have "pathElems ?u = filter plainElem (splitOn CHR ''/'' ?u)"
    unfolding pathElems_def by (simp add: foldl_cleanStep_ok okElem_splitOn_safe)
  then have "list_all plainElem (pathElems ?u)" by (auto simp: list_all_iff)
  moreover have "''.'' = printPath False []" by (simp add: printPath_def)
  ultimately show ?thesis
    unfolding filepathDir_def filepathClean_def
    by (intro exI [of _ "?u \<noteq> [] \<and> isRooted ?u"] exI [of _ "if ?u = [] then [] else pathElems ?u"])
      simp
qed

lemma filepathBase_safe:
  assumes "isKeySafe key"
  shows "list_all safeChar (filepathBase key)"
    and "filepathBase key = ''/'' \<or> filepathBase key \<noteq> [] \<and> CHR ''/'' \<notin> set (filepathBase key)"
proof -
  define q where "q = rev (dropWhile (\<lambda>c. c = CHR ''/'') (rev key))"
  define b where "b = rev (takeWhile (\<lambda>c. c \<noteq> CHR ''/'') (rev q))"
  have base: "filepathBase key = (if b = [] then ''/'' else b)"
    using assms by (simp add: filepathBase_def isKeySafe_def q_def b_def Let_def)
  have "set b \<subseteq> set key"
    using set_takeWhileD set_dropWhileD by (fastforce simp: b_def q_def)
  then have "list_all safeChar b" using assms by (auto simp: list_all_iff isKeySafe_def)
  moreover have "safeChar CHR ''/''" by code_simp
  ultimately show "list_all safeChar (filepathBase key)" by (simp add: base)
  have "CHR ''/'' \<notin> set b" by (auto simp: b_def dest: set_takeWhileD)
  then show "filepathBase key = ''/'' \<or> filepathBase key \<noteq> [] \<and> CHR ''/'' \<notin> set (filepathBase key)"
    by (simp add: base)
qed

lemma shardPath_inside:
  assumes "d \<noteq> []" and "isKeySafe key"
  shows "\<exists>es. list_all plainElem es \<and> shardPath d key = printPath (isRooted d) (pathElems d @ es)"
proof -
  let ?n = "filepathBase key"
  obtain r ds where ds: "list_all plainElem ds" "filepathDir key = printPath r ds"
    using filepathDir_safe [of key] assms(2) by (auto simp: isKeySafe_def)
  have join: "\<exists>es. list_all plainElem es \<and>
      filepathJoin (d # filepathDir key # parts) = printPath (isRooted d) (pathElems d @ es)"
    if "\<forall>p \<in> set parts. list_all safeChar p" for parts
  proof -
    have "list_all okElem (concat (map (splitOn CHR ''/'') (filepathDir key # parts)))"
      using that splitOn_printPath_plain(1) [OF ds(1), of r] okElem_splitOn_safe
      by (auto simp: ds(2) list_all_iff)
    from filepathJoin_under [OF assms(1) this] show ?thesis by (force simp: list_all_iff)
  qed
  have safe: "list_all safeChar (take k ?n)" "list_all safeChar (drop k ?n)"
      "list_all safeChar (take k (drop j ?n))" for j k
    using filepathBase_safe(1) [OF assms(2)]
    by (auto simp: list_all_iff dest!: in_set_takeD in_set_dropD)
  show ?thesis
    unfolding shardPath_def Let_def using join safe filepathBase_safe(1) [OF assms(2)] by simp
qed

lemma plainElem_hex: "xs \<noteq> [] \<Longrightarrow> set xs \<subseteq> hexDigit ` {..<16} \<Longrightarrow> plainElem xs"
proof -
  assume xs: "xs \<noteq> []" "set xs \<subseteq> hexDigit ` {..<16}"
  have "hexDigit n \<noteq> CHR ''/'' \<and> hexDigit n \<noteq> CHR ''.''" if "n < 16" for n
  proof -
    have "\<forall>n \<in> set [0..<16]. hexDigit n \<noteq> CHR ''/'' \<and> hexDigit n \<noteq> CHR ''.''" by code_simp
    then show ?thesis using that by simp
  qed
  then have "CHR ''/'' \<notin> set xs" "CHR ''.'' \<notin> set xs" using xs(2) by force+
  then show ?thesis using xs(1) by (auto simp: plainElem_def)
qed

lemma set_hexEncode: "set (hexEncode bs) \<subseteq> hexDigit ` {..<16}"
proof (induction bs)
  case (Cons b bs)
  have "unat b div 16 < 16" using unat_byte_bound [of b] by linarith
  then show ?case using Cons by (auto simp: Let_def)
qed simp

lemma hashedElems_plain:
  fixes key :: string
  defines "name \<equiv> hexEncode (sha256 (bytes_of key))"
  shows "list_all plainElem [hashedPrefix, take 2 name, take 2 (drop 2 name), drop 4 name]"
proof -
  have "length name = 64" by (simp add: name_def)
  then have ne: "take 2 name \<noteq> []" "take 2 (drop 2 name) \<noteq> []" "drop 4 name \<noteq> []" by auto
  have hex: "set name \<subseteq> hexDigit ` {..<16}" unfolding name_def by (rule set_hexEncode)
  have "plainElem (take 2 name)" "plainElem (take 2 (drop 2 name))" "plainElem (drop 4 name)"
    using ne hex by (auto intro!: plainElem_hex dest!: in_set_takeD in_set_dropD)
  moreover have "plainElem hashedPrefix" by code_simp
  ultimately show ?thesis by simp
qed

lemma filepathJoin_plain:
  assumes "d \<noteq> []" and "list_all plainElem es"
  shows "filepathJoin (d # es) = printPath (isRooted d) (pathElems d @ es)"
proof -
  have "concat (map (splitOn CHR ''/'') es) = es"
    using assms(2) by (induction es) (auto simp: plainElem_def splitOn_free)
  moreover have "list_all okElem es" using assms(2) by (auto simp: list_all_iff)
  ultimately show ?thesis using filepathJoin_under [OF assms(1), of es] assms(2) by simp
qed

lemma keyToPath_hashed:
  assumes "d \<noteq> []" and "\<not> isKeySafe key"
  shows "keyToPath d key = printPath (isRooted d) (pathElems d @
    (let name = hexEncode (sha256 (bytes_of key))
     in [hashedPrefix, take 2 name, take 2 (drop 2 name), drop 4 name]))"
  using filepathJoin_plain [OF assms(1) hashedElems_plain [of key]] assms(2)
  by (simp add: keyToPath_def Let_def)

lemma keyToPath_inside:
  assumes "d \<noteq> []"
  shows "\<exists>es. list_all plainElem es \<and> keyToPath d key = printPath (isRooted d) (pathElems d @ es)"
proof (cases "isKeySafe key")
  case True
  then show ?thesis using shardPath_inside [OF assms] by (simp add: keyToPath_def)
next
  case False
  show ?thesis
    using keyToPath_hashed [OF assms False] hashedElems_plain [of key]
    unfolding Let_def by (intro exI conjI)
qed

section \<open>Round trip of plain keys\<close>

text \<open>A plain key: safe, no empty element, a last element of more than four characters, and not
  under the hashed tree.\<close>

definition plainKey :: "string \<Rightarrow> bool" where
  "plainKey key \<longleftrightarrow> isKeySafe key \<and> list_all plainElem (splitOn CHR ''/'' key) \<and>
     length (last (splitOn CHR ''/'' key)) > 4 \<and> hd (splitOn CHR ''/'' key) \<noteq> hashedPrefix"

lemma untilLastSlash_join:
  assumes "CHR ''/'' \<notin> set name"
  shows "untilLastSlash (pre @ CHR ''/'' # name) = pre @ ''/''" "untilLastSlash name = []"
proof -
  have "dropWhile (\<lambda>c. c \<noteq> CHR ''/'') (rev name) = []" using assms by (auto simp: dropWhile_eq_Nil_conv)
  then show "untilLastSlash (pre @ CHR ''/'' # name) = pre @ ''/''" "untilLastSlash name = []"
    using assms by (simp_all add: untilLastSlash_def dropWhile_append)
qed

lemma filepathBase_join:
  assumes "CHR ''/'' \<notin> set name" "name \<noteq> []"
  shows "filepathBase (pre @ CHR ''/'' # name) = name" "filepathBase name = name"
proof -
  have "hd (rev name) \<noteq> CHR ''/''" using assms by (metis hd_in_set rev_is_Nil_conv set_rev)
  then have d: "dropWhile (\<lambda>c. c = CHR ''/'') (rev name @ ys) = rev name @ ys" for ys
    using assms(2) by (cases "rev name") auto
  have t: "takeWhile (\<lambda>c. c \<noteq> CHR ''/'') (rev name @ CHR ''/'' # ys) = rev name"
      "takeWhile (\<lambda>c. c \<noteq> CHR ''/'') (rev name) = rev name" for ys
    using assms(1) by (auto simp: takeWhile_append takeWhile_eq_all_conv)
  show "filepathBase (pre @ CHR ''/'' # name) = name" "filepathBase name = name"
    using d [of "CHR ''/'' # rev pre"] d [of "[]"] assms(2)
    by (simp_all add: filepathBase_def Let_def t)
qed

lemma filepathDir_join:
  assumes "list_all plainElem pre" "plainElem name"
  shows "filepathDir (joinWith CHR ''/'' (pre @ [name])) = printPath False pre"
proof (cases "pre = []")
  case True
  then show ?thesis using assms
    by (simp add: filepathDir_def filepathClean_def untilLastSlash_join(2) plainElem_def printPath_def)
next
  case False
  let ?u = "joinWith CHR ''/'' pre @ ''/''"
  have "splitOn CHR ''/'' ?u = pre @ [[]]"
    using splitOn_append [of "CHR ''/''" "joinWith CHR ''/'' pre" "[]"] splitOn_joinWith_plain [OF assms(1) False] by simp
  then have "foldl (cleanStep r) [] (splitOn CHR ''/'' ?u) = pre" for r
    using assms(1) by (simp add: foldl_cleanStep_plain cleanStep_def)
  then have "pathElems ?u = pre" by (simp add: pathElems_def)
  moreover have "isRooted ?u = isRooted (printPath False pre)"
    using False assms(1) by (cases pre; cases "tl pre") (auto simp: isRooted_def printPath_def plainElem_def hd_append)
  ultimately have "filepathClean ?u = printPath False pre"
    using cleanList_append [OF cleanList_Nil assms(1), of False] by (simp add: filepathClean_def)
  then show ?thesis
    using False assms(2) by (simp add: filepathDir_def joinWith_append untilLastSlash_join(1) plainElem_def)
qed

definition shardElems :: "string \<Rightarrow> string list" where
  "shardElems key =
    (let parts = splitOn CHR ''/'' key; name = last parts
     in butlast parts @ [take 2 name, take 2 (drop 2 name), drop 4 name])"

lemma plainKey_parts:
  assumes "plainKey key"
  obtains pre name where "key = joinWith CHR ''/'' (pre @ [name])" "splitOn CHR ''/'' key = pre @ [name]"
    "list_all plainElem pre" "plainElem name" "4 < length name" "list_all safeChar name"
    "hd (pre @ [name]) \<noteq> hashedPrefix"
proof -
  let ?p = "splitOn CHR ''/'' key"
  have p: "?p = butlast ?p @ [last ?p]" by simp
  have "last ?p \<in> set ?p" by simp
  then have "list_all safeChar (last ?p)"
    using splitOn_chars assms by (fastforce simp: plainKey_def isKeySafe_def list_all_iff)
  moreover have "key = joinWith CHR ''/'' (butlast ?p @ [last ?p])" by simp
  moreover have "list_all plainElem (butlast ?p)" "plainElem (last ?p)"
    using assms by (auto simp: plainKey_def list_all_iff dest: in_set_butlastD)
  ultimately show ?thesis
    using that [of "butlast ?p" "last ?p"] assms p by (auto simp: plainKey_def)
qed

lemma plainElem_piece: "plainElem name \<Longrightarrow> list_all safeChar name \<Longrightarrow> xs \<noteq> [] \<Longrightarrow> set xs \<subseteq> set name \<Longrightarrow> plainElem xs"
  using safeChar_dot by (fastforce simp: plainElem_def list_all_iff)

lemma shardElems_plain:
  assumes "plainKey key" shows "list_all plainElem (shardElems key)"
proof -
  obtain pre name where k: "splitOn CHR ''/'' key = pre @ [name]"
    "list_all plainElem pre" "plainElem name" "4 < length name" "list_all safeChar name"
    by (rule plainKey_parts [OF assms])
  have "plainElem (take 2 name)" "plainElem (take 2 (drop 2 name))" "plainElem (drop 4 name)"
    using k by (auto intro!: plainElem_piece [of name] dest!: in_set_takeD in_set_dropD)
  then show ?thesis using k by (simp add: shardElems_def Let_def)
qed

lemma keyToPath_plain:
  assumes "d \<noteq> []" "plainKey key"
  shows "keyToPath d key = printPath (isRooted d) (pathElems d @ shardElems key)"
proof -
  obtain pre name where k: "key = joinWith CHR ''/'' (pre @ [name])" "splitOn CHR ''/'' key = pre @ [name]"
    "list_all plainElem pre" "plainElem name" "4 < length name" "list_all safeChar name"
    by (rule plainKey_parts [OF assms(2)])
  let ?ps = "[take 2 name, take 2 (drop 2 name), drop 4 name]"
  have "CHR ''/'' \<notin> set name" "name \<noteq> []" using k(4) by (auto simp: plainElem_def)
  then have base: "filepathBase key = name"
    using filepathBase_join by (cases "pre = []") (simp_all add: k(1) joinWith_append)
  have dir: "filepathDir key = printPath False pre" using k filepathDir_join by simp
  have ps: "list_all plainElem ?ps"
    using shardElems_plain [OF assms(2)] k(2) by (simp add: shardElems_def Let_def)
  have c: "splitOn CHR ''/'' e = [e]" if "plainElem e" for e
    using that by (simp add: plainElem_def splitOn_free)
  have ok: "list_all okElem (concat (map (splitOn CHR ''/'') (printPath False pre # ?ps)))"
    using splitOn_printPath_plain(1) [OF k(3), of False] ps
    by (simp add: c)
  have f: "filter plainElem (concat (map (splitOn CHR ''/'') (printPath False pre # ?ps))) = pre @ ?ps"
    using splitOn_printPath_plain(2) [OF k(3), of False] ps
    by (simp add: c)
  have "keyToPath d key = filepathJoin (d # printPath False pre # ?ps)"
    using assms(2) k(5) by (simp add: keyToPath_def shardPath_def plainKey_def base dir Let_def)
  also have "\<dots> = printPath (isRooted d) (pathElems d @ pre @ ?ps)"
    using filepathJoin_under [OF assms(1) ok] unfolding f .
  finally show ?thesis using k(2) by (simp add: shardElems_def Let_def)
qed

lemma stripCommon_append [simp]: "stripCommon xs (xs @ ys) = ([], ys)"
  by (induction xs) (cases ys; simp)+

lemma filepathRel_under:
  assumes "d \<noteq> []" "list_all plainElem es" "es \<noteq> []"
  shows "filepathRel d (printPath (isRooted d) (pathElems d @ es)) = Some (joinWith CHR ''/'' es)"
proof -
  let ?p = "printPath (isRooted d) (pathElems d @ es)"
  have c: "cleanList (isRooted d) (pathElems d @ es)"
    by (rule cleanList_append [OF cleanList_pathElems assms(2)])
  have "filepathClean ?p \<noteq> filepathClean d"
  proof
    assume "filepathClean ?p = filepathClean d"
    then have "?p = printPath (isRooted d) (pathElems d)"
      using assms(1) c by (simp add: filepathClean_def)
    then have "pathElems ?p = pathElems d"
      using cleanList_pathElems [of d] by simp
    then show False using c assms(3) by simp
  qed
  then show ?thesis using c by (simp add: filepathRel_def)
qed

lemma take_pieces: "take 2 xs @ take 2 (drop 2 xs) @ drop 4 xs = xs"
proof -
  have "take 2 (drop 2 xs) @ drop 4 xs = drop 2 xs"
    using append_take_drop_id [of 2 "drop 2 xs"] by simp
  then show ?thesis by simp
qed

lemma pieces_inject:
  "take 2 xs = take 2 ys \<Longrightarrow> take 2 (drop 2 xs) = take 2 (drop 2 ys) \<Longrightarrow> drop 4 xs = drop 4 ys \<Longrightarrow> xs = ys"
  using take_pieces [of xs] take_pieces [of ys] by metis

lemma hasPrefix_hd_splitOn: "c \<notin> set p \<Longrightarrow> hasPrefix s (p @ [c]) \<Longrightarrow> hd (splitOn c s) = p"
  by (auto simp: hasPrefix_iff splitOn_append_sep)

lemma shardElems_hd:
  assumes "plainKey key" shows "hd (shardElems key) \<noteq> hashedPrefix"
proof -
  obtain pre name where k: "splitOn CHR ''/'' key = pre @ [name]" "hd (pre @ [name]) \<noteq> hashedPrefix"
    by (rule plainKey_parts [OF assms])
  have "length (take 2 name) \<noteq> length hashedPrefix" by (simp add: hashedPrefix_def)
  then have "take 2 name \<noteq> hashedPrefix" by metis
  then show ?thesis using k by (cases pre) (simp_all add: shardElems_def Let_def)
qed

lemma pathToKey_plain:
  assumes "d \<noteq> []" "plainKey key"
  shows "pathToKey orig d (keyToPath d key) = key"
proof -
  obtain pre name where k: "key = joinWith CHR ''/'' (pre @ [name])" "splitOn CHR ''/'' key = pre @ [name]"
    "list_all plainElem pre" "4 < length name"
    by (rule plainKey_parts [OF assms(2)])
  let ?es = "shardElems key"
  have es: "?es = pre @ [take 2 name, take 2 (drop 2 name), drop 4 name]"
    using k(2) by (simp add: shardElems_def Let_def)
  have rel: "filepathRel d (keyToPath d key) = Some (joinWith CHR ''/'' ?es)"
    using filepathRel_under [OF assms(1) shardElems_plain [OF assms(2)]] keyToPath_plain [OF assms]
    by (simp add: es)
  have split: "splitOn CHR ''/'' (joinWith CHR ''/'' ?es) = ?es"
    by (rule splitOn_joinWith_plain [OF shardElems_plain [OF assms(2)]]) (simp add: es)
  have "\<not> hasPrefix (joinWith CHR ''/'' ?es) (hashedPrefix @ ''/'')"
  proof
    assume "hasPrefix (joinWith CHR ''/'' ?es) (hashedPrefix @ ''/'')"
    then have "hd (splitOn CHR ''/'' (joinWith CHR ''/'' ?es)) = hashedPrefix"
      by (intro hasPrefix_hd_splitOn) (simp_all add: hashedPrefix_def)
    then show False using shardElems_hd [OF assms(2)] split by simp
  qed
  moreover have "joinWith CHR ''/'' pre \<noteq> []" if "pre \<noteq> []"
    using that k(3) by (cases pre; cases "tl pre") (auto simp: plainElem_def)
  then have "joinKey pre name = key"
    unfolding k(1) by (cases "pre = []") (simp_all add: joinKey_def joinWith_append)
  ultimately show ?thesis
    unfolding pathToKey_def rel option.case Let_def split
    using k(4) take_pieces [of name] by (simp add: es nth_append)
qed

lemma pathToKey_hashed:
  assumes "d \<noteq> []" "\<not> isKeySafe key"
  shows "pathToKey orig d (keyToPath d key) = (case orig (keyToPath d key) of Some k \<Rightarrow> k | None \<Rightarrow> [])"
proof -
  define name where "name = hexEncode (sha256 (bytes_of key))"
  let ?es = "[hashedPrefix, take 2 name, take 2 (drop 2 name), drop 4 name]"
  have "filepathRel d (keyToPath d key) = Some (joinWith CHR ''/'' ?es)"
    using filepathRel_under [OF assms(1) hashedElems_plain [of key]] keyToPath_hashed [OF assms]
    by (simp add: name_def Let_def)
  moreover have "hasPrefix (joinWith CHR ''/'' ?es) (hashedPrefix @ ''/'')"
    by (simp add: hasPrefix_def)
  ultimately show ?thesis by (simp add: pathToKey_def)
qed

lemma keyToPath_elems:
  assumes "d \<noteq> []" "list_all plainElem es"
  shows "pathElems (printPath (isRooted d) (pathElems d @ es)) = pathElems d @ es"
  by (rule pathElems_printPath [OF cleanList_append [OF cleanList_pathElems assms(2)]])

lemma keyToPath_plain_vs_hashed:
  assumes "d \<noteq> []" "plainKey k1" "\<not> isKeySafe k2"
  shows "keyToPath d k1 \<noteq> keyToPath d k2"
proof
  assume "keyToPath d k1 = keyToPath d k2"
  then have "pathElems (keyToPath d k1) = pathElems (keyToPath d k2)" by simp
  then have "hd (shardElems k1) = hashedPrefix"
    unfolding keyToPath_plain [OF assms(1,2)] keyToPath_hashed [OF assms(1,3)] Let_def
      keyToPath_elems [OF assms(1) shardElems_plain [OF assms(2)]]
      keyToPath_elems [OF assms(1) hashedElems_plain] by simp
  then show False using shardElems_hd [OF assms(2)] by simp
qed

lemma keyToPath_hashed_inj:
  assumes "d \<noteq> []" "\<not> isKeySafe k1" "\<not> isKeySafe k2" "keyToPath d k1 = keyToPath d k2"
  shows "sha256 (bytes_of k1) = sha256 (bytes_of k2)"
proof -
  let ?n = "\<lambda>k. hexEncode (sha256 (bytes_of k))"
  have "pathElems (keyToPath d k1) = pathElems (keyToPath d k2)" using assms(4) by simp
  then have "take 2 (?n k1) = take 2 (?n k2)" "take 2 (drop 2 (?n k1)) = take 2 (drop 2 (?n k2))"
      "drop 4 (?n k1) = drop 4 (?n k2)"
    unfolding keyToPath_hashed [OF assms(1,2)] keyToPath_hashed [OF assms(1,3)] Let_def
      keyToPath_elems [OF assms(1) hashedElems_plain] by simp_all
  then have "?n k1 = ?n k2" by (rule pieces_inject)
  then have "hexDecode (?n k1) = hexDecode (?n k2)" by simp
  then show ?thesis by (simp only: hexDecode_hexEncode option.inject)
qed

lemma plainKey_keyOfHash:
  assumes "length h = 32" shows "plainKey (keyOfHash h)"
proof -
  define hex where "hex = hexEncode h"
  have len: "length hex = 64" using assms by (simp add: hex_def)
  have hexset: "set hex \<subseteq> hexDigit ` {..<16}" unfolding hex_def by (rule set_hexEncode)
  have all: "\<forall>n \<in> set [0..<16]. hexDigit n \<noteq> CHR ''/'' \<and> safeChar (hexDigit n)" by code_simp
  then have noslash: "CHR ''/'' \<notin> set hex" and safe: "list_all safeChar hex"
    using hexset by (force simp: list_all_iff)+
  have key: "keyOfHash h = ''go-buildcache'' @ CHR ''/'' # (''v1'' @ hex)"
    by (simp add: keyOfHash_def gbciKeyPrefix_def hex_def)
  have "splitOn CHR ''/'' (keyOfHash h) = [''go-buildcache'', ''v1'' @ hex]"
    unfolding key using noslash by (subst splitOn_append_sep) (simp_all add: splitOn_free)
  moreover have "list_all safeChar (''go-buildcache/v1'')" by code_simp
  then have "isKeySafe (keyOfHash h)" unfolding key isKeySafe_def using safe by simp
  moreover have "plainElem (''v1'' @ hex)" using noslash by (simp add: plainElem_def)
  moreover have "plainElem ''go-buildcache''" by code_simp
  ultimately show ?thesis using len by (simp add: plainKey_def hashedPrefix_def)
qed

section \<open>Properties\<close>

text \<open>(C8) No key leaves the data directory: the path of any key, whatever its characters, has the
  elements of the data directory first, then only plain elements, with no dot-dot among them.\<close>

theorem keyToPath_contained:
  assumes "d \<noteq> []"
  shows "\<exists>es. pathElems (keyToPath d key) = pathElems d @ es \<and> isRooted (keyToPath d key) = isRooted d
    \<and> list_all plainElem es \<and> ''..'' \<notin> set es"
proof -
  obtain es where es: "list_all plainElem es" "keyToPath d key = printPath (isRooted d) (pathElems d @ es)"
    using keyToPath_inside [OF assms] by blast
  have "cleanList (isRooted d) (pathElems d @ es)"
    by (rule cleanList_append [OF cleanList_pathElems es(1)])
  then show ?thesis using es by (intro exI [of _ es]) (auto simp: list_all_iff plainElem_def)
qed

theorem keyToPath_contained_witness:
  "''/data'' \<noteq> [] \<and> (\<exists>es. pathElems (keyToPath ''/data'' ''../../etc/passwd'') = pathElems ''/data'' @ es
    \<and> isRooted (keyToPath ''/data'' ''../../etc/passwd'') = isRooted ''/data''
    \<and> list_all plainElem es \<and> ''..'' \<notin> set es)"
  using keyToPath_contained [of "''/data''" "''../../etc/passwd''"] by simp

text \<open>(C22) The key of a stored file is recovered from its path, for a plain key - safe, no empty element, more
  than four characters after the last slash, not under the hashed tree - from the path alone, and for an unsafe key from
  the attribute that records the key.  Of other safe keys it is not: the key \<^verbatim>\<open>ab/cd\<close> is recovered as
  \<^verbatim>\<open>abcd\<close>.\<close>

theorem pathToKey_keyToPath:
  assumes "d \<noteq> []"
    and "plainKey key \<or> \<not> isKeySafe key \<and> getOriginalKey (keyToPath d key) = Some key"
  shows "pathToKey getOriginalKey d (keyToPath d key) = key"
  using assms(2)
proof
  assume "plainKey key"
  then show ?thesis by (rule pathToKey_plain [OF assms(1)])
next
  assume "\<not> isKeySafe key \<and> getOriginalKey (keyToPath d key) = Some key"
  then show ?thesis using pathToKey_hashed [OF assms(1)] by simp
qed

theorem pathToKey_keyToPath_witness:
  "''data'' \<noteq> [] \<and> plainKey ''go-buildcache/v1aabbcc'' \<and>
   pathToKey Map.empty ''data'' (keyToPath ''data'' ''go-buildcache/v1aabbcc'') = ''go-buildcache/v1aabbcc''"
proof -
  have p: "plainKey ''go-buildcache/v1aabbcc''" by code_simp
  show ?thesis using pathToKey_keyToPath [of "''data''" "''go-buildcache/v1aabbcc''" Map.empty] p by simp
qed

text \<open>(C23) Two different keys, each plain or unsafe, share a file only when both are unsafe and their
  SHA-256 hashes agree.  Safe keys that are not plain are excluded: \<^verbatim>\<open>ab/cd\<close> and \<^verbatim>\<open>abcd\<close> share a file.\<close>

theorem keyToPath_separates:
  assumes "d \<noteq> []" and "k1 \<noteq> k2"
    and "plainKey k1 \<or> \<not> isKeySafe k1" and "plainKey k2 \<or> \<not> isKeySafe k2"
    and "keyToPath d k1 = keyToPath d k2"
  shows "\<not> isKeySafe k1 \<and> \<not> isKeySafe k2 \<and> sha256 (bytes_of k1) = sha256 (bytes_of k2)"
proof -
  have "\<not> (plainKey k1 \<and> plainKey k2)"
    using pathToKey_plain [OF assms(1), of _ Map.empty] assms(2,5) by metis
  moreover have "\<not> (plainKey k1 \<and> \<not> isKeySafe k2)" "\<not> (plainKey k2 \<and> \<not> isKeySafe k1)"
    using keyToPath_plain_vs_hashed [OF assms(1)] assms(5) by metis+
  ultimately have "\<not> isKeySafe k1" "\<not> isKeySafe k2" using assms(3,4) by blast+
  then show ?thesis using keyToPath_hashed_inj [OF assms(1)] assms(5) by blast
qed

theorem keyToPath_separates_witness:
  "keyToPath ''data'' ''go-buildcache/v1aabbcc'' \<noteq> keyToPath ''data'' ''go-buildcache/v1aabbcd''"
proof -
  have p: "plainKey ''go-buildcache/v1aabbcc''" "plainKey ''go-buildcache/v1aabbcd''" by code_simp+
  then have "isKeySafe ''go-buildcache/v1aabbcc''" by (simp add: plainKey_def)
  then show ?thesis
    using keyToPath_separates [of "''data''" "''go-buildcache/v1aabbcc''" "''go-buildcache/v1aabbcd''"] p by auto
qed

text \<open>Short last elements are the exception: these two safe keys name one file.\<close>

lemma keyToPath_collision:
  "isKeySafe ''ab/cd'' \<and> isKeySafe ''abcd'' \<and> keyToPath ''data'' ''ab/cd'' = keyToPath ''data'' ''abcd''"
  by code_simp

end
