(* ===== verification/IndexGuard.thy ===== *)
theory IndexGuard
  imports Prelude
begin

text \<open>
  Recognizing a Go module index from the first bytes of a body: the LZ4 header reader
  (\<^verbatim>\<open>lz4head.go\<close>), the codec test (\<^verbatim>\<open>codec.go\<close>), the detectors of the upload and read paths
  (\<^verbatim>\<open>modindex.go\<close>) and the build-id stamp of an archive (\<^verbatim>\<open>contentstamp.go\<close>).  The LZ4 and
  Zstandard decoders are third-party packages and arguments of the definitions; what is relied on of
  the LZ4 decoder is stated against the first block of a frame as the format documents it.
\<close>

section \<open>Definitions\<close>

subsection \<open>Readers\<close>

text \<open>A reader is the bytes it will deliver and the error that ends it; none is the end of file.
  \<^verbatim>\<open>io.ReadFull\<close> answers the bytes read and how it ended.\<close>

datatype ioErr = IoErr nat

datatype readEnd = ReadFull | ReadEOF | ReadUnexpectedEOF | ReadErr ioErr

record reader =
  rd_data :: bytes
  rd_err :: "ioErr option"

definition readFull :: "reader \<Rightarrow> nat \<Rightarrow> bytes \<times> readEnd" where
  "readFull r n =
    (take n (rd_data r),
     if n \<le> length (rd_data r) then ReadFull
     else case rd_err r of Some e \<Rightarrow> ReadErr e
       | None \<Rightarrow> if rd_data r = [] then ReadEOF else ReadUnexpectedEOF)"

definition bytesReader :: "bytes \<Rightarrow> reader" where
  "bytesReader bs = \<lparr>rd_data = bs, rd_err = None\<rparr>"

text \<open>Reading so many bytes through a decoder, or all of them.  The LZ4 reader also answers the error
  its source raised, which \<^verbatim>\<open>errTrackingReader\<close> keeps; the Zstandard decoder may fail to start.\<close>

record decoders =
  lz4Read :: "reader \<Rightarrow> nat \<Rightarrow> (bytes \<times> readEnd) \<times> ioErr option"
  lz4All :: "reader \<Rightarrow> ioErr + bytes"
  zstdStart :: "reader \<Rightarrow> bool"
  zstdRead :: "reader \<Rightarrow> nat \<Rightarrow> bytes \<times> readEnd"
  zstdAll :: "reader \<Rightarrow> ioErr + bytes"

subsection \<open>Frame headers\<close>

definition zstdFrameMagic :: u32 where
  "zstdFrameMagic = 0xFD2FB528"

definition lz4FrameMagic :: u32 where
  "lz4FrameMagic = 0x184D2204"

definition lz4UncompMask :: u32 where
  "lz4UncompMask = 0x80000000"

definition codecPeekBytes :: nat where
  "codecPeekBytes = 4"

definition frameCodec :: "bytes \<Rightarrow> string" where
  "frameCodec head =
    (if length head < codecPeekBytes then []
     else let m = leUint32 head in
       if m = zstdFrameMagic then ''zstd'' else if m = lz4FrameMagic then ''lz4'' else [])"

text \<open>The codec of a body and its reader: none when no decoder could be started.\<close>

definition decompressingReader :: "decoders \<Rightarrow> reader \<Rightarrow> string option" where
  "decompressingReader dec r =
    (let head = take codecPeekBytes (rd_data r) in
     if length head < codecPeekBytes then Some []
     else let codec = frameCodec head in
       if codec = ''zstd'' then (if zstdStart dec r then Some codec else None)
       else if codec = ''lz4'' then Some codec
       else Some [])"

definition readDecoded :: "decoders \<Rightarrow> string \<Rightarrow> reader \<Rightarrow> nat \<Rightarrow> bytes \<times> readEnd" where
  "readDecoded dec codec r n =
    (if codec = ''zstd'' then zstdRead dec r n
     else if codec = ''lz4'' then fst (lz4Read dec r n)
     else readFull r n)"

definition copyDecoded :: "decoders \<Rightarrow> string \<Rightarrow> reader \<Rightarrow> ioErr + bytes" where
  "copyDecoded dec codec r =
    (if codec = ''zstd'' then zstdAll dec r
     else if codec = ''lz4'' then lz4All dec r
     else case rd_err r of Some e \<Rightarrow> Inl e | None \<Rightarrow> Inr (rd_data r))"

fun litLenLoop :: "nat \<Rightarrow> bytes \<Rightarrow> (nat \<times> bytes) option" where
  "litLenLoop litLen [] = None"
| "litLenLoop litLen (b # bs) =
    (let litLen = litLen + unat b in if b \<noteq> 255 then Some (litLen, bs) else litLenLoop litLen bs)"

definition lz4LeadingBytes :: "bytes \<Rightarrow> nat \<Rightarrow> bytes option" where
  "lz4LeadingBytes head want =
    (if length head < 7 then None
     else if leUint32 head \<noteq> lz4FrameMagic then None
     else let flg = head ! 4 in
     if drop_bit 6 flg \<noteq> 1 then None
     else if flg AND 0x01 \<noteq> 0 then None
     else let p = 6 + (if flg AND 0x08 \<noteq> 0 then 8 else 0) + 1 in
     if int (length head) - int p < 4 then None
     else let blockSize = leUint32 (drop p head); rest = drop (p + 4) head; avail = length rest in
     if blockSize = 0 then None
     else if blockSize AND lz4UncompMask \<noteq> 0 then
       let n = unat (blockSize AND NOT lz4UncompMask); avail = min avail n in
       if avail = 0 then None else Some (take (min avail want) rest)
     else if avail < 1 then None
     else let token = hd rest; litLen = unat (drop_bit 4 token) in
       case (if litLen = 15 then litLenLoop litLen (tl rest) else Some (litLen, tl rest)) of
         None \<Rightarrow> None
       | Some (litLen, rest) \<Rightarrow>
         if litLen = 0 then None
         else let avail = min (length rest) litLen in
           if avail = 0 then None else Some (take (min avail want) rest))"

definition lz4HasPrefix :: "bytes \<Rightarrow> bytes \<Rightarrow> bool \<times> bool" where
  "lz4HasPrefix head want =
    (case lz4LeadingBytes head (length want) of
       None \<Rightarrow> (False, False)
     | Some lead \<Rightarrow>
       if length lead \<ge> length want then (take (length want) lead = want, True)
       else if take (length lead) want \<noteq> lead then (False, True)
       else (False, False))"

subsection \<open>Detecting a module index\<close>

definition goModuleIndexMagic :: bytes where
  "goModuleIndexMagic = bytes_of ''go index v''"

definition indexMagicProbeBytes :: nat where
  "indexMagicProbeBytes = 16"

definition lz4HeadPeekBytes :: nat where
  "lz4HeadPeekBytes = 64"

definition indexPutPeekBytes :: nat where
  "indexPutPeekBytes = 2 ^ 20"

definition endsEarly :: "readEnd \<Rightarrow> bool" where
  "endsEarly e \<longleftrightarrow> e = ReadFull \<or> e = ReadEOF \<or> e = ReadUnexpectedEOF"

definition readIsModuleIndex :: "decoders \<Rightarrow> reader \<Rightarrow> string \<Rightarrow> bool \<times> ioErr option" where
  "readIsModuleIndex dec r compression =
    (let (head, headEnd) = readFull r lz4HeadPeekBytes in
     case headEnd of ReadErr e \<Rightarrow> (False, Some e)
     | _ \<Rightarrow>
       let codec = frameCodec head in
       if codec = ''zstd'' then
         (case decompressingReader dec r of
            None \<Rightarrow> (False, None)
          | Some codec \<Rightarrow>
            let (buf, e) = readDecoded dec codec r indexMagicProbeBytes in
            if \<not> endsEarly e then (False, None) else (hasPrefix buf goModuleIndexMagic, None))
       else if compression = ''lz4'' \<or> codec = ''lz4'' then
         (let (match, decided) = lz4HasPrefix head goModuleIndexMagic in
          if decided then (match, None)
          else let ((buf, e), srcErr) = lz4Read dec r indexMagicProbeBytes in
            if srcErr \<noteq> None then (False, srcErr)
            else if \<not> endsEarly e then (False, None)
            else (hasPrefix buf goModuleIndexMagic, None))
       else let (buf, e) = readFull r indexMagicProbeBytes in
         (case e of ReadErr e \<Rightarrow> (False, Some e) | _ \<Rightarrow> (hasPrefix buf goModuleIndexMagic, None)))"

definition looksLikeGoModuleIndex :: "decoders \<Rightarrow> bytes \<Rightarrow> string \<Rightarrow> bool" where
  "looksLikeGoModuleIndex dec inp compression =
    (if frameCodec inp = ''zstd'' then fst (readIsModuleIndex dec (bytesReader inp) compression)
     else if compression = ''lz4'' \<or> frameCodec inp = ''lz4'' then
       (let (match, decided) = lz4HasPrefix inp goModuleIndexMagic in
        if decided then match
        else let ((buf, e), srcErr) = lz4Read dec (bytesReader inp) indexMagicProbeBytes
          in hasPrefix buf goModuleIndexMagic)
     else hasPrefix inp goModuleIndexMagic)"

definition IsGoModuleIndex :: "bytes \<Rightarrow> bool" where
  "IsGoModuleIndex body = hasPrefix body goModuleIndexMagic"

subsection \<open>Archive stamps\<close>

definition stampHeadBytes :: nat where
  "stampHeadBytes = 4096"

definition parseArchiveStamp :: "bytes \<Rightarrow> (bytes \<times> bytes) option" where
  "parseArchiveStamp head =
    (if \<not> hasPrefix head (bytes_of ''!<arch>'' @ [10]) then None
     else let head = (case indexSub head (bytes_of ''$$'') of Some end \<Rightarrow> take end head | None \<Rightarrow> head);
              marker = bytes_of ''build id '' @ [34] in
     case indexSub head marker of None \<Rightarrow> None
     | Some start \<Rightarrow>
       let rest = drop (start + length marker) head in
       (case indexByte rest 34 of None \<Rightarrow> None
        | Some end \<Rightarrow>
          let id = take end rest in
          (case indexByte id 47 of None \<Rightarrow> None
           | Some slash \<Rightarrow> Some (take slash id, drop (slash + 1) id))))"

definition archiveStamp :: "decoders \<Rightarrow> bytes \<Rightarrow> (bytes \<times> bytes) option" where
  "archiveStamp dec body =
    (let r = bytesReader body in
     case decompressingReader dec r of None \<Rightarrow> None
     | Some codec \<Rightarrow> parseArchiveStamp (fst (readDecoded dec codec r stampHeadBytes)))"

definition replacesContentStamp :: "decoders \<Rightarrow> bytes \<Rightarrow> bytes \<Rightarrow> bool" where
  "replacesContentStamp dec stored incoming =
    (case archiveStamp dec stored of None \<Rightarrow> False
     | Some (oldAction, oldContent) \<Rightarrow>
       if oldAction \<noteq> oldContent then False
       else (case archiveStamp dec incoming of None \<Rightarrow> False
         | Some (newAction, newContent) \<Rightarrow> newContent = oldContent \<and> newAction \<noteq> newContent))"

section \<open>The first block of an LZ4 frame\<close>

text \<open>A length of the block format: a nibble, extended by bytes while they are 255.\<close>

fun lz4Ext :: "nat \<Rightarrow> bytes \<Rightarrow> (nat \<times> bytes) option" where
  "lz4Ext n [] = None"
| "lz4Ext n (b # bs) = (if b = 255 then lz4Ext (n + 255) bs else Some (n + unat b, bs))"

definition lz4Len :: "nat \<Rightarrow> bytes \<Rightarrow> (nat \<times> bytes) option" where
  "lz4Len nibble bs = (if nibble = 15 then lz4Ext 15 bs else Some (nibble, bs))"

fun copyMatch :: "nat \<Rightarrow> nat \<Rightarrow> bytes \<Rightarrow> bytes" where
  "copyMatch 0 off out = out"
| "copyMatch (Suc n) off out = copyMatch n off (out @ [out ! (length out - off)])"

text \<open>A block is a list of sequences: literals, then a match into the bytes before it; the last
  sequence has literals only.\<close>

lemma lz4Ext_length: "lz4Ext n bs = Some (l, rest) \<Longrightarrow> length rest < length bs"
  by (induction n bs rule: lz4Ext.induct) (auto split: if_splits)

lemma lz4Len_length: "lz4Len n bs = Some (l, rest) \<Longrightarrow> length rest \<le> length bs"
  using lz4Ext_length by (fastforce simp: lz4Len_def split: if_splits)

function lz4Sequences :: "bytes \<Rightarrow> bytes \<Rightarrow> bytes option" where
  "lz4Sequences out [] = None"
| "lz4Sequences out (token # bs) =
    (case lz4Len (unat token div 16) bs of None \<Rightarrow> None
     | Some (lits, bs1) \<Rightarrow>
       if length bs1 < lits then None
       else let out1 = out @ take lits bs1; bs2 = drop lits bs1 in
         if bs2 = [] then Some out1
         else if length bs2 < 2 then None
         else let off = unat (bs2 ! 0) + 256 * unat (bs2 ! 1) in
           (case lz4Len (unat token mod 16) (drop 2 bs2) of None \<Rightarrow> None
            | Some (m, bs3) \<Rightarrow>
              if off = 0 \<or> off > length out1 then None
              else lz4Sequences (copyMatch (m + 4) off out1) bs3))"
  by pat_completeness auto
termination
  by (relation "measure (\<lambda>(out, bs). length bs)") (auto dest!: lz4Len_length)

definition lz4FirstBlock :: "bytes \<Rightarrow> bytes option" where
  "lz4FirstBlock src =
    (if length src < 7 \<or> leUint32 src \<noteq> lz4FrameMagic then None
     else let flg = src ! 4 in
     if drop_bit 6 flg \<noteq> 1 \<or> flg AND 0x01 \<noteq> 0 then None
     else let p = (if flg AND 0x08 \<noteq> 0 then 15 else 7) in
     if length src < p + 4 then None
     else let size = leUint32 (drop p src); data = drop (p + 4) src in
     if size = 0 then Some []
     else if size AND lz4UncompMask \<noteq> 0 then
       let n = unat (size AND NOT lz4UncompMask) in
       if length data < n then None else Some (take n data)
     else if length data < unat size then None
     else lz4Sequences [] (take (unat size) data))"

text \<open>What is relied on of reading through the decoder from memory: the source raises no error, \<^verbatim>\<open>io.ReadFull\<close>
  answers at most the bytes asked for and ends without an error exactly when it has them all, and the
  bytes of a frame come out from the frame's start: where the first block is one the format defines, they agree with
  its content as far as both go, no bytes at all for a frame the decoder refuses.  Of other sources -
  skippable and legacy frames, broken blocks - nothing is said.\<close>

definition agrees :: "bytes \<Rightarrow> bytes \<Rightarrow> bool" where
  "agrees a b \<longleftrightarrow> hasPrefix a b \<or> hasPrefix b a"

definition lz4DecodesFrames :: "decoders \<Rightarrow> bool" where
  "lz4DecodesFrames dec \<longleftrightarrow> (\<forall>src n. \<exists>buf e. lz4Read dec (bytesReader src) n = ((buf, e), None) \<and>
     length buf \<le> n \<and> (e = ReadFull \<longleftrightarrow> length buf = n) \<and>
     (\<forall>b. lz4FirstBlock src = Some b \<longrightarrow> agrees buf b))"

section \<open>The header reader against the format\<close>

lemma litLenLoop_eq: "litLenLoop n bs = lz4Ext n bs"
  by (induction n bs rule: lz4Ext.induct) (simp_all add: Let_def)

lemma lz4Ext_append: "lz4Ext n xs = Some (l, r) \<Longrightarrow> lz4Ext n (xs @ ys) = Some (l, r @ ys)"
  by (induction n xs rule: lz4Ext.induct) (auto split: if_splits)

lemma lz4Len_append: "lz4Len n xs = Some (l, r) \<Longrightarrow> lz4Len n (xs @ ys) = Some (l, r @ ys)"
  by (auto simp: lz4Len_def lz4Ext_append split: if_splits)

lemma hasPrefix_refl [simp]: "hasPrefix xs xs"
  by (simp add: hasPrefix_def)

lemma hasPrefix_trans: "hasPrefix a b \<Longrightarrow> hasPrefix b c \<Longrightarrow> hasPrefix a c"
  by (auto simp: hasPrefix_iff)

lemma hasPrefix_take [simp]: "hasPrefix xs (take n xs)"
  by (simp add: hasPrefix_def min_def)

lemma hasPrefix_copyMatch: "hasPrefix (copyMatch n off out) out"
proof (induction n arbitrary: out)
  case (Suc n)
  have "hasPrefix (copyMatch n off (out @ [out ! (length out - off)])) (out @ [out ! (length out - off)])"
    by (rule Suc.IH)
  then show ?case by (auto intro: hasPrefix_trans)
qed simp

lemma lz4Sequences_prefix: "lz4Sequences out bs = Some r \<Longrightarrow> hasPrefix r out"
proof (induction out bs arbitrary: r rule: lz4Sequences.induct)
  case (2 out token bs)
  from "2.prems" obtain lits bs1 where l: "lz4Len (unat token div 16) bs = Some (lits, bs1)"
    by (auto split: option.splits)
  let ?out1 = "out @ take lits bs1" and ?bs2 = "drop lits bs1"
  show ?case
  proof (cases "?bs2 = []")
    case True
    then show ?thesis using "2.prems" l by (auto simp: Let_def split: if_splits)
  next
    case False
    let ?off = "unat (?bs2 ! 0) + 256 * unat (?bs2 ! 1)"
    from "2.prems" l False obtain m bs3 where c: "\<not> length bs1 < lits" "\<not> length ?bs2 < 2"
        "lz4Len (unat token mod 16) (drop 2 ?bs2) = Some (m, bs3)" "\<not> (?off = 0 \<or> ?off > length ?out1)"
        "lz4Sequences (copyMatch (m + 4) ?off ?out1) bs3 = Some r"
      by (auto simp: Let_def split: if_splits option.splits)
    have "hasPrefix r (copyMatch (m + 4) ?off ?out1)"
      by (rule "2.IH" [OF l refl c(1) refl refl False c(2) refl c(3) refl c(4) c(5)])
    then have "hasPrefix r ?out1" using hasPrefix_copyMatch hasPrefix_trans by blast
    then show ?thesis using hasPrefix_append [of out "take lits bs1"] hasPrefix_trans by blast
  qed
qed simp

lemma lz4Sequences_literals:
  assumes "lz4Sequences [] (token # bs) = Some r"
  shows "\<exists>lits rest. lz4Len (unat token div 16) bs = Some (lits, rest) \<and> lits \<le> length rest \<and>
    hasPrefix r (take lits rest)"
proof -
  from assms obtain lits rest where l: "lz4Len (unat token div 16) bs = Some (lits, rest)"
    by (auto split: option.splits)
  have len: "lits \<le> length rest" using assms l by (auto simp: Let_def split: if_splits)
  have "hasPrefix r (take lits rest)"
  proof (cases "drop lits rest = []")
    case True
    then show ?thesis using assms l by (auto simp: Let_def split: if_splits)
  next
    case False
    then obtain m off bs3 where "lz4Sequences (copyMatch (m + 4) off (take lits rest)) bs3 = Some r"
      using assms l by (auto simp: Let_def split: if_splits option.splits)
    then show ?thesis using lz4Sequences_prefix hasPrefix_copyMatch hasPrefix_trans by blast
  qed
  then show ?thesis using l len by blast
qed

lemma drop_bit_4_byte: "unat (drop_bit 4 (b :: byte)) = unat b div 16"
  by (simp add: drop_bit_eq_div unat_div)

lemma leUint32_append: "4 \<le> length xs \<Longrightarrow> leUint32 (xs @ ys) = leUint32 xs"
  by (simp add: leUint32_def)

lemma litLen_step:
  "(if n = 15 then litLenLoop n bs else Some (n, bs)) = lz4Len n bs"
  by (simp add: lz4Len_def litLenLoop_eq)

text \<open>Both sides read the same header, so only the block is left to compare.\<close>

definition blockLead :: "u32 \<Rightarrow> bytes \<Rightarrow> nat \<Rightarrow> bytes option" where
  "blockLead sz rest want =
    (if sz = 0 then None
     else if sz AND lz4UncompMask \<noteq> 0 then
       let avail = min (length rest) (unat (sz AND NOT lz4UncompMask)) in
       if avail = 0 then None else Some (take (min avail want) rest)
     else if length rest < 1 then None
     else case lz4Len (unat (hd rest) div 16) (tl rest) of
         None \<Rightarrow> None
       | Some (litLen, rest) \<Rightarrow>
         if litLen = 0 then None
         else let avail = min (length rest) litLen in
           if avail = 0 then None else Some (take (min avail want) rest))"

definition blockContent :: "u32 \<Rightarrow> bytes \<Rightarrow> bytes option" where
  "blockContent sz data =
    (if sz = 0 then Some []
     else if sz AND lz4UncompMask \<noteq> 0 then
       let n = unat (sz AND NOT lz4UncompMask) in
       if length data < n then None else Some (take n data)
     else if length data < unat sz then None
     else lz4Sequences [] (take (unat sz) data))"

lemma lz4LeadingBytes_header:
  assumes "lz4LeadingBytes head want = Some lead"
  shows "\<exists>p. p + 4 \<le> length head \<and> blockLead (leUint32 (drop p head)) (drop (p + 4) head) want = Some lead \<and>
    (\<forall>suf. lz4FirstBlock (head @ suf) = blockContent (leUint32 (drop p head)) (drop (p + 4) head @ suf))"
proof -
  let ?p = "if head ! 4 AND 0x08 \<noteq> 0 then 15 else 7 :: nat"
  have h: "\<not> length head < 7" "leUint32 head = lz4FrameMagic" "drop_bit 6 (head ! 4) = 1"
      "head ! 4 AND 0x01 = 0"
    using assms by (auto simp: lz4LeadingBytes_def Let_def split: if_splits)
  have p: "6 + (if head ! 4 AND 0x08 \<noteq> 0 then 8 else 0) + 1 = ?p" by simp
  have len: "?p + 4 \<le> length head"
    using assms h unfolding lz4LeadingBytes_def Let_def p by (auto split: if_splits)
  have "blockLead (leUint32 (drop ?p head)) (drop (?p + 4) head) want = Some lead"
  proof -
    have "\<not> int (length head) - int ?p < 4" using len by linarith
    then show ?thesis
      using assms h unfolding lz4LeadingBytes_def Let_def p drop_bit_4_byte litLen_step
      by (simp only: if_False if_True not_True_eq_False blockLead_def Let_def simp_thms)
  qed
  moreover have "lz4FirstBlock (head @ suf) = blockContent (leUint32 (drop ?p head)) (drop (?p + 4) head @ suf)" for suf
  proof -
    have e: "leUint32 (head @ suf) = leUint32 head" "(head @ suf) ! 4 = head ! 4"
        "leUint32 (drop ?p (head @ suf)) = leUint32 (drop ?p head)"
        "drop (?p + 4) (head @ suf) = drop (?p + 4) head @ suf"
        "\<not> length (head @ suf) < 7" "\<not> length (head @ suf) < ?p + 4"
      using h(1) len by (auto simp: leUint32_append nth_append)
    show ?thesis
      unfolding lz4FirstBlock_def Let_def e blockContent_def using h e by simp
  qed
  ultimately show ?thesis using len by blast
qed

lemma lz4LeadingBytes_sound:
  assumes lead: "lz4LeadingBytes head want = Some lead" and blk: "lz4FirstBlock (head @ suf) = Some b"
  shows "hasPrefix b lead" and "0 < want \<Longrightarrow> lead \<noteq> []"
proof -
  obtain p where p: "blockLead (leUint32 (drop p head)) (drop (p + 4) head) want = Some lead"
      "blockContent (leUint32 (drop p head)) (drop (p + 4) head @ suf) = Some b"
    using lz4LeadingBytes_header [OF lead] blk by metis
  define sz rest where "sz = leUint32 (drop p head)" and "rest = drop (p + 4) head"
  note p = p [folded sz_def rest_def]
  have "hasPrefix b lead \<and> (0 < want \<longrightarrow> lead \<noteq> [])"
  proof (cases "sz AND lz4UncompMask \<noteq> 0")
    case True
    define n where "n = unat (sz AND NOT lz4UncompMask)"
    have "lead = take (min (min (length rest) n) want) rest" "min (length rest) n \<noteq> 0" "b = take n (rest @ suf)"
      using p True by (auto simp: blockLead_def blockContent_def Let_def n_def split: if_splits)
    then show ?thesis by (auto simp: hasPrefix_def min_def)
  next
    case False
    then have c: "sz \<noteq> 0" "0 < length rest" "lz4Sequences [] (take (unat sz) (rest @ suf)) = Some b"
        "unat sz \<le> length (rest @ suf)"
      using p by (auto simp: blockLead_def blockContent_def split: if_splits)
    then obtain token tail where rest: "rest = token # tail" by (cases rest) auto
    obtain l r where l: "lz4Len (unat token div 16) tail = Some (l, r)" "l \<noteq> 0"
        "min (length r) l \<noteq> 0" "lead = take (min (min (length r) l) want) r"
      using p(1) False by (auto simp: blockLead_def rest Let_def split: if_splits option.splits)
    obtain k where k: "unat sz = Suc k" using c(1) by (cases "unat sz") (auto simp: unat_eq_0)
    then have "lz4Sequences [] (token # take k (tail @ suf)) = Some b" using c(3) rest by simp
    from lz4Sequences_literals [OF this] obtain l' r' where
      l': "lz4Len (unat token div 16) (take k (tail @ suf)) = Some (l', r')" "l' \<le> length r'" "hasPrefix b (take l' r')"
      by blast
    have "lz4Len (unat token div 16) (tail @ suf) = Some (l, r @ suf)" by (rule lz4Len_append [OF l(1)])
    moreover have "lz4Len (unat token div 16) (tail @ suf) = Some (l', r' @ drop k (tail @ suf))"
      using lz4Len_append [OF l'(1), of "drop k (tail @ suf)"] by (simp only: append_take_drop_id)
    ultimately have eq: "l' = l" "r @ suf = r' @ drop k (tail @ suf)" by simp_all
    have "take l' r' = take l (r @ suf)" using eq l'(2) by simp
    then have "hasPrefix (take l' r') lead" using l(4) by (auto simp: hasPrefix_def min_def)
    then show ?thesis using l'(3) hasPrefix_trans l(2-4) by auto
  qed
  then show "hasPrefix b lead" "0 < want \<Longrightarrow> lead \<noteq> []" by blast+
qed

lemma blockLead_length: "blockLead sz rest want = Some lead \<Longrightarrow> length lead \<le> want"
  by (auto simp: blockLead_def Let_def split: if_splits option.splits)

lemma lz4LeadingBytes_length: "lz4LeadingBytes head want = Some lead \<Longrightarrow> length lead \<le> want"
  using lz4LeadingBytes_header blockLead_length by blast

lemma agrees_prefix:
  assumes "agrees out b" "hasPrefix b lead" "length lead \<le> length out"
  shows "hasPrefix out lead"
  using assms unfolding agrees_def
proof (elim disjE)
  assume "hasPrefix out b"
  then show ?thesis using assms(2) hasPrefix_trans by blast
next
  assume "hasPrefix b out"
  then obtain t where "b = out @ t" by (auto simp: hasPrefix_iff)
  then show ?thesis using assms(2,3) by (simp add: hasPrefix_def)
qed

lemma lz4HasPrefix_decided:
  assumes dec: "lz4HasPrefix head want = (m, True)" and blk: "lz4FirstBlock (head @ suf) = Some b"
    and out: "agrees out b" "length want \<le> length out"
  shows "m = hasPrefix out want"
proof -
  obtain lead where lead: "lz4LeadingBytes head (length want) = Some lead"
    using dec by (auto simp: lz4HasPrefix_def split: option.splits)
  have len: "length lead \<le> length want" by (rule lz4LeadingBytes_length [OF lead])
  have "hasPrefix out lead"
    using agrees_prefix [OF out(1) lz4LeadingBytes_sound(1) [OF lead blk]] len out(2) by simp
  then obtain t where t: "out = lead @ t" by (auto simp: hasPrefix_iff)
  show ?thesis
  proof (cases "length lead \<ge> length want")
    case True
    then have "m = (take (length want) lead = want)" using dec lead by (simp add: lz4HasPrefix_def)
    then show ?thesis using True by (simp add: t hasPrefix_def)
  next
    case False
    then have "take (length lead) want \<noteq> lead" "\<not> m"
      using dec lead by (auto simp: lz4HasPrefix_def split: if_splits)
    moreover have "\<not> hasPrefix out want"
    proof
      assume "hasPrefix out want"
      then obtain u where "lead @ t = want @ u" by (auto simp: t hasPrefix_iff)
      then have "take (length lead) (lead @ t) = take (length lead) (want @ u)" by simp
      then show False using calculation(1) False by simp
    qed
    ultimately show ?thesis by simp
  qed
qed

lemma frameCodec_take: "4 \<le> n \<Longrightarrow> frameCodec (take n body) = frameCodec body"
  by (simp add: frameCodec_def codecPeekBytes_def leUint32_def min_def)

lemma readFull_bytes: "readFull (bytesReader bs) n =
    (take n bs, if n \<le> length bs then ReadFull else if bs = [] then ReadEOF else ReadUnexpectedEOF)"
  by (simp add: readFull_def bytesReader_def)

lemma magic_length [simp]: "length goModuleIndexMagic = 10"
  by (simp add: goModuleIndexMagic_def bytes_of_def)

lemma hasPrefix_take_iff: "length p \<le> n \<Longrightarrow> hasPrefix (take n xs) p \<longleftrightarrow> hasPrefix xs p"
  by (simp add: hasPrefix_def min_def)

lemma lz4HasPrefix_magic: "lz4HasPrefix head want = (m, True) \<Longrightarrow> frameCodec head = ''lz4''"
  by (auto simp: lz4HasPrefix_def lz4LeadingBytes_def Let_def frameCodec_def codecPeekBytes_def zstdFrameMagic_def lz4FrameMagic_def
      split: if_splits option.splits)

lemma guards_agree_lz4:
  assumes conf: "lz4DecodesFrames dec" and codec: "frameCodec body \<noteq> ''zstd''" "cmp = ''lz4'' \<or> frameCodec body = ''lz4''"
    and full: "snd (fst (lz4Read dec (bytesReader body) indexMagicProbeBytes)) = ReadFull"
    and sound: "frameCodec body = ''lz4'' \<Longrightarrow> lz4FirstBlock body \<noteq> None"
  shows "readIsModuleIndex dec (bytesReader body) cmp = (looksLikeGoModuleIndex dec body cmp, None)"
proof -
  obtain buf e where rd: "lz4Read dec (bytesReader body) indexMagicProbeBytes = ((buf, e), None)"
      "e = ReadFull \<longleftrightarrow> length buf = indexMagicProbeBytes" "\<And>b. lz4FirstBlock body = Some b \<Longrightarrow> agrees buf b"
    using conf unfolding lz4DecodesFrames_def by blast
  have e: "e = ReadFull" "length goModuleIndexMagic \<le> length buf" using full rd(1,2) by (auto simp: indexMagicProbeBytes_def)
  have fc: "frameCodec (take lz4HeadPeekBytes body) = frameCodec body"
    by (rule frameCodec_take) (simp add: lz4HeadPeekBytes_def)
  have split: "take lz4HeadPeekBytes body @ drop lz4HeadPeekBytes body = body" by simp
  have settled: "m = hasPrefix buf goModuleIndexMagic"
    if h: "lz4HasPrefix head goModuleIndexMagic = (m, True)" "head @ suf = body" "frameCodec head = frameCodec body" for m head suf
  proof -
    obtain b where b: "lz4FirstBlock (head @ suf) = Some b" using sound lz4HasPrefix_magic [OF h(1)] h(2,3) by auto
    then show ?thesis using lz4HasPrefix_decided [OF h(1) b rd(3) e(2)] h(2) by simp
  qed
  have "readIsModuleIndex dec (bytesReader body) cmp = (hasPrefix buf goModuleIndexMagic, None)"
    using codec rd(1) e(1) settled [OF _ split fc]
    by (cases "lz4HasPrefix (take lz4HeadPeekBytes body) goModuleIndexMagic")
      (auto simp: readIsModuleIndex_def readFull_bytes fc endsEarly_def split: if_splits)
  moreover have "looksLikeGoModuleIndex dec body cmp = hasPrefix buf goModuleIndexMagic"
    using codec rd(1) settled [of body _ "[]"]
    by (cases "lz4HasPrefix body goModuleIndexMagic") (auto simp: looksLikeGoModuleIndex_def split: if_splits)
  ultimately show ?thesis by simp
qed

lemma guards_agree_other:
  assumes "frameCodec body = ''zstd'' \<or> \<not> (cmp = ''lz4'' \<or> frameCodec body = ''lz4'')"
  shows "readIsModuleIndex dec (bytesReader body) cmp = (looksLikeGoModuleIndex dec body cmp, None)"
proof -
  have fc: "frameCodec (take lz4HeadPeekBytes body) = frameCodec body"
    by (rule frameCodec_take) (simp add: lz4HeadPeekBytes_def)
  have hp: "hasPrefix (take indexMagicProbeBytes body) goModuleIndexMagic = hasPrefix body goModuleIndexMagic"
    by (rule hasPrefix_take_iff) (simp add: indexMagicProbeBytes_def)
  show ?thesis
  proof (cases "frameCodec body = ''zstd''")
    case True
    then have "snd (readIsModuleIndex dec (bytesReader body) cmp) = None"
      by (simp add: readIsModuleIndex_def readFull_bytes fc split: option.split prod.split)
    then show ?thesis
      using True by (simp add: looksLikeGoModuleIndex_def prod_eq_iff)
  next
    case False
    then show ?thesis
      using assms hp by (simp add: readIsModuleIndex_def looksLikeGoModuleIndex_def readFull_bytes fc)
  qed
qed

section \<open>Properties\<close>

text \<open>(C19) The bytes the header reader takes from a frame's first literal run, without decompressing,
  are the first bytes of the frame's first block as the LZ4 format defines it, however much of the
  frame follows the bytes it was given.\<close>

theorem lz4LeadingBytes_correct:
  assumes "lz4LeadingBytes head want = Some lead" and "lz4FirstBlock (head @ suf) = Some b"
  shows "hasPrefix b lead \<and> length lead \<le> want"
  using lz4LeadingBytes_sound(1) [OF assms] lz4LeadingBytes_length [OF assms(1)] by blast

text \<open>A frame with one compressed block: a literal run of 16 bytes, its length in the token and one
  extension byte.\<close>

definition demoFrame :: bytes where
  "demoFrame = [0x04, 0x22, 0x4D, 0x18, 0x40, 0x40, 0, 18, 0, 0, 0, 0xF0, 1]
     @ bytes_of ''go index v2'' @ [1, 2, 3, 4, 5] @ [0, 0, 0, 0]"

theorem lz4LeadingBytes_correct_witness:
  "lz4LeadingBytes (take 20 demoFrame) 16 = Some (bytes_of ''go inde'') \<and>
   lz4FirstBlock (take 20 demoFrame @ drop 20 demoFrame) = Some (bytes_of ''go index v2'' @ [1, 2, 3, 4, 5]) \<and>
   hasPrefix (bytes_of ''go index v2'' @ [1, 2, 3, 4, 5]) (bytes_of ''go inde'') \<and> length (bytes_of ''go inde'') \<le> 16"
proof -
  have 1: "lz4LeadingBytes (take 20 demoFrame) 16 = Some (bytes_of ''go inde'')" by code_simp
  have 2: "lz4FirstBlock (take 20 demoFrame @ drop 20 demoFrame) = Some (bytes_of ''go index v2'' @ [1, 2, 3, 4, 5])"
    by code_simp
  show ?thesis using lz4LeadingBytes_correct [OF 1 2] 1 2 by blast
qed

text \<open>(C18) The guard on the upload path and the guard on the read path give the same verdict on a body they
  both see whole, for every body that is not taken for LZ4, and for a body taken for LZ4 (by its magic or its label) that
  decompresses without an error to the 16 bytes the guards probe and, where it has the frame magic, has a first
  block that is well formed and needs no dictionary - whether or not either guard settles the question from the frame
  header.  On a corrupt LZ4 body the verdicts may differ: the upload guard looks at what was decompressed
  before the error, the read guard does not.\<close>

theorem guards_agree:
  assumes "lz4DecodesFrames dec"
    and "cmp = ''lz4'' \<or> frameCodec body = ''lz4'' \<Longrightarrow>
      snd (fst (lz4Read dec (bytesReader body) indexMagicProbeBytes)) = ReadFull"
    and "frameCodec body = ''lz4'' \<Longrightarrow> lz4FirstBlock body \<noteq> None"
  shows "readIsModuleIndex dec (bytesReader body) cmp = (looksLikeGoModuleIndex dec body cmp, None)"
  using guards_agree_lz4 [OF assms(1) _ _ assms(2,3)] guards_agree_other by blast

definition specDecoders :: decoders where
  "specDecoders = \<lparr>
     lz4Read = (\<lambda>r n. let out = (case lz4FirstBlock (rd_data r) of Some b \<Rightarrow> b | None \<Rightarrow> [])
       in (readFull (bytesReader out) n, None)),
     lz4All = (\<lambda>r. case lz4FirstBlock (rd_data r) of Some b \<Rightarrow> Inr b | None \<Rightarrow> Inl (IoErr 0)),
     zstdStart = (\<lambda>r. False), zstdRead = (\<lambda>r n. ([], ReadEOF)), zstdAll = (\<lambda>r. Inl (IoErr 0))\<rparr>"

lemma specDecoders_decode: "lz4DecodesFrames specDecoders"
  unfolding lz4DecodesFrames_def
proof (intro allI)
  fix src n
  define out where "out = (case lz4FirstBlock src of Some b \<Rightarrow> b | None \<Rightarrow> [])"
  have "lz4Read specDecoders (bytesReader src) n = (readFull (bytesReader out) n, None)"
    by (simp add: specDecoders_def out_def bytesReader_def)
  then show "\<exists>buf e. lz4Read specDecoders (bytesReader src) n = ((buf, e), None) \<and>
     length buf \<le> n \<and> (e = ReadFull \<longleftrightarrow> length buf = n) \<and> (\<forall>b. lz4FirstBlock src = Some b \<longrightarrow> agrees buf b)"
    by (auto simp: readFull_bytes out_def agrees_def)
qed

theorem guards_agree_witness:
  "lz4DecodesFrames specDecoders \<and>
   snd (fst (lz4Read specDecoders (bytesReader demoFrame) indexMagicProbeBytes)) = ReadFull \<and> lz4FirstBlock demoFrame \<noteq> None \<and>
   readIsModuleIndex specDecoders (bytesReader demoFrame) ''lz4'' = (looksLikeGoModuleIndex specDecoders demoFrame ''lz4'', None)"
proof -
  have 1: "snd (fst (lz4Read specDecoders (bytesReader demoFrame) indexMagicProbeBytes)) = ReadFull" by code_simp
  have 2: "lz4FirstBlock demoFrame \<noteq> None" by code_simp
  show ?thesis using guards_agree [OF specDecoders_decode, of "''lz4''" demoFrame] specDecoders_decode 1 2 by blast
qed

end
