(* ===== verification/Strconv.thy ===== *)
theory Strconv
  imports Prelude
begin

text \<open>
  Decimal numbers as text: the parts of Go's \<^verbatim>\<open>strconv\<close> the sources use (\<^verbatim>\<open>FormatInt\<close>,
  \<^verbatim>\<open>FormatUint\<close>, \<^verbatim>\<open>Itoa\<close>, \<^verbatim>\<open>ParseUint\<close>, \<^verbatim>\<open>ParseInt\<close>, \<^verbatim>\<open>Atoi\<close>, base 10, 64 bits), with their
  round trips.
\<close>

definition digitChar :: "nat \<Rightarrow> char" where
  "digitChar d = char_of (48 + d)"

definition digitVal :: "char \<Rightarrow> nat option" where
  "digitVal c = (let n = of_char c in if 48 \<le> n \<and> n \<le> 57 then Some (n - 48) else None)"

fun formatNat :: "nat \<Rightarrow> string" where
  "formatNat n = (if n < 10 then [digitChar n] else formatNat (n div 10) @ [digitChar (n mod 10)])"

declare formatNat.simps [simp del]

definition formatInt :: "int \<Rightarrow> string" where
  "formatInt i = (if i < 0 then CHR ''-'' # formatNat (nat (- i)) else formatNat (nat i))"

text \<open>The value of a string of digits; none on any other character.\<close>

fun digitsFrom :: "nat \<Rightarrow> string \<Rightarrow> nat option" where
  "digitsFrom acc [] = Some acc"
| "digitsFrom acc (c # cs) =
    (case digitVal c of None \<Rightarrow> None | Some d \<Rightarrow> digitsFrom (acc * 10 + d) cs)"

definition parseUint :: "string \<Rightarrow> nat option" where
  "parseUint s =
    (if s = [] then None
     else case digitsFrom 0 s of None \<Rightarrow> None | Some n \<Rightarrow> if n < 2 ^ 64 then Some n else None)"

definition parseInt :: "string \<Rightarrow> int option" where
  "parseInt s =
    (case s of [] \<Rightarrow> None
     | c # cs \<Rightarrow>
       let neg = (c = CHR ''-''); ds = (if c = CHR ''-'' \<or> c = CHR ''+'' then cs else s) in
       (case parseUint ds of None \<Rightarrow> None
        | Some n \<Rightarrow>
          if neg then (if n \<le> 2 ^ 63 then Some (- int n) else None)
          else if n < 2 ^ 63 then Some (int n) else None))"

lemma digitVal_digitChar [simp]: "d < 10 \<Longrightarrow> digitVal (digitChar d) = Some d"
  by (simp add: digitVal_def digitChar_def)

lemma digitsFrom_append:
  "digitsFrom acc (xs @ ys) = (case digitsFrom acc xs of None \<Rightarrow> None | Some n \<Rightarrow> digitsFrom n ys)"
  by (induction acc xs rule: digitsFrom.induct) (auto split: option.split)

lemma formatNat_not_Nil [simp]: "formatNat n \<noteq> []"
  by (simp add: formatNat.simps)

lemma digitsFrom_formatNat [simp]: "digitsFrom 0 (formatNat n) = Some n"
proof (induction n rule: formatNat.induct)
  case (1 n)
  show ?case
  proof (cases "n < 10")
    case True
    then show ?thesis by (simp add: formatNat.simps)
  next
    case False
    then show ?thesis using 1 by (simp add: formatNat.simps [of n] digitsFrom_append)
  qed
qed

lemma parseUint_formatNat [simp, codec_simps]: "n < 2 ^ 64 \<Longrightarrow> parseUint (formatNat n) = Some n"
  by (simp add: parseUint_def)

lemma formatNat_digits: "c \<in> set (formatNat n) \<Longrightarrow> digitVal c \<noteq> None"
proof (induction n rule: formatNat.induct)
  case (1 n)
  then show ?case by (cases "n < 10") (auto simp: formatNat.simps [of n])
qed

lemma digitVal_sign [simp]: "digitVal CHR ''-'' = None" "digitVal CHR ''+'' = None"
  by code_simp+

lemma parseInt_formatInt [simp, codec_simps]:
  assumes "- (2 ^ 63) \<le> i" "i < 2 ^ 63"
  shows "parseInt (formatInt i) = Some i"
proof (cases "i < 0")
  case True
  then have "nat (- i) \<le> 2 ^ 63" using assms by (simp add: nat_le_iff)
  then show ?thesis using True by (simp add: parseInt_def formatInt_def)
next
  case False
  then have n: "nat i < 2 ^ 63" using assms by (simp add: nat_less_iff)
  obtain c cs where c: "formatNat (nat i) = c # cs" by (cases "formatNat (nat i)") auto
  then have "c \<noteq> CHR ''-''" "c \<noteq> CHR ''+''" using formatNat_digits [of c "nat i"] by auto
  moreover have "parseUint (c # cs) = Some (nat i)"
    using parseUint_formatNat [of "nat i"] n unfolding c by simp
  ultimately show ?thesis using False n c by (simp add: parseInt_def formatInt_def Let_def)
qed

lemma length_formatNat: "n < 10 ^ Suc k \<Longrightarrow> length (formatNat n) \<le> Suc k"
proof (induction k arbitrary: n)
  case (Suc k)
  show ?case
  proof (cases "n < 10")
    case False
    have "n div 10 < 10 ^ Suc k" using Suc.prems by (simp add: div_less_iff_less_mult mult.commute)
    from Suc.IH [OF this] show ?thesis using False by (simp add: formatNat.simps [of n])
  qed (simp add: formatNat.simps)
qed (simp add: formatNat.simps)

subsection \<open>Wrapping\<close>

text \<open>A product of \<^verbatim>\<open>time.Duration\<close> values, which wraps at 64 bits.\<close>

definition wrap64 :: "int \<Rightarrow> int" where
  "wrap64 i = sint (word_of_int i :: 64 word)"

end
