(* ===== verification/StorageState.thy ===== *)
theory StorageState
  imports IndexState LruCache ObjAttrs Paths IndexGuard Strconv
begin

text \<open>
  The state of the object store (\<^verbatim>\<open>storage.go\<close>) and the memories beside it: the metadata cache
  (\<^verbatim>\<open>metacache.go\<close>), the known-clean and verified-digest memos (\<^verbatim>\<open>cleanmemo.go\<close>,
  \<^verbatim>\<open>digestmemo.go\<close>), the memo of evicted keys (\<^verbatim>\<open>missdiag.go\<close>) and the access records
  (\<^verbatim>\<open>eviction.go\<close>).

  The data directory is an association list from paths to files, in the order a walk visits them.
  A file is its inode number, its bytes, its two attributes and its times in nanoseconds.  What the
  system decides in one call is the record \<open>sysEnv\<close>: which system calls fail, whether the target
  directory is missing, the clock, the name and inode of a new temporary file, the room for an
  attribute and the values \<^verbatim>\<open>setxattr\<close> refuses for another reason, the paths that withstand a removal of a
  tree while removals fail, the order of a \<^verbatim>\<open>range\<close> over a map, and the random epoch the index may draw.
  Each function is atomic; metrics and log lines are left out.
\<close>

section \<open>Files\<close>

record diskFile =
  f_ino :: nat
  f_body :: bytes
  f_attr :: xattrFile
  f_orig :: "string option"
  f_mtime :: int
  f_atime :: "int option"

datatype sysCall = SysCreateTemp | SysMkdirAll | SysSync | SysClose | SysCompare | SysSetOrig | SysRename
  | SysRemove | SysOpen | SysStat | SysFstat | SysRead | SysSeek | SysWalk

record sysEnv =
  env_fault :: "sysCall \<Rightarrow> ioErr option"
  env_dirMissing :: bool
  env_now :: int
  env_tmp :: string
  env_ino :: nat
  env_cap :: nat
  env_refuses :: "bytes \<Rightarrow> errno option"
  env_stuck :: "string \<Rightarrow> bool"
  env_order :: "kvMap \<Rightarrow> kvMap"
  env_epoch :: u64

definition unixSec :: "int \<Rightarrow> int" where
  "unixSec ns = ns div 1000000000"

section \<open>Memories\<close>

record kvPair =
  kp_k :: string
  kp_v :: string
  kp_shared :: bool
  kp_kShared :: bool

record metaEntry =
  me_modNano :: int
  me_size :: int
  me_kv :: "kvPair list"

record metaStringTable =
  ms_m :: kvMap
  ms_bytes :: int

record fileIdentity =
  fi_ino :: nat
  fi_size :: int
  fi_mtime :: int

record Storage =
  st_dataDir :: string
  st_woAction :: string
  st_woNotification :: string
  st_files :: "(string \<times> diskFile) list"
  st_index :: "Index option"
  st_access :: "(compactKey \<rightharpoonup> int) list"
  st_metaCache :: "(string, metaEntry) lruCache option"
  st_cleanKeys :: "(actionHash, unit) lruCache option"
  st_digestOK :: "(actionHash, fileIdentity) lruCache option"
  st_evicted :: "(actionHash, unit) lruCache option"
  st_metaStrings :: metaStringTable

subsection \<open>Memo keys\<close>

definition memoShard :: "actionHash \<Rightarrow> u32" where
  "memoShard h =
    ucast (h ! 0) OR push_bit 8 (ucast (h ! 1)) OR push_bit 16 (ucast (h ! 2)) OR push_bit 24 (ucast (h ! 3))"

definition cleanEntryBytes :: int where
  "cleanEntryBytes = 96"

definition digestEntryBytes :: int where
  "digestEntryBytes = 120"

definition evictedEntryBytes :: int where
  "evictedEntryBytes = 96"

definition newCleanKeyMemo :: "int \<Rightarrow> (actionHash, unit) lruCache" where
  "newCleanKeyMemo budget = newLRUCache budget"

definition newDigestMemo :: "int \<Rightarrow> (actionHash, fileIdentity) lruCache" where
  "newDigestMemo budget = newLRUCache budget"

definition newEvictedMemo :: "int \<Rightarrow> (actionHash, unit) lruCache" where
  "newEvictedMemo budget = newLRUCache budget"

subsection \<open>The known-clean memo\<close>

definition keyKnownClean :: "actionHash \<Rightarrow> Storage \<Rightarrow> bool \<times> Storage" where
  "keyKnownClean h s =
    (case st_cleanKeys s of None \<Rightarrow> (False, s)
     | Some c \<Rightarrow> let (r, c') = lru_Get memoShard c h in (r \<noteq> None, s\<lparr>st_cleanKeys := Some c'\<rparr>))"

definition markKeyClean :: "actionHash \<Rightarrow> Storage \<Rightarrow> Storage" where
  "markKeyClean h s =
    (case st_cleanKeys s of None \<Rightarrow> s
     | Some c \<Rightarrow> s\<lparr>st_cleanKeys := Some (lru_Put memoShard (\<lambda>_ _. cleanEntryBytes) c h ())\<rparr>)"

definition forgetClean :: "string \<Rightarrow> Storage \<Rightarrow> Storage" where
  "forgetClean key s =
    (let (h, ok) = extractActionHash key in
     if \<not> ok then s
     else let s = (case st_cleanKeys s of None \<Rightarrow> s
                   | Some c \<Rightarrow> s\<lparr>st_cleanKeys := Some (lru_Forget memoShard c h)\<rparr>)
       in (case st_digestOK s of None \<Rightarrow> s
           | Some c \<Rightarrow> s\<lparr>st_digestOK := Some (lru_Forget memoShard c h)\<rparr>))"

subsection \<open>The memo of evicted keys\<close>

definition noteEvicted :: "string \<Rightarrow> Storage \<Rightarrow> Storage" where
  "noteEvicted key s =
    (let (h, ok) = extractActionHash key in
     case st_evicted s of None \<Rightarrow> s
     | Some c \<Rightarrow> if \<not> ok then s
       else s\<lparr>st_evicted := Some (lru_Put memoShard (\<lambda>_ _. evictedEntryBytes) c h ())\<rparr>)"

definition wasEvicted :: "string \<Rightarrow> Storage \<Rightarrow> bool \<times> Storage" where
  "wasEvicted key s =
    (let (h, ok) = extractActionHash key in
     case st_evicted s of None \<Rightarrow> (False, s)
     | Some c \<Rightarrow> if \<not> ok then (False, s)
       else let (r, c') = lru_Get memoShard c h in (r \<noteq> None, s\<lparr>st_evicted := Some c'\<rparr>))"

definition forgetEvicted :: "string \<Rightarrow> Storage \<Rightarrow> Storage" where
  "forgetEvicted key s =
    (let (h, ok) = extractActionHash key in
     case st_evicted s of None \<Rightarrow> s
     | Some c \<Rightarrow> if \<not> ok then s else s\<lparr>st_evicted := Some (lru_Forget memoShard c h)\<rparr>)"

subsection \<open>Access records\<close>

definition accessShardCount :: nat where
  "accessShardCount = 256"

definition EnableAccessTracking :: "Storage \<Rightarrow> Storage" where
  "EnableAccessTracking s = s\<lparr>st_access := replicate accessShardCount Map.empty\<rparr>"

definition accessShardFor :: "compactKey \<Rightarrow> nat" where
  "accessShardFor ck =
    (let (h, ok) = compactKey_actionHash ck in
     if ok then unat (h ! 0) mod accessShardCount else unat (fnv1a (ck_raw ck)) mod accessShardCount)"

definition recordAccess :: "sysEnv \<Rightarrow> string \<Rightarrow> Storage \<Rightarrow> Storage" where
  "recordAccess env key s =
    (if st_access s = [] then s
     else let ck = newCompactKey key; i = accessShardFor ck
       in s\<lparr>st_access := (st_access s)[i := (st_access s ! i)(ck \<mapsto> unixSec (env_now env))]\<rparr>)"

definition lastAccessOf :: "compactKey \<Rightarrow> Storage \<Rightarrow> int option" where
  "lastAccessOf ck s =
    (if st_access s = [] then None else (st_access s ! accessShardFor ck) ck)"

definition forgetAccess :: "string \<Rightarrow> Storage \<Rightarrow> Storage" where
  "forgetAccess key s =
    (if st_access s = [] then s
     else let ck = newCompactKey key; i = accessShardFor ck
       in s\<lparr>st_access := (st_access s)[i := (st_access s ! i)(ck := None)]\<rparr>)"

definition pruneAccess :: "(compactKey \<Rightarrow> bool) \<Rightarrow> Storage \<Rightarrow> Storage" where
  "pruneAccess live s =
    (if st_access s = [] then s
     else s\<lparr>st_access := map (\<lambda>m k. if \<not> live k then None else m k) (st_access s)\<rparr>)"

subsection \<open>The metadata cache\<close>

definition maxSharedMetaStrings :: nat where
  "maxSharedMetaStrings = 65536"

definition sharedMetaValueKeys :: "string set" where
  "sharedMetaValueKeys = {''pkg'', ''src'', ''module'', ''target'', ''go-version'', ''toolchain-version'',
     ''object-type'', ''compression''}"

definition shareString :: "string \<Rightarrow> metaStringTable \<Rightarrow> (string \<times> bool) \<times> metaStringTable" where
  "shareString x t =
    (case map_of (ms_m t) x of Some c \<Rightarrow> ((c, True), t)
     | None \<Rightarrow>
       if length (ms_m t) \<ge> maxSharedMetaStrings then ((x, False), t)
       else ((x, True), t\<lparr>ms_m := AList.update x x (ms_m t), ms_bytes := ms_bytes t + int (length x) + 16\<rparr>))"

definition metaEntryOverhead :: nat where
  "metaEntryOverhead = 160"

definition metaEntrySize :: "string \<Rightarrow> metaEntry \<Rightarrow> int" where
  "metaEntrySize key e =
    foldl (\<lambda>n p. n + 32 + (if kp_kShared p then 0 else int (length (kp_k p)))
                   + (if kp_shared p then 0 else int (length (kp_v p))))
      (int (length key + metaEntryOverhead)) (me_kv e)"

definition newMetaCache :: "int \<Rightarrow> (string, metaEntry) lruCache" where
  "newMetaCache budget = newLRUCache budget"

definition getMetadata :: "diskFile \<Rightarrow> kvMap" where
  "getMetadata f = kvMerge [] (meta (readObjAttrs (xattrGetter (f_attr f))))"

fun sharePairs :: "metaStringTable \<Rightarrow> kvMap \<Rightarrow> kvPair list \<times> metaStringTable" where
  "sharePairs t [] = ([], t)"
| "sharePairs t ((k, v) # kvs) =
    (let ((k', ks), t) = shareString k t;
         ((v', vs), t) = (if k \<in> sharedMetaValueKeys then shareString v t else ((v, False), t));
         (ps, t) = sharePairs t kvs
     in (\<lparr>kp_k = k', kp_v = v', kp_shared = vs, kp_kShared = ks\<rparr> # ps, t))"

definition loadMetadata :: "sysEnv \<Rightarrow> string \<Rightarrow> diskFile \<Rightarrow> Storage \<Rightarrow> kvMap \<times> Storage" where
  "loadMetadata env key f s =
    (case st_metaCache s of None \<Rightarrow> (getMetadata f, s)
     | Some c \<Rightarrow>
       let (e, c) = lru_Get fnv1a c key; sz = int (length (f_body f)) in
       (case e of
          Some e \<Rightarrow>
            if me_modNano e = f_mtime f \<and> me_size e = sz
            then (kvMerge [] (map (\<lambda>p. (kp_k p, kp_v p)) (me_kv e)), s\<lparr>st_metaCache := Some c\<rparr>)
            else let kv = getMetadata f; (ps, t) = sharePairs (st_metaStrings s) (env_order env kv)
              in (kv, s\<lparr>st_metaStrings := t, st_metaCache := Some (lru_Put fnv1a metaEntrySize c key
                    \<lparr>me_modNano = f_mtime f, me_size = sz, me_kv = ps\<rparr>)\<rparr>)
        | None \<Rightarrow>
            let kv = getMetadata f; (ps, t) = sharePairs (st_metaStrings s) (env_order env kv)
            in (kv, s\<lparr>st_metaStrings := t, st_metaCache := Some (lru_Put fnv1a metaEntrySize c key
                  \<lparr>me_modNano = f_mtime f, me_size = sz, me_kv = ps\<rparr>)\<rparr>)))"

definition forgetMeta :: "string \<Rightarrow> Storage \<Rightarrow> Storage" where
  "forgetMeta key s =
    (case st_metaCache s of None \<Rightarrow> s
     | Some c \<Rightarrow> s\<lparr>st_metaCache := Some (lru_Forget fnv1a c key)\<rparr>)"

end
