(* ===== verification/StorageOps.thy ===== *)
theory StorageOps
  imports StorageState
begin

text \<open>
  The operations of the object store (\<^verbatim>\<open>storage.go\<close>), the stored digest (\<^verbatim>\<open>storeddigest.go\<close>,
  \<^verbatim>\<open>digestmemo.go\<close>) and the repair of a missing content address (\<^verbatim>\<open>selfheal.go\<close>).  An operation
  answers an error or its result, and the new state.
\<close>

section \<open>Definitions\<close>

datatype storeErr = ErrNotFound | ErrWriteOnceConflict | ErrWriteOnceDuplicate | ErrStoredDigestMismatch
  | ErrCreateDirs ioErr | ErrCreateTemp ioErr | ErrWriteTemp ioErr | ErrSyncTemp ioErr | ErrCloseTemp ioErr
  | ErrWriteOnceCompare ioErr | ErrSetAttrs objErr | ErrSetOriginalKey ioErr | ErrRename ioErr
  | ErrIo ioErr | ErrDecompress | ErrPersistOutputID objErr | ErrNoProgress

subsection \<open>Stored digests\<close>

definition storedDigestMetaKey :: string where
  "storedDigestMetaKey = ''storedsha256''"

definition outputIDMetaKey :: string where
  "outputIDMetaKey = ''outputid''"

definition storedDigest :: "bytes \<Rightarrow> string" where
  "storedDigest h = hexEncode h"

definition checkStoredDigest :: "string \<Rightarrow> string \<Rightarrow> storeErr option" where
  "checkStoredDigest claimed computed =
    (if claimed = [] \<or> equalFold claimed computed then None else Some ErrStoredDigestMismatch)"

definition bodyMatchesStoredDigest :: "sysEnv \<Rightarrow> bytes \<Rightarrow> string \<Rightarrow> ioErr + bool" where
  "bodyMatchesStoredDigest env body want =
    (if want = [] then Inr True
     else case env_fault env SysSeek of Some e \<Rightarrow> Inl e
       | None \<Rightarrow> (case env_fault env SysRead of Some e \<Rightarrow> Inl e
         | None \<Rightarrow> Inr (equalFold want (storedDigest (sha256 body)))))"

definition verifyStoredDigest :: "sysEnv \<Rightarrow> bytes \<Rightarrow> kvMap \<Rightarrow> ioErr + bool" where
  "verifyStoredDigest env body m = bodyMatchesStoredDigest env body (kvGet m storedDigestMetaKey)"

definition identityOf :: "sysEnv \<Rightarrow> diskFile \<Rightarrow> fileIdentity \<times> bool" where
  "identityOf env f =
    (case env_fault env SysFstat of Some e \<Rightarrow> (\<lparr>fi_ino = 0, fi_size = 0, fi_mtime = 0\<rparr>, False)
     | None \<Rightarrow> (\<lparr>fi_ino = f_ino f, fi_size = int (length (f_body f)), fi_mtime = f_mtime f\<rparr>, True))"

definition verifyStoredDigestFor ::
    "sysEnv \<Rightarrow> string \<Rightarrow> diskFile \<Rightarrow> kvMap \<Rightarrow> Storage \<Rightarrow> (ioErr + bool) \<times> Storage" where
  "verifyStoredDigestFor env key f m s =
    (let (hash, hashed) = extractActionHash key; (id, known) = identityOf env f;
         memo = (st_digestOK s \<noteq> None \<and> hashed \<and> known \<and> kvGet m outputIDMetaKey \<noteq> []);
         (got, s) = (if memo then let (r, c) = lru_Get memoShard (the (st_digestOK s)) hash
                                  in (r, s\<lparr>st_digestOK := Some c\<rparr>)
                     else (None, s))
     in if got = Some id then (Inr True, s)
        else let r = verifyStoredDigest env (f_body f) m in
          if memo \<and> r = Inr True
          then (r, s\<lparr>st_digestOK := Some (lru_Put memoShard (\<lambda>_ _. digestEntryBytes) (the (st_digestOK s)) hash id)\<rparr>)
          else (r, s))"

subsection \<open>Comparing files\<close>

definition compareChunk :: nat where
  "compareChunk = 64 * 1024"

function filesEqualLoop :: "bytes \<Rightarrow> bytes \<Rightarrow> bool" where
  "filesEqualLoop a b =
    (let ba = take compareChunk a; bb = take compareChunk b; na = length ba; nb = length bb in
     if na \<noteq> nb \<or> ba \<noteq> bb then False
     else let aDone = na < compareChunk; bDone = nb < compareChunk in
       if aDone \<or> bDone then aDone \<and> bDone
       else filesEqualLoop (drop compareChunk a) (drop compareChunk b))"
  by pat_completeness auto
termination by (relation "measure (\<lambda>(a, b). length a)") (auto simp: compareChunk_def)

declare filesEqualLoop.simps [simp del]

definition filesEqual :: "sysEnv \<Rightarrow> bytes \<Rightarrow> bytes \<Rightarrow> ioErr + bool" where
  "filesEqual env a b =
    (case env_fault env SysCompare of Some e \<Rightarrow> Inl e | None \<Rightarrow> Inr (filesEqualLoop a b))"

subsection \<open>Files of the data directory\<close>

definition lookupFile :: "string \<Rightarrow> Storage \<Rightarrow> diskFile option" where
  "lookupFile path s = map_of (st_files s) path"

definition setFile :: "string \<Rightarrow> diskFile \<Rightarrow> Storage \<Rightarrow> Storage" where
  "setFile path f s = s\<lparr>st_files := AList.update path f (st_files s)\<rparr>"

definition dropFile :: "string \<Rightarrow> Storage \<Rightarrow> Storage" where
  "dropFile path s = s\<lparr>st_files := AList.delete path (st_files s)\<rparr>"

text \<open>\<^verbatim>\<open>os.Remove\<close> of a temporary file, its error ignored.\<close>

definition removeTemp :: "sysEnv \<Rightarrow> Storage \<Rightarrow> Storage" where
  "removeTemp env s = (case env_fault env SysRemove of Some e \<Rightarrow> s | None \<Rightarrow> dropFile (env_tmp env) s)"

definition pathOf :: "Storage \<Rightarrow> string \<Rightarrow> string" where
  "pathOf s key = keyToPath (st_dataDir s) key"

subsection \<open>Storing\<close>

definition fsyncThresholdBytes :: nat where
  "fsyncThresholdBytes = 8 * 2 ^ 20"

text \<open>The write-once rule: none lets the upload through, otherwise the error to answer (or success
  with nothing written).\<close>

definition writeOnceStops :: "decoders \<Rightarrow> sysEnv \<Rightarrow> bytes \<Rightarrow> string \<Rightarrow> Storage \<Rightarrow> storeErr option option" where
  "writeOnceStops dec env body path s =
    (if st_woAction s \<noteq> ''deny'' then None
     else case (if env_fault env SysStat = None then lookupFile path s else None) of None \<Rightarrow> None
     | Some old \<Rightarrow>
       if st_woNotification s = ''always'' then Some (Some ErrWriteOnceDuplicate)
       else if st_woNotification s = ''content_differs'' then
         (case filesEqual env body (f_body old) of
            Inl e \<Rightarrow> Some (Some (ErrWriteOnceCompare e))
          | Inr True \<Rightarrow> Some None
          | Inr False \<Rightarrow> if \<not> replacesContentStamp dec (f_body old) body then Some (Some ErrWriteOnceConflict) else None)
       else Some None)"

text \<open>The first of a list of checks that stops.\<close>

fun firstStop :: "'e option list \<Rightarrow> 'e option" where
  "firstStop [] = None"
| "firstStop (x # xs) = (case x of Some e \<Rightarrow> Some e | None \<Rightarrow> firstStop xs)"

definition tempFile :: "sysEnv \<Rightarrow> reader \<Rightarrow> diskFile" where
  "tempFile env r = \<lparr>f_ino = env_ino env, f_body = rd_data r, f_attr = None, f_orig = None,
     f_mtime = env_now env, f_atime = Some (env_now env)\<rparr>"

text \<open>What stops a put once the temporary file exists and before its attributes are written.\<close>

definition putStops ::
    "decoders \<Rightarrow> sysEnv \<Rightarrow> string \<Rightarrow> reader \<Rightarrow> kvMap \<Rightarrow> Storage \<Rightarrow> storeErr option option" where
  "putStops dec env path r m s =
    firstStop
     [map_option (\<lambda>e. Some (ErrWriteTemp e)) (rd_err r),
      map_option Some (checkStoredDigest (kvGet m storedDigestMetaKey) (storedDigest (sha256 (rd_data r)))),
      if length (rd_data r) \<ge> fsyncThresholdBytes then map_option (\<lambda>e. Some (ErrSyncTemp e)) (env_fault env SysSync) else None,
      map_option (\<lambda>e. Some (ErrCloseTemp e)) (env_fault env SysClose),
      writeOnceStops dec env (rd_data r) path s]"

definition putMeta :: "reader \<Rightarrow> kvMap \<Rightarrow> kvMap" where
  "putMeta r m = AList.update storedDigestMetaKey (storedDigest (sha256 (rd_data r))) (kvMerge [] m)"

definition putAudit :: "reader \<Rightarrow> kvMap option \<Rightarrow> kvMap" where
  "putAudit r aud =
    (case aud of None \<Rightarrow> []
     | Some a \<Rightarrow> AList.update ''content_length'' (formatInt (int (length (rd_data r)))) a)"

text \<open>Renaming the finished file into place and bringing the memories and the index up to date.\<close>

definition putCommit :: "sysEnv \<Rightarrow> string \<Rightarrow> diskFile \<Rightarrow> Storage \<Rightarrow> storeErr option \<times> Storage" where
  "putCommit env key f s =
    (case env_fault env SysRename of Some e \<Rightarrow> (Some (ErrRename e), removeTemp env s)
     | None \<Rightarrow>
       let s1 = setFile (pathOf s key) f (dropFile (env_tmp env) s);
           s2 = forgetEvicted key (forgetMeta key (forgetClean key s1))
       in (None, s2\<lparr>st_index := map_option (Index_Put (unixSec (env_now env)) (env_epoch env) key) (st_index s2)\<rparr>))"

text \<open>The attribute write ends after as many rounds as there are keys (lemma \<open>writeObjAttrs_total\<close>), so
  \<open>ErrNoProgress\<close> is never answered.\<close>

definition putAttrs ::
    "sysEnv \<Rightarrow> string \<Rightarrow> diskFile \<Rightarrow> objAttrs \<Rightarrow> Storage \<Rightarrow> storeErr option \<times> Storage" where
  "putAttrs env key f attrs s =
    (case writeObjAttrs (xattrSet (env_cap env) (env_refuses env)) (env_order env) (f_attr f) attrs of
       None \<Rightarrow> (Some ErrNoProgress, removeTemp env s)
     | Some (err, dropped, attr) \<Rightarrow>
       let f = f\<lparr>f_attr := attr\<rparr>; s = setFile (env_tmp env) f s in
       (case firstStop
          [map_option ErrSetAttrs err,
           if \<not> isKeySafe key then map_option ErrSetOriginalKey (env_fault env SysSetOrig) else None] of
          Some e \<Rightarrow> (Some e, removeTemp env s)
        | None \<Rightarrow>
          let f = f\<lparr>f_orig := (if \<not> isKeySafe key then Some key else None)\<rparr>
          in putCommit env key f (setFile (env_tmp env) f s)))"

definition PutStream ::
    "decoders \<Rightarrow> sysEnv \<Rightarrow> string \<Rightarrow> reader \<Rightarrow> kvMap \<Rightarrow> kvMap option \<Rightarrow> Storage \<Rightarrow> storeErr option \<times> Storage" where
  "PutStream dec env key r m aud s =
    (case firstStop
       [if env_dirMissing env then map_option ErrCreateDirs (env_fault env SysMkdirAll) else None,
        map_option ErrCreateTemp (env_fault env SysCreateTemp)] of
       Some e \<Rightarrow> (Some e, s)
     | None \<Rightarrow>
       let f = tempFile env r; s1 = setFile (env_tmp env) f s in
       (case putStops dec env (pathOf s key) r m s of
          Some e \<Rightarrow> (e, removeTemp env s1)
        | None \<Rightarrow> putAttrs env key f \<lparr>meta = putMeta r m, audit = putAudit r aud\<rparr> s1))"

definition Put :: "decoders \<Rightarrow> sysEnv \<Rightarrow> string \<Rightarrow> bytes \<Rightarrow> kvMap \<Rightarrow> kvMap option \<Rightarrow> Storage \<Rightarrow> storeErr option \<times> Storage" where
  "Put dec env key data m aud s = PutStream dec env key (bytesReader data) m aud s"

subsection \<open>Reading\<close>

record ObjectMeta =
  om_Metadata :: kvMap
  om_ModTime :: int
  om_Size :: int

definition osOpen :: "sysEnv \<Rightarrow> sysCall \<Rightarrow> string \<Rightarrow> Storage \<Rightarrow> storeErr + diskFile" where
  "osOpen env call path s =
    (case env_fault env call of Some e \<Rightarrow> Inl (ErrIo e)
     | None \<Rightarrow> (case lookupFile path s of None \<Rightarrow> Inl ErrNotFound | Some f \<Rightarrow> Inr f))"

definition Stat :: "sysEnv \<Rightarrow> string \<Rightarrow> Storage \<Rightarrow> (storeErr + ObjectMeta) \<times> Storage" where
  "Stat env key s =
    (case osOpen env SysStat (pathOf s key) s of Inl e \<Rightarrow> (Inl e, s)
     | Inr f \<Rightarrow>
       let (kv, s) = loadMetadata env key f s
       in (Inr \<lparr>om_Metadata = kv, om_ModTime = f_mtime f, om_Size = int (length (f_body f))\<rparr>, s))"

definition Open :: "sysEnv \<Rightarrow> string \<Rightarrow> Storage \<Rightarrow> (storeErr + diskFile \<times> ObjectMeta) \<times> Storage" where
  "Open env key s =
    (case osOpen env SysOpen (pathOf s key) s of Inl e \<Rightarrow> (Inl e, s)
     | Inr f \<Rightarrow>
       (case env_fault env SysFstat of Some e \<Rightarrow> (Inl (ErrIo e), s)
        | None \<Rightarrow>
          let (kv, s) = loadMetadata env key f s
          in (Inr (f, \<lparr>om_Metadata = kv, om_ModTime = f_mtime f, om_Size = int (length (f_body f))\<rparr>),
              recordAccess env key s)))"

definition OpenBody :: "sysEnv \<Rightarrow> string \<Rightarrow> Storage \<Rightarrow> (storeErr + diskFile \<times> int) \<times> Storage" where
  "OpenBody env key s =
    (case osOpen env SysOpen (pathOf s key) s of Inl e \<Rightarrow> (Inl e, s)
     | Inr f \<Rightarrow>
       (case env_fault env SysFstat of Some e \<Rightarrow> (Inl (ErrIo e), s)
        | None \<Rightarrow> (Inr (f, int (length (f_body f))), recordAccess env key s)))"

definition openRaw :: "sysEnv \<Rightarrow> string \<Rightarrow> Storage \<Rightarrow> storeErr + diskFile" where
  "openRaw env key s = osOpen env SysOpen (pathOf s key) s"

definition Get :: "sysEnv \<Rightarrow> string \<Rightarrow> Storage \<Rightarrow> (storeErr + bytes \<times> ObjectMeta) \<times> Storage" where
  "Get env key s =
    (case osOpen env SysRead (pathOf s key) s of Inl e \<Rightarrow> (Inl e, s)
     | Inr f \<Rightarrow>
       (case env_fault env SysStat of Some e \<Rightarrow> (Inl (ErrIo e), s)
        | None \<Rightarrow>
          let (kv, s) = loadMetadata env key f s
          in (Inr (f_body f, \<lparr>om_Metadata = kv, om_ModTime = f_mtime f, om_Size = int (length (f_body f))\<rparr>),
              recordAccess env key s)))"

subsection \<open>Changing and removing\<close>

definition writeMeta :: "sysEnv \<Rightarrow> diskFile \<Rightarrow> kvMap \<Rightarrow> objErr option \<times> diskFile" where
  "writeMeta env f kv =
    (case setMetadata (xattrSet (env_cap env) (env_refuses env)) (env_order env) xattrGetter (f_attr f) kv of
       None \<Rightarrow> (None, f)
     | Some (e, dropped, attr) \<Rightarrow> (e, f\<lparr>f_attr := attr\<rparr>))"

definition SetMeta :: "sysEnv \<Rightarrow> string \<Rightarrow> kvMap \<Rightarrow> Storage \<Rightarrow> storeErr option \<times> Storage" where
  "SetMeta env key kv s =
    (let path = pathOf s key in
     case osOpen env SysStat path s of Inl e \<Rightarrow> (Some e, s)
     | Inr f \<Rightarrow>
       let s = forgetMeta key s; (e, f') = writeMeta env f kv
       in (map_option ErrSetAttrs e, setFile path f' s))"

definition Delete :: "sysEnv \<Rightarrow> string \<Rightarrow> Storage \<Rightarrow> storeErr option \<times> Storage" where
  "Delete env key s =
    (let path = pathOf s key in
     case osOpen env SysRemove path s of Inl e \<Rightarrow> (Some e, s)
     | Inr f \<Rightarrow>
       let s = dropFile path s;
           s = s\<lparr>st_index := map_option (Index_Remove (env_epoch env) key) (st_index s)\<rparr>
       in (None, forgetMeta key (forgetClean key (forgetAccess key s))))"

definition lockFileName :: string where "lockFileName = ''.lock''"
definition cacheVersionFile :: string where "cacheVersionFile = ''.cache_version''"
definition sweepMarkerFile :: string where "sweepMarkerFile = ''.last_sweep''"
definition tempFilePrefix :: string where "tempFilePrefix = ''.tmp-''"

definition isReservedFile :: "string \<Rightarrow> bool" where
  "isReservedFile name \<longleftrightarrow> name = lockFileName \<or> name = cacheVersionFile \<or> name = sweepMarkerFile
     \<or> hasPrefix name tempFilePrefix"

record ListObject =
  lob_Key :: string
  lob_Size :: int
  lob_LastModified :: int
  lob_LastAccess :: "int option"

definition walkOne :: "Storage \<Rightarrow> string \<times> diskFile \<Rightarrow> ListObject option" where
  "walkOne s pf =
    (let path = fst pf; f = snd pf in
     if isReservedFile (filepathBase path) then None
     else let key = pathToKey (\<lambda>p. case lookupFile p s of Some f \<Rightarrow> f_orig f | None \<Rightarrow> None) (st_dataDir s) path in
       if key = [] then None
       else Some \<lparr>lob_Key = key, lob_Size = int (length (f_body f)), lob_LastModified = f_mtime f, lob_LastAccess = f_atime f\<rparr>)"

definition Walk :: "Storage \<Rightarrow> ListObject list" where
  "Walk s = List.map_filter (walkOne s) (st_files s)"

end
