(* ===== verification/StoreLaws.thy ===== *)
theory StoreLaws
  imports StorageOps
begin

text \<open>
  What the object store promises.  The invariant \<open>storeOk\<close> says that the memories are consistent with
  the files: above all, metadata answered from the metadata cache is the metadata on disk.  The
  operations refine a map from keys to objects, for any set of keys that name different files.
\<close>

section \<open>Frame lemmas\<close>

lemma forgetClean_fields [simp]:
  "st_dataDir (forgetClean k s) = st_dataDir s" "st_woAction (forgetClean k s) = st_woAction s"
  "st_woNotification (forgetClean k s) = st_woNotification s" "st_files (forgetClean k s) = st_files s"
  "st_index (forgetClean k s) = st_index s" "st_access (forgetClean k s) = st_access s"
  "st_metaCache (forgetClean k s) = st_metaCache s" "st_evicted (forgetClean k s) = st_evicted s"
  "st_metaStrings (forgetClean k s) = st_metaStrings s"
  by (simp_all add: forgetClean_def Let_def split: prod.split option.split)

lemma forgetMeta_fields [simp]:
  "st_dataDir (forgetMeta k s) = st_dataDir s" "st_woAction (forgetMeta k s) = st_woAction s"
  "st_woNotification (forgetMeta k s) = st_woNotification s" "st_files (forgetMeta k s) = st_files s"
  "st_index (forgetMeta k s) = st_index s" "st_access (forgetMeta k s) = st_access s"
  "st_cleanKeys (forgetMeta k s) = st_cleanKeys s" "st_digestOK (forgetMeta k s) = st_digestOK s"
  "st_evicted (forgetMeta k s) = st_evicted s" "st_metaStrings (forgetMeta k s) = st_metaStrings s"
  by (simp_all add: forgetMeta_def split: option.split)

lemma forgetEvicted_fields [simp]:
  "st_dataDir (forgetEvicted k s) = st_dataDir s" "st_woAction (forgetEvicted k s) = st_woAction s"
  "st_woNotification (forgetEvicted k s) = st_woNotification s" "st_files (forgetEvicted k s) = st_files s"
  "st_index (forgetEvicted k s) = st_index s" "st_access (forgetEvicted k s) = st_access s"
  "st_metaCache (forgetEvicted k s) = st_metaCache s" "st_cleanKeys (forgetEvicted k s) = st_cleanKeys s"
  "st_digestOK (forgetEvicted k s) = st_digestOK s" "st_metaStrings (forgetEvicted k s) = st_metaStrings s"
  by (simp_all add: forgetEvicted_def Let_def split: prod.split option.split)

lemma forgetAccess_fields [simp]:
  "st_dataDir (forgetAccess k s) = st_dataDir s" "st_woAction (forgetAccess k s) = st_woAction s"
  "st_woNotification (forgetAccess k s) = st_woNotification s" "st_files (forgetAccess k s) = st_files s"
  "st_index (forgetAccess k s) = st_index s" "st_metaCache (forgetAccess k s) = st_metaCache s"
  "st_cleanKeys (forgetAccess k s) = st_cleanKeys s" "st_digestOK (forgetAccess k s) = st_digestOK s"
  "st_evicted (forgetAccess k s) = st_evicted s" "st_metaStrings (forgetAccess k s) = st_metaStrings s"
  by (simp_all add: forgetAccess_def Let_def)

lemma recordAccess_fields [simp]:
  "st_dataDir (recordAccess env k s) = st_dataDir s" "st_files (recordAccess env k s) = st_files s"
  "st_index (recordAccess env k s) = st_index s" "st_metaCache (recordAccess env k s) = st_metaCache s"
  "st_cleanKeys (recordAccess env k s) = st_cleanKeys s" "st_digestOK (recordAccess env k s) = st_digestOK s"
  "st_evicted (recordAccess env k s) = st_evicted s" "st_metaStrings (recordAccess env k s) = st_metaStrings s"
  "st_woAction (recordAccess env k s) = st_woAction s" "st_woNotification (recordAccess env k s) = st_woNotification s"
  by (simp_all add: recordAccess_def Let_def)

lemma setFile_fields [simp]:
  "st_dataDir (setFile p f s) = st_dataDir s" "st_index (setFile p f s) = st_index s"
  "st_metaCache (setFile p f s) = st_metaCache s" "st_cleanKeys (setFile p f s) = st_cleanKeys s"
  "st_digestOK (setFile p f s) = st_digestOK s" "st_evicted (setFile p f s) = st_evicted s"
  "st_metaStrings (setFile p f s) = st_metaStrings s" "st_access (setFile p f s) = st_access s"
  "st_woAction (setFile p f s) = st_woAction s" "st_woNotification (setFile p f s) = st_woNotification s"
  by (simp_all add: setFile_def)

lemma dropFile_fields [simp]:
  "st_dataDir (dropFile p s) = st_dataDir s" "st_index (dropFile p s) = st_index s"
  "st_metaCache (dropFile p s) = st_metaCache s" "st_cleanKeys (dropFile p s) = st_cleanKeys s"
  "st_digestOK (dropFile p s) = st_digestOK s" "st_evicted (dropFile p s) = st_evicted s"
  "st_metaStrings (dropFile p s) = st_metaStrings s" "st_access (dropFile p s) = st_access s"
  "st_woAction (dropFile p s) = st_woAction s" "st_woNotification (dropFile p s) = st_woNotification s"
  by (simp_all add: dropFile_def)

lemma lookupFile_setFile [simp]: "lookupFile q (setFile p f s) = (if q = p then Some f else lookupFile q s)"
  by (simp add: lookupFile_def setFile_def update_conv')

lemma lookupFile_dropFile [simp]: "lookupFile q (dropFile p s) = (if q = p then None else lookupFile q s)"
  by (simp add: lookupFile_def dropFile_def delete_conv')

lemma lookupFile_cong: "st_files s = st_files t \<Longrightarrow> lookupFile p s = lookupFile p t"
  by (simp add: lookupFile_def)

lemma lookupFile_memos [simp]:
  "lookupFile p (forgetClean k s) = lookupFile p s" "lookupFile p (forgetMeta k s) = lookupFile p s"
  "lookupFile p (forgetEvicted k s) = lookupFile p s" "lookupFile p (forgetAccess k s) = lookupFile p s"
  "lookupFile p (recordAccess env k s) = lookupFile p s" "lookupFile p (s\<lparr>st_index := i\<rparr>) = lookupFile p s"
  by (simp_all add: lookupFile_def)

lemma pathOf_simps [simp]:
  "pathOf (setFile p f s) k = pathOf s k" "pathOf (dropFile p s) k = pathOf s k"
  "pathOf (forgetClean k' s) k = pathOf s k" "pathOf (forgetMeta k' s) k = pathOf s k"
  "pathOf (forgetEvicted k' s) k = pathOf s k" "pathOf (forgetAccess k' s) k = pathOf s k"
  "pathOf (recordAccess env k' s) k = pathOf s k" "pathOf (s\<lparr>st_index := i\<rparr>) k = pathOf s k"
  by (simp_all add: pathOf_def)

section \<open>The metadata cache is coherent\<close>

definition pairsOf :: "metaEntry \<Rightarrow> kvMap" where
  "pairsOf e = map (\<lambda>p. (kp_k p, kp_v p)) (me_kv e)"

definition metaLookup :: "Storage \<Rightarrow> string \<Rightarrow> metaEntry option" where
  "metaLookup s k = (case st_metaCache s of None \<Rightarrow> None | Some c \<Rightarrow> lruLookup fnv1a c k)"

definition memosOk :: "Storage \<Rightarrow> bool" where
  "memosOk s \<longleftrightarrow> (\<forall>c. st_metaCache s = Some c \<longrightarrow> lruOk fnv1a c) \<and>
     (\<forall>c. st_cleanKeys s = Some c \<longrightarrow> lruOk memoShard c) \<and> (\<forall>c. st_digestOK s = Some c \<longrightarrow> lruOk memoShard c) \<and>
     (\<forall>c. st_evicted s = Some c \<longrightarrow> lruOk memoShard c) \<and>
     (\<forall>x c. map_of (ms_m (st_metaStrings s)) x = Some c \<longrightarrow> c = x)"

text \<open>An entry is current for a file when its times and size match; then it must hold the metadata on
  disk.\<close>

definition entryOk :: "metaEntry \<Rightarrow> diskFile \<Rightarrow> bool" where
  "entryOk e f \<longleftrightarrow> (me_modNano e = f_mtime f \<and> me_size e = int (length (f_body f)) \<longrightarrow>
     distinct (map fst (pairsOf e)) \<and> map_of (pairsOf e) = map_of (getMetadata f))"

definition metaCoherent :: "string set \<Rightarrow> Storage \<Rightarrow> bool" where
  "metaCoherent K s \<longleftrightarrow> (\<forall>k \<in> K. \<forall>e f. metaLookup s k = Some e \<longrightarrow> lookupFile (pathOf s k) s = Some f \<longrightarrow> entryOk e f)"

lemma kvMerge_distinct:
  "distinct (map fst new) \<Longrightarrow> fst ` set old \<inter> fst ` set new = {} \<Longrightarrow> kvMerge old new = old @ new"
  unfolding kvMerge_def
proof (induction new arbitrary: old)
  case (Cons kv new)
  then have "AList.update (fst kv) (snd kv) old = old @ [kv]"
    by (subst update_new) auto
  then show ?case using Cons by simp
qed simp

lemma getMetadata_eq: "getMetadata f = meta (readObjAttrs (xattrGetter (f_attr f)))"
  unfolding getMetadata_def by (subst kvMerge_distinct) (simp_all add: distinct_readObjAttrs)

lemma distinct_getMetadata [simp]: "distinct (map fst (getMetadata f))"
  by (simp add: getMetadata_eq distinct_readObjAttrs)

lemma shareString_ok:
  assumes "\<forall>x c. map_of (ms_m t) x = Some c \<longrightarrow> c = x" "shareString x t = ((y, b), t')"
  shows "y = x" "\<forall>x c. map_of (ms_m t') x = Some c \<longrightarrow> c = x"
  using assms by (auto simp: shareString_def update_conv' split: option.splits if_splits)

lemma sharePairs_ok:
  assumes "\<forall>x c. map_of (ms_m t) x = Some c \<longrightarrow> c = x" "sharePairs t kvs = (ps, t')"
  shows "map (\<lambda>p. (kp_k p, kp_v p)) ps = kvs \<and> (\<forall>x c. map_of (ms_m t') x = Some c \<longrightarrow> c = x)"
  using assms
proof (induction kvs arbitrary: t ps t')
  case (Cons kv kvs)
  obtain k v where kv: "kv = (k, v)" by fastforce
  obtain k' ks t1 where 1: "shareString k t = ((k', ks), t1)" by (metis prod.exhaust)
  obtain v' vs t2 where v: "(if k \<in> sharedMetaValueKeys then shareString v t1 else ((v, False), t1)) = ((v', vs), t2)"
    by (metis prod.exhaust)
  obtain ps' t3 where 3: "sharePairs t2 kvs = (ps', t3)" by fastforce
  note k = shareString_ok [OF Cons.prems(1) 1]
  have v2: "v' = v" "\<forall>x c. map_of (ms_m t2) x = Some c \<longrightarrow> c = x"
    using v k(2) shareString_ok [of t1 v v' vs t2] by (auto split: if_splits)
  have "ps = \<lparr>kp_k = k', kp_v = v', kp_shared = vs, kp_kShared = ks\<rparr> # ps'" "t' = t3"
    using Cons.prems(2) 1 v 3 by (auto simp: kv Let_def)
  then show ?case using Cons.IH [OF v2(2) 3] v2(1) k(1) by (simp add: kv)
qed simp

lemma visitsAll_map_of:
  assumes "visitsAll order" "distinct (map fst m)"
  shows "map_of (order m) = map_of m"
  using assms visitsAll_distinct [OF assms(1), of fst m] visitsAll_set [OF assms(1), of m]
  by (intro map_of_inject_set [THEN iffD2]) auto

lemma metaCoherent_mono:
  assumes "metaCoherent K s" "st_files s' = st_files s" "st_dataDir s' = st_dataDir s"
    and "\<And>k. k \<in> K \<Longrightarrow> metaLookup s' k = None \<or> metaLookup s' k = metaLookup s k"
  shows "metaCoherent K s'"
  using assms unfolding metaCoherent_def pathOf_def lookupFile_def by (metis option.distinct(1))

lemma map_of_merge_pairs: "distinct (map fst (pairsOf e)) \<Longrightarrow> kvMerge [] (map (\<lambda>p. (kp_k p, kp_v p)) (me_kv e)) = pairsOf e"
  by (subst kvMerge_distinct) (simp_all add: pairsOf_def)

text \<open>The part of the state a read leaves alone.\<close>

definition sameFiles :: "Storage \<Rightarrow> Storage \<Rightarrow> bool" where
  "sameFiles s s' \<longleftrightarrow> st_files s' = st_files s \<and> st_dataDir s' = st_dataDir s \<and> st_index s' = st_index s \<and>
     st_woAction s' = st_woAction s \<and> st_woNotification s' = st_woNotification s"

lemma sameFiles_refl [simp]: "sameFiles s s"
  by (simp add: sameFiles_def)

lemma sameFiles_trans: "sameFiles s t \<Longrightarrow> sameFiles t u \<Longrightarrow> sameFiles s u"
  by (simp add: sameFiles_def)

lemma sameFiles_recordAccess [simp]: "sameFiles s (recordAccess env k s)"
  by (simp add: sameFiles_def)

definition freshEntry :: "sysEnv \<Rightarrow> diskFile \<Rightarrow> Storage \<Rightarrow> metaEntry" where
  "freshEntry env f s = \<lparr>me_modNano = f_mtime f, me_size = int (length (f_body f)),
     me_kv = fst (sharePairs (st_metaStrings s) (env_order env (getMetadata f)))\<rparr>"

lemma loadMetadata_cases:
  assumes "st_metaCache s = Some c" "lru_Get fnv1a c key = (e, c')"
  shows "loadMetadata env key f s =
    (case e of Some e \<Rightarrow> if me_modNano e = f_mtime f \<and> me_size e = int (length (f_body f))
        then (kvMerge [] (map (\<lambda>p. (kp_k p, kp_v p)) (me_kv e)), s\<lparr>st_metaCache := Some c'\<rparr>)
        else (getMetadata f, s\<lparr>st_metaStrings := snd (sharePairs (st_metaStrings s) (env_order env (getMetadata f))),
               st_metaCache := Some (lru_Put fnv1a metaEntrySize c' key (freshEntry env f s))\<rparr>)
     | None \<Rightarrow> (getMetadata f, s\<lparr>st_metaStrings := snd (sharePairs (st_metaStrings s) (env_order env (getMetadata f))),
               st_metaCache := Some (lru_Put fnv1a metaEntrySize c' key (freshEntry env f s))\<rparr>))"
  using assms by (simp add: loadMetadata_def freshEntry_def Let_def split: option.split prod.split)

lemma loadMetadata_ok:
  assumes ok: "memosOk s" "metaCoherent K s" "k \<in> K" "lookupFile (pathOf s k) s = Some f" "visitsAll (env_order env)"
    and ld: "loadMetadata env k f s = (kv, s')"
  shows "map_of kv = map_of (getMetadata f) \<and> distinct (map fst kv) \<and> memosOk s' \<and> metaCoherent K s' \<and> sameFiles s s'"
proof (cases "st_metaCache s")
  case None
  then show ?thesis using ld ok by (auto simp: loadMetadata_def)
next
  case (Some c)
  obtain e c' where g: "lru_Get fnv1a c k = (e, c')" by fastforce
  have cok: "lruOk fnv1a c" using ok(1) Some by (simp add: memosOk_def)
  note g' = lru_Get_ok [OF cok g]
  have e: "e = metaLookup s k" using g'(1) Some by (simp add: metaLookup_def)
  show ?thesis
  proof (cases "\<exists>e0. e = Some e0 \<and> me_modNano e0 = f_mtime f \<and> me_size e0 = int (length (f_body f))")
    case True
    then obtain e0 where e0: "e = Some e0" "me_modNano e0 = f_mtime f" "me_size e0 = int (length (f_body f))" by blast
    then have en: "distinct (map fst (pairsOf e0))" "map_of (pairsOf e0) = map_of (getMetadata f)"
      using ok(2,3,4) e unfolding metaCoherent_def entryOk_def by metis+
    have r: "kv = pairsOf e0" "s' = s\<lparr>st_metaCache := Some c'\<rparr>"
      using ld e0 map_of_merge_pairs [OF en(1)] unfolding loadMetadata_cases [OF Some g] by simp_all
    have "metaLookup s' = metaLookup s" using g'(3) Some by (auto simp: r metaLookup_def)
    then have "metaCoherent K s'" by (intro metaCoherent_mono [OF ok(2)]) (simp_all add: r)
    moreover have "memosOk s'" using ok(1) g'(2) by (simp add: memosOk_def r)
    ultimately show ?thesis using en by (simp add: r sameFiles_def)
  next
    case False
    let ?en = "freshEntry env f s" and ?sp = "sharePairs (st_metaStrings s) (env_order env (getMetadata f))"
    have r: "kv = getMetadata f" "s' = s\<lparr>st_metaStrings := snd ?sp,
               st_metaCache := Some (lru_Put fnv1a metaEntrySize c' k ?en)\<rparr>"
      using ld False unfolding loadMetadata_cases [OF Some g] by (auto split: option.splits if_splits)
    have sp: "map (\<lambda>p. (kp_k p, kp_v p)) (fst ?sp) = env_order env (getMetadata f)"
        "\<forall>x c. map_of (ms_m (snd ?sp)) x = Some c \<longrightarrow> c = x"
      using sharePairs_ok [of "st_metaStrings s" "env_order env (getMetadata f)" "fst ?sp" "snd ?sp"] ok(1)
      by (simp_all add: memosOk_def)
    have "pairsOf ?en = env_order env (getMetadata f)" using sp(1) by (simp add: pairsOf_def freshEntry_def)
    then have en: "entryOk ?en f"
      using visitsAll_distinct [OF ok(5), of fst "getMetadata f"] visitsAll_map_of [OF ok(5)]
      by (simp add: entryOk_def)
    have lk: "metaLookup s' k' = (if k' = k then Some ?en else metaLookup s' k')"
        "k' \<noteq> k \<Longrightarrow> metaLookup s' k' = None \<or> metaLookup s' k' = metaLookup s k'" for k'
      using lru_Put_lookup [OF g'(2), where sizeOf = metaEntrySize and k = k and v = ?en] g'(3) Some
      by (auto simp: r metaLookup_def)
    have "metaCoherent K s'"
      unfolding metaCoherent_def
    proof (intro ballI allI impI)
      fix k' e' f' assume a: "k' \<in> K" "metaLookup s' k' = Some e'" "lookupFile (pathOf s' k') s' = Some f'"
      have "lookupFile (pathOf s k') s = Some f'" using a(3) by (simp add: r pathOf_def lookupFile_def)
      then show "entryOk e' f'"
        using a lk [of k'] en ok(2,4) unfolding metaCoherent_def by (cases "k' = k") auto
    qed
    moreover have "memosOk s'" using ok(1) sp(2) lru_Put_ok [OF g'(2)] by (simp add: memosOk_def r)
    ultimately show ?thesis by (simp add: r sameFiles_def)
  qed
qed

section \<open>What a put does\<close>

text \<open>The same store up to the order of its files.\<close>

definition sameStore :: "Storage \<Rightarrow> Storage \<Rightarrow> bool" where
  "sameStore s s' \<longleftrightarrow> (\<forall>p. lookupFile p s' = lookupFile p s) \<and> s'\<lparr>st_files := st_files s\<rparr> = s"

lemma sameStore_refl [simp]: "sameStore s s"
  by (simp add: sameStore_def)

lemma sameStore_temp:
  assumes "lookupFile tmp s = None"
  shows "sameStore s (dropFile tmp (setFile tmp f s))" "sameStore s (dropFile tmp (setFile tmp f' (setFile tmp f s)))"
  using assms by (auto simp: sameStore_def setFile_def dropFile_def lookupFile_def update_conv' delete_conv')

text \<open>The file a put leaves when it gets through.\<close>

definition putFile :: "sysEnv \<Rightarrow> string \<Rightarrow> reader \<Rightarrow> xattrFile \<Rightarrow> diskFile" where
  "putFile env key r attr = (tempFile env r)\<lparr>f_attr := attr, f_orig := (if \<not> isKeySafe key then Some key else None)\<rparr>"

definition putState :: "sysEnv \<Rightarrow> string \<Rightarrow> diskFile \<Rightarrow> Storage \<Rightarrow> Storage" where
  "putState env key f s =
    (let s2 = forgetEvicted key (forgetMeta key (forgetClean key (setFile (pathOf s key) f (dropFile (env_tmp env) s))))
     in s2\<lparr>st_index := map_option (Index_Put (unixSec (env_now env)) (env_epoch env) key) (st_index s2)\<rparr>)"

text \<open>The assumptions about the system under which a put leaves no trace of a failure: the temporary
  name is new, temporary files can be removed, and a \<^verbatim>\<open>range\<close> visits its map once.\<close>

definition putEnvOk :: "sysEnv \<Rightarrow> Storage \<Rightarrow> bool" where
  "putEnvOk env s \<longleftrightarrow> lookupFile (env_tmp env) s = None \<and> env_fault env SysRemove = None \<and> visitsAll (env_order env)"

lemma removeTemp_eq: "putEnvOk env s \<Longrightarrow> removeTemp env t = dropFile (env_tmp env) t"
  by (simp add: putEnvOk_def removeTemp_def)

lemma putAttrs_cases:
  assumes env: "putEnvOk env s" and put: "putAttrs env key (tempFile env r) a (setFile (env_tmp env) (tempFile env r) s) = (err, s')"
  shows "sameStore s s' \<and> err \<noteq> None \<or>
    err = None \<and> (\<exists>dropped attr f0. writeObjAttrs (xattrSet (env_cap env) (env_refuses env)) (env_order env) None a = Some (None, dropped, attr) \<and>
      s' = putState env key (putFile env key r attr) (setFile (env_tmp env) f0 s))"
proof -
  let ?tmp = "env_tmp env" and ?f = "tempFile env r"
  note rt = removeTemp_eq [OF env]
  have tmp: "lookupFile ?tmp s = None" using env by (simp add: putEnvOk_def)
  obtain werr dropped attr where w: "writeObjAttrs (xattrSet (env_cap env) (env_refuses env)) (env_order env) None a = Some (werr, dropped, attr)"
    using writeObjAttrs_total [of "env_order env"] env unfolding putEnvOk_def by (metis not_None_eq prod_cases3)
  have attr: "f_attr ?f = None" by (simp add: tempFile_def)
  let ?chk = "firstStop [map_option ErrSetAttrs werr,
     if \<not> isKeySafe key then map_option ErrSetOriginalKey (env_fault env SysSetOrig) else None]"
  let ?g = "putFile env key r attr"
  show ?thesis
  proof (cases ?chk)
    case (Some e)
    then have "err = Some e" "s' = dropFile ?tmp (setFile ?tmp (?f\<lparr>f_attr := attr\<rparr>) (setFile ?tmp ?f s))"
      using put unfolding putAttrs_def attr w by (simp_all add: rt Let_def)
    then show ?thesis using sameStore_temp(2) [OF tmp] by simp
  next
    case None
    then have werr: "werr = None" by (auto split: option.splits)
    let ?a = "?f\<lparr>f_attr := attr\<rparr>"
    have "putCommit env key ?g (setFile ?tmp ?g (setFile ?tmp ?a (setFile ?tmp ?f s))) = (err, s')"
      using put unfolding putAttrs_def attr w putFile_def Let_def by (simp only: option.case prod.case None)
    then have c: "putCommit env key ?g (setFile ?tmp ?g (setFile ?tmp ?f s)) = (err, s')" by (simp add: setFile_def)
    have over: "setFile ?tmp ?g (setFile ?tmp ?f s) = setFile ?tmp ?g s" by (simp add: setFile_def)
    show ?thesis
    proof (cases "env_fault env SysRename")
      case (Some e)
      then have "err = Some (ErrRename e)" "s' = dropFile ?tmp (setFile ?tmp ?g (setFile ?tmp ?f s))"
        using c by (simp_all add: putCommit_def rt)
      then show ?thesis using sameStore_temp(2) [OF tmp] by simp
    next
      case None
      then have "err = None" "s' = putState env key ?g (setFile ?tmp ?g s)"
        using c unfolding over by (simp_all add: putCommit_def putState_def Let_def)
      then show ?thesis using w werr by blast
    qed
  qed
qed

lemma PutStream_cases:
  assumes env: "putEnvOk env s" and put: "PutStream dec env key r m aud s = (err, s')"
  shows "sameStore s s' \<and> (err = None \<longrightarrow> putStops dec env (pathOf s key) r m s = Some None) \<or>
    err = None \<and> putStops dec env (pathOf s key) r m s = None \<and>
    (\<exists>dropped attr f0. writeObjAttrs (xattrSet (env_cap env) (env_refuses env)) (env_order env) None
        \<lparr>meta = putMeta r m, audit = putAudit r aud\<rparr> = Some (None, dropped, attr) \<and>
      s' = putState env key (putFile env key r attr) (setFile (env_tmp env) f0 s))"
proof (cases "firstStop [if env_dirMissing env then map_option ErrCreateDirs (env_fault env SysMkdirAll) else None,
        map_option ErrCreateTemp (env_fault env SysCreateTemp)]")
  case (Some e)
  have "err = Some e" "s' = s" using put unfolding PutStream_def Some by simp_all
  then show ?thesis by simp
next
  case None
  let ?f = "tempFile env r"
  show ?thesis
  proof (cases "putStops dec env (pathOf s key) r m s")
    case (Some e)
    have "err = e" "s' = dropFile (env_tmp env) (setFile (env_tmp env) ?f s)"
      using put unfolding PutStream_def None by (simp_all add: Some removeTemp_eq [OF env])
    moreover have "lookupFile (env_tmp env) s = None" using env by (simp add: putEnvOk_def)
    ultimately show ?thesis using sameStore_temp(1) Some by simp
  next
    case stops: None
    have "putAttrs env key ?f \<lparr>meta = putMeta r m, audit = putAudit r aud\<rparr> (setFile (env_tmp env) ?f s) = (err, s')"
      using put unfolding PutStream_def None by (simp add: stops Let_def)
    from putAttrs_cases [OF env this] show ?thesis using stops by blast
  qed
qed

subsection \<open>The metadata a put leaves\<close>

lemma xattrSet_written:
  "xattrSet cap refuses f v = (None, f') \<Longrightarrow> f' = Some v \<and> length v \<le> cap"
  by (cases rule: xattrSet_cases [of cap refuses f v]) auto

lemma writeObjAttrs_reads_back:
  assumes "visitsAll order" "distinct (map fst (meta a))" "distinct (map fst (audit a))"
    and cap: "cap < 2 ^ 63" and w: "writeObjAttrs (xattrSet cap refuses) order f a = Some (None, dropped, attr)"
  shows "\<exists>b. writtenFor a b dropped \<and> map_of (meta (readObjAttrs (xattrGetter attr))) = map_of (meta b)"
proof -
  obtain err b f0 where b: "None = wrapObjErr err" "xattrSet cap refuses f0 (encodeObjAttrs b) = (err, attr)" "writtenFor a b dropped"
    using writeObjAttrs_post [OF assms(1), of "xattrSet cap refuses" f a] w by auto
  then have "err = None" by (simp add: wrapObjErr_def)
  then have at: "attr = Some (encodeObjAttrs b)" "length (encodeObjAttrs b) \<le> cap"
    using b(2) xattrSet_written by blast+
  have "distinct (map fst (meta b))" "distinct (map fst (audit b))"
    using b(3) assms(2,3) by (auto simp: writtenFor_def)
  then show ?thesis using readObjAttrs_encode [of b] at cap b(3) by (intro exI [of _ b]) simp
qed

lemma putMeta_facts:
  "distinct (map fst (putMeta r m))"
  "map_of (putMeta r m) = (map_of (rev m))(storedDigestMetaKey \<mapsto> storedDigest (sha256 (rd_data r)))"
proof -
  show "distinct (map fst (putMeta r m))"
    unfolding putMeta_def by (intro distinct_update distinct_kvMerge) simp
  show "map_of (putMeta r m) = (map_of (rev m))(storedDigestMetaKey \<mapsto> storedDigest (sha256 (rd_data r)))"
    by (simp add: putMeta_def update_conv' map_of_kvMerge)
qed

lemma putAudit_distinct: "(\<And>a. aud = Some a \<Longrightarrow> distinct (map fst a)) \<Longrightarrow> distinct (map fst (putAudit r aud))"
  by (cases aud) (simp_all add: putAudit_def distinct_update)

text \<open>The metadata of a stored object: what the upload named, with the digest the server computed;
  fields may be missing for lack of room, protected ones never.\<close>

definition storedMeta :: "reader \<Rightarrow> kvMap \<Rightarrow> (string \<rightharpoonup> string) \<Rightarrow> bool" where
  "storedMeta r m got \<longleftrightarrow> got \<subseteq>\<^sub>m map_of (putMeta r m) \<and>
     (\<forall>k \<in> metadataProtectedKeys. got k = map_of (putMeta r m) k)"

lemma putFile_meta:
  assumes "visitsAll order" "\<And>a. aud = Some a \<Longrightarrow> distinct (map fst a)" "cap < 2 ^ 63"
    and "writeObjAttrs (xattrSet cap refuses) order None \<lparr>meta = putMeta r m, audit = putAudit r aud\<rparr> = Some (None, dropped, attr)"
  shows "storedMeta r m (map_of (getMetadata (putFile env key r attr)))"
proof -
  have "\<exists>b. writtenFor \<lparr>meta = putMeta r m, audit = putAudit r aud\<rparr> b dropped \<and>
      map_of (meta (readObjAttrs (xattrGetter attr))) = map_of (meta b)"
    using writeObjAttrs_reads_back [OF assms(1) _ _ assms(3,4)] putMeta_facts putAudit_distinct assms(2) by simp
  then show ?thesis
    by (auto simp: storedMeta_def writtenFor_def getMetadata_eq putFile_def)
qed

lemma kvGet_map_of: "kvGet m k = (case map_of m k of Some v \<Rightarrow> v | None \<Rightarrow> [])"
  by (simp add: kvGet_def)

lemma storedMeta_digest:
  "storedMeta r m (map_of kv) \<Longrightarrow> kvGet kv storedDigestMetaKey = storedDigest (sha256 (rd_data r))"
  by (simp add: storedMeta_def kvGet_def putMeta_facts(2) metadataProtectedKeys_def storedDigestMetaKey_def)

section \<open>The invariant\<close>

definition storeOk :: "string set \<Rightarrow> Storage \<Rightarrow> bool" where
  "storeOk K s \<longleftrightarrow> memosOk s \<and> metaCoherent K s \<and> inj_on (pathOf s) K"

lemma sameStoreD:
  assumes "sameStore s s'"
  shows "st_dataDir s' = st_dataDir s" "st_index s' = st_index s" "st_metaCache s' = st_metaCache s"
    "st_cleanKeys s' = st_cleanKeys s" "st_digestOK s' = st_digestOK s" "st_evicted s' = st_evicted s"
    "st_metaStrings s' = st_metaStrings s" "st_access s' = st_access s" "lookupFile p s' = lookupFile p s"
proof -
  have e: "s'\<lparr>st_files := st_files s\<rparr> = s" using assms by (simp add: sameStore_def)
  have "f (s'\<lparr>st_files := st_files s\<rparr>) = f s" for f :: "Storage \<Rightarrow> 'x" using e by simp
  then show "st_dataDir s' = st_dataDir s" "st_index s' = st_index s" "st_metaCache s' = st_metaCache s"
    "st_cleanKeys s' = st_cleanKeys s" "st_digestOK s' = st_digestOK s" "st_evicted s' = st_evicted s"
    "st_metaStrings s' = st_metaStrings s" "st_access s' = st_access s"
    using arg_cong [OF e, of st_dataDir] arg_cong [OF e, of st_index] arg_cong [OF e, of st_metaCache]
      arg_cong [OF e, of st_cleanKeys] arg_cong [OF e, of st_digestOK] arg_cong [OF e, of st_evicted]
      arg_cong [OF e, of st_metaStrings] arg_cong [OF e, of st_access] by simp_all
  show "lookupFile p s' = lookupFile p s" using assms by (simp add: sameStore_def)
qed

lemma storeOk_sameStore: "storeOk K s \<Longrightarrow> sameStore s s' \<Longrightarrow> storeOk K s'"
  using sameStoreD [of s s']
  by (simp add: storeOk_def memosOk_def metaCoherent_def metaLookup_def pathOf_def [abs_def])

lemma memosOk_forgets:
  assumes "memosOk s"
  shows "memosOk (forgetClean k s)" "memosOk (forgetMeta k s)" "memosOk (forgetEvicted k s)" "memosOk (forgetAccess k s)"
  using assms
  by (auto simp: memosOk_def forgetClean_def forgetMeta_def forgetEvicted_def forgetAccess_def Let_def lru_Forget_ok(1)
      split: prod.splits option.splits)

lemma memosOk_files [simp]: "memosOk (setFile p f s) = memosOk s" "memosOk (dropFile p s) = memosOk s"
    "memosOk (s\<lparr>st_index := i\<rparr>) = memosOk s" "memosOk (recordAccess env k s) = memosOk s"
  by (simp_all add: memosOk_def)

lemma metaLookup_simps [simp]:
  "metaLookup (setFile p f s) k = metaLookup s k" "metaLookup (dropFile p s) k = metaLookup s k"
  "metaLookup (s\<lparr>st_index := i\<rparr>) k = metaLookup s k" "metaLookup (forgetClean k' s) k = metaLookup s k"
  "metaLookup (forgetEvicted k' s) k = metaLookup s k" "metaLookup (forgetAccess k' s) k = metaLookup s k"
  "metaLookup (recordAccess env k' s) k = metaLookup s k"
  by (simp_all add: metaLookup_def)

lemma metaLookup_forgetMeta:
  "memosOk s \<Longrightarrow> metaLookup (forgetMeta k' s) k = (if k = k' then None else metaLookup s k)"
  by (auto simp: metaLookup_def forgetMeta_def memosOk_def lru_Forget_ok split: option.splits)

text \<open>Changing the file of one key is safe once its cached metadata is forgotten.\<close>

lemma metaCoherent_change:
  assumes "metaCoherent K s" "inj_on (pathOf s) K" "key \<in> K" "pathOf s' = pathOf s"
    and "\<And>p. p \<in> pathOf s ` K \<Longrightarrow> p \<noteq> pathOf s key \<Longrightarrow> lookupFile p s' = lookupFile p s"
    and "metaLookup s' key = None" "\<And>k. k \<noteq> key \<Longrightarrow> metaLookup s' k = metaLookup s k"
  shows "metaCoherent K s'"
  unfolding metaCoherent_def
proof (intro ballI allI impI)
  fix k e f assume a: "k \<in> K" "metaLookup s' k = Some e" "lookupFile (pathOf s' k) s' = Some f"
  then have k: "k \<noteq> key" using assms(6) by auto
  then have "pathOf s k \<noteq> pathOf s key" using assms(2,3) a(1) by (auto dest: inj_onD)
  then have "lookupFile (pathOf s k) s = Some f" using assms(4,5) a(1,3) by simp
  then show "entryOk e f" using assms(1,7) a(1,2) k by (simp add: metaCoherent_def)
qed

lemma putState_facts:
  fixes f f0 :: diskFile
  assumes ok: "storeOk K s" "key \<in> K" and tmp: "env_tmp env \<notin> pathOf s ` K" "lookupFile (env_tmp env) s = None"
  defines "s' \<equiv> putState env key f (setFile (env_tmp env) f0 s)"
  shows "storeOk K s'" "lookupFile p s' = (if p = pathOf s key then Some f else lookupFile p s)"
    "st_index s' = map_option (Index_Put (unixSec (env_now env)) (env_epoch env) key) (st_index s)"
    "pathOf s' = pathOf s"
proof -
  have path: "pathOf s' = pathOf s" by (rule ext) (simp add: s'_def putState_def Let_def pathOf_def)
  have tk: "env_tmp env \<noteq> pathOf s key" using tmp(1) ok(2) by auto
  have look: "lookupFile p s' = (if p = pathOf s key then Some f else lookupFile p s)" for p
    using tmp(2) tk by (simp add: s'_def putState_def Let_def)
  have "memosOk s'" unfolding s'_def putState_def Let_def using ok(1) by (simp add: memosOk_forgets storeOk_def)
  moreover have "metaCoherent K s'"
  proof (rule metaCoherent_change [where s = s and key = key])
    show "metaCoherent K s" "inj_on (pathOf s) K" "key \<in> K" "pathOf s' = pathOf s"
      using ok path by (simp_all add: storeOk_def)
    show "lookupFile p s' = lookupFile p s" if "p \<noteq> pathOf s key" for p using look that by simp
    have m: "memosOk (forgetClean key (setFile (pathOf s key) f (dropFile (env_tmp env) (setFile (env_tmp env) f0 s))))"
      using ok(1) by (simp add: memosOk_forgets storeOk_def)
    show "metaLookup s' key = None"
      using metaLookup_forgetMeta [OF m, of key] by (simp add: s'_def putState_def Let_def)
    show "metaLookup s' k = metaLookup s k" if "k \<noteq> key" for k
      using metaLookup_forgetMeta [OF m, of key] that by (simp add: s'_def putState_def Let_def)
  qed
  ultimately show "storeOk K s'" using ok path by (simp add: storeOk_def)
  show "lookupFile p s' = (if p = pathOf s key then Some f else lookupFile p s)" by (rule look)
  show "st_index s' = map_option (Index_Put (unixSec (env_now env)) (env_epoch env) key) (st_index s)"
    by (simp add: s'_def putState_def Let_def)
  show "pathOf s' = pathOf s" by (rule path)
qed

subsection \<open>Reads\<close>

lemma storeOk_sameFiles:
  "storeOk K s \<Longrightarrow> memosOk s' \<Longrightarrow> metaCoherent K s' \<Longrightarrow> sameFiles s s' \<Longrightarrow> storeOk K s'"
  by (simp add: storeOk_def sameFiles_def pathOf_def [abs_def])

lemma storeOk_recordAccess [simp]: "storeOk K (recordAccess env k s) = storeOk K s"
  by (simp add: storeOk_def metaCoherent_def pathOf_def [abs_def] del: pathOf_simps)

lemma storeOk_load:
  assumes "storeOk K s" "key \<in> K" "lookupFile (pathOf s key) s = Some f" "visitsAll (env_order env)"
    and "loadMetadata env key f s = (kv, s')"
  shows "map_of kv = map_of (getMetadata f)" "distinct (map fst kv)" "storeOk K s'" "sameFiles s s'"
  using loadMetadata_ok [OF _ _ assms(2-5)] assms(1) storeOk_sameFiles [OF assms(1)] unfolding storeOk_def
  by blast+

lemma osOpen_cases:
  obtains (err) e where "osOpen env call p s = Inl e" "lookupFile p s = None \<or> env_fault env call \<noteq> None"
  | (ok) f where "osOpen env call p s = Inr f" "lookupFile p s = Some f" "env_fault env call = None"
  by (cases "env_fault env call"; cases "lookupFile p s") (auto simp: osOpen_def)

lemma Open_ok:
  assumes "storeOk K s" "key \<in> K" "visitsAll (env_order env)" "Open env key s = (res, s')"
  shows "storeOk K s' \<and> sameFiles s s' \<and>
    (\<forall>f om. res = Inr (f, om) \<longrightarrow> lookupFile (pathOf s key) s = Some f \<and> map_of (om_Metadata om) = map_of (getMetadata f)
       \<and> distinct (map fst (om_Metadata om)) \<and> om_Size om = int (length (f_body f)) \<and> om_ModTime om = f_mtime f)"
proof (cases rule: osOpen_cases [of env SysOpen "pathOf s key" s])
  case (err e)
  then show ?thesis using assms(1,4) by (auto simp: Open_def)
next
  case (ok f)
  obtain kv t where ld: "loadMetadata env key f s = (kv, t)" by fastforce
  note l = storeOk_load [OF assms(1,2) ok(2) assms(3) ld]
  show ?thesis
    using assms(1,4) l sameFiles_trans [OF l(4) sameFiles_recordAccess]
    unfolding Open_def ok(1) by (auto simp: ld ok(2) split: option.splits)
qed

lemma Stat_ok:
  assumes "storeOk K s" "key \<in> K" "visitsAll (env_order env)" "Stat env key s = (res, s')"
  shows "storeOk K s' \<and> sameFiles s s' \<and>
    (\<forall>om. res = Inr om \<longrightarrow> (\<exists>f. lookupFile (pathOf s key) s = Some f \<and> map_of (om_Metadata om) = map_of (getMetadata f)
       \<and> distinct (map fst (om_Metadata om)) \<and> om_Size om = int (length (f_body f)) \<and> om_ModTime om = f_mtime f))"
proof (cases rule: osOpen_cases [of env SysStat "pathOf s key" s])
  case (err e)
  then show ?thesis using assms(1,4) by (auto simp: Stat_def)
next
  case (ok f)
  obtain kv t where ld: "loadMetadata env key f s = (kv, t)" by fastforce
  note l = storeOk_load [OF assms(1,2) ok(2) assms(3) ld]
  have "res = Inr \<lparr>om_Metadata = kv, om_ModTime = f_mtime f, om_Size = int (length (f_body f))\<rparr>" "s' = t"
    using assms(4) unfolding Stat_def ok(1) by (simp_all add: ld)
  then show ?thesis using l ok(2) by auto
qed

lemma Get_ok:
  assumes "storeOk K s" "key \<in> K" "visitsAll (env_order env)" "Get env key s = (res, s')"
    and "env_fault env SysRead = None" "env_fault env SysStat = None"
  shows "storeOk K s' \<and> sameFiles s s' \<and>
    (case lookupFile (pathOf s key) s of None \<Rightarrow> res = Inl ErrNotFound
     | Some f \<Rightarrow> \<exists>om. res = Inr (f_body f, om) \<and> map_of (om_Metadata om) = map_of (getMetadata f))"
proof (cases rule: osOpen_cases [of env SysRead "pathOf s key" s])
  case (err e)
  then show ?thesis using assms by (auto simp: Get_def osOpen_def)
next
  case (ok f)
  obtain kv t where ld: "loadMetadata env key f s = (kv, t)" by fastforce
  note l = storeOk_load [OF assms(1,2) ok(2) assms(3) ld]
  have "res = Inr (f_body f, \<lparr>om_Metadata = kv, om_ModTime = f_mtime f, om_Size = int (length (f_body f))\<rparr>)"
      "s' = recordAccess env key t"
    using assms(4,6) unfolding Get_def ok(1) by (simp_all add: ld)
  then show ?thesis using l ok(2) sameFiles_trans [OF l(4) sameFiles_recordAccess] by auto
qed

subsection \<open>Deletes\<close>

lemma Delete_ok:
  assumes "storeOk K s" "key \<in> K" "Delete env key s = (err, s')"
  shows "storeOk K s' \<and> pathOf s' = pathOf s \<and>
    (err \<noteq> None \<and> s' = s \<or>
     err = None \<and> lookupFile (pathOf s key) s \<noteq> None \<and>
     (\<forall>p. lookupFile p s' = (if p = pathOf s key then None else lookupFile p s)) \<and>
     st_index s' = map_option (Index_Remove (env_epoch env) key) (st_index s))"
proof (cases rule: osOpen_cases [of env SysRemove "pathOf s key" s])
  case (err e)
  then show ?thesis using assms by (auto simp: Delete_def)
next
  case (ok f)
  define d where "d = (let s = dropFile (pathOf s key) s
    in s\<lparr>st_index := map_option (Index_Remove (env_epoch env) key) (st_index s)\<rparr>)"
  have r: "err = None" "s' = forgetMeta key (forgetClean key (forgetAccess key d))"
    using assms(3) unfolding Delete_def d_def by (simp_all add: ok(1) Let_def)
  have d: "memosOk (forgetClean key (forgetAccess key d))"
    using assms(1) by (simp add: memosOk_forgets storeOk_def d_def Let_def)
  have look: "lookupFile p s' = (if p = pathOf s key then None else lookupFile p s)" for p
    by (simp add: r d_def Let_def)
  have path: "pathOf s' = pathOf s" by (rule ext) (simp add: r d_def Let_def pathOf_def)
  have "metaCoherent K s'"
    by (rule metaCoherent_change [where s = s and key = key])
      (use assms(1,2) look path metaLookup_forgetMeta [OF d, of key] in \<open>simp_all add: storeOk_def r(2) d_def Let_def\<close>)
  then show ?thesis
    using r look path memosOk_forgets(2) [OF d] assms(1) ok(2) by (simp add: storeOk_def d_def Let_def)
qed

subsection \<open>Puts\<close>

lemma firstStop_None: "firstStop xs = None \<longleftrightarrow> (\<forall>x \<in> set xs. x = None)"
  by (induction xs) (auto split: option.splits)

lemma putStops_accepts:
  assumes "putStops dec env path r m s = None \<or> putStops dec env path r m s = Some None"
  shows "rd_err r = None" "checkStoredDigest (kvGet m storedDigestMetaKey) (storedDigest (sha256 (rd_data r))) = None"
  using assms by (auto simp: putStops_def split: option.splits)

lemma putStops_quiet:
  assumes "putStops dec env path r m s = Some None"
  shows "st_woAction s = ''deny''" "lookupFile path s \<noteq> None" "env_fault env SysStat = None"
proof -
  have "writeOnceStops dec env (rd_data r) path s = Some None"
    using assms by (auto simp: putStops_def split: option.splits if_splits)
  then show "st_woAction s = ''deny''" "lookupFile path s \<noteq> None" "env_fault env SysStat = None"
    by (auto simp: writeOnceStops_def split: option.splits if_splits)
qed

lemma PutStream_ok:
  assumes "storeOk K s" "key \<in> K" "putEnvOk env s" "env_tmp env \<notin> pathOf s ` K" "env_cap env < 2 ^ 63"
    and "\<And>a. aud = Some a \<Longrightarrow> distinct (map fst a)"
    and "PutStream dec env key r m aud s = (err, s')"
  shows "storeOk K s' \<and> pathOf s' = pathOf s \<and>
    (sameStore s s' \<and> (err = None \<longrightarrow> putStops dec env (pathOf s key) r m s = Some None) \<or>
     err = None \<and> putStops dec env (pathOf s key) r m s = None \<and>
     (\<exists>f. f_body f = rd_data r \<and> storedMeta r m (map_of (getMetadata f)) \<and> f_ino f = env_ino env \<and>
        f_orig f = (if isKeySafe key then None else Some key) \<and>
        (\<forall>p. lookupFile p s' = (if p = pathOf s key then Some f else lookupFile p s)) \<and>
        st_index s' = map_option (Index_Put (unixSec (env_now env)) (env_epoch env) key) (st_index s)))"
  using PutStream_cases [OF assms(3,7)]
proof (elim disjE conjE exE)
  assume same: "sameStore s s'" and "err = None \<longrightarrow> putStops dec env (pathOf s key) r m s = Some None"
  then show ?thesis
    using storeOk_sameStore [OF assms(1)] sameStoreD(1) [OF same] by (simp add: pathOf_def [abs_def])
next
  fix dropped attr f0
  assume st: "putStops dec env (pathOf s key) r m s = None" "err = None"
    and w: "writeObjAttrs (xattrSet (env_cap env) (env_refuses env)) (env_order env) None
       \<lparr>meta = putMeta r m, audit = putAudit r aud\<rparr> = Some (None, dropped, attr)"
    and s': "s' = putState env key (putFile env key r attr) (setFile (env_tmp env) f0 s)"
  let ?f = "putFile env key r attr"
  have tmp: "lookupFile (env_tmp env) s = None" "visitsAll (env_order env)"
    using assms(3) by (simp_all add: putEnvOk_def)
  note p = putState_facts [OF assms(1,2,4) tmp(1), where f = ?f and ?f0.0 = f0]
  have "f_body ?f = rd_data r" "f_ino ?f = env_ino env" "f_orig ?f = (if isKeySafe key then None else Some key)"
    by (simp_all add: putFile_def tempFile_def)
  moreover have "storedMeta r m (map_of (getMetadata ?f))" by (rule putFile_meta [OF tmp(2) assms(6,5) w])
  ultimately show ?thesis using st p unfolding s' by blast
qed

text \<open>A put whose temporary file cannot be removed does what it does when it can, but for that file.\<close>

definition tempRemovable :: "sysEnv \<Rightarrow> sysEnv" where
  "tempRemovable env = env\<lparr>env_fault := (env_fault env)(SysRemove := None)\<rparr>"

lemma putStops_tempRemovable: "putStops dec (tempRemovable env) path r m s = putStops dec env path r m s"
proof -
  have f: "env_fault (tempRemovable env) SysSync = env_fault env SysSync" "env_fault (tempRemovable env) SysClose = env_fault env SysClose"
    "env_fault (tempRemovable env) SysStat = env_fault env SysStat" "env_fault (tempRemovable env) SysCompare = env_fault env SysCompare"
    by (simp_all add: tempRemovable_def)
  show ?thesis unfolding putStops_def writeOnceStops_def filesEqual_def f ..
qed

lemma setFile_twice [simp]: "setFile p f (setFile p g s) = setFile p f s"
  by (simp add: setFile_def)

lemma removeTemp_tempRemovable:
  "removeTemp env t = removeTemp (tempRemovable env) t \<or>
   env_fault env SysRemove \<noteq> None \<and> removeTemp env t = t \<and> removeTemp (tempRemovable env) t = dropFile (env_tmp env) t"
  by (cases "env_fault env SysRemove") (simp_all add: removeTemp_def tempRemovable_def)

lemma putAttrs_tempRemovable:
  assumes "putAttrs env key f a (setFile (env_tmp env) f s) = (err, s')"
  shows "putAttrs (tempRemovable env) key f a (setFile (env_tmp env) f s) = (err, s') \<or>
    env_fault env SysRemove \<noteq> None \<and> (\<exists>g. s' = setFile (env_tmp env) g s) \<and> err \<noteq> None"
proof (cases "env_fault env SysRemove")
  case None
  then have "tempRemovable env = env" by (simp add: tempRemovable_def fun_upd_idem)
  then show ?thesis using assms by simp
next
  case (Some e)
  then show ?thesis using assms
    by (auto simp: putAttrs_def putCommit_def removeTemp_def tempRemovable_def Let_def split: option.splits prod.splits if_splits)
qed

lemma PutStream_tempRemovable:
  assumes "PutStream dec env key r m aud s = (err, s')"
  shows "PutStream dec (tempRemovable env) key r m aud s = (err, s') \<or>
    env_fault env SysRemove \<noteq> None \<and> (\<exists>g. s' = setFile (env_tmp env) g s) \<and>
    (err = None \<longrightarrow> putStops dec env (pathOf s key) r m s = Some None)"
proof -
  let ?a = "\<lparr>meta = putMeta r m, audit = putAudit r aud\<rparr>" and ?f = "tempFile env r"
  have f: "tempFile (tempRemovable env) r' = tempFile env r'" "env_tmp (tempRemovable env) = env_tmp env" "env_dirMissing (tempRemovable env) = env_dirMissing env"
    "env_fault (tempRemovable env) SysMkdirAll = env_fault env SysMkdirAll" "env_fault (tempRemovable env) SysCreateTemp = env_fault env SysCreateTemp"
    for r' by (simp_all add: tempFile_def tempRemovable_def)
  note u = assms [unfolded PutStream_def Let_def] PutStream_def [of dec "tempRemovable env", unfolded Let_def f putStops_tempRemovable]
  show ?thesis
  proof (cases "firstStop [if env_dirMissing env then map_option ErrCreateDirs (env_fault env SysMkdirAll) else None,
        map_option ErrCreateTemp (env_fault env SysCreateTemp)]")
    case (Some e)
    then show ?thesis using u by (simp only: option.case simp_thms)
  next
    case first: None
    show ?thesis
    proof (cases "putStops dec env (pathOf s key) r m s")
      case (Some e)
      then have "err = e" "s' = removeTemp env (setFile (env_tmp env) ?f s)" using u(1) unfolding first by simp_all
      then show ?thesis
        using Some u(2) removeTemp_tempRemovable [of env "setFile (env_tmp env) ?f s"] unfolding first by auto
    next
      case None
      then have "putAttrs env key ?f ?a (setFile (env_tmp env) ?f s) = (err, s')" using u(1) unfolding first by simp
      from putAttrs_tempRemovable [OF this] show ?thesis using u(2) None unfolding first by auto
    qed
  qed
qed

lemma storeOk_tempFile:
  assumes "storeOk K s" "tmp \<notin> pathOf s ` K" shows "storeOk K (setFile tmp f s)"
  using assms by (auto simp: storeOk_def metaCoherent_def inj_on_def image_iff)

section \<open>Properties\<close>

text \<open>(C3) A put is all or nothing.  Whichever of its system calls fail - creating the directories or the
  temporary file, syncing, closing, comparing, writing either attribute (for space or for any other reason), renaming,
  removing the temporary file - and wherever the upload's body breaks off, either the data
  directory, the index and every memory are as before, or the key's file is the complete body with its metadata (the
  server's digest of the body included), every other file is untouched, and the index has the key.  The one
  trace a put can leave is its own temporary file, when removing that fails.  Success is answered only for a body
  that was read to its end and whose digest agrees with the one the client claimed; and if it is answered with nothing
  stored, then write-once mode had found the key's file already there.  The temporary file has a name no
  file and no key of the set has.
\<close>

theorem PutStream_atomic:
  assumes "storeOk K s" "key \<in> K" "lookupFile (env_tmp env) s = None" "visitsAll (env_order env)"
    and "env_tmp env \<notin> pathOf s ` K" "env_cap env < 2 ^ 63"
    and "\<And>a. aud = Some a \<Longrightarrow> distinct (map fst a)"
    and "PutStream dec env key r m aud s = (err, s')"
  shows "storeOk K s' \<and>
    ((sameStore s s' \<or> env_fault env SysRemove \<noteq> None \<and> sameStore s (dropFile (env_tmp env) s')) \<and>
       (err = None \<longrightarrow> st_woAction s = ''deny'' \<and> lookupFile (pathOf s key) s \<noteq> None) \<or>
     err = None \<and>
     (\<exists>f. f_body f = rd_data r \<and> storedMeta r m (map_of (getMetadata f)) \<and>
        (\<forall>p. lookupFile p s' = (if p = pathOf s key then Some f else lookupFile p s)) \<and>
        st_index s' = map_option (Index_Put (unixSec (env_now env)) (env_epoch env) key) (st_index s))) \<and>
    (err = None \<longrightarrow> rd_err r = None \<and>
       checkStoredDigest (kvGet m storedDigestMetaKey) (storedDigest (sha256 (rd_data r))) = None)"
  using PutStream_tempRemovable [OF assms(8)]
proof (elim disjE conjE exE)
  assume p: "PutStream dec (tempRemovable env) key r m aud s = (err, s')"
  have env: "putEnvOk (tempRemovable env) s" "env_tmp (tempRemovable env) \<notin> pathOf s ` K" "env_cap (tempRemovable env) < 2 ^ 63"
    using assms(3-6) by (simp_all add: putEnvOk_def tempRemovable_def)
  have f: "env_now (tempRemovable env) = env_now env" "env_epoch (tempRemovable env) = env_epoch env" by (simp_all add: tempRemovable_def)
  show ?thesis
    using PutStream_ok [OF assms(1,2) env assms(7) p, unfolded putStops_tempRemovable f] putStops_quiet [of dec env "pathOf s key" r m s]
      putStops_accepts [of dec env "pathOf s key" r m s] by blast
next
  fix g assume r: "env_fault env SysRemove \<noteq> None" "s' = setFile (env_tmp env) g s"
    and q: "err = None \<longrightarrow> putStops dec env (pathOf s key) r m s = Some None"
  have "storeOk K s'" "sameStore s (dropFile (env_tmp env) s')"
    unfolding r(2) using storeOk_tempFile [OF assms(1,5)] sameStore_temp(1) [OF assms(3)] by blast+
  then show ?thesis
    using r(1) q putStops_quiet [of dec env "pathOf s key" r m s] putStops_accepts [of dec env "pathOf s key" r m s] by blast
qed

definition emptyStore :: Storage where
  "emptyStore = \<lparr>st_dataDir = ''/d'', st_woAction = ''allow'', st_woNotification = '''', st_files = [],
     st_index = None, st_access = [], st_metaCache = None, st_cleanKeys = None, st_digestOK = None,
     st_evicted = None, st_metaStrings = \<lparr>ms_m = [], ms_bytes = 0\<rparr>\<rparr>"

definition calmEnv :: sysEnv where
  "calmEnv = \<lparr>env_fault = (\<lambda>_. None), env_dirMissing = True, env_now = 7, env_tmp = ''/d/.tmp-1'', env_ino = 3,
     env_cap = 4000, env_refuses = (\<lambda>_. None), env_stuck = (\<lambda>_. False), env_order = id, env_epoch = 1\<rparr>"

lemma pathOf_emptyStore: "pathOf emptyStore ''k'' = ''/d/k''"
  unfolding pathOf_def emptyStore_def by code_simp

lemma emptyStore_ok:
  "storeOk {''k''} emptyStore" "putEnvOk calmEnv emptyStore" "env_tmp calmEnv \<notin> pathOf emptyStore ` {''k''}"
  by (simp_all add: storeOk_def memosOk_def metaCoherent_def metaLookup_def pathOf_emptyStore putEnvOk_def
      calmEnv_def visitsAll_def) (simp_all add: emptyStore_def lookupFile_def)

lemma calm_put: "fst (PutStream specDecoders calmEnv ''k'' (bytesReader [1, 2]) [] None emptyStore) = None"
proof -
  let ?d = "storedDigest (sha256 [1, 2])"
  have d: "length ?d = 64" by (simp add: storedDigest_def)
  have "length (encodeObjAttrs \<lparr>meta = [(storedDigestMetaKey, ?d)], audit = []\<rparr>) = 81"
    by (simp add: encodeObjAttrs_def appendKV_def appendPair_def kvGet_def d storedDigestMetaKey_def bytes_of_def
        putUvarint.simps Let_def)
  then have w: "writeObjAttrs (xattrSet 4000 (\<lambda>_. None)) id None \<lparr>meta = [(storedDigestMetaKey, ?d)], audit = []\<rparr>
      = Some (None, [], Some (encodeObjAttrs \<lparr>meta = [(storedDigestMetaKey, ?d)], audit = []\<rparr>))"
    by (simp add: writeObjAttrs_def xattrSet_def wrapObjErr_def Let_def)
  have "isKeySafe ''k''" by code_simp
  then show ?thesis
    by (simp add: PutStream_def calmEnv_def putStops_def bytesReader_def checkStoredDigest_def kvGet_def
        fsyncThresholdBytes_def writeOnceStops_def emptyStore_def putAttrs_def tempFile_def putMeta_def putAudit_def
        kvMerge_def w putCommit_def Let_def)
qed

lemma PutStream_atomic_witness:
  "storeOk {''k''} emptyStore \<and> putEnvOk calmEnv emptyStore \<and>
   (\<exists>s' f. PutStream specDecoders calmEnv ''k'' (bytesReader [1, 2]) [] None emptyStore = (None, s') \<and> storeOk {''k''} s' \<and>
     lookupFile ''/d/k'' s' = Some f \<and> f_body f = [1, 2])"
proof -
  obtain s' where p: "PutStream specDecoders calmEnv ''k'' (bytesReader [1, 2]) [] None emptyStore = (None, s')"
    using calm_put by (metis prod.collapse)
  have cap: "env_cap calmEnv < 2 ^ 63" by (simp add: calmEnv_def)
  have wo: "st_woAction emptyStore \<noteq> ''deny''" by (simp add: emptyStore_def)
  have env: "lookupFile (env_tmp calmEnv) emptyStore = None" "visitsAll (env_order calmEnv)" "env_fault calmEnv SysRemove = None"
    using emptyStore_ok(2) by (simp_all add: putEnvOk_def)
  note t = PutStream_atomic [OF emptyStore_ok(1) _ env(1,2) emptyStore_ok(3) cap _ p]
  then have "storeOk {''k''} s'" by simp
  moreover have "\<exists>f. lookupFile ''/d/k'' s' = Some f \<and> f_body f = [1, 2]"
    using t wo by (auto simp: pathOf_emptyStore bytesReader_def)
  ultimately show ?thesis using p emptyStore_ok by blast
qed

end
