(* ===== verification/ReadGuards.thy ===== *)
theory ReadGuards
  imports StoreLaws
begin

text \<open>
  The guards a read passes through: the repair of a missing content address (\<^verbatim>\<open>selfheal.go\<close>), the
  eviction of stored module indexes (\<^verbatim>\<open>modindex.go\<close>) and the diagnosis of an absent key
  (\<^verbatim>\<open>missdiag.go\<close>).  The repair writes through an open file: it changes the inode the handle
  holds, wherever that inode is by then, and never the file a path names.
\<close>

section \<open>Definitions\<close>

subsection \<open>Open files\<close>

text \<open>Reading an open file: its bytes, or an error of the first read.\<close>

definition fileReader :: "sysEnv \<Rightarrow> diskFile \<Rightarrow> reader" where
  "fileReader env f =
    (case env_fault env SysRead of None \<Rightarrow> bytesReader (f_body f) | Some e \<Rightarrow> \<lparr>rd_data = [], rd_err = Some e\<rparr>)"

text \<open>The inode a handle holds as it is now; an unlinked inode is as the handle last saw it.\<close>

definition inodeNow :: "diskFile \<Rightarrow> Storage \<Rightarrow> diskFile" where
  "inodeNow f s =
    (case find (\<lambda>pf. f_ino (snd pf) = f_ino f) (st_files s) of Some pf \<Rightarrow> snd pf | None \<Rightarrow> f)"

definition writeInode :: "diskFile \<Rightarrow> Storage \<Rightarrow> Storage" where
  "writeInode f s = s\<lparr>st_files := map (\<lambda>(p, g). (p, if f_ino g = f_ino f then f else g)) (st_files s)\<rparr>"

definition getMetadataValueFd :: "diskFile \<Rightarrow> string \<Rightarrow> string" where
  "getMetadataValueFd f key = kvGet (meta (readObjAttrs (xattrGetter (f_attr f)))) key"

subsection \<open>Repairing the content address\<close>

definition missingOutputID :: "ObjectMeta \<Rightarrow> bool" where
  "missingOutputID om \<longleftrightarrow> kvGet (om_Metadata om) outputIDMetaKey = []"

text \<open>The content address of a body: the digest of its decompressed bytes.\<close>

definition hashDecoded :: "decoders \<Rightarrow> sysEnv \<Rightarrow> bool \<Rightarrow> diskFile \<Rightarrow> storeErr + string" where
  "hashDecoded dec env callerOwned f =
    (case decompressingReader dec (fileReader env f) of None \<Rightarrow> Inl ErrDecompress
     | Some codec \<Rightarrow>
       if codec = [] then Inl ErrDecompress
       else case (if callerOwned then env_fault env SysSeek else None) of Some e \<Rightarrow> Inl (ErrIo e)
       | None \<Rightarrow>
         (case copyDecoded dec codec (fileReader env f) of Inl e \<Rightarrow> Inl ErrDecompress
          | Inr plain \<Rightarrow> Inr (hexEncode (sha256 plain))))"

definition persistOutputID :: "sysEnv \<Rightarrow> string \<Rightarrow> diskFile \<Rightarrow> string \<Rightarrow> Storage \<Rightarrow> (storeErr + string) \<times> Storage" where
  "persistOutputID env key f outputID s =
    (case writeMeta env f [(outputIDMetaKey, outputID)] of
       (Some e, f') \<Rightarrow> (Inl (ErrPersistOutputID e), writeInode f' s)
     | (None, f') \<Rightarrow> (Inr outputID, forgetMeta key (writeInode f' s)))"

definition reconstructOutputID ::
    "decoders \<Rightarrow> sysEnv \<Rightarrow> string \<Rightarrow> diskFile option \<Rightarrow> Storage \<Rightarrow> (storeErr + string) \<times> Storage" where
  "reconstructOutputID dec env key fo s =
    (case (case fo of Some f \<Rightarrow> Inr f | None \<Rightarrow> openRaw env key s) of Inl e \<Rightarrow> (Inl e, s)
     | Inr f0 \<Rightarrow>
       let f = inodeNow f0 s in
       (case bodyMatchesStoredDigest env (f_body f) (getMetadataValueFd f storedDigestMetaKey) of
          Inl e \<Rightarrow> (Inl (ErrIo e), s)
        | Inr ok \<Rightarrow>
          if \<not> ok then (Inl ErrStoredDigestMismatch, s)
          else (case hashDecoded dec env (fo \<noteq> None) f of Inl e \<Rightarrow> (Inl e, s)
            | Inr outputID \<Rightarrow> persistOutputID env key f outputID s)))"

definition ensureOutputID ::
    "decoders \<Rightarrow> sysEnv \<Rightarrow> string \<Rightarrow> ObjectMeta \<Rightarrow> diskFile option \<Rightarrow> Storage \<Rightarrow> (bool \<times> ObjectMeta) \<times> Storage" where
  "ensureOutputID dec env key om fo s =
    (if \<not> missingOutputID om then ((True, om), s)
     else if \<not> snd (extractActionHash key) then ((True, om), s)
     else case reconstructOutputID dec env key fo s of
       (Inl e, s) \<Rightarrow> ((False, om), s\<lparr>st_index := map_option (Index_Remove (env_epoch env) key) (st_index s)\<rparr>)
     | (Inr outputID, s) \<Rightarrow>
         ((True, om\<lparr>om_Metadata := AList.update outputIDMetaKey outputID (om_Metadata om)\<rparr>), s))"

subsection \<open>Evicting module indexes\<close>

datatype readGuardVerdict = guardServe | guardEvicted | guardPeekError

definition evictModuleIndex :: "sysEnv \<Rightarrow> string \<Rightarrow> Storage \<Rightarrow> Storage" where
  "evictModuleIndex env key s = snd (Delete env key s)"

definition evictModuleIndexOnRead ::
    "decoders \<Rightarrow> sysEnv \<Rightarrow> string \<Rightarrow> diskFile \<Rightarrow> ObjectMeta \<Rightarrow> Storage \<Rightarrow> readGuardVerdict \<times> Storage" where
  "evictModuleIndexOnRead dec env key f om s =
    (let (hash, ok) = extractActionHash key in
     if \<not> ok then (guardServe, s)
     else let (known, s) = keyKnownClean hash s in
       if known then (guardServe, s)
       else let (isIndex, readErr) = readIsModuleIndex dec (fileReader env f) (kvGet (om_Metadata om) ''compression'') in
         if env_fault env SysSeek \<noteq> None then (guardPeekError, s)
         else if readErr \<noteq> None then (guardPeekError, s)
         else if \<not> isIndex then (guardServe, markKeyClean hash s)
         else (guardEvicted, evictModuleIndex env key s))"

definition evictModuleIndexOnReadByKey ::
    "decoders \<Rightarrow> sysEnv \<Rightarrow> string \<Rightarrow> ObjectMeta \<Rightarrow> Storage \<Rightarrow> bool \<times> Storage" where
  "evictModuleIndexOnReadByKey dec env key om s =
    (let (hash, ok) = extractActionHash key in
     if \<not> ok then (False, s)
     else let (known, s) = keyKnownClean hash s in
       if known then (False, s)
       else case openRaw env key s of Inl e \<Rightarrow> (False, s)
       | Inr f \<Rightarrow>
         let (isIndex, readErr) = readIsModuleIndex dec (fileReader env f) (kvGet (om_Metadata om) ''compression'') in
         if readErr \<noteq> None then (False, s)
         else if \<not> isIndex then (False, markKeyClean hash s)
         else (True, evictModuleIndex env key s))"

subsection \<open>Diagnosing an absent key\<close>

definition absentKeyReason :: "string \<Rightarrow> Storage \<Rightarrow> string \<times> Storage" where
  "absentKeyReason key s =
    (let (h, ok) = extractActionHash key in
     if ok \<and> (case st_index s of None \<Rightarrow> False | Some idx \<Rightarrow> Index_Contains idx h) then (''advertised_unservable'', s)
     else let (gone, s) = wasEvicted key s in
       if gone then (''evicted'', s) else (''not_found'', s))"

section \<open>What the guards rely on\<close>

definition digestMatches :: "diskFile \<Rightarrow> bool" where
  "digestMatches f \<longleftrightarrow> (let want = kvGet (getMetadata f) storedDigestMetaKey
     in want = [] \<or> equalFold want (storedDigest (sha256 (f_body f))))"

definition identityFile :: "diskFile \<Rightarrow> fileIdentity" where
  "identityFile f = \<lparr>fi_ino = f_ino f, fi_size = int (length (f_body f)), fi_mtime = f_mtime f\<rparr>"

definition passesProbe :: "decoders \<Rightarrow> diskFile \<Rightarrow> bool" where
  "passesProbe dec f \<longleftrightarrow> (\<exists>compression. readIsModuleIndex dec (bytesReader (f_body f)) compression = (False, None))"

definition digestLookup :: "Storage \<Rightarrow> actionHash \<Rightarrow> fileIdentity option" where
  "digestLookup s h = (case st_digestOK s of None \<Rightarrow> None | Some c \<Rightarrow> lruLookup memoShard c h)"

definition cleanLookup :: "Storage \<Rightarrow> actionHash \<Rightarrow> unit option" where
  "cleanLookup s h = (case st_cleanKeys s of None \<Rightarrow> None | Some c \<Rightarrow> lruLookup memoShard c h)"

definition memoOk :: "decoders \<Rightarrow> Storage \<Rightarrow> diskFile \<Rightarrow> actionHash \<Rightarrow> bool" where
  "memoOk dec s f h \<longleftrightarrow> (digestLookup s h = Some (identityFile f) \<longrightarrow> digestMatches f) \<and>
     (cleanLookup s h \<noteq> None \<longrightarrow> passesProbe dec f)"

text \<open>The invariant of the server: the store's, no two files share an inode, no two keys share an
  action hash, and what the memos say of a key holds of its file.\<close>

definition inoInj :: "Storage \<Rightarrow> bool" where
  "inoInj s \<longleftrightarrow> distinct (map fst (st_files s)) \<and>
     (\<forall>p q f g. lookupFile p s = Some f \<longrightarrow> lookupFile q s = Some g \<longrightarrow> f_ino f = f_ino g \<longrightarrow> p = q)"

definition hashInj :: "string set \<Rightarrow> bool" where
  "hashInj K \<longleftrightarrow> (\<forall>k \<in> K. \<forall>k' \<in> K. snd (extractActionHash k) \<longrightarrow> extractActionHash k = extractActionHash k' \<longrightarrow> k = k')"

definition guardsOk :: "decoders \<Rightarrow> string set \<Rightarrow> Storage \<Rightarrow> bool" where
  "guardsOk dec K s \<longleftrightarrow> storeOk K s \<and> inoInj s \<and> hashInj K \<and>
     (\<forall>k \<in> K. \<forall>h f. extractActionHash k = (h, True) \<longrightarrow> lookupFile (pathOf s k) s = Some f \<longrightarrow> memoOk dec s f h)"

section \<open>Memos\<close>

lemma memoOk_mono:
  assumes "memoOk dec s f h"
    and "digestLookup s' h = None \<or> digestLookup s' h = digestLookup s h"
    and "cleanLookup s' h = None \<or> cleanLookup s' h = cleanLookup s h"
  shows "memoOk dec s' f h"
  using assms by (auto simp: memoOk_def)

lemma digestLookup_simps [simp]:
  "digestLookup (setFile p f s) = digestLookup s" "digestLookup (dropFile p s) = digestLookup s"
  "digestLookup (s\<lparr>st_index := i\<rparr>) = digestLookup s" "digestLookup (forgetMeta k s) = digestLookup s"
  "digestLookup (forgetEvicted k s) = digestLookup s" "digestLookup (forgetAccess k s) = digestLookup s"
  "digestLookup (recordAccess env k s) = digestLookup s" "digestLookup (writeInode f s) = digestLookup s"
  by (simp_all add: fun_eq_iff digestLookup_def writeInode_def)

lemma cleanLookup_simps [simp]:
  "cleanLookup (setFile p f s) = cleanLookup s" "cleanLookup (dropFile p s) = cleanLookup s"
  "cleanLookup (s\<lparr>st_index := i\<rparr>) = cleanLookup s" "cleanLookup (forgetMeta k s) = cleanLookup s"
  "cleanLookup (forgetEvicted k s) = cleanLookup s" "cleanLookup (forgetAccess k s) = cleanLookup s"
  "cleanLookup (recordAccess env k s) = cleanLookup s" "cleanLookup (writeInode f s) = cleanLookup s"
  by (simp_all add: fun_eq_iff cleanLookup_def writeInode_def)

lemma forgetClean_lookup:
  assumes "memosOk s" "extractActionHash key = (hk, ok)"
  shows "digestLookup (forgetClean key s) h = (if ok \<and> h = hk then None else digestLookup s h)"
    "cleanLookup (forgetClean key s) h = (if ok \<and> h = hk then None else cleanLookup s h)"
  using assms
  by (auto simp: forgetClean_def digestLookup_def cleanLookup_def memosOk_def Let_def lru_Forget_ok split: option.splits)

lemma loadMetadata_memos:
  assumes "loadMetadata env key f s = (kv, s')"
  shows "st_digestOK s' = st_digestOK s" "st_cleanKeys s' = st_cleanKeys s" "st_evicted s' = st_evicted s"
  using assms unfolding loadMetadata_def by (auto simp: Let_def split: option.splits prod.splits if_splits)

lemma memo_frame:
  assumes "st_digestOK s' = st_digestOK s" "st_cleanKeys s' = st_cleanKeys s"
  shows "digestLookup s' = digestLookup s" "cleanLookup s' = cleanLookup s"
  using assms by (simp_all add: fun_eq_iff digestLookup_def cleanLookup_def)

lemma inoInj_files: "st_files s' = st_files s \<Longrightarrow> inoInj s' = inoInj s"
  by (simp add: inoInj_def lookupFile_def)

text \<open>A change that leaves the files alone and forgets memos at most.\<close>

lemma guardsOk_quiet:
  assumes "guardsOk dec K s" "storeOk K s'" "st_files s' = st_files s" "st_dataDir s' = st_dataDir s"
    and "\<And>h. digestLookup s' h = None \<or> digestLookup s' h = digestLookup s h"
    and "\<And>h. cleanLookup s' h = None \<or> cleanLookup s' h = cleanLookup s h"
  shows "guardsOk dec K s'"
  using assms inoInj_files [OF assms(3)] memoOk_mono [OF _ assms(5,6)]
  unfolding guardsOk_def pathOf_def lookupFile_def by simp

text \<open>A change of one key's file, with its memos forgotten.\<close>

lemma guardsOk_change:
  assumes "guardsOk dec K s" "storeOk K s'" "inoInj s'" "key \<in> K" "pathOf s' = pathOf s"
    and "\<And>p. p \<noteq> pathOf s key \<Longrightarrow> lookupFile p s' = lookupFile p s"
    and "digestLookup s' = digestLookup (forgetClean key s)" "cleanLookup s' = cleanLookup (forgetClean key s)"
  shows "guardsOk dec K s'"
  unfolding guardsOk_def
proof (intro conjI ballI allI impI)
  show "storeOk K s'" "inoInj s'" "hashInj K" using assms(1-3) by (simp_all add: guardsOk_def)
  fix k h f assume k: "k \<in> K" "extractActionHash k = (h, True)" "lookupFile (pathOf s' k) s' = Some f"
  have m: "memosOk s" using assms(1) by (simp add: guardsOk_def storeOk_def)
  obtain hk ok where hk: "extractActionHash key = (hk, ok)" by fastforce
  note fl = forgetClean_lookup [OF m hk]
  show "memoOk dec s' f h"
  proof (cases "k = key")
    case True
    then have "ok" "h = hk" using k(2) hk by simp_all
    then have "digestLookup s' h = None" "cleanLookup s' h = None" by (simp_all only: assms(7,8) fl simp_thms if_True)
    then show ?thesis by (simp add: memoOk_def)
  next
    case False
    then have "pathOf s k \<noteq> pathOf s key"
      using assms(1,4) k(1) unfolding guardsOk_def storeOk_def by (metis inj_onD)
    moreover have "\<not> (ok \<and> h = hk)"
      using False assms(1,4) k(1,2) hk unfolding guardsOk_def hashInj_def by (metis snd_conv)
    ultimately have d: "pathOf s k \<noteq> pathOf s key" "\<not> (ok \<and> h = hk)" by blast+
    have "lookupFile (pathOf s k) s = Some f" using k(3) d(1) assms(5) assms(6) [of "pathOf s k"] by simp
    then have "memoOk dec s f h" using assms(1) k(1,2) unfolding guardsOk_def by blast
    then show ?thesis by (rule memoOk_mono) (simp_all only: assms(7,8) fl d(2) if_False simp_thms)
  qed
qed

section \<open>Operations of the store\<close>

lemma guardsOk_load:
  assumes "guardsOk dec K s" "storeOk K s'" "sameFiles s s'"
    and "st_digestOK s' = st_digestOK s" "st_cleanKeys s' = st_cleanKeys s"
  shows "guardsOk dec K s'"
  using guardsOk_quiet [OF assms(1,2)] assms(3) memo_frame [OF assms(4,5)] by (simp add: sameFiles_def)

lemma Open_memos:
  "Open env key s = (res, s') \<Longrightarrow> st_digestOK s' = st_digestOK s \<and> st_cleanKeys s' = st_cleanKeys s"
  by (auto simp: Open_def loadMetadata_memos split: sum.splits option.splits prod.splits)

lemma Stat_memos:
  "Stat env key s = (res, s') \<Longrightarrow> st_digestOK s' = st_digestOK s \<and> st_cleanKeys s' = st_cleanKeys s"
  by (auto simp: Stat_def loadMetadata_memos split: sum.splits option.splits prod.splits)

lemma Open_guards:
  assumes "guardsOk dec K s" "key \<in> K" "visitsAll (env_order env)" "Open env key s = (res, s')"
  shows "guardsOk dec K s' \<and> sameFiles s s' \<and>
    (\<forall>f om. res = Inr (f, om) \<longrightarrow> lookupFile (pathOf s key) s = Some f \<and> map_of (om_Metadata om) = map_of (getMetadata f)
       \<and> distinct (map fst (om_Metadata om)) \<and> om_Size om = int (length (f_body f)) \<and> om_ModTime om = f_mtime f)"
  using Open_ok [OF _ assms(2-4)] guardsOk_load [OF assms(1)] Open_memos [OF assms(4)] assms(1)
  unfolding guardsOk_def by blast

lemma Stat_guards:
  assumes "guardsOk dec K s" "key \<in> K" "visitsAll (env_order env)" "Stat env key s = (res, s')"
  shows "guardsOk dec K s' \<and> sameFiles s s' \<and>
    (\<forall>om. res = Inr om \<longrightarrow> (\<exists>f. lookupFile (pathOf s key) s = Some f \<and> map_of (om_Metadata om) = map_of (getMetadata f)
       \<and> distinct (map fst (om_Metadata om)) \<and> om_Size om = int (length (f_body f)) \<and> om_ModTime om = f_mtime f))"
  using Stat_ok [OF _ assms(2-4)] guardsOk_load [OF assms(1)] Stat_memos [OF assms(4)] assms(1)
  unfolding guardsOk_def by blast

lemma OpenBody_guards:
  assumes "guardsOk dec K s" "OpenBody env key s = (res, s')"
  shows "guardsOk dec K s' \<and> sameFiles s s' \<and>
    (\<forall>f n. res = Inr (f, n) \<longrightarrow> lookupFile (pathOf s key) s = Some f \<and> n = int (length (f_body f)))"
proof -
  have "s' = s \<or> s' = recordAccess env key s"
    using assms(2) by (auto simp: OpenBody_def split: sum.splits option.splits)
  then have "guardsOk dec K s' \<and> sameFiles s s'"
    using assms(1) guardsOk_load [of dec K s "recordAccess env key s"] by (auto simp: guardsOk_def)
  then show ?thesis
    using assms(2) by (auto simp: OpenBody_def osOpen_def split: sum.splits option.splits)
qed

lemma distinct_files [simp]:
  "distinct (map fst (st_files s)) \<Longrightarrow> distinct (map fst (st_files (setFile p f s)))"
  "distinct (map fst (st_files s)) \<Longrightarrow> distinct (map fst (st_files (dropFile p s)))"
  "distinct (map fst (st_files s)) \<Longrightarrow> distinct (map fst (st_files (removeTemp env s)))"
  by (simp_all add: setFile_def dropFile_def removeTemp_def distinct_update distinct_delete split: option.split)

lemma putCommit_distinct:
  "distinct (map fst (st_files s)) \<Longrightarrow> distinct (map fst (st_files (snd (putCommit env key f s))))"
  by (simp add: putCommit_def Let_def split: option.split)

lemma putAttrs_distinct:
  "distinct (map fst (st_files s)) \<Longrightarrow> distinct (map fst (st_files (snd (putAttrs env key f a s))))"
  by (simp add: putAttrs_def Let_def putCommit_distinct split: option.split)

lemma PutStream_distinct:
  "distinct (map fst (st_files s)) \<Longrightarrow> distinct (map fst (st_files (snd (PutStream dec env key r m aud s))))"
  unfolding PutStream_def
  by (cases "firstStop [if env_dirMissing env then map_option ErrCreateDirs (env_fault env SysMkdirAll) else None,
        map_option ErrCreateTemp (env_fault env SysCreateTemp)]")
    (simp_all add: Let_def putAttrs_distinct split: option.split)

text \<open>The keys the index lists.\<close>

definition indexKeys :: "Storage \<Rightarrow> string set" where
  "indexKeys s = (case st_index s of None \<Rightarrow> {}
     | Some idx \<Rightarrow> (\<lambda>e. compactKey_Key (ie_key e)) ` (set (ix_entries idx) \<union> set (ix_pendingEntries idx)))"

lemma indexKeys_Remove:
  assumes "st_index s' = map_option (Index_Remove e key) (st_index s)" shows "indexKeys s' \<subseteq> indexKeys s"
proof -
  have "set (ix_entries (Index_Remove e key i)) \<union> set (ix_pendingEntries (Index_Remove e key i))
      \<subseteq> set (ix_entries i) \<union> set (ix_pendingEntries i)" for i
  proof -
    let ?d = "drainEntriesLocked i"
    have "set (ix_entries (Index_Remove e key i)) \<subseteq> set (ix_entries ?d)"
        "set (ix_pendingEntries (Index_Remove e key i)) = set (ix_pendingEntries ?d)"
      by (simp_all add: Index_Remove_def Let_def resetAddLogLocked_def set_dropFirstEntry split: prod.splits)
    moreover have "set (ix_entries ?d) \<union> set (ix_pendingEntries ?d) \<subseteq> set (ix_entries i) \<union> set (ix_pendingEntries i)"
      by (simp add: drainEntriesLocked_def sortEntriesByMtime_def)
    ultimately show ?thesis by blast
  qed
  then show ?thesis using assms by (cases "st_index s") (auto simp: indexKeys_def)
qed

lemma indexKeys_Put:
  assumes "st_index s' = map_option (Index_Put now e key) (st_index s)"
  shows "indexKeys s' \<subseteq> insert (compactKey_Key (newCompactKey key)) (indexKeys s)"
proof -
  have "set (ix_entries (Index_Put now e key i)) = set (ix_entries i) \<and>
      set (ix_pendingEntries (Index_Put now e key i)) \<subseteq> insert \<lparr>ie_key = newCompactKey key, ie_mtimeUnix = now\<rparr> (set (ix_pendingEntries i))" for i
    by (auto simp: Index_Put_def Let_def appendAddLocked_def resetAddLogLocked_def split: prod.splits if_splits)
  then show ?thesis using assms by (cases "st_index s") (fastforce simp: indexKeys_def)+
qed

lemma Delete_guards:
  assumes "guardsOk dec K s" "key \<in> K" "Delete env key s = (err, s')"
  shows "guardsOk dec K s' \<and> pathOf s' = pathOf s \<and> indexKeys s' \<subseteq> indexKeys s \<and>
    (err \<noteq> None \<and> s' = s \<or>
     err = None \<and> (\<forall>p. lookupFile p s' = (if p = pathOf s key then None else lookupFile p s)))"
proof (cases "err = None")
  case False
  then show ?thesis using Delete_ok [OF _ assms(2,3)] assms(1) by (auto simp: guardsOk_def)
next
  case True
  have so: "storeOk K s" "inoInj s" using assms(1) by (simp_all add: guardsOk_def)
  note d = Delete_ok [OF so(1) assms(2,3)]
  then have look: "\<forall>p. lookupFile p s' = (if p = pathOf s key then None else lookupFile p s)" using True by auto
  have s': "s' = forgetMeta key (forgetClean key (forgetAccess key (let s = dropFile (pathOf s key) s
      in s\<lparr>st_index := map_option (Index_Remove (env_epoch env) key) (st_index s)\<rparr>)))"
    using assms(3) True by (auto simp: Delete_def Let_def split: sum.splits)
  have "inoInj s'"
    using so(2) look unfolding inoInj_def by (simp add: s' Let_def)
  moreover have "digestLookup s' = digestLookup (forgetClean key s)" "cleanLookup s' = cleanLookup (forgetClean key s)"
    using so(1) unfolding s' storeOk_def
    by (auto simp: fun_eq_iff Let_def forgetClean_lookup memosOk_forgets)
      (simp_all add: forgetClean_def digestLookup_def cleanLookup_def Let_def split: prod.splits option.splits)
  ultimately have "guardsOk dec K s'"
    using guardsOk_change [OF assms(1) _ _ assms(2)] d look by simp
  moreover have "indexKeys s' \<subseteq> indexKeys s" using d True indexKeys_Remove by blast
  ultimately show ?thesis using d look True by simp
qed

text \<open>What a put needs of the system beyond \<open>putEnvOk\<close>: names and inodes that are new.\<close>

definition putFresh :: "sysEnv \<Rightarrow> string set \<Rightarrow> Storage \<Rightarrow> bool" where
  "putFresh env K s \<longleftrightarrow> putEnvOk env s \<and> env_tmp env \<notin> pathOf s ` K \<and> env_cap env < 2 ^ 63 \<and>
     (\<forall>p f. lookupFile p s = Some f \<longrightarrow> f_ino f \<noteq> env_ino env)"

lemma putState_memos:
  assumes "memosOk s" "s' = putState env key f (setFile t f0 s)"
  shows "digestLookup s' = digestLookup (forgetClean key s)" "cleanLookup s' = cleanLookup (forgetClean key s)"
proof -
  let ?t = "setFile (pathOf s key) f (dropFile (env_tmp env) (setFile t f0 s))"
  obtain hk ok where hk: "extractActionHash key = (hk, ok)" by fastforce
  have "memosOk ?t" using assms(1) by simp
  note l = forgetClean_lookup [OF this hk] forgetClean_lookup [OF assms(1) hk]
  show "digestLookup s' = digestLookup (forgetClean key s)" "cleanLookup s' = cleanLookup (forgetClean key s)"
    unfolding assms(2) putState_def Let_def by (simp_all add: fun_eq_iff l)
qed

lemma PutStream_guards:
  assumes "guardsOk dec K s" "key \<in> K" "putFresh env K s" "\<And>a. aud = Some a \<Longrightarrow> distinct (map fst a)"
    and "PutStream dec env key r m aud s = (err, s')"
  shows "guardsOk dec K s' \<and> pathOf s' = pathOf s \<and>
    indexKeys s' \<subseteq> insert (compactKey_Key (newCompactKey key)) (indexKeys s) \<and>
    ((\<forall>p. lookupFile p s' = lookupFile p s) \<and> (err = None \<longrightarrow> putStops dec env (pathOf s key) r m s = Some None) \<or>
     err = None \<and> putStops dec env (pathOf s key) r m s = None \<and>
     (\<exists>f. f_body f = rd_data r \<and> storedMeta r m (map_of (getMetadata f)) \<and> (isKeySafe key \<or> f_orig f = Some key) \<and> f_ino f = env_ino env \<and>
        (\<forall>p. lookupFile p s' = (if p = pathOf s key then Some f else lookupFile p s))))"
proof -
  have so: "storeOk K s" "inoInj s" "memosOk s" using assms(1) by (simp_all add: guardsOk_def storeOk_def)
  have env: "putEnvOk env s" "env_tmp env \<notin> pathOf s ` K" "env_cap env < 2 ^ 63"
    using assms(3) by (simp_all add: putFresh_def)
  note ok = PutStream_ok [OF so(1) assms(2) env assms(4,5)]
  have dist: "distinct (map fst (st_files s'))"
    using PutStream_distinct [of s dec env key r m aud] so(2) assms(5) by (simp add: inoInj_def)
  from PutStream_cases [OF env(1) assms(5)] show ?thesis
  proof (elim disjE conjE exE)
    assume same: "sameStore s s'" and e: "err = None \<longrightarrow> putStops dec env (pathOf s key) r m s = Some None"
    note sd = sameStoreD [OF same]
    have "inoInj s'" using so(2) dist sd(9) unfolding inoInj_def by simp
    then have "guardsOk dec K s'"
      using assms(1) ok memo_frame [of s' s] sd sd(9)
      unfolding guardsOk_def memoOk_def by (simp add: pathOf_def)
    moreover have "indexKeys s' = indexKeys s" using sd(2) by (simp add: indexKeys_def)
    ultimately show ?thesis using ok sd(9) e by blast
  next
    fix dropped attr f0
    assume st: "putStops dec env (pathOf s key) r m s = None" "err = None"
      and s': "s' = putState env key (putFile env key r attr) (setFile (env_tmp env) f0 s)"
    then obtain f where f: "f_body f = rd_data r" "storedMeta r m (map_of (getMetadata f))" "f_ino f = env_ino env"
        "\<forall>p. lookupFile p s' = (if p = pathOf s key then Some f else lookupFile p s)" "isKeySafe key \<or> f_orig f = Some key"
        "st_index s' = map_option (Index_Put (unixSec (env_now env)) (env_epoch env) key) (st_index s)"
      using ok by (metis option.distinct(1))
    have "inoInj s'"
      using so(2) dist f(3,4) assms(3) unfolding inoInj_def putFresh_def by (metis option.inject)
    then have "guardsOk dec K s'"
      using guardsOk_change [OF assms(1) _ _ assms(2)] ok f(4) putState_memos [OF so(3) s'] by simp
    then show ?thesis using ok f(1-5) indexKeys_Put [OF f(6)] st by blast
  qed
qed

section \<open>The module-index guard\<close>

lemma keyKnownClean_ok:
  assumes "guardsOk dec K s" "keyKnownClean h s = (known, s')"
  shows "guardsOk dec K s' \<and> sameFiles s s' \<and> known = (cleanLookup s h \<noteq> None) \<and> pathOf s' = pathOf s"
proof (cases "st_cleanKeys s")
  case None
  then show ?thesis using assms by (auto simp: keyKnownClean_def cleanLookup_def)
next
  case (Some c)
  obtain r c' where g: "lru_Get memoShard c h = (r, c')" by fastforce
  have c: "lruOk memoShard c" using assms(1) Some by (simp add: guardsOk_def storeOk_def memosOk_def)
  note g' = lru_Get_ok [OF c g]
  have r: "known = (r \<noteq> None)" "s' = s\<lparr>st_cleanKeys := Some c'\<rparr>"
    using assms(2) Some g by (auto simp: keyKnownClean_def)
  have so: "storeOk K s'"
    using assms(1) g'(2)
    by (simp add: r guardsOk_def storeOk_def memosOk_def metaCoherent_def metaLookup_def pathOf_def [abs_def] lookupFile_def)
  have "cleanLookup s' h' = cleanLookup s h'" "digestLookup s' h' = digestLookup s h'" for h'
    using g'(3) Some by (simp_all add: r cleanLookup_def digestLookup_def)
  then have "guardsOk dec K s'" using guardsOk_quiet [OF assms(1) so] by (simp add: r)
  then show ?thesis using g'(1) Some r by (simp add: cleanLookup_def sameFiles_def pathOf_def [abs_def])
qed

lemma markKeyClean_ok:
  assumes "guardsOk dec K s" "key \<in> K" "extractActionHash key = (h, True)" "lookupFile (pathOf s key) s = Some f"
    and "passesProbe dec f"
  shows "guardsOk dec K (markKeyClean h s) \<and> sameFiles s (markKeyClean h s)"
proof (cases "st_cleanKeys s")
  case None
  then show ?thesis using assms(1) by (simp add: markKeyClean_def)
next
  case (Some c)
  let ?c = "lru_Put memoShard (\<lambda>_ _. cleanEntryBytes) c h ()" and ?s = "markKeyClean h s"
  have s': "?s = s\<lparr>st_cleanKeys := Some ?c\<rparr>" using Some by (simp add: markKeyClean_def)
  have c: "lruOk memoShard c" using assms(1) Some by (simp add: guardsOk_def storeOk_def memosOk_def)
  note pl = lru_Put_lookup [OF c, where sizeOf = "\<lambda>_ _. cleanEntryBytes" and k = h and v = "()"]
  have so: "storeOk K ?s"
    using assms(1) lru_Put_ok [OF c]
    by (simp add: s' guardsOk_def storeOk_def memosOk_def metaCoherent_def metaLookup_def pathOf_def [abs_def] lookupFile_def)
  have dl: "digestLookup ?s = digestLookup s" by (simp add: s' fun_eq_iff digestLookup_def)
  have cl: "h' \<noteq> h \<Longrightarrow> cleanLookup ?s h' = None \<or> cleanLookup ?s h' = cleanLookup s h'" for h'
    using pl Some by (auto simp: s' cleanLookup_def)
  have files: "lookupFile p ?s = lookupFile p s" "pathOf ?s k = pathOf s k" for p k
    by (simp_all add: s' lookupFile_def pathOf_def)
  have "memoOk dec ?s f' h'"
    if k: "k \<in> K" "extractActionHash k = (h', True)" "lookupFile (pathOf s k) s = Some f'" for k h' f'
  proof -
    have m: "memoOk dec s f' h'" using assms(1) k unfolding guardsOk_def by blast
    show ?thesis
    proof (cases "h' = h")
      case True
      then have "k = key" using assms(1-3) k unfolding guardsOk_def hashInj_def by (metis snd_conv)
      then have "f' = f" using assms(4) k(3) by simp
      then show ?thesis using m assms(5) by (simp add: memoOk_def dl)
    next
      case False
      then show ?thesis using memoOk_mono [OF m, of ?s] cl dl by simp
    qed
  qed
  moreover have "inoInj ?s" using assms(1) inoInj_files [of ?s s] by (simp add: s' guardsOk_def)
  ultimately have "guardsOk dec K ?s" using assms(1) so unfolding guardsOk_def files by blast
  then show ?thesis by (simp add: s' sameFiles_def)
qed

lemma fileReader_ok: "readIsModuleIndex dec (fileReader env f) comp' = (b, None) \<Longrightarrow> fileReader env f = bytesReader (f_body f)"
  by (auto simp: fileReader_def readIsModuleIndex_def readFull_def lz4HeadPeekBytes_def split: option.splits)

lemma sameFiles_path: "sameFiles s s' \<Longrightarrow> pathOf s' = pathOf s" "sameFiles s s' \<Longrightarrow> lookupFile p s' = lookupFile p s"
  by (simp_all add: sameFiles_def pathOf_def [abs_def] lookupFile_def)

lemma indexKeys_same: "sameFiles s s' \<Longrightarrow> indexKeys s' = indexKeys s"
  by (simp add: sameFiles_def indexKeys_def)

text \<open>What a guard does: it lets the object through unchanged, or the object is gone or stays
  unread.\<close>

definition guardStep :: "decoders \<Rightarrow> string set \<Rightarrow> string \<Rightarrow> Storage \<Rightarrow> Storage \<Rightarrow> bool" where
  "guardStep dec K key s s' \<longleftrightarrow> guardsOk dec K s' \<and> pathOf s' = pathOf s \<and> indexKeys s' \<subseteq> indexKeys s \<and>
     (\<forall>p. lookupFile p s' = lookupFile p s \<or> p = pathOf s key \<and> lookupFile p s' = None)"

lemma guardStep_same: "guardsOk dec K s' \<Longrightarrow> sameFiles s s' \<Longrightarrow> guardStep dec K key s s'"
  by (simp add: guardStep_def sameFiles_path indexKeys_same)

lemma guardStep_Delete: "guardsOk dec K s \<Longrightarrow> key \<in> K \<Longrightarrow> guardStep dec K key s (snd (Delete env key s))"
  using Delete_guards [of dec K s key env "fst (Delete env key s)" "snd (Delete env key s)"]
  by (auto simp: guardStep_def split: if_splits)

lemma guardStep_trans:
  assumes "sameFiles s t" "guardStep dec K key t u" shows "guardStep dec K key s u"
  using assms sameFiles_path [OF assms(1)] indexKeys_same [OF assms(1)] by (simp add: guardStep_def)

lemma evictModuleIndexOnRead_ok:
  assumes "guardsOk dec K s" "key \<in> K" "lookupFile (pathOf s key) s = Some f"
    and "evictModuleIndexOnRead dec env key f om s = (v, s')"
  shows "guardStep dec K key s s' \<and>
    (v = guardServe \<longrightarrow> sameFiles s s' \<and> (snd (extractActionHash key) \<longrightarrow> passesProbe dec f))"
proof -
  obtain h ok where h: "extractActionHash key = (h, ok)" by fastforce
  obtain known s1 where kn: "keyKnownClean h s = (known, s1)" by fastforce
  note k1 = keyKnownClean_ok [OF assms(1) kn]
  obtain isIndex readErr where ri: "readIsModuleIndex dec (fileReader env f) (kvGet (om_Metadata om) ''compression'') = (isIndex, readErr)"
    by fastforce
  show ?thesis
  proof (cases "\<not> ok")
    case True
    then show ?thesis using assms h guardStep_same [of dec K s s key] by (simp add: evictModuleIndexOnRead_def)
  next
    case ok: False
    then have hT: "extractActionHash key = (h, True)" using h by simp
    have f1: "lookupFile (pathOf s1 key) s1 = Some f" using assms(3) sameFiles_path [of s s1] k1 by simp
    have clean: "known \<Longrightarrow> passesProbe dec f"
      using assms(1-3) hT k1 unfolding guardsOk_def memoOk_def by blast
    note g1 = guardStep_same [of dec K s1 s key]
    consider "known" | "\<not> known" "env_fault env SysSeek \<noteq> None \<or> readErr \<noteq> None"
      | "\<not> known" "env_fault env SysSeek = None" "readErr = None" "\<not> isIndex"
      | "\<not> known" "env_fault env SysSeek = None" "readErr = None" "isIndex" by blast
    then show ?thesis
    proof cases
      case 1
      then show ?thesis using assms(4) hT kn g1 k1 clean by (simp add: evictModuleIndexOnRead_def)
    next
      case 2
      then show ?thesis using assms(4) hT kn g1 k1 ri by (auto simp: evictModuleIndexOnRead_def split: if_splits)
    next
      case 3
      have "passesProbe dec f" using 3 ri fileReader_ok [of dec env f] unfolding passesProbe_def by metis
      moreover have "v = guardServe" "s' = markKeyClean h s1"
        using assms(4) hT kn ri 3 by (simp_all add: evictModuleIndexOnRead_def)
      ultimately show ?thesis
        using markKeyClean_ok [OF _ assms(2) hT f1] k1 sameFiles_trans guardStep_same by blast
    next
      case 4
      have "v = guardEvicted" "s' = snd (Delete env key s1)"
        using assms(4) hT kn ri 4 by (simp_all add: evictModuleIndexOnRead_def evictModuleIndex_def)
      then show ?thesis using guardStep_Delete [OF _ assms(2), of dec s1 env] guardStep_trans k1 by blast
    qed
  qed
qed

lemma evictModuleIndexOnReadByKey_ok:
  assumes "guardsOk dec K s" "key \<in> K" "lookupFile (pathOf s key) s = Some f"
    and "evictModuleIndexOnReadByKey dec env key om s = (evicted, s')"
  shows "guardStep dec K key s s' \<and> (\<not> evicted \<longrightarrow> sameFiles s s')"
proof -
  obtain h ok where h: "extractActionHash key = (h, ok)" by fastforce
  obtain known s1 where kn: "keyKnownClean h s = (known, s1)" by fastforce
  note k1 = keyKnownClean_ok [OF assms(1) kn]
  obtain isIndex readErr where ri: "readIsModuleIndex dec (fileReader env f) (kvGet (om_Metadata om) ''compression'') = (isIndex, readErr)"
    by fastforce
  have f1: "lookupFile (pathOf s1 key) s1 = Some f" using assms(3) sameFiles_path [of s s1] k1 by simp
  note g1 = guardStep_same [of dec K s1 s key]
  consider "\<not> ok" | "ok" "known" | "ok" "\<not> known" "env_fault env SysOpen \<noteq> None \<or> readErr \<noteq> None"
    | "ok" "\<not> known" "env_fault env SysOpen = None" "readErr = None" "\<not> isIndex"
    | "ok" "\<not> known" "env_fault env SysOpen = None" "readErr = None" "isIndex" by blast
  then show ?thesis
  proof cases
    case 1
    then show ?thesis using assms h guardStep_same [of dec K s s key] by (simp add: evictModuleIndexOnReadByKey_def)
  next
    case 2
    then show ?thesis using assms(4) h kn g1 k1 by (simp add: evictModuleIndexOnReadByKey_def)
  next
    case 3
    then show ?thesis
      using assms(4) h kn g1 k1 ri f1
      by (auto simp: evictModuleIndexOnReadByKey_def openRaw_def osOpen_def split: if_splits option.splits)
  next
    case 4
    have "passesProbe dec f" using 4 ri fileReader_ok [of dec env f] unfolding passesProbe_def by metis
    moreover have "\<not> evicted" "s' = markKeyClean h s1"
      using assms(4) h kn ri 4 f1 by (simp_all add: evictModuleIndexOnReadByKey_def openRaw_def osOpen_def)
    moreover have "extractActionHash key = (h, True)" using h 4 by simp
    ultimately show ?thesis
      using markKeyClean_ok [OF _ assms(2) _ f1] k1 sameFiles_trans guardStep_same by blast
  next
    case 5
    have "evicted" "s' = snd (Delete env key s1)"
      using assms(4) h kn ri 5 f1 by (simp_all add: evictModuleIndexOnReadByKey_def evictModuleIndex_def openRaw_def osOpen_def)
    then show ?thesis using guardStep_Delete [OF _ assms(2), of dec s1 env] guardStep_trans k1 by blast
  qed
qed

section \<open>The digest guard\<close>

lemma verifyStoredDigest_matches:
  assumes "kvGet m storedDigestMetaKey = kvGet (getMetadata f) storedDigestMetaKey"
    and "verifyStoredDigest env (f_body f) m = Inr b"
  shows "b = digestMatches f"
  using assms by (auto simp: verifyStoredDigest_def bodyMatchesStoredDigest_def digestMatches_def Let_def
      split: if_splits option.splits)

lemma digestOK_guards:
  assumes "guardsOk dec K s" "\<And>c'. oc = Some c' \<Longrightarrow> lruOk memoShard c'"
    and "\<And>k h f. k \<in> K \<Longrightarrow> extractActionHash k = (h, True) \<Longrightarrow> lookupFile (pathOf s k) s = Some f \<Longrightarrow>
      digestLookup (s\<lparr>st_digestOK := oc\<rparr>) h = Some (identityFile f) \<Longrightarrow> digestMatches f"
  shows "guardsOk dec K (s\<lparr>st_digestOK := oc\<rparr>)"
proof -
  let ?s = "s\<lparr>st_digestOK := oc\<rparr>"
  have so: "storeOk K ?s"
    using assms(1,2)
    by (simp add: guardsOk_def storeOk_def memosOk_def metaCoherent_def metaLookup_def pathOf_def [abs_def] lookupFile_def)
  have f: "lookupFile p ?s = lookupFile p s" "pathOf ?s k = pathOf s k" "cleanLookup ?s = cleanLookup s" for p k
    by (simp_all add: lookupFile_def pathOf_def cleanLookup_def fun_eq_iff)
  have "memoOk dec ?s g h" if "k \<in> K" "extractActionHash k = (h, True)" "lookupFile (pathOf s k) s = Some g" for k h g
    using assms(1) assms(3) [OF that] that unfolding guardsOk_def memoOk_def f by blast
  then show ?thesis
    using assms(1) so inoInj_files [of ?s s] unfolding guardsOk_def f by simp
qed

text \<open>The digest memo after a lookup, and after a match is recorded.\<close>

lemma digestMemo_get:
  assumes "guardsOk dec K s" "st_digestOK s = Some c" "lru_Get memoShard c h = (g, c')"
  shows "guardsOk dec K (s\<lparr>st_digestOK := Some c'\<rparr>) \<and> lruOk memoShard c' \<and> g = digestLookup s h \<and>
    (\<forall>h'. lruLookup memoShard c' h' = digestLookup s h')"
proof -
  have cok: "lruOk memoShard c" using assms(1,2) by (simp add: guardsOk_def storeOk_def memosOk_def)
  note g' = lru_Get_ok [OF cok assms(3)]
  have l: "lruLookup memoShard c' h' = digestLookup s h'" for h' using g'(3) assms(2) by (simp add: digestLookup_def)
  have "digestLookup (s\<lparr>st_digestOK := Some c'\<rparr>) = digestLookup s" using l by (simp add: fun_eq_iff digestLookup_def)
  then have "guardsOk dec K (s\<lparr>st_digestOK := Some c'\<rparr>)"
    using assms(1) g'(2) by (intro digestOK_guards [OF assms(1)]) (auto simp: guardsOk_def memoOk_def)
  then show ?thesis using g' l assms(2) by (simp add: digestLookup_def)
qed

lemma digestMemo_put:
  fixes id :: fileIdentity
  assumes ok: "guardsOk dec K s" "key \<in> K" "lookupFile (pathOf s key) s = Some f" "extractActionHash key = (h, True)"
    and c': "lruOk memoShard c'" "\<And>h'. lruLookup memoShard c' h' = digestLookup s h'" and m: "digestMatches f"
  shows "guardsOk dec K (s\<lparr>st_digestOK := Some (lru_Put memoShard (\<lambda>_ _. digestEntryBytes) c' h id)\<rparr>)"
proof (rule digestOK_guards [OF ok(1)])
  let ?c = "lru_Put memoShard (\<lambda>_ _. digestEntryBytes) c' h id"
  note pl = lru_Put_lookup [OF c'(1), where sizeOf = "\<lambda>_ _. digestEntryBytes" and k = h and v = id]
  show "lruOk memoShard c" if "Some ?c = Some c" for c using lru_Put_ok [OF c'(1)] that by blast
  fix k h' f' assume k: "k \<in> K" "extractActionHash k = (h', True)" "lookupFile (pathOf s k) s = Some f'"
    "digestLookup (s\<lparr>st_digestOK := Some ?c\<rparr>) h' = Some (identityFile f')"
  show "digestMatches f'"
  proof (cases "h' = h")
    case True
    then have "k = key" using ok(1,2,4) k unfolding guardsOk_def hashInj_def by (metis snd_conv)
    then show ?thesis using m ok(3) k(3) by simp
  next
    case False
    have "lruLookup memoShard ?c h' = Some (identityFile f')" using k(4) by (simp add: digestLookup_def)
    then have "digestLookup s h' = Some (identityFile f')" using pl(2) [OF False] c'(2) by simp
    then show ?thesis using ok(1) k unfolding guardsOk_def memoOk_def by blast
  qed
qed

lemma verifyStoredDigestFor_ok:
  assumes ok: "guardsOk dec K s" "key \<in> K" "lookupFile (pathOf s key) s = Some f"
    and m: "kvGet m storedDigestMetaKey = kvGet (getMetadata f) storedDigestMetaKey" and v: "verifyStoredDigestFor env key f m s = (r, s')"
  shows "guardsOk dec K s' \<and> sameFiles s s' \<and> (r = Inr True \<longrightarrow> digestMatches f) \<and> (r = Inr False \<longrightarrow> \<not> digestMatches f)"
proof -
  obtain h hashed where h: "extractActionHash key = (h, hashed)" by fastforce
  obtain id known where id: "identityOf env f = (id, known)" by fastforce
  define memo where "memo \<longleftrightarrow> st_digestOK s \<noteq> None \<and> hashed \<and> known \<and> kvGet m outputIDMetaKey \<noteq> []"
  let ?r = "verifyStoredDigest env (f_body f) m"
  have match: "?r = Inr True \<Longrightarrow> digestMatches f" "?r = Inr False \<Longrightarrow> \<not> digestMatches f"
    using verifyStoredDigest_matches [OF m] by blast+
  show ?thesis
  proof (cases memo)
    case False
    then have "r = ?r" "s' = s" using v h id unfolding memo_def verifyStoredDigestFor_def by (auto split: if_splits)
    then show ?thesis using ok(1) match by simp
  next
    case True
    then obtain c where c: "st_digestOK s = Some c" "hashed" "known" by (auto simp: memo_def)
    obtain g c' where g: "lru_Get memoShard c h = (g, c')" by fastforce
    note g' = digestMemo_get [OF ok(1) c(1) g]
    have hT: "extractActionHash key = (h, True)" using h c by simp
    have idf: "id = identityFile f" using id c(3) by (auto simp: identityOf_def identityFile_def split: option.splits)
    consider "g = Some id" | "g \<noteq> Some id" "?r = Inr True" | "g \<noteq> Some id" "?r \<noteq> Inr True" by blast
    then show ?thesis
    proof cases
      case 1
      then have "r = Inr True" "s' = s\<lparr>st_digestOK := Some c'\<rparr>"
        using v h id True c g unfolding memo_def verifyStoredDigestFor_def by simp_all
      moreover have "digestLookup s h = Some (identityFile f)" using 1 g' idf by simp
      then have "digestMatches f" using ok hT unfolding guardsOk_def memoOk_def by blast
      ultimately show ?thesis using g' by (simp add: sameFiles_def)
    next
      case 3
      then have "r = ?r" "s' = s\<lparr>st_digestOK := Some c'\<rparr>"
        using v h id True c g unfolding memo_def verifyStoredDigestFor_def by (simp_all add: Let_def)
      then show ?thesis using g' match by (simp add: sameFiles_def)
    next
      case 2
      let ?c = "lru_Put memoShard (\<lambda>_ _. digestEntryBytes) c' h id"
      have s': "r = Inr True" "s' = s\<lparr>st_digestOK := Some ?c\<rparr>"
        using v h id True c g 2 unfolding memo_def verifyStoredDigestFor_def by (simp_all add: Let_def)
      have "guardsOk dec K s'" unfolding s' using digestMemo_put [OF ok hT] g' match(1) 2 by blast
      then show ?thesis using match 2 s' by (simp add: sameFiles_def)
    qed
  qed
qed

section \<open>The repair\<close>

lemma inodeNow_file:
  assumes "inoInj s" "lookupFile p s = Some f" shows "inodeNow f s = f"
proof -
  have "(p, f) \<in> set (st_files s)" using assms(2) by (simp add: lookupFile_def map_of_SomeD)
  then obtain q g where g: "find (\<lambda>pf. f_ino (snd pf) = f_ino f) (st_files s) = Some (q, g)"
    by (cases "find (\<lambda>pf. f_ino (snd pf) = f_ino f) (st_files s)") (auto simp: find_None_iff)
  then have "(q, g) \<in> set (st_files s)" "f_ino g = f_ino f" by (auto simp: find_Some_iff dest: sym)
  moreover from this(1) have "lookupFile q s = Some g" using assms(1) by (simp add: lookupFile_def inoInj_def)
  ultimately have "q = p" using assms unfolding inoInj_def by blast
  then show ?thesis using \<open>lookupFile q s = Some g\<close> assms(2) g by (simp add: inodeNow_def)
qed

lemma lookup_writeInode:
  "lookupFile p (writeInode f s) = map_option (\<lambda>g. if f_ino g = f_ino f then f else g) (lookupFile p s)"
  by (simp add: lookupFile_def writeInode_def map_of_map)

lemma lookup_writeInode_file:
  assumes "inoInj s" "lookupFile p s = Some f" "f_ino f' = f_ino f"
  shows "lookupFile q (writeInode f' s) = (if q = p then Some f' else lookupFile q s)"
  using assms unfolding lookup_writeInode inoInj_def by (cases "lookupFile q s") auto

lemma xattrSet_keeps: "fst (xattrSet cap refuses f v) = None \<or> snd (xattrSet cap refuses f v) = f"
  by (cases rule: xattrSet_cases [of cap refuses f v]) auto

lemma dropLoop_fails:
  "dropLoop fuel (xattrSet cap refuses) order f m dropped err = Some (Some e, d, f') \<Longrightarrow> f' = f"
proof (induction fuel arbitrary: f m dropped err)
  case 0
  then show ?case by (auto simp: dropLoop.simps [of 0] Let_def split: if_splits)
next
  case (Suc n)
  let ?l = "longestOptional order m"
  let ?w = "xattrSet cap refuses f (encodeObjAttrs \<lparr>meta = AList.delete ?l m, audit = []\<rparr>)"
  show ?case
  proof (cases "\<not> isNoSpace err \<or> ?l = []")
    case True
    then show ?thesis using Suc.prems by (auto simp: dropLoop.simps [of "Suc n"] Let_def split: if_splits)
  next
    case False
    then have r: "dropLoop n (xattrSet cap refuses) order (snd ?w) (AList.delete ?l m) (dropped @ [?l]) (fst ?w) = Some (Some e, d, f')"
      using Suc.prems by (simp add: dropLoop.simps [of "Suc n"] Let_def split: prod.splits)
    have "fst ?w = None \<or> snd ?w = f" using xattrSet_keeps by blast
    moreover have "fst ?w \<noteq> None"
    proof
      assume "fst ?w = None"
      then show False using r by (simp add: dropLoop.simps [of n])
    qed
    ultimately show ?thesis using Suc.IH [OF r] by simp
  qed
qed

lemma writeObjAttrs_fails:
  assumes "writeObjAttrs (xattrSet cap refuses) order f a = Some (Some e, d, f')" shows "f' = f"
proof -
  have n: "\<not> isNoSpace err \<Longrightarrow> dropLoop k (xattrSet cap refuses) order g m dr err = Some (err, dr, g)" for err k g m dr
    by (simp add: dropLoop.simps [of k])
  show ?thesis
  proof (cases "fst (xattrSet cap refuses f (encodeObjAttrs a)) = None")
    case True
    then show ?thesis using assms by (auto simp: writeObjAttrs_def wrapObjErr_def split: prod.splits)
  next
    case False
    let ?s2 = "xattrSet cap refuses f (encodeObjAttrs \<lparr>meta = meta a, audit = []\<rparr>)"
    obtain e1 where 1: "xattrSet cap refuses f (encodeObjAttrs a) = (Some e1, f)"
      using False by (cases rule: xattrSet_cases [of cap refuses f "encodeObjAttrs a"]) auto
    have "fst ?s2 = None \<Longrightarrow> isNoSpace (Some e1) \<Longrightarrow> audit a = []"
      using assms 1 n [of None] by (auto simp: writeObjAttrs_def wrapObjErr_def Let_def split: prod.splits if_splits)
    then have "isNoSpace (Some e1) \<Longrightarrow> audit a \<noteq> [] \<Longrightarrow> snd ?s2 = f"
      using xattrSet_keeps [of cap refuses f "encodeObjAttrs \<lparr>meta = meta a, audit = []\<rparr>"] by auto
    then show ?thesis
      using assms 1 dropLoop_fails
      by (auto simp: writeObjAttrs_def wrapObjErr_def Let_def split: option.splits if_splits prod.splits)
  qed
qed

lemma getMetadata_merged:
  assumes "visitsAll (env_order env)" "env_cap env < 2 ^ 63" "writeMeta env f [(k, v)] = (None, f')" "k \<in> metadataProtectedKeys"
  shows "map_of (getMetadata f') \<subseteq>\<^sub>m (map_of (getMetadata f))(k \<mapsto> v)"
    "k' \<in> metadataProtectedKeys \<Longrightarrow> map_of (getMetadata f') k' = ((map_of (getMetadata f))(k \<mapsto> v)) k'"
proof -
  let ?a = "readObjAttrs (xattrGetter (f_attr f))"
  let ?b = "?a\<lparr>meta := kvMerge (meta ?a) [(k, v)]\<rparr>"
  obtain werr d attr where w: "writeObjAttrs (xattrSet (env_cap env) (env_refuses env)) (env_order env) (f_attr f) ?b = Some (werr, d, attr)"
    using writeObjAttrs_total [OF assms(1)] by (metis not_None_eq prod_cases3)
  then have f': "werr = None" "f' = f\<lparr>f_attr := attr\<rparr>"
    using assms(3) by (simp_all add: writeMeta_def setMetadata_def Let_def)
  have "distinct (map fst (meta ?b))" "distinct (map fst (audit ?b))"
    by (simp_all add: distinct_kvMerge distinct_readObjAttrs)
  from writeObjAttrs_reads_back [OF assms(1) this assms(2)] w f'(1) obtain b where
    b: "writtenFor ?b b d" "map_of (meta (readObjAttrs (xattrGetter attr))) = map_of (meta b)" by metis
  have m: "map_of (meta ?b) = (map_of (getMetadata f))(k \<mapsto> v)" by (simp add: map_of_kvMerge getMetadata_eq)
  have g: "map_of (getMetadata f') = map_of (meta b)" using b(2) by (simp add: getMetadata_eq f')
  show "map_of (getMetadata f') \<subseteq>\<^sub>m (map_of (getMetadata f))(k \<mapsto> v)"
    using b(1) unfolding g m [symmetric] writtenFor_def by auto
  show "map_of (getMetadata f') k' = ((map_of (getMetadata f))(k \<mapsto> v)) k'" if "k' \<in> metadataProtectedKeys"
    using b(1) that unfolding g m [symmetric] writtenFor_def by auto
qed

lemma writeMeta_frame:
  assumes "writeMeta env f kv = (e, f')"
  shows "f_body f' = f_body f" "f_ino f' = f_ino f" "f_mtime f' = f_mtime f" "e \<noteq> None \<Longrightarrow> f' = f" "f_orig f' = f_orig f"
proof -
  show "f_body f' = f_body f" "f_ino f' = f_ino f" "f_mtime f' = f_mtime f" "f_orig f' = f_orig f"
    using assms by (auto simp: writeMeta_def split: option.splits)
  assume "e \<noteq> None"
  then obtain e' d attr where "setMetadata (xattrSet (env_cap env) (env_refuses env)) (env_order env) xattrGetter (f_attr f) kv = Some (Some e', d, attr)"
      "f' = f\<lparr>f_attr := attr\<rparr>"
    using assms by (auto simp: writeMeta_def split: option.splits)
  then show "f' = f" using writeObjAttrs_fails [of "env_cap env" "env_refuses env" "env_order env" "f_attr f"]
    by (simp add: setMetadata_def Let_def)
qed

lemma guardsOk_heal:
  assumes ok: "guardsOk dec K s" "key \<in> K" "lookupFile (pathOf s key) s = Some f"
    and f': "f_body f' = f_body f" "f_ino f' = f_ino f" "f_mtime f' = f_mtime f" "digestMatches f \<Longrightarrow> digestMatches f'"
  shows "guardsOk dec K (forgetMeta key (writeInode f' s))" (is "guardsOk dec K ?s")
proof -
  have so: "storeOk K s" "inoInj s" "memosOk s" using ok(1) by (simp_all add: guardsOk_def storeOk_def)
  have path: "pathOf ?s = pathOf s" by (rule ext) (simp add: writeInode_def pathOf_def)
  have look: "lookupFile p ?s = (if p = pathOf s key then Some f' else lookupFile p s)" for p
    using lookup_writeInode_file [OF so(2) ok(3) f'(2)] by simp
  have mw: "memosOk (writeInode f' s)" using so(3) by (simp add: memosOk_def writeInode_def)
  have mlw: "metaLookup (writeInode f' s) k = metaLookup s k" for k by (simp add: metaLookup_def writeInode_def)
  have "metaCoherent K ?s"
    by (rule metaCoherent_change [where s = s and key = key])
      (use so(1) ok(2) path look metaLookup_forgetMeta [OF mw, of key] mlw in \<open>simp_all add: storeOk_def\<close>)
  then have st: "storeOk K ?s" using so(1) memosOk_forgets(2) [OF mw] path by (simp add: storeOk_def)
  have "map fst (st_files ?s) = map fst (st_files s)" by (simp add: writeInode_def case_prod_beta' o_def)
  then have ino: "inoInj ?s" using so(2) look f'(2) ok(3) unfolding inoInj_def by (metis option.inject)
  have "memoOk dec ?s g h" if k: "k \<in> K" "extractActionHash k = (h, True)" "lookupFile (pathOf s k) ?s = Some g" for k h g
  proof -
    have "\<exists>g0. memoOk dec s g0 h \<and> f_body g = f_body g0 \<and> f_ino g = f_ino g0 \<and> f_mtime g = f_mtime g0 \<and> (digestMatches g0 \<longrightarrow> digestMatches g)"
    proof (cases "pathOf s k = pathOf s key")
      case True
      then have "memoOk dec s f h" "g = f'" using ok(1,3) k look unfolding guardsOk_def by auto
      then show ?thesis using f' by blast
    next
      case False
      then have "lookupFile (pathOf s k) s = Some g" using k(3) look by simp
      then show ?thesis using ok(1) k unfolding guardsOk_def by blast
    qed
    then show ?thesis by (auto simp: memoOk_def identityFile_def passesProbe_def)
  qed
  then show ?thesis using st ino ok(1) unfolding guardsOk_def path by blast
qed

lemma writeInode_same:
  assumes "inoInj s" "lookupFile p s = Some f" shows "writeInode f s = s"
proof -
  have "map (\<lambda>(p, g). (p, if f_ino g = f_ino f then f else g)) (st_files s) = st_files s"
  proof (rule map_idI)
    fix pg assume pg: "pg \<in> set (st_files s)"
    obtain q g where q: "pg = (q, g)" by fastforce
    then have "lookupFile q s = Some g" using assms(1) pg by (simp add: lookupFile_def inoInj_def)
    then have "f_ino g = f_ino f \<Longrightarrow> f = g" using assms unfolding inoInj_def by (metis option.inject)
    then show "(case pg of (p, g) \<Rightarrow> (p, if f_ino g = f_ino f then f else g)) = pg" using q by simp
  qed
  then show ?thesis by (simp add: writeInode_def)
qed

text \<open>The content address of a body, without faults.\<close>

definition contentAddress :: "decoders \<Rightarrow> bytes \<Rightarrow> string \<Rightarrow> bool" where
  "contentAddress dec body outputID \<longleftrightarrow> (\<exists>codec plain. decompressingReader dec (bytesReader body) = Some codec \<and> codec \<noteq> [] \<and>
     copyDecoded dec codec (bytesReader body) = Inr plain \<and> outputID = hexEncode (sha256 plain))"

lemma contentAddress_nonempty: "contentAddress dec body outputID \<Longrightarrow> outputID \<noteq> []"
  unfolding contentAddress_def using length_hexEncode length_sha256
  by (metis length_greater_0_conv mult_pos_pos zero_less_numeral)

lemma hashDecoded_ok:
  assumes "hashDecoded dec env owned f = Inr outputID" shows "contentAddress dec (f_body f) outputID"
proof -
  obtain codec plain where c: "decompressingReader dec (fileReader env f) = Some codec" "codec \<noteq> []"
      "copyDecoded dec codec (fileReader env f) = Inr plain" "outputID = hexEncode (sha256 plain)"
    using assms by (auto simp: hashDecoded_def split: option.splits if_splits sum.splits)
  have "env_fault env SysRead = None"
    using c(1,2) by (cases "env_fault env SysRead") (auto simp: fileReader_def decompressingReader_def codecPeekBytes_def)
  then have "fileReader env f = bytesReader (f_body f)" by (simp add: fileReader_def)
  then show ?thesis using c unfolding contentAddress_def by metis
qed

text \<open>What a repair changes: the attributes of the key's file at most, and not its digest.\<close>

definition healStep :: "decoders \<Rightarrow> string set \<Rightarrow> string \<Rightarrow> Storage \<Rightarrow> Storage \<Rightarrow> diskFile \<Rightarrow> diskFile \<Rightarrow> bool" where
  "healStep dec K key s s' f f' \<longleftrightarrow> guardsOk dec K s' \<and> pathOf s' = pathOf s \<and> indexKeys s' \<subseteq> indexKeys s \<and>
     f_body f' = f_body f \<and> f_ino f' = f_ino f \<and> f_orig f' = f_orig f \<and>
     kvGet (getMetadata f') storedDigestMetaKey = kvGet (getMetadata f) storedDigestMetaKey \<and>
     (\<forall>p. lookupFile p s' = (if p = pathOf s key then Some f' else lookupFile p s))"

lemma healStep_refl: "guardsOk dec K s \<Longrightarrow> lookupFile (pathOf s key) s = Some f \<Longrightarrow> healStep dec K key s s f f"
  by (simp add: healStep_def)

lemma persistOutputID_ok:
  assumes ok: "guardsOk dec K s" "key \<in> K" "lookupFile (pathOf s key) s = Some f"
    and env: "visitsAll (env_order env)" "env_cap env < 2 ^ 63" and p: "persistOutputID env key f outputID s = (r, s')"
  shows "\<exists>f'. healStep dec K key s s' f f' \<and>
    (\<forall>out. r = Inr out \<longrightarrow> out = outputID \<and> kvGet (getMetadata f') outputIDMetaKey = outputID)"
proof -
  have ino: "inoInj s" using ok(1) by (simp add: guardsOk_def)
  obtain e f' where w: "writeMeta env f [(outputIDMetaKey, outputID)] = (e, f')" by fastforce
  note fr = writeMeta_frame [OF w]
  show ?thesis
  proof (cases e)
    case (Some e')
    then have "r = Inl (ErrPersistOutputID e')" "s' = s"
      using p w fr(4) writeInode_same [OF ino ok(3)] by (simp_all add: persistOutputID_def)
    then show ?thesis using healStep_refl [OF ok(1,3)] by blast
  next
    case None
    have r: "r = Inr outputID" "s' = forgetMeta key (writeInode f' s)" using p w None by (simp_all add: persistOutputID_def)
    have pk: "outputIDMetaKey \<in> metadataProtectedKeys" "storedDigestMetaKey \<in> metadataProtectedKeys"
      by (simp_all add: metadataProtectedKeys_def outputIDMetaKey_def storedDigestMetaKey_def)
    have m: "map_of (getMetadata f') outputIDMetaKey = Some outputID"
        "map_of (getMetadata f') storedDigestMetaKey = map_of (getMetadata f) storedDigestMetaKey"
      using getMetadata_merged(2) [OF env w [unfolded None] pk(1)] pk
      by (simp_all add: outputIDMetaKey_def storedDigestMetaKey_def)
    then have dg: "kvGet (getMetadata f') storedDigestMetaKey = kvGet (getMetadata f) storedDigestMetaKey" by (simp add: kvGet_map_of)
    then have "digestMatches f \<Longrightarrow> digestMatches f'" using fr(1) by (simp add: digestMatches_def)
    then have "guardsOk dec K s'" using guardsOk_heal [OF ok fr(1-3)] r by simp
    moreover have "pathOf s' = pathOf s" by (rule ext) (simp add: r writeInode_def pathOf_def)
    moreover have "lookupFile p s' = (if p = pathOf s key then Some f' else lookupFile p s)" for p
      using lookup_writeInode_file [OF ino ok(3) fr(2)] by (simp add: r)
    moreover have "indexKeys s' = indexKeys s" by (simp add: r indexKeys_def writeInode_def)
    ultimately have "healStep dec K key s s' f f'" using fr dg by (simp add: healStep_def)
    moreover have "kvGet (getMetadata f') outputIDMetaKey = outputID" using m(1) by (simp add: kvGet_map_of)
    ultimately show ?thesis using r by blast
  qed
qed

lemma reconstructOutputID_ok:
  assumes ok: "guardsOk dec K s" "key \<in> K" "lookupFile (pathOf s key) s = Some f" "fo = None \<or> fo = Some f"
    and env: "visitsAll (env_order env)" "env_cap env < 2 ^ 63" and p: "reconstructOutputID dec env key fo s = (r, s')"
  shows "\<exists>f'. healStep dec K key s s' f f' \<and>
    (\<forall>out. r = Inr out \<longrightarrow> contentAddress dec (f_body f) out \<and> kvGet (getMetadata f') outputIDMetaKey = out)"
proof -
  have now: "inodeNow f s = f" using ok(1,3) inodeNow_file by (simp add: guardsOk_def)
  have same: ?thesis if "r = Inl e" "s' = s" for e using healStep_refl [OF ok(1,3)] that by blast
  show ?thesis
  proof (cases "(case fo of Some f \<Rightarrow> Inr f | None \<Rightarrow> openRaw env key s)")
    case (Inl e)
    then have "r = Inl e" "s' = s" using p unfolding reconstructOutputID_def by simp_all
    then show ?thesis by (rule same)
  next
    case (Inr g)
    then have g: "g = f" using ok(3,4) by (auto simp: openRaw_def osOpen_def split: option.splits)
    show ?thesis
    proof (cases "bodyMatchesStoredDigest env (f_body f) (getMetadataValueFd f storedDigestMetaKey) = Inr True \<and>
        (\<exists>out. hashDecoded dec env (fo \<noteq> None) f = Inr out)")
      case True
      then obtain out where o: "hashDecoded dec env (fo \<noteq> None) f = Inr out" by blast
      then have "persistOutputID env key f out s = (r, s')"
        using p True Inr unfolding reconstructOutputID_def by (simp add: g now Let_def)
      from persistOutputID_ok [OF ok(1-3) env this] hashDecoded_ok [OF o] show ?thesis by blast
    next
      case False
      then have "(\<exists>e. r = Inl e) \<and> s' = s"
        using p Inr unfolding reconstructOutputID_def by (auto simp: g now Let_def split: sum.splits if_splits dest: sym)
      then show ?thesis using same by blast
    qed
  qed
qed

lemma ensureOutputID_ok:
  assumes ok: "guardsOk dec K s" "key \<in> K" "lookupFile (pathOf s key) s = Some f" "fo = None \<or> fo = Some f"
    and env: "visitsAll (env_order env)" "env_cap env < 2 ^ 63" and p: "ensureOutputID dec env key om fo s = ((b, om'), s')"
  shows "\<exists>f'. healStep dec K key s s' f f' \<and>
    (b \<and> snd (extractActionHash key) \<longrightarrow> kvGet (om_Metadata om') outputIDMetaKey \<noteq> [] \<and>
       (missingOutputID om \<longrightarrow> contentAddress dec (f_body f) (kvGet (om_Metadata om') outputIDMetaKey)))"
proof (cases "missingOutputID om \<and> snd (extractActionHash key)")
  case False
  then have "b" "om' = om" "s' = s" using p by (auto simp: ensureOutputID_def split: if_splits)
  then show ?thesis using healStep_refl [OF ok(1,3)] False by (auto simp: missingOutputID_def)
next
  case True
  obtain r t where rt: "reconstructOutputID dec env key fo s = (r, t)" by fastforce
  from reconstructOutputID_ok [OF ok env rt] obtain f' where
    f': "healStep dec K key s t f f'" "\<And>out. r = Inr out \<Longrightarrow> contentAddress dec (f_body f) out" by blast
  show ?thesis
  proof (cases r)
    case (Inl e)
    have b: "\<not> b" "s' = t\<lparr>st_index := map_option (Index_Remove (env_epoch env) key) (st_index t)\<rparr>"
      using p True rt Inl by (simp_all add: ensureOutputID_def)
    have so: "storeOk K s' = storeOk K t" unfolding b
      by (simp add: storeOk_def metaCoherent_def inj_on_def)
    have "guardsOk dec K s'"
      using f'(1) guardsOk_quiet [of dec K t s'] so by (simp add: healStep_def guardsOk_def b(2))
    moreover have "pathOf s' = pathOf t" by (rule ext) (simp add: b)
    moreover have "indexKeys s' \<subseteq> indexKeys t" by (rule indexKeys_Remove) (simp add: b)
    ultimately have "healStep dec K key s s' f f'" using f'(1) unfolding healStep_def by (auto simp: b)
    then show ?thesis using b(1) by blast
  next
    case (Inr out)
    have "om_Metadata om' = AList.update outputIDMetaKey out (om_Metadata om)" "s' = t"
      using p True rt Inr by (auto simp: ensureOutputID_def)
    moreover from this have "kvGet (om_Metadata om') outputIDMetaKey = out" by (simp add: kvGet_def update_conv')
    ultimately show ?thesis using f'(1) f'(2) [OF Inr] contentAddress_nonempty by auto
  qed
qed

section \<open>A repaired handle\<close>

lemma inodeNow_ino [simp]: "f_ino (inodeNow f s) = f_ino f"
  unfolding inodeNow_def by (auto simp: find_Some_iff split: option.split dest: sym)

text \<open>(C9) A repair touches only the inode it has hashed.  However the store changed since the handle
  was opened, a file with another inode is left as it is, so a repair that races with an upload never
  stamps the new object.  A content address that is answered is the digest of the decompressed bytes of
  that inode, whose body agreed with its stored digest, and its attributes then name it.\<close>

theorem reconstructOutputID_own_inode:
  assumes "visitsAll (env_order env)" "env_cap env < 2 ^ 63"
    and "reconstructOutputID dec env key (Some f) s = (r, s')"
  shows "(\<forall>p g. lookupFile p s = Some g \<longrightarrow> f_ino g \<noteq> f_ino f \<longrightarrow> lookupFile p s' = Some g) \<and>
    (\<forall>out. r = Inr out \<longrightarrow> contentAddress dec (f_body (inodeNow f s)) out \<and> digestMatches (inodeNow f s) \<and>
       (\<forall>p g. lookupFile p s' = Some g \<longrightarrow> f_ino g = f_ino f \<longrightarrow> kvGet (getMetadata g) outputIDMetaKey = out))"
proof -
  let ?f = "inodeNow f s"
  consider (err) e where "r = Inl e" "s' = s"
    | (ok) out where "bodyMatchesStoredDigest env (f_body ?f) (getMetadataValueFd ?f storedDigestMetaKey) = Inr True"
        "hashDecoded dec env True ?f = Inr out" "persistOutputID env key ?f out s = (r, s')"
    using assms(3) unfolding reconstructOutputID_def by (auto simp: Let_def split: sum.splits if_splits dest: sym)
  then show ?thesis
  proof cases
    case ok
    have dm: "digestMatches ?f"
      using ok(1) verifyStoredDigest_matches [of "getMetadata ?f" ?f env True]
      by (simp add: verifyStoredDigest_def getMetadataValueFd_def getMetadata_eq)
    obtain e f' where w: "writeMeta env ?f [(outputIDMetaKey, out)] = (e, f')" by fastforce
    note fr = writeMeta_frame [OF w]
    have s': "s' = (if e = None then forgetMeta key (writeInode f' s) else writeInode f' s)" "r = Inr out' \<Longrightarrow> e = None \<and> out' = out" for out'
      using ok(3) w by (auto simp: persistOutputID_def split: option.splits)
    have look: "lookupFile p s' = map_option (\<lambda>g. if f_ino g = f_ino f then f' else g) (lookupFile p s)" for p
      using fr(2) by (simp add: s' lookup_writeInode)
    have "kvGet (getMetadata f') outputIDMetaKey = out" if "e = None"
      using getMetadata_merged(2) [OF assms(1,2) w [unfolded that], of outputIDMetaKey]
      by (simp add: kvGet_map_of metadataProtectedKeys_def outputIDMetaKey_def)
    then have "kvGet (getMetadata g) outputIDMetaKey = out'" if "r = Inr out'" "lookupFile p s' = Some g" "f_ino g = f_ino f" for out' p g
      using that s'(2) [OF that(1)] look [of p] fr(2) by (auto split: if_splits)
    then show ?thesis using hashDecoded_ok [OF ok(2)] dm look s'(2) by auto
  qed simp
qed

section \<open>An example store\<close>

definition storedStore :: Storage where
  "storedStore = snd (PutStream specDecoders calmEnv ''k'' (bytesReader [1, 2]) [] None emptyStore)"

lemma emptyStore_guards: "guardsOk dec {''k''} emptyStore"
  using emptyStore_ok(1) by (auto simp: guardsOk_def inoInj_def hashInj_def emptyStore_def lookupFile_def)

lemma putFresh_calm: "putFresh calmEnv {''k''} emptyStore"
  using emptyStore_ok by (auto simp: putFresh_def calmEnv_def emptyStore_def lookupFile_def)

lemma storedStore_ok:
  "guardsOk specDecoders {''k''} storedStore" "pathOf storedStore ''k'' = ''/d/k''"
  "\<exists>f. lookupFile ''/d/k'' storedStore = Some f \<and> f_body f = [1, 2] \<and> f_ino f = 3" "st_index storedStore = None"
proof -
  have p: "PutStream specDecoders calmEnv ''k'' (bytesReader [1, 2]) [] None emptyStore = (None, storedStore)"
    using calm_put by (metis prod.collapse storedStore_def)
  note g = PutStream_guards [OF emptyStore_guards _ putFresh_calm _ p]
  have wo: "st_woAction emptyStore = ''allow''" by (simp add: emptyStore_def)
  show "guardsOk specDecoders {''k''} storedStore" "pathOf storedStore ''k'' = ''/d/k''" using g by (simp_all add: pathOf_emptyStore)
  have cap: "env_cap calmEnv < 2 ^ 63" by (simp add: calmEnv_def)
  note o = PutStream_ok [OF emptyStore_ok(1) _ emptyStore_ok(2,3) cap _ p]
  show "\<exists>f. lookupFile ''/d/k'' storedStore = Some f \<and> f_body f = [1, 2] \<and> f_ino f = 3"
    using o putStops_quiet(1) [of specDecoders calmEnv "pathOf emptyStore ''k''" "bytesReader [1, 2]" "[]" emptyStore] wo
    by (auto simp: pathOf_emptyStore bytesReader_def calmEnv_def)
  show "st_index storedStore = None"
    using o sameStoreD(2) [of emptyStore storedStore] by (auto simp: emptyStore_def)
qed

lemma reconstructOutputID_own_inode_witness:
  "visitsAll (env_order calmEnv) \<and> env_cap calmEnv < 2 ^ 63 \<and>
   (\<exists>r s' g. reconstructOutputID specDecoders calmEnv ''k'' (Some (tempFile (calmEnv\<lparr>env_ino := 9\<rparr>) (bytesReader [1]))) storedStore = (r, s') \<and>
      lookupFile ''/d/k'' s' = Some g \<and> f_body g = [1, 2])"
proof -
  let ?f = "tempFile (calmEnv\<lparr>env_ino := 9\<rparr>) (bytesReader [1])"
  have env: "visitsAll (env_order calmEnv)" "env_cap calmEnv < 2 ^ 63" by (simp_all add: calmEnv_def visitsAll_def)
  obtain r s' where r: "reconstructOutputID specDecoders calmEnv ''k'' (Some ?f) storedStore = (r, s')" by fastforce
  obtain g where g: "lookupFile ''/d/k'' storedStore = Some g" "f_body g = [1, 2]" "f_ino g = 3" using storedStore_ok(3) by blast
  then have "lookupFile ''/d/k'' s' = Some g" using reconstructOutputID_own_inode [OF env r] by (simp add: tempFile_def)
  then show ?thesis using g r env by blast
qed

end
