(* ===== verification/Eviction.thy ===== *)
theory Eviction
  imports ReadGuards KeySets
begin

text \<open>
  The eviction sweep (\<^verbatim>\<open>eviction.go\<close>, \<^verbatim>\<open>atime.go\<close>) and the start of a store
  (\<^verbatim>\<open>cacheversion.go\<close>, \<^verbatim>\<open>NewStorage\<close>).  A walk visits the files of the data directory in order; no
  file is skipped for an error.  Times are in nanoseconds, \<^verbatim>\<open>Unix\<close> times in seconds.
\<close>

section \<open>Definitions\<close>

subsection \<open>Measuring\<close>

definition lastUsedUnix :: "ListObject \<Rightarrow> int \<Rightarrow> int" where
  "lastUsedUnix obj memAccess =
    (let used = unixSec (lob_LastModified obj);
         used = (case lob_LastAccess obj of None \<Rightarrow> used | Some a \<Rightarrow> if unixSec a > used then unixSec a else used)
     in if memAccess > used then memAccess else used)"

definition evictionBucketSeconds :: int where
  "evictionBucketSeconds = 600"

record evictionScan =
  sc_scanned :: nat
  sc_totalBytes :: int
  sc_byBucket :: "(int \<times> int) list"
  sc_live :: "compactKey set option"

text \<open>The last access recorded in memory; the zero value when there is none.\<close>

definition memAccessOf :: "compactKey \<Rightarrow> Storage \<Rightarrow> int" where
  "memAccessOf ck s = (case lastAccessOf ck s of None \<Rightarrow> 0 | Some a \<Rightarrow> a)"

definition bucketGet :: "(int \<times> int) list \<Rightarrow> int \<Rightarrow> int" where
  "bucketGet m b = (case map_of m b of None \<Rightarrow> 0 | Some v \<Rightarrow> v)"

definition scanOne :: "Storage \<Rightarrow> bool \<Rightarrow> evictionScan \<Rightarrow> ListObject \<Rightarrow> evictionScan" where
  "scanOne s needHistogram sc obj =
    (let ck = newCompactKey (lob_Key obj);
         b = lastUsedUnix obj (memAccessOf ck s) sdiv evictionBucketSeconds
     in sc\<lparr>sc_scanned := sc_scanned sc + 1, sc_totalBytes := sc_totalBytes sc + lob_Size obj,
          sc_live := map_option (insert ck) (sc_live sc),
          sc_byBucket := (if needHistogram then AList.update b (bucketGet (sc_byBucket sc) b + lob_Size obj) (sc_byBucket sc)
                          else sc_byBucket sc)\<rparr>)"

definition scanForEviction :: "bool \<Rightarrow> Storage \<Rightarrow> evictionScan" where
  "scanForEviction needHistogram s =
    foldl (scanOne s needHistogram)
      \<lparr>sc_scanned = 0, sc_totalBytes = 0, sc_byBucket = [], sc_live = (if st_access s = [] then None else Some {})\<rparr> (Walk s)"

fun cutoffLoop :: "(int \<times> int) list \<Rightarrow> int \<Rightarrow> int \<Rightarrow> int list \<Rightarrow> int option" where
  "cutoffLoop m need freed [] = None"
| "cutoffLoop m need freed (b # bs) =
    (let freed = freed + bucketGet m b in
     if freed \<ge> need then Some ((b + 1) * evictionBucketSeconds) else cutoffLoop m need freed bs)"

definition sizeCutoff :: "evictionScan \<Rightarrow> int \<Rightarrow> int" where
  "sizeCutoff sc maxBytes =
    (if maxBytes \<le> 0 \<or> sc_totalBytes sc \<le> maxBytes then 0
     else let buckets = sort (map fst (sc_byBucket sc)) in
       case cutoffLoop (sc_byBucket sc) (sc_totalBytes sc - maxBytes) 0 buckets of
         Some c \<Rightarrow> c
       | None \<Rightarrow> (last buckets + 1) * evictionBucketSeconds)"

subsection \<open>Removing\<close>

record evictionVictim =
  ev_key :: compactKey
  ev_size :: int
  ev_mtimeUnix :: int
  ev_byAge :: bool

record EvictStats =
  es_Scanned :: nat
  es_EvictedAge :: nat
  es_EvictedSize :: nat
  es_BytesFreed :: int
  es_BytesTotal :: int

definition evictOne :: "sysEnv \<Rightarrow> string \<Rightarrow> int \<Rightarrow> Storage \<Rightarrow> bool \<times> Storage" where
  "evictOne env key expectMtime s =
    (let path = pathOf s key in
     if expectMtime > 0 \<and> (case osOpen env SysStat path s of Inl e \<Rightarrow> True | Inr f \<Rightarrow> unixSec (f_mtime f) \<noteq> expectMtime)
     then (False, s)
     else case osOpen env SysRemove path s of Inl e \<Rightarrow> (False, s)
       | Inr f \<Rightarrow> (True, noteEvicted key (forgetMeta key (forgetClean key (forgetAccess key (dropFile path s))))))"

definition evictionBatchSize :: nat where
  "evictionBatchSize = 65536"

fun evictBatch :: "sysEnv \<Rightarrow> evictionVictim list \<Rightarrow> EvictStats \<Rightarrow> Storage \<Rightarrow> EvictStats \<times> Storage" where
  "evictBatch env [] stats s = (stats, s)"
| "evictBatch env (v # vs) stats s =
    (case evictOne env (compactKey_Key (ev_key v)) (ev_mtimeUnix v) s of
       (False, s) \<Rightarrow> evictBatch env vs stats s
     | (True, s) \<Rightarrow>
         evictBatch env vs
           ((if ev_byAge v then stats\<lparr>es_EvictedAge := es_EvictedAge stats + 1\<rparr>
             else stats\<lparr>es_EvictedSize := es_EvictedSize stats + 1\<rparr>)\<lparr>es_BytesFreed := es_BytesFreed stats + ev_size v\<rparr>) s)"

definition flushBatch ::
    "(compactKey, 'x) setOps \<Rightarrow> sysEnv \<Rightarrow> evictionVictim list \<Rightarrow> EvictStats \<Rightarrow> Storage \<Rightarrow> EvictStats \<times> Storage" where
  "flushBatch ops env batch stats s =
    (if batch = [] then (stats, s)
     else evictBatch env batch stats
       (s\<lparr>st_index := map_option (Index_RemoveKeys ops (env_epoch env) (map (\<lambda>v. compactKey_Key (ev_key v)) batch)) (st_index s)\<rparr>))"

fun sweepWalk :: "(compactKey, 'x) setOps \<Rightarrow> sysEnv \<Rightarrow> int \<Rightarrow> int \<Rightarrow> ListObject list \<Rightarrow> evictionVictim list \<Rightarrow> EvictStats
    \<Rightarrow> Storage \<Rightarrow> EvictStats \<times> Storage" where
  "sweepWalk ops env cutoff ageCutoff [] batch stats s = flushBatch ops env batch stats s"
| "sweepWalk ops env cutoff ageCutoff (obj # objs) batch stats s =
    (let ck = newCompactKey (lob_Key obj); lastUsed = lastUsedUnix obj (memAccessOf ck s) in
     if lastUsed \<ge> cutoff then sweepWalk ops env cutoff ageCutoff objs batch stats s
     else let batch = batch @ [\<lparr>ev_key = ck, ev_size = lob_Size obj, ev_mtimeUnix = unixSec (lob_LastModified obj),
                                ev_byAge = (ageCutoff > 0 \<and> lastUsed < ageCutoff)\<rparr>] in
       if length batch \<ge> evictionBatchSize
       then (case flushBatch ops env batch stats s of (stats, s) \<Rightarrow> sweepWalk ops env cutoff ageCutoff objs [] stats s)
       else sweepWalk ops env cutoff ageCutoff objs batch stats s)"

definition sweepBelow ::
    "(compactKey, 'x) setOps \<Rightarrow> sysEnv \<Rightarrow> int \<Rightarrow> int \<Rightarrow> EvictStats \<Rightarrow> Storage \<Rightarrow> EvictStats \<times> Storage" where
  "sweepBelow ops env cutoff ageCutoff stats s = sweepWalk ops env cutoff ageCutoff (Walk s) [] stats s"

definition rebuildIndex :: "sysEnv \<Rightarrow> Storage \<Rightarrow> Storage" where
  "rebuildIndex env s =
    s\<lparr>st_index := map_option (Index_rebuild (env_epoch env)
        (Some (map (\<lambda>o'. \<lparr>lo_key = lob_Key o', lo_lastModified = unixSec (lob_LastModified o')\<rparr>) (Walk s)))) (st_index s)\<rparr>"

definition Evict :: "(compactKey, 'x) setOps \<Rightarrow> sysEnv \<Rightarrow> int \<Rightarrow> int \<Rightarrow> Storage \<Rightarrow> EvictStats \<times> Storage" where
  "Evict ops env maxAge maxBytes s =
    (let scan = scanForEviction (maxBytes > 0) s;
         stats = \<lparr>es_Scanned = sc_scanned scan, es_EvictedAge = 0, es_EvictedSize = 0, es_BytesFreed = 0, es_BytesTotal = sc_totalBytes scan\<rparr>;
         ageCutoff = (if maxAge > 0 then unixSec (env_now env) - maxAge sdiv 1000000000 else 0);
         cutoff = max ageCutoff (sizeCutoff scan maxBytes);
         (stats, s) = (if cutoff > 0 then sweepBelow ops env cutoff ageCutoff stats s else (stats, s));
         s = pruneAccess (\<lambda>ck. case sc_live scan of None \<Rightarrow> False | Some l \<Rightarrow> ck \<in> l) s
     in (stats, if es_EvictedAge stats + es_EvictedSize stats > 0 then rebuildIndex env s else s))"

subsection \<open>Scheduling\<close>

definition evictionStartupDelayMin :: int where "evictionStartupDelayMin = 60 * 1000000000"
definition evictionStartupDelayMax :: int where "evictionStartupDelayMax = 5 * 60 * 1000000000"

text \<open>The jittered delay, from the random number drawn.\<close>

definition evictionStartupDelay :: "int \<Rightarrow> int" where
  "evictionStartupDelay rnd = evictionStartupDelayMin + rnd mod (evictionStartupDelayMax - evictionStartupDelayMin)"

definition markerPath :: "Storage \<Rightarrow> string" where
  "markerPath s = filepathJoin [st_dataDir s, sweepMarkerFile]"

definition lastSweepTime :: "sysEnv \<Rightarrow> Storage \<Rightarrow> int option" where
  "lastSweepTime env s =
    (case osOpen env SysRead (markerPath s) s of Inl e \<Rightarrow> None
     | Inr f \<Rightarrow>
       (case parseInt (trimSpace (string_of (f_body f))) of None \<Rightarrow> None
        | Some sec \<Rightarrow> if sec \<le> 0 then None else Some (sec * 1000000000)))"

definition recordSweepTime :: "sysEnv \<Rightarrow> Storage \<Rightarrow> Storage" where
  "recordSweepTime env s =
    (case env_fault env SysCreateTemp of Some e \<Rightarrow> s
     | None \<Rightarrow>
       let data = bytes_of (formatInt (unixSec (env_now env)) @ [CHR 0x0A]);
           f = (case lookupFile (markerPath s) s of Some f \<Rightarrow> f
                | None \<Rightarrow> \<lparr>f_ino = env_ino env, f_body = [], f_attr = None, f_orig = None, f_mtime = env_now env, f_atime = Some (env_now env)\<rparr>)
       in setFile (markerPath s) (f\<lparr>f_body := data, f_mtime := env_now env\<rparr>) s)"

definition firstSweepDelay :: "sysEnv \<Rightarrow> int \<Rightarrow> int \<Rightarrow> Storage \<Rightarrow> int" where
  "firstSweepDelay env rnd interval s =
    (let jitter = evictionStartupDelay rnd in
     case lastSweepTime env s of None \<Rightarrow> jitter
     | Some swept \<Rightarrow>
       let remaining = swept + interval - env_now env in
       if remaining \<le> 0 then jitter else min remaining interval + jitter)"

definition runSweep :: "(compactKey, 'x) setOps \<Rightarrow> sysEnv \<Rightarrow> int \<Rightarrow> int \<Rightarrow> Storage \<Rightarrow> Storage" where
  "runSweep ops env maxAge maxBytes s = recordSweepTime env (snd (Evict ops env maxAge maxBytes s))"

definition RefreshCacheBytes :: "Storage \<Rightarrow> int" where
  "RefreshCacheBytes s =
    foldl (\<lambda>n pf. if isReservedFile (filepathBase (fst pf)) then n else n + int (length (f_body (snd pf)))) 0 (st_files s)"

definition overBudget :: "int \<Rightarrow> int \<Rightarrow> bool" where
  "overBudget n maxBytes \<longleftrightarrow> maxBytes > 0 \<and> n > maxBytes"

text \<open>One turn of \<^verbatim>\<open>RunEvictionLoop\<close>: a sweep that is due, or a measurement.\<close>

datatype loopEvent = SweepDue | RefreshDue

fun evictionTurn :: "(compactKey, 'x) setOps \<Rightarrow> sysEnv \<Rightarrow> int \<Rightarrow> int \<Rightarrow> loopEvent \<Rightarrow> Storage \<Rightarrow> Storage" where
  "evictionTurn ops env maxAge maxBytes SweepDue s = runSweep ops env maxAge maxBytes s"
| "evictionTurn ops env maxAge maxBytes RefreshDue s =
    (if \<not> overBudget (RefreshCacheBytes s) maxBytes then s else runSweep ops env maxAge maxBytes s)"

end
