(* ===== verification/Handlers.thy ===== *)
theory Handlers
  imports ReadGuards
begin

text \<open>
  The handlers of a single object and of the index (\<^verbatim>\<open>handlers.go\<close>).  A handler answers a response
  and the new state of the store.  The text of a system error is an argument.  Metrics, log lines and
  bandwidth records are left out.
\<close>

section \<open>Definitions\<close>

subsection \<open>Responses\<close>

record httpResponse =
  rs_status :: nat
  rs_headers :: kvMap
  rs_body :: bytes

text \<open>\<^verbatim>\<open>http.Header.Set\<close> with the canonical form of a header name.\<close>

definition isTokenChar :: "char \<Rightarrow> bool" where
  "isTokenChar c \<longleftrightarrow> (let n = (of_char c :: nat) in
     (48 \<le> n \<and> n \<le> 57) \<or> (65 \<le> n \<and> n \<le> 90) \<or> (97 \<le> n \<and> n \<le> 122) \<or>
     c \<in> set ''!#$%&*+-.^_`|~'' \<or> n = 39)"

fun canonicalFrom :: "bool \<Rightarrow> string \<Rightarrow> string" where
  "canonicalFrom up [] = []"
| "canonicalFrom up (c # cs) = (if up then toUpperChar c else toLowerChar c) # canonicalFrom (c = CHR ''-'') cs"

definition canonicalHeaderKey :: "string \<Rightarrow> string" where
  "canonicalHeaderKey k = (if list_all isTokenChar k then canonicalFrom True k else k)"

definition setHeader :: "string \<Rightarrow> string \<Rightarrow> kvMap \<Rightarrow> kvMap" where
  "setHeader k v h = AList.update (canonicalHeaderKey k) v h"

definition writeError :: "kvMap \<Rightarrow> nat \<Rightarrow> string \<Rightarrow> string \<Rightarrow> httpResponse" where
  "writeError hdrs httpStatus code message =
    \<lparr>rs_status = httpStatus,
     rs_headers = setHeader ''X-Cache-Error-Code'' code (setHeader ''Content-Type'' ''text/plain; charset=utf-8'' hdrs),
     rs_body = bytes_of (code @ '': '' @ message @ [CHR 0x0A])\<rparr>"

definition noSuchKey :: "string \<Rightarrow> httpResponse" where
  "noSuchKey key = writeError [] 404 ''not_found'' (''the specified key does not exist: '' @ key)"

subsection \<open>Times\<close>

text \<open>\<^verbatim>\<open>Format(http.TimeFormat)\<close> of a time in nanoseconds since 1970.\<close>

definition civilFromDays :: "int \<Rightarrow> int \<times> int \<times> int" where
  "civilFromDays days =
    (let z = days + 719468; era = z div 146097; doe = z mod 146097;
         yoe = (doe - doe div 1460 + doe div 36524 - doe div 146096) div 365;
         doy = doe - (365 * yoe + yoe div 4 - yoe div 100);
         mp = (5 * doy + 2) div 153; d = doy - (153 * mp + 2) div 5 + 1;
         m = (if mp < 10 then mp + 3 else mp - 9)
     in (yoe + era * 400 + (if m \<le> 2 then 1 else 0), m, d))"

definition padded :: "nat \<Rightarrow> int \<Rightarrow> string" where
  "padded w n = (let ds = formatNat (nat n) in replicate (w - length ds) CHR ''0'' @ ds)"

definition weekdayNames :: "string list" where
  "weekdayNames = [''Sun'', ''Mon'', ''Tue'', ''Wed'', ''Thu'', ''Fri'', ''Sat'']"

definition monthNames :: "string list" where
  "monthNames = [''Jan'', ''Feb'', ''Mar'', ''Apr'', ''May'', ''Jun'', ''Jul'', ''Aug'', ''Sep'', ''Oct'', ''Nov'', ''Dec'']"

definition httpTime :: "int \<Rightarrow> string" where
  "httpTime ns =
    (let t = unixSec ns; days = t div 86400; r = t mod 86400; (y, m, d) = civilFromDays days
     in weekdayNames ! nat ((days + 4) mod 7) @ '', '' @ padded 2 d @ '' '' @ monthNames ! nat (m - 1) @ '' '' @ padded 4 y
        @ '' '' @ padded 2 (r div 3600) @ '':'' @ padded 2 (r div 60 mod 60) @ '':'' @ padded 2 (r mod 60) @ '' GMT'')"

subsection \<open>Reading an object\<close>

definition emitPair :: "kvMap \<Rightarrow> string \<times> string \<Rightarrow> kvMap" where
  "emitPair h kv =
    (let name = (case fst kv of [] \<Rightarrow> [] | c # cs \<Rightarrow> toUpperChar c # cs)
     in setHeader (''X-Amz-Meta-'' @ name) (snd kv) (setHeader (''X-Cache-Meta-'' @ name) (snd kv) h))"

definition emitObjectHeaders :: "sysEnv \<Rightarrow> ObjectMeta \<Rightarrow> kvMap" where
  "emitObjectHeaders env om =
    setHeader ''Content-Length'' (formatInt (om_Size om))
      (setHeader ''Last-Modified'' (httpTime (om_ModTime om)) (foldl emitPair [] (env_order env (om_Metadata om))))"

text \<open>The digest check, the repair and the answer.\<close>

definition serveObject ::
    "decoders \<Rightarrow> sysEnv \<Rightarrow> string \<Rightarrow> diskFile \<Rightarrow> ObjectMeta \<Rightarrow> Storage \<Rightarrow> httpResponse \<times> Storage" where
  "serveObject dec env key f om s =
    (case verifyStoredDigestFor env key f (om_Metadata om) s of
       (Inl e, s) \<Rightarrow> (noSuchKey key, s)
     | (Inr ok, s) \<Rightarrow>
       if \<not> ok then (noSuchKey key, snd (Delete env key s))
       else case ensureOutputID dec env key om (Some f) s of
         ((healed, om), s) \<Rightarrow>
           if \<not> healed then (noSuchKey key, s)
           else (\<lparr>rs_status = 200, rs_headers = emitObjectHeaders env om, rs_body = rd_data (fileReader env f)\<rparr>, s))"

definition handleGetObject ::
    "decoders \<Rightarrow> sysEnv \<Rightarrow> (storeErr \<Rightarrow> string) \<Rightarrow> string \<Rightarrow> Storage \<Rightarrow> httpResponse \<times> Storage" where
  "handleGetObject dec env errText key s =
    (case Open env key s of
       (Inl e, s) \<Rightarrow>
         if e = ErrNotFound then (noSuchKey key, snd (absentKeyReason key s))
         else (writeError [] 500 ''internal_error'' (errText e), s)
     | (Inr (f, om), s) \<Rightarrow>
         (case evictModuleIndexOnRead dec env key f om s of
            (guardServe, s) \<Rightarrow> serveObject dec env key f om s
          | (guardEvicted, s) \<Rightarrow> (noSuchKey key, s)
          | (guardPeekError, s) \<Rightarrow> (noSuchKey key, s)))"

definition handleHeadObject :: "sysEnv \<Rightarrow> (storeErr \<Rightarrow> string) \<Rightarrow> string \<Rightarrow> Storage \<Rightarrow> httpResponse \<times> Storage" where
  "handleHeadObject env errText key s =
    (case Stat env key s of
       (Inl e, s) \<Rightarrow> (if e = ErrNotFound then noSuchKey key else writeError [] 500 ''internal_error'' (errText e), s)
     | (Inr om, s) \<Rightarrow> (\<lparr>rs_status = 200, rs_headers = emitObjectHeaders env om, rs_body = []\<rparr>, s))"

subsection \<open>Storing an object\<close>

definition nativeMetaPrefix :: string where "nativeMetaPrefix = ''x-cache-meta-''"
definition legacyMetaPrefix :: string where "legacyMetaPrefix = ''x-amz-meta-''"

text \<open>The request's headers are pairs of a name and its first value, in the order a \<^verbatim>\<open>range\<close> visits
  them.\<close>

definition nativeMeta :: "kvMap \<Rightarrow> string \<times> string \<Rightarrow> kvMap" where
  "nativeMeta m kv =
    (let lk = toLower (fst kv) in
     if hasPrefix lk nativeMetaPrefix then AList.update (trimPrefix lk nativeMetaPrefix) (snd kv) m else m)"

definition legacyMeta :: "kvMap \<Rightarrow> string \<times> string \<Rightarrow> kvMap" where
  "legacyMeta m kv =
    (let lk = toLower (fst kv) in
     if hasPrefix lk legacyMetaPrefix
     then let metaKey = trimPrefix lk legacyMetaPrefix
       in if map_of m metaKey = None then AList.update metaKey (snd kv) m else m
     else m)"

definition metaFromHeaders :: "sysEnv \<Rightarrow> kvMap \<Rightarrow> kvMap" where
  "metaFromHeaders env hdrs =
    foldl legacyMeta (foldl nativeMeta [] (env_order env hdrs)) (env_order env hdrs)"

record auditInfo =
  ai_Username :: string
  ai_Timestamp :: string
  ai_ClientIP :: string
  ai_UserAgent :: string

definition auditMapFromContext :: "auditInfo option \<Rightarrow> kvMap option" where
  "auditMapFromContext a =
    (case a of None \<Rightarrow> None
     | Some a \<Rightarrow> Some [(''uploader'', ai_Username a), (''uploaded_at'', ai_Timestamp a),
         (''client_ip'', ai_ClientIP a), (''user_agent'', ai_UserAgent a)])"

text \<open>\<^verbatim>\<open>http.MaxBytesReader\<close>: a body over the limit ends in its error.\<close>

definition maxBytesErr :: ioErr where
  "maxBytesErr = IoErr 0"

definition maxBytesReader :: "int \<Rightarrow> reader \<Rightarrow> reader" where
  "maxBytesReader limit r =
    (if int (length (rd_data r)) > max 0 limit then \<lparr>rd_data = take (nat limit) (rd_data r), rd_err = Some maxBytesErr\<rparr> else r)"

definition isMaxBytesErr :: "storeErr \<Rightarrow> bool" where
  "isMaxBytesErr e \<longleftrightarrow> e = ErrIo maxBytesErr \<or> e = ErrWriteTemp maxBytesErr"

datatype storeStatus = storeStatusStored | storeStatusDropped | storeStatusConflict | storeStatusError

definition storeOneObject ::
    "decoders \<Rightarrow> sysEnv \<Rightarrow> string \<Rightarrow> reader \<Rightarrow> kvMap \<Rightarrow> kvMap option \<Rightarrow> Storage \<Rightarrow> (storeStatus \<times> storeErr option) \<times> Storage" where
  "storeOneObject dec env key body m aud s =
    (let peek = take indexPutPeekBytes (rd_data body) in
     case (if length (rd_data body) < indexPutPeekBytes then rd_err body else None) of
       Some e \<Rightarrow> ((storeStatusError, Some (ErrIo e)), s)
     | None \<Rightarrow>
       if looksLikeGoModuleIndex dec peek (kvGet m ''compression'') then ((storeStatusDropped, None), s)
       else case PutStream dec env key body m aud s of
         (None, s) \<Rightarrow> ((storeStatusStored, None), s)
       | (Some e, s) \<Rightarrow>
           if e = ErrWriteOnceConflict \<or> e = ErrWriteOnceDuplicate then ((storeStatusConflict, None), s)
           else ((storeStatusError, Some e), s))"

definition handlePutObject ::
    "decoders \<Rightarrow> sysEnv \<Rightarrow> (storeErr \<Rightarrow> string) \<Rightarrow> string \<Rightarrow> kvMap \<Rightarrow> auditInfo option \<Rightarrow> int \<Rightarrow> reader \<Rightarrow> Storage
      \<Rightarrow> httpResponse \<times> Storage" where
  "handlePutObject dec env errText key hdrs a maxObjectBytes body s =
    (case storeOneObject dec env key (maxBytesReader maxObjectBytes body) (metaFromHeaders env hdrs) (auditMapFromContext a) s of
       ((status, Some e), s) \<Rightarrow>
         (if isMaxBytesErr e
          then writeError [] 413 ''too_large'' (''object exceeds max size of '' @ formatInt maxObjectBytes @ '' bytes'')
          else if e = ErrStoredDigestMismatch then writeError [] 400 ''invalid_request'' (errText e)
          else writeError [] 500 ''internal_error'' (errText e), s)
     | ((status, None), s) \<Rightarrow>
         (if status = storeStatusConflict
          then writeError [] 409 ''conflict'' ''object already exists with different content''
          else \<lparr>rs_status = 200, rs_headers = [], rs_body = []\<rparr>, s))"

definition handleDeleteObject :: "sysEnv \<Rightarrow> (storeErr \<Rightarrow> string) \<Rightarrow> string \<Rightarrow> Storage \<Rightarrow> httpResponse \<times> Storage" where
  "handleDeleteObject env errText key s =
    (case Delete env key s of
       (err, s) \<Rightarrow>
         (case err of
            Some e \<Rightarrow> if e \<noteq> ErrNotFound then (writeError [] 500 ''internal_error'' (errText e), s)
                      else (\<lparr>rs_status = 204, rs_headers = [], rs_body = []\<rparr>, s)
          | None \<Rightarrow> (\<lparr>rs_status = 204, rs_headers = [], rs_body = []\<rparr>, s)))"

subsection \<open>Serving the index\<close>

text \<open>A query is the parameters with their first values; a missing one reads as the empty string.
  \<^verbatim>\<open>strconv.Atoi\<close> answers the nearest end of the range with its error.\<close>

definition atoiValue :: "string \<Rightarrow> int" where
  "atoiValue x =
    (let neg = hasPrefix x ''-''; ds = (if neg \<or> hasPrefix x ''+'' then tl x else x) in
     if ds = [] then 0
     else case digitsFrom 0 ds of None \<Rightarrow> 0
       | Some n \<Rightarrow> if neg then max (- (2 ^ 63)) (- int n) else min (2 ^ 63 - 1) (int n))"

definition indexFormFromQuery :: "kvMap \<Rightarrow> Index \<Rightarrow> indexForm" where
  "indexFormFromQuery q idx =
    (if kvGet q ''hash'' = formatNat gbciPrefixSize then indexFormV1 gbciPrefixSize
     else if atoiValue (kvGet q ''v'') \<ge> uint gbciVersion2 then FormV2 idx
     else indexFormV1 gbciHashSize)"

definition indexGenFromQuery :: "kvMap \<Rightarrow> indexGen option" where
  "indexGenFromQuery q =
    (case parseUint (kvGet q ''epoch'') of None \<Rightarrow> None
     | Some epoch \<Rightarrow>
       if epoch = 0 then None
       else case parseUint (kvGet q ''seq'') of None \<Rightarrow> None
         | Some sq \<Rightarrow> Some \<lparr>gen_epoch = of_nat epoch, gen_seq = sq\<rparr>)"

definition headerIndexEpoch :: string where "headerIndexEpoch = ''X-Index-Epoch''"
definition headerIndexSeq :: string where "headerIndexSeq = ''X-Index-Seq''"
definition headerIndexDelta :: string where "headerIndexDelta = ''X-Index-Delta''"
definition headerPrefetch :: string where "headerPrefetch = ''X-Cache-Prefetch''"

definition setIndexGenHeaders :: "indexGen \<Rightarrow> kvMap \<Rightarrow> kvMap" where
  "setIndexGenHeaders gen h =
    (if gen_epoch gen = 0 then h
     else setHeader headerIndexSeq (formatNat (gen_seq gen)) (setHeader headerIndexEpoch (formatNat (unat (gen_epoch gen))) h))"

text \<open>\<^verbatim>\<open>http.ServeContent\<close> for a request without a range, whose \<^verbatim>\<open>If-None-Match\<close> names one tag.\<close>

definition serveContent :: "string option \<Rightarrow> string \<Rightarrow> kvMap \<Rightarrow> bytes \<Rightarrow> httpResponse" where
  "serveContent ifNoneMatch etag h blob =
    (if (case ifNoneMatch of None \<Rightarrow> False | Some t \<Rightarrow> t = ''*'' \<or> t = etag \<or> t = ''W/'' @ etag)
     then \<lparr>rs_status = 304, rs_headers = AList.delete ''Content-Type'' h, rs_body = []\<rparr>
     else \<lparr>rs_status = 200, rs_headers = setHeader ''Content-Length'' (formatNat (length blob))
             (setHeader ''Accept-Ranges'' ''bytes'' h), rs_body = blob\<rparr>)"

definition handleGetIndex :: "int \<Rightarrow> kvMap \<Rightarrow> string option \<Rightarrow> Index option \<Rightarrow> httpResponse \<times> Index option" where
  "handleGetIndex now q ifNoneMatch idx =
    (case idx of None \<Rightarrow> (writeError [] 500 ''internal_error'' ''index unavailable'', None)
     | Some idx \<Rightarrow>
       let form = indexFormFromQuery q idx; ct = setHeader ''Content-Type'' ''application/octet-stream'' [] in
       (case indexGenFromQuery q of
          Some from \<Rightarrow>
            (case DeltaForm from form idx of
               None \<Rightarrow> (writeError [] 410 ''index_epoch_gone'' ''the index changed beyond a delta; fetch it whole'', Some idx)
             | Some (delta, to) \<Rightarrow>
                 (\<lparr>rs_status = 200, rs_headers = setIndexGenHeaders to (setHeader headerIndexDelta ''1'' ct), rs_body = delta\<rparr>, Some idx))
        | None \<Rightarrow>
            let ((blob, etag, gen), idx) = BlobGenForm now form idx
            in (serveContent ifNoneMatch etag (setIndexGenHeaders gen (setHeader ''ETag'' etag ct)) blob, Some idx)))"

subsection \<open>Labels\<close>

definition objectLabel :: "kvMap \<Rightarrow> string" where
  "objectLabel m =
    (let objType = kvGet m ''object-type'' in
     if objType = [] then []
     else let pkg = kvGet m ''pkg''; src = kvGet m ''src''; goVer = kvGet m ''go-version''; target = kvGet m ''target'';
              label = objType;
              label = (if pkg \<noteq> [] then label @ '' '' @ pkg else label);
              label = (if src \<noteq> [] then label @ '' ('' @ src @ '')'' else label);
              label = (if goVer \<noteq> [] \<and> target \<noteq> [] then label @ '' '' @ goVer @ '' '' @ target else label)
       in label)"

section \<open>Answers\<close>

lemma rs_status_error [simp]: "rs_status (writeError h n c m) = n" "rs_status (noSuchKey key) = 404"
  by (simp_all add: writeError_def noSuchKey_def)

text \<open>The same object: its bytes, its key, and the digest stored with them.\<close>

definition sameObject :: "diskFile \<Rightarrow> diskFile \<Rightarrow> bool" where
  "sameObject f f' \<longleftrightarrow> f_body f' = f_body f \<and> f_orig f' = f_orig f \<and>
     kvGet (getMetadata f') storedDigestMetaKey = kvGet (getMetadata f) storedDigestMetaKey"

text \<open>What a handler may do to the store: keep or repair the key's file, or remove it; other files
  are untouched.\<close>

definition readStep :: "decoders \<Rightarrow> string set \<Rightarrow> string \<Rightarrow> Storage \<Rightarrow> Storage \<Rightarrow> bool" where
  "readStep dec K key s s' \<longleftrightarrow> guardsOk dec K s' \<and> pathOf s' = pathOf s \<and> indexKeys s' \<subseteq> indexKeys s \<and>
     (\<forall>p. lookupFile p s' = lookupFile p s \<or>
        p = pathOf s key \<and> (\<forall>f'. lookupFile p s' = Some f' \<longrightarrow> (\<exists>f. lookupFile p s = Some f \<and> sameObject f f')))"

lemma readStep_same: "guardsOk dec K s' \<Longrightarrow> sameFiles s s' \<Longrightarrow> readStep dec K key s s'"
  by (simp add: readStep_def sameFiles_path indexKeys_same)

lemma readStep_guard: "guardStep dec K key s s' \<Longrightarrow> readStep dec K key s s'"
  unfolding guardStep_def readStep_def by fastforce

lemma readStep_heal: "healStep dec K key s s' f f' \<Longrightarrow> lookupFile (pathOf s key) s = Some f \<Longrightarrow> readStep dec K key s s'"
  by (auto simp: healStep_def readStep_def sameObject_def)

lemma readStep_after: "sameFiles s t \<Longrightarrow> readStep dec K key t u \<Longrightarrow> readStep dec K key s u"
  using sameFiles_path [of s t] indexKeys_same [of s t] by (simp add: readStep_def)

text \<open>A served object: the stored bytes, in agreement with the digest stored with them; for a key of
  the build cache not a module index, and with a content address.\<close>

definition served :: "decoders \<Rightarrow> sysEnv \<Rightarrow> string \<Rightarrow> Storage \<Rightarrow> httpResponse \<Rightarrow> bool" where
  "served dec env key s resp \<longleftrightarrow> (\<exists>f om. lookupFile (pathOf s key) s = Some f \<and> digestMatches f \<and>
     rs_body resp = rd_data (fileReader env f) \<and> rs_headers resp = emitObjectHeaders env om \<and> om_Size om = int (length (f_body f)) \<and>
     (snd (extractActionHash key) \<longrightarrow> passesProbe dec f \<and> kvGet (om_Metadata om) outputIDMetaKey \<noteq> [] \<and>
        (kvGet (getMetadata f) outputIDMetaKey \<noteq> kvGet (om_Metadata om) outputIDMetaKey \<longrightarrow>
           contentAddress dec (f_body f) (kvGet (om_Metadata om) outputIDMetaKey))))"

lemma serveObject_ok:
  assumes ok: "guardsOk dec K s" "key \<in> K" "lookupFile (pathOf s key) s = Some f"
    and om: "map_of (om_Metadata om) = map_of (getMetadata f)" "om_Size om = int (length (f_body f))"
    and probe: "snd (extractActionHash key) \<longrightarrow> passesProbe dec f"
    and env: "visitsAll (env_order env)" "env_cap env < 2 ^ 63" and p: "serveObject dec env key f om s = (resp, s')"
  shows "readStep dec K key s s' \<and> (rs_status resp = 200 \<and> served dec env key s resp \<or> resp = noSuchKey key)"
proof -
  have same: "kvGet (om_Metadata om) k = kvGet (getMetadata f) k" for k using om(1) by (simp add: kvGet_map_of)
  obtain r s1 where v: "verifyStoredDigestFor env key f (om_Metadata om) s = (r, s1)" by fastforce
  note v' = verifyStoredDigestFor_ok [OF ok same v]
  have f1: "lookupFile (pathOf s1 key) s1 = Some f" using ok(3) v' sameFiles_path [of s s1] by simp
  consider e where "r = Inl e" | "r = Inr False" | "r = Inr True" by (cases r) (metis (full_types))+
  then show ?thesis
  proof cases
    case 1
    then show ?thesis using p v v' readStep_same [of dec K s1 s key] by (simp add: serveObject_def)
  next
    case 2
    then have "resp = noSuchKey key" "s' = snd (Delete env key s1)" using p v by (simp_all add: serveObject_def)
    then show ?thesis using guardStep_Delete [OF _ ok(2), of dec s1 env] v' readStep_guard readStep_after by blast
  next
    case 3
    obtain b om' s2 where e: "ensureOutputID dec env key om (Some f) s1 = ((b, om'), s2)" by (metis prod.exhaust)
    from ensureOutputID_ok [OF _ ok(2) f1 _ env e] v' obtain f' where
      f': "healStep dec K key s1 s2 f f'" "b \<and> snd (extractActionHash key) \<longrightarrow> kvGet (om_Metadata om') outputIDMetaKey \<noteq> [] \<and>
       (missingOutputID om \<longrightarrow> contentAddress dec (f_body f) (kvGet (om_Metadata om') outputIDMetaKey))" by auto
    have s': "s' = s2" "b \<Longrightarrow> resp = \<lparr>rs_status = 200, rs_headers = emitObjectHeaders env om', rs_body = rd_data (fileReader env f)\<rparr>"
        "\<not> b \<Longrightarrow> resp = noSuchKey key"
      using p v e 3 by (auto simp: serveObject_def split: if_splits)
    have step: "readStep dec K key s s'"
      using readStep_heal [OF f'(1) f1] readStep_after v' s'(1) by blast
    have om': "om_Size om' = om_Size om" "\<not> missingOutputID om \<Longrightarrow> om' = om"
      using e by (auto simp: ensureOutputID_def split: if_splits prod.splits sum.splits)
    have "served dec env key s resp" if b
      unfolding served_def using ok(3) v' 3 s'(2) [OF that] om(2) om' probe f'(2) that same
      by (intro exI [of _ f] exI [of _ om']) (auto simp: missingOutputID_def)
    then show ?thesis using step s' by (cases b) auto
  qed
qed

lemma wasEvicted_ok:
  assumes "guardsOk dec K s" "wasEvicted key s = (b, s')"
  shows "guardsOk dec K s' \<and> sameFiles s s'"
proof (cases "snd (extractActionHash key) \<and> st_evicted s \<noteq> None")
  case False
  then have "s' = s" using assms(2) by (auto simp: wasEvicted_def split: prod.splits option.splits if_splits)
  then show ?thesis using assms(1) by simp
next
  case True
  then obtain h c where h: "extractActionHash key = (h, True)" "st_evicted s = Some c" by (metis not_None_eq prod.collapse)
  obtain g c' where g: "lru_Get memoShard c h = (g, c')" by fastforce
  have "lruOk memoShard c" using assms(1) h by (simp add: guardsOk_def storeOk_def memosOk_def)
  note g' = lru_Get_ok [OF this g]
  have s': "s' = s\<lparr>st_evicted := Some c'\<rparr>" using assms(2) h g by (simp add: wasEvicted_def)
  have so: "storeOk K s'"
    using assms(1) g'(2)
    by (simp add: s' guardsOk_def storeOk_def memosOk_def metaCoherent_def metaLookup_def pathOf_def [abs_def] lookupFile_def)
  have "guardsOk dec K s'"
    using guardsOk_quiet [OF assms(1) so] by (simp add: s' digestLookup_def cleanLookup_def)
  then show ?thesis by (simp add: s' sameFiles_def)
qed

lemma absentKeyReason_ok:
  assumes "guardsOk dec K s" "absentKeyReason key s = (why, s')"
  shows "guardsOk dec K s' \<and> sameFiles s s'"
  using assms wasEvicted_ok [OF assms(1), of key "fst (wasEvicted key s)" "snd (wasEvicted key s)"]
  by (auto simp: absentKeyReason_def split: prod.splits if_splits)

text \<open>What reads rely on of the system.\<close>

definition readEnvOk :: "sysEnv \<Rightarrow> bool" where
  "readEnvOk env \<longleftrightarrow> visitsAll (env_order env) \<and> env_cap env < 2 ^ 63"

lemma served_before: "sameFiles s t \<Longrightarrow> served dec env key t resp \<Longrightarrow> served dec env key s resp"
  using sameFiles_path [of s t] by (simp add: served_def)

lemma handleGetObject_ok:
  assumes "guardsOk dec K s" "key \<in> K" "readEnvOk env" "handleGetObject dec env errText key s = (resp, s')"
  shows "readStep dec K key s s' \<and>
    (rs_status resp = 200 \<and> served dec env key s resp \<or> resp = noSuchKey key \<or> rs_status resp = 500)"
proof -
  have env: "visitsAll (env_order env)" "env_cap env < 2 ^ 63" using assms(3) by (simp_all add: readEnvOk_def)
  obtain r s1 where o: "Open env key s = (r, s1)" by fastforce
  note o' = Open_guards [OF assms(1,2) env(1) o]
  show ?thesis
  proof (cases r)
    case (Inl e)
    obtain why s2 where a: "absentKeyReason key s1 = (why, s2)" by fastforce
    have "guardsOk dec K s2" "sameFiles s s2" using absentKeyReason_ok [OF _ a] o' sameFiles_trans by blast+
    then show ?thesis
      using assms(4) o Inl a o' readStep_same [of dec K s1 s key] readStep_same [of dec K s2 s key]
      by (auto simp: handleGetObject_def split: if_splits)
  next
    case (Inr fom)
    then obtain f om where f: "r = Inr (f, om)" by fastforce
    then have m: "lookupFile (pathOf s key) s = Some f" "map_of (om_Metadata om) = map_of (getMetadata f)"
        "om_Size om = int (length (f_body f))" using o' by auto
    have f1: "lookupFile (pathOf s1 key) s1 = Some f" using m(1) o' sameFiles_path [of s s1] by simp
    obtain v s2 where v: "evictModuleIndexOnRead dec env key f om s1 = (v, s2)" by fastforce
    note v' = evictModuleIndexOnRead_ok [OF _ assms(2) f1 v]
    show ?thesis
    proof (cases "v = guardServe")
      case True
      then have v2: "sameFiles s1 s2" "guardsOk dec K s2" "snd (extractActionHash key) \<longrightarrow> passesProbe dec f"
        using v' o' by (simp_all add: guardStep_def)
      have f2: "lookupFile (pathOf s2 key) s2 = Some f" using f1 sameFiles_path [OF v2(1)] by simp
      have p: "serveObject dec env key f om s2 = (resp, s')" using assms(4) o f v True by (simp add: handleGetObject_def)
      have same: "sameFiles s s2" using o' v2(1) sameFiles_trans by blast
      from serveObject_ok [OF v2(2) assms(2) f2 m(2,3) v2(3) env p] show ?thesis
        using readStep_after [OF same] served_before [OF same] by blast
    next
      case False
      then have "resp = noSuchKey key" "s' = s2"
        using assms(4) o f v by (cases v; simp add: handleGetObject_def)+
      then show ?thesis using v' o' readStep_guard readStep_after by blast
    qed
  qed
qed

lemma handleHeadObject_ok:
  assumes "guardsOk dec K s" "key \<in> K" "readEnvOk env" "handleHeadObject env errText key s = (resp, s')"
  shows "guardsOk dec K s' \<and> sameFiles s s'"
  using assms Stat_guards [OF assms(1,2), of env "fst (Stat env key s)" "snd (Stat env key s)"]
  by (auto simp: handleHeadObject_def readEnvOk_def split: prod.splits sum.splits)

lemma handleDeleteObject_ok:
  assumes "guardsOk dec K s" "key \<in> K" "handleDeleteObject env errText key s = (resp, s')"
  shows "guardStep dec K key s s' \<and> (rs_status resp = 204 \<longrightarrow> lookupFile (pathOf s' key) s' = None)"
proof -
  obtain err t where d: "Delete env key s = (err, t)" by fastforce
  note d' = Delete_guards [OF assms(1,2) d]
  have t: "s' = t" "rs_status resp = 204 \<Longrightarrow> err = None \<or> err = Some ErrNotFound"
    using assms(3) d by (auto simp: handleDeleteObject_def split: option.splits if_splits)
  have nf: "err = Some ErrNotFound \<Longrightarrow> lookupFile (pathOf s key) s = None"
    using d by (auto simp: Delete_def osOpen_def Let_def split: option.splits)
  show ?thesis using guardStep_Delete [OF assms(1,2), of env] d d' t nf by auto
qed

section \<open>Uploads\<close>

text \<open>An upload that reaches the disk: it is reported stored, and write-once mode did not keep an
  older object in its place.\<close>

definition putStored :: "decoders \<Rightarrow> sysEnv \<Rightarrow> string \<Rightarrow> reader \<Rightarrow> kvMap \<Rightarrow> kvMap option \<Rightarrow> Storage \<Rightarrow> bool" where
  "putStored dec env key body m aud s \<longleftrightarrow>
     fst (storeOneObject dec env key body m aud s) = (storeStatusStored, None) \<and>
     writeOnceStops dec env (rd_data body) (pathOf s key) s = None"

lemma putStops_None:
  "putStops dec env path r m s = None \<Longrightarrow> writeOnceStops dec env (rd_data r) path s = None"
  "putStops dec env path r m s = Some None \<Longrightarrow> writeOnceStops dec env (rd_data r) path s = Some None"
  by (auto simp: putStops_def split: option.splits if_splits)

lemma storeOneObject_cases:
  assumes "storeOneObject dec env key body m aud s = ((st, e), s')"
  obtains (kept) "s' = s" "st \<noteq> storeStatusStored"
  | (put) err where "PutStream dec env key body m aud s = (err, s')" "st = storeStatusStored \<longleftrightarrow> err = None"
      "e = None \<longleftrightarrow> err = None \<or> st = storeStatusConflict"
  using assms
  by (auto simp: storeOneObject_def Let_def split: option.splits if_splits prod.splits)

lemma storeOneObject_ok:
  assumes "guardsOk dec K s" "key \<in> K" "putFresh env K s" "\<And>a. aud = Some a \<Longrightarrow> distinct (map fst a)"
    and "storeOneObject dec env key body m aud s = ((st, e), s')"
  shows "guardsOk dec K s' \<and> pathOf s' = pathOf s \<and> indexKeys s' \<subseteq> insert (compactKey_Key (newCompactKey key)) (indexKeys s) \<and>
    (if putStored dec env key body m aud s
     then rd_err body = None \<and> (\<exists>f. f_body f = rd_data body \<and> storedMeta body m (map_of (getMetadata f)) \<and>
        (isKeySafe key \<or> f_orig f = Some key) \<and> f_ino f = env_ino env \<and>
        (\<forall>p. lookupFile p s' = (if p = pathOf s key then Some f else lookupFile p s)))
     else \<forall>p. lookupFile p s' = lookupFile p s)"
  using assms(5)
proof (cases rule: storeOneObject_cases)
  case kept
  then show ?thesis using assms(1,5) by (auto simp: putStored_def)
next
  case (put err)
  note pg = PutStream_guards [OF assms(1-4) put(1)]
  have st: "putStored dec env key body m aud s \<longleftrightarrow> err = None \<and> writeOnceStops dec env (rd_data body) (pathOf s key) s = None"
    using assms(5) put by (cases st) (auto simp: putStored_def)
  show ?thesis
  proof (cases "err = None \<and> putStops dec env (pathOf s key) body m s = None")
    case True
    then have "putStored dec env key body m aud s" using st putStops_None(1) by blast
    then show ?thesis using pg True putStops_accepts(1) [of dec env "pathOf s key" body m s] by auto
  next
    case False
    then have "\<not> putStored dec env key body m aud s \<and> (\<forall>p. lookupFile p s' = lookupFile p s)"
      using pg st putStops_None(2) by fastforce
    then show ?thesis using pg by simp
  qed
qed

lemma distinct_auditMap: "auditMapFromContext a = Some m \<Longrightarrow> distinct (map fst m)"
  by (auto simp: auditMapFromContext_def split: option.splits)

lemma handlePutObject_ok:
  assumes "guardsOk dec K s" "key \<in> K" "putFresh env K s"
    and "handlePutObject dec env errText key hdrs a limit body s = (resp, s')"
  shows "guardsOk dec K s' \<and> pathOf s' = pathOf s \<and> indexKeys s' \<subseteq> insert (compactKey_Key (newCompactKey key)) (indexKeys s) \<and>
    (if putStored dec env key (maxBytesReader limit body) (metaFromHeaders env hdrs) (auditMapFromContext a) s
     then rs_status resp = 200 \<and> rd_err body = None \<and> int (length (rd_data body)) \<le> max 0 limit \<and>
       (\<exists>f. f_body f = rd_data body \<and> digestMatches f \<and> (isKeySafe key \<or> f_orig f = Some key) \<and>
          (\<forall>p. lookupFile p s' = (if p = pathOf s key then Some f else lookupFile p s)))
     else \<forall>p. lookupFile p s' = lookupFile p s)"
proof -
  let ?r = "maxBytesReader limit body" and ?m = "metaFromHeaders env hdrs" and ?a = "auditMapFromContext a"
  obtain st e t where o: "storeOneObject dec env key ?r ?m ?a s = ((st, e), t)" by (metis prod.exhaust)
  have t: "s' = t" "st = storeStatusStored \<Longrightarrow> e = None \<Longrightarrow> rs_status resp = 200"
    using assms(4) o by (auto simp: handlePutObject_def split: option.splits)
  have ok: "guardsOk dec K t \<and> pathOf t = pathOf s \<and> indexKeys t \<subseteq> insert (compactKey_Key (newCompactKey key)) (indexKeys s) \<and>
     (if putStored dec env key ?r ?m ?a s
     then rd_err ?r = None \<and> (\<exists>f. f_body f = rd_data ?r \<and> storedMeta ?r ?m (map_of (getMetadata f)) \<and> (isKeySafe key \<or> f_orig f = Some key) \<and> f_ino f = env_ino env \<and>
        (\<forall>p. lookupFile p t = (if p = pathOf s key then Some f else lookupFile p s)))
     else \<forall>p. lookupFile p t = lookupFile p s)"
    by (rule storeOneObject_ok [OF assms(1-3) _ o]) (rule distinct_auditMap)
  show ?thesis
  proof (cases "putStored dec env key ?r ?m ?a s")
    case False
    then show ?thesis using ok t by simp
  next
    case True
    then have "rd_err ?r = None" "st = storeStatusStored" "e = None" using ok o by (auto simp: putStored_def)
    moreover from this(1) have "?r = body" "int (length (rd_data body)) \<le> max 0 limit"
      by (auto simp: maxBytesReader_def split: if_splits)
    moreover have "digestMatches f" if "f_body f = rd_data ?r" "storedMeta ?r ?m (map_of (getMetadata f))" for f
      using storedMeta_digest [OF that(2)] that(1) by (simp add: digestMatches_def equalFold_def)
    ultimately show ?thesis using ok t True by (simp only: if_True) blast
  qed
qed

end
