(* ===== verification/NearbyKeys.thy ===== *)
theory NearbyKeys
  imports IndexState
begin

text \<open>
  The time-window search behind prefetching (\<^verbatim>\<open>NearbyKeys\<close> of \<^verbatim>\<open>index.go\<close>): keys modified
  in a window, nearest to its midpoint first, found by walking outward from the midpoint.  Positions are
  integers, since the left cursor ends one before the window.  Modification times are whole seconds.  The
  set of excluded keys is built with the operations of the package's set type.
\<close>

definition nearbyScanFactor :: int where
  "nearbyScanFactor = 8"

definition nearbyDist :: "indexEntry list \<Rightarrow> int \<Rightarrow> int \<Rightarrow> int" where
  "nearbyDist es mid pos =
     (let d = ie_mtimeUnix (es ! nat pos) - mid in if d < 0 then - d else d)"

text \<open>The cursor move: the position taken and the cursors after it.\<close>

definition nearbyStep :: "indexEntry list \<Rightarrow> int \<Rightarrow> int \<Rightarrow> int \<Rightarrow> int \<Rightarrow> int \<Rightarrow> int \<times> int \<times> int" where
  "nearbyStep es mid lo hi left right =
     (if left < lo then (right, left, right + 1)
      else if right \<ge> hi then (left, left - 1, right)
      else if nearbyDist es mid left \<le> nearbyDist es mid right then (left, left - 1, right)
      else (right, left, right + 1))"

function nearbyLoop :: "indexEntry list \<Rightarrow> (compactKey \<Rightarrow> bool) \<Rightarrow> (string \<Rightarrow> bool) option \<Rightarrow> int \<Rightarrow> int \<Rightarrow>
    int \<Rightarrow> int \<Rightarrow> int \<Rightarrow> int \<Rightarrow> string list \<Rightarrow> int \<Rightarrow> string list" where
  "nearbyLoop es excluded skip mid limit lo hi left right keys examined =
     (if int (length keys) < limit \<and> (left \<ge> lo \<or> right < hi) then
        let (pos, left', right') = nearbyStep es mid lo hi left right; e = es ! nat pos in
        if excluded (ie_key e) then nearbyLoop es excluded skip mid limit lo hi left' right' keys examined
        else case skip of
          None \<Rightarrow> nearbyLoop es excluded skip mid limit lo hi left' right' (keys @ [compactKey_Key (ie_key e)]) examined
        | Some sk \<Rightarrow>
            if examined = limit * nearbyScanFactor then keys
            else let key = compactKey_Key (ie_key e) in
              if sk key then nearbyLoop es excluded skip mid limit lo hi left' right' keys (examined + 1)
              else nearbyLoop es excluded skip mid limit lo hi left' right' (keys @ [key]) (examined + 1)
      else keys)"
  by pat_completeness auto
termination
  by (relation "measure (\<lambda>(es, excluded, skip, mid, limit, lo, hi, left, right, keys, examined).
        nat (left - lo + 1) + nat (hi - right))")
    (auto simp: nearbyStep_def split: if_splits)

declare nearbyLoop.simps [simp del]

definition nearbyKeysLocked :: "Index \<Rightarrow> int \<Rightarrow> int \<Rightarrow> int \<Rightarrow> (compactKey \<Rightarrow> bool) \<Rightarrow> (string \<Rightarrow> bool) option \<Rightarrow> string list" where
  "nearbyKeysLocked idx startUnix endUnix limit excluded skip =
     (let es = ix_entries idx in
      if limit \<le> 0 \<or> es = [] then []
      else let lo = sortSearch (length es) (\<lambda>i. ie_mtimeUnix (es ! i) \<ge> startUnix);
               hi = sortSearch (length es) (\<lambda>i. ie_mtimeUnix (es ! i) > endUnix) in
        if lo \<ge> hi then []
        else let mid = (startUnix + endUnix) sdiv 2;
                 right = sortSearch (hi - lo) (\<lambda>i. ie_mtimeUnix (es ! (lo + i)) \<ge> mid) + lo
             in nearbyLoop es excluded skip mid limit (int lo) (int hi) (int right - 1) (int right) [] 0)"

definition NearbyKeys :: "(compactKey, 's) setOps \<Rightarrow> int \<Rightarrow> int \<Rightarrow> int \<Rightarrow> string list \<Rightarrow> (string \<Rightarrow> bool) option \<Rightarrow>
    Index \<Rightarrow> string list \<times> Index" where
  "NearbyKeys ops startUnix endUnix limit exclude skip idx =
     (let excluded = foldl (set_add ops) (set_new ops) (map newCompactKey exclude) in
      if ix_pendingEntries idx = []
      then (nearbyKeysLocked idx startUnix endUnix limit (set_contains ops excluded) skip, idx)
      else let idx1 = drainEntriesLocked idx
           in (nearbyKeysLocked idx1 startUnix endUnix limit (set_contains ops excluded) skip, idx1))"

subsection \<open>The order of the walk\<close>

function outward :: "indexEntry list \<Rightarrow> int \<Rightarrow> int \<Rightarrow> int \<Rightarrow> int \<Rightarrow> int \<Rightarrow> int list" where
  "outward es mid lo hi left right =
     (if left \<ge> lo \<or> right < hi
      then let (pos, left', right') = nearbyStep es mid lo hi left right
           in pos # outward es mid lo hi left' right'
      else [])"
  by pat_completeness auto
termination
  by (relation "measure (\<lambda>(es, mid, lo, hi, left, right). nat (left - lo + 1) + nat (hi - right))")
    (auto simp: nearbyStep_def split: if_splits)

declare outward.simps [simp del]

definition walkKeys :: "indexEntry list \<Rightarrow> (compactKey \<Rightarrow> bool) \<Rightarrow> int list \<Rightarrow> string list" where
  "walkKeys es excluded ps =
     map (\<lambda>p. compactKey_Key (ie_key (es ! nat p))) (filter (\<lambda>p. \<not> excluded (ie_key (es ! nat p))) ps)"

lemma nearbyLoop_None:
  "nearbyLoop es excluded None mid limit lo hi left right keys examined =
     keys @ take (nat (limit - int (length keys))) (walkKeys es excluded (outward es mid lo hi left right))"
proof (induction es excluded "None :: (string \<Rightarrow> bool) option" mid limit lo hi left right keys examined
    rule: nearbyLoop.induct)
  case (1 es excluded mid limit lo hi left right keys examined)
  show ?case
  proof (cases "int (length keys) < limit \<and> (left \<ge> lo \<or> right < hi)")
    case True
    obtain pos left' right' where st: "nearbyStep es mid lo hi left right = (pos, left', right')"
      by (metis prod.exhaust)
    have o: "outward es mid lo hi left right = pos # outward es mid lo hi left' right'"
      using True st by (subst outward.simps) auto
    have n: "nat (limit - int (length keys)) = Suc (nat (limit - (1 + int (length keys))))" using True by arith
    show ?thesis
    proof (cases "excluded (ie_key (es ! nat pos))")
      case ex: True
      have "nearbyLoop es excluded None mid limit lo hi left right keys examined =
          nearbyLoop es excluded None mid limit lo hi left' right' keys examined"
        using True st ex by (subst nearbyLoop.simps) simp
      then show ?thesis using "1"(1) [OF True st [symmetric] refl refl refl ex] ex by (simp add: o walkKeys_def)
    next
      case ex: False
      have "nearbyLoop es excluded None mid limit lo hi left right keys examined =
          nearbyLoop es excluded None mid limit lo hi left' right' (keys @ [compactKey_Key (ie_key (es ! nat pos))]) examined"
        using True st ex by (subst nearbyLoop.simps) simp
      then show ?thesis using "1"(2) [OF True st [symmetric] refl refl refl ex] ex n
        by (simp add: o walkKeys_def)
    qed
  next
    case False
    have "nearbyLoop es excluded None mid limit lo hi left right keys examined = keys"
      using False by (subst nearbyLoop.simps) auto
    moreover have "nat (limit - int (length keys)) = 0 \<or> outward es mid lo hi left right = []"
      using False by (subst outward.simps) auto
    ultimately show ?thesis by (auto simp: walkKeys_def)
  qed
qed

text \<open>With a filter, the walk stops once the filter has judged as many candidates as the budget allows.\<close>

definition walkSkip :: "indexEntry list \<Rightarrow> (compactKey \<Rightarrow> bool) \<Rightarrow> (string \<Rightarrow> bool) \<Rightarrow> nat \<Rightarrow> int list \<Rightarrow> string list" where
  "walkSkip es excluded sk budget ps = filter (\<lambda>k. \<not> sk k) (take budget (walkKeys es excluded ps))"

lemma nearbyLoop_Some:
  "examined \<le> limit * nearbyScanFactor \<Longrightarrow>
   nearbyLoop es excluded (Some sk) mid limit lo hi left right keys examined =
     keys @ take (nat (limit - int (length keys)))
       (walkSkip es excluded sk (nat (limit * nearbyScanFactor - examined)) (outward es mid lo hi left right))"
proof (induction es excluded "Some sk" mid limit lo hi left right keys examined rule: nearbyLoop.induct)
  case (1 es excluded mid limit lo hi left right keys examined)
  let ?b = "limit * nearbyScanFactor"
  show ?case
  proof (cases "int (length keys) < limit \<and> (left \<ge> lo \<or> right < hi)")
    case True
    obtain pos left' right' where st: "nearbyStep es mid lo hi left right = (pos, left', right')"
      by (metis prod.exhaust)
    let ?e = "ie_key (es ! nat pos)"
    have o: "outward es mid lo hi left right = pos # outward es mid lo hi left' right'"
      using True st by (subst outward.simps) auto
    have n: "nat (limit - int (length keys)) = Suc (nat (limit - (1 + int (length keys))))" using True by arith
    note loop = nearbyLoop.simps [of es excluded "Some sk" mid limit lo hi left right keys examined]
    consider (ex) "excluded ?e" | (out) "\<not> excluded ?e" "examined = ?b"
      | (sk) "\<not> excluded ?e" "examined \<noteq> ?b" "sk (compactKey_Key ?e)"
      | (take) "\<not> excluded ?e" "examined \<noteq> ?b" "\<not> sk (compactKey_Key ?e)" by blast
    then show ?thesis
    proof cases
      case ex
      then show ?thesis using "1"(1) [OF True st [symmetric] refl refl refl ex "1.prems"] loop True st
        by (simp add: o walkKeys_def walkSkip_def)
    next
      case out
      then show ?thesis using loop True st by (simp add: walkSkip_def)
    next
      case sk
      have b: "nat (?b - examined) = Suc (nat (?b - (examined + 1)))" "examined + 1 \<le> ?b"
        using sk(2) "1.prems" by arith+
      show ?thesis using "1"(3) [OF True st [symmetric] refl refl refl sk(1) refl sk(2) refl sk(3) b(2)] loop True st sk b(1)
        by (simp add: o walkKeys_def walkSkip_def)
    next
      case take
      have b: "nat (?b - examined) = Suc (nat (?b - (examined + 1)))" "examined + 1 \<le> ?b"
        using take(2) "1.prems" by arith+
      show ?thesis using "1"(4) [OF True st [symmetric] refl refl refl take(1) refl take(2) refl take(3) b(2)] loop True st take b(1) n
        by (simp add: o walkKeys_def walkSkip_def)
    qed
  next
    case False
    have "nearbyLoop es excluded (Some sk) mid limit lo hi left right keys examined = keys"
      using False by (subst nearbyLoop.simps) auto
    moreover have "nat (limit - int (length keys)) = 0 \<or> outward es mid lo hi left right = []"
      using False by (subst outward.simps) auto
    ultimately show ?thesis by (auto simp: walkKeys_def walkSkip_def)
  qed
qed

text \<open>The walk visits every position of the window once, in order of distance.\<close>

definition walkOk :: "indexEntry list \<Rightarrow> int \<Rightarrow> int \<Rightarrow> int \<Rightarrow> int \<Rightarrow> int \<Rightarrow> bool" where
  "walkOk es mid lo hi left right \<longleftrightarrow> 0 \<le> lo \<and> hi \<le> int (length es) \<and> left < right \<and>
     (\<forall>p. lo \<le> p \<longrightarrow> p \<le> left \<longrightarrow> ie_mtimeUnix (es ! nat p) \<le> mid) \<and>
     (\<forall>p. right \<le> p \<longrightarrow> p < hi \<longrightarrow> mid \<le> ie_mtimeUnix (es ! nat p))"

lemma nearbyDist_left:
  assumes "sorted (map ie_mtimeUnix es)" "walkOk es mid lo hi left right" "lo \<le> p" "p \<le> q" "q \<le> left" "left < hi"
  shows "nearbyDist es mid q \<le> nearbyDist es mid p"
proof -
  have "ie_mtimeUnix (es ! nat p) \<le> ie_mtimeUnix (es ! nat q)"
    using sorted_nth_mono [OF assms(1), of "nat p" "nat q"] assms(2-6) by (auto simp: walkOk_def)
  moreover have "ie_mtimeUnix (es ! nat q) \<le> mid" using assms by (auto simp: walkOk_def)
  ultimately show ?thesis by (auto simp: nearbyDist_def Let_def)
qed

lemma nearbyDist_right:
  assumes "sorted (map ie_mtimeUnix es)" "walkOk es mid lo hi left right" "right \<le> p" "p \<le> q" "q < hi" "lo \<le> right"
  shows "nearbyDist es mid p \<le> nearbyDist es mid q"
proof -
  have "ie_mtimeUnix (es ! nat p) \<le> ie_mtimeUnix (es ! nat q)"
    using sorted_nth_mono [OF assms(1), of "nat p" "nat q"] assms(2-6) by (auto simp: walkOk_def)
  moreover have "mid \<le> ie_mtimeUnix (es ! nat p)" using assms by (auto simp: walkOk_def)
  ultimately show ?thesis by (auto simp: nearbyDist_def Let_def)
qed

lemma outward_sorted:
  assumes "sorted (map ie_mtimeUnix es)"
  shows "walkOk es mid lo hi left right \<Longrightarrow> left < hi \<Longrightarrow> lo \<le> right \<Longrightarrow>
    set (outward es mid lo hi left right) = {lo..left} \<union> {right..<hi} \<and>
    distinct (outward es mid lo hi left right) \<and>
    sorted_wrt (\<lambda>p q. nearbyDist es mid p \<le> nearbyDist es mid q) (outward es mid lo hi left right)"
  using assms
proof (induction es mid lo hi left right rule: outward.induct)
  case (1 es mid lo hi left right)
  show ?case
  proof (cases "left \<ge> lo \<or> right < hi")
    case True
    obtain pos left' right' where st: "nearbyStep es mid lo hi left right = (pos, left', right')"
      by (metis prod.exhaust)
    have o: "outward es mid lo hi left right = pos # outward es mid lo hi left' right'"
      using True st by (subst outward.simps) auto
    have ok': "walkOk es mid lo hi left' right'" "left' < hi" "lo \<le> right'"
      using st "1.prems" True by (auto simp: nearbyStep_def walkOk_def split: if_splits)
    have lr: "left < right" using "1.prems"(1) by (simp add: walkOk_def)
    have S: "{lo..left} \<union> {right..<hi} = insert pos ({lo..left'} \<union> {right'..<hi})" "pos \<notin> {lo..left'} \<union> {right'..<hi}"
      using st True lr "1.prems" by (auto simp: nearbyStep_def split: if_splits)
    have near: "nearbyDist es mid pos \<le> nearbyDist es mid q" if "q \<in> {lo..left'} \<union> {right'..<hi}" for q
    proof -
      have l: "nearbyDist es mid left \<le> nearbyDist es mid q" if "lo \<le> q" "q \<le> left"
        using nearbyDist_left [OF "1.prems"(4,1) that(1) that(2) order_refl "1.prems"(2)] .
      have r: "nearbyDist es mid right \<le> nearbyDist es mid q" if "right \<le> q" "q < hi"
        using nearbyDist_right [OF "1.prems"(4,1) order_refl that(1) that(2) "1.prems"(3)] .
      show ?thesis using st that l r by (auto simp: nearbyStep_def split: if_splits)
    qed
    show ?thesis using "1.IH" [OF True st [symmetric] refl refl ok' "1.prems"(4)] S near by (auto simp: o)
  next
    case False
    then have "outward es mid lo hi left right = []" by (subst outward.simps) auto
    then show ?thesis using False by auto
  qed
qed

subsection \<open>The entry list stays sorted\<close>

definition entriesSorted :: "Index \<Rightarrow> bool" where
  "entriesSorted idx \<longleftrightarrow> sorted (map ie_mtimeUnix (ix_entries idx))"

lemma entriesSorted_drain: "entriesSorted idx \<Longrightarrow> entriesSorted (drainEntriesLocked idx)"
  by (simp add: entriesSorted_def drainEntriesLocked_def sortEntriesByMtime_def)

lemma sorted_map_dropFirst: "sorted (map f es) \<Longrightarrow> sorted (map f (dropFirstEntry ck es))"
proof (induction es)
  case (Cons e es)
  then show ?case using set_dropFirstEntry [of ck es] by auto
qed simp

lemma sorted_map_filter': "sorted (map f es) \<Longrightarrow> sorted (map f (filter P es))"
  by (rule sorted_filter)

lemma indexRun_sorted: "indexRun ops idx U I \<Longrightarrow> entriesSorted idx"
proof (induction rule: indexRun.induct)
  case (run_put idx U I e now key)
  then show ?case
    by (auto simp: entriesSorted_def Index_Put_def appendAddLocked_def resetAddLogLocked_def Let_def split: prod.splits)
next
  case (run_remove idx U I e key)
  then show ?case using entriesSorted_drain [OF run_remove.IH]
    by (auto simp: entriesSorted_def Index_Remove_def resetAddLogLocked_def Let_def sorted_map_dropFirst split: prod.splits)
next
  case (run_removeKeys idx U I e keys)
  then show ?case using entriesSorted_drain [OF run_removeKeys.IH]
    by (auto simp: entriesSorted_def Index_RemoveKeys_def resetAddLogLocked_def Let_def sorted_map_filter')
next
  case (run_rebuild idx U I e walk)
  then show ?case using indexBuild_hashes(2) [of "newIndexBuild (hashCount idx) (\<not> EntryTrackingEnabled idx)"]
    by (auto simp: entriesSorted_def Index_rebuild_def applyRebuild_def indexBuild_finish_def resetAddLogLocked_def
        sortEntriesByMtime_def Let_def newIndexBuild_def split: option.splits)
next
  case (run_cached idx U I now form blob etag gen idx')
  then show ?case using BlobGenForm_cached [OF run_cached.hyps(2)] by auto
next
  case (run_serialize idx U I now form blob etag gen idx')
  then show ?case using BlobGenForm_fresh [OF run_serialize.hyps(2)]
    by (auto simp: entriesSorted_def mergePendingLocked_def Let_def split: if_splits)
qed (simp_all add: entriesSorted_def emptyIndex_def SetHashBits_def SetBlobInterval_def DisableEntryTracking_def)

subsection \<open>Properties\<close>

definition inWindow :: "indexEntry list \<Rightarrow> int \<Rightarrow> int \<Rightarrow> nat \<Rightarrow> bool" where
  "inWindow es a b p \<longleftrightarrow> p < length es \<and> a \<le> ie_mtimeUnix (es ! p) \<and> ie_mtimeUnix (es ! p) \<le> b"

lemma window_bounds:
  assumes "sorted (map ie_mtimeUnix es)"
  shows "p < length es \<Longrightarrow> sortSearch (length es) (\<lambda>i. ie_mtimeUnix (es ! i) \<ge> a) \<le> p \<longleftrightarrow> a \<le> ie_mtimeUnix (es ! p)"
    and "sortSearch (length es) (\<lambda>i. ie_mtimeUnix (es ! i) > b) \<le> length es"
    and "p < length es \<Longrightarrow> p < sortSearch (length es) (\<lambda>i. ie_mtimeUnix (es ! i) > b) \<longleftrightarrow> ie_mtimeUnix (es ! p) \<le> b"
proof -
  have mono: "i \<le> j \<Longrightarrow> j < length es \<Longrightarrow> ie_mtimeUnix (es ! i) \<le> ie_mtimeUnix (es ! j)" for i j
    using sorted_nth_mono [OF assms, of i j] by simp
  have "\<forall>i j. i \<le> j \<longrightarrow> j < length es \<longrightarrow> a \<le> ie_mtimeUnix (es ! i) \<longrightarrow> a \<le> ie_mtimeUnix (es ! j)"
    using mono order_trans by blast
  from sortSearch_iff(2) [OF this]
  show "p < length es \<Longrightarrow> sortSearch (length es) (\<lambda>i. ie_mtimeUnix (es ! i) \<ge> a) \<le> p \<longleftrightarrow> a \<le> ie_mtimeUnix (es ! p)" .
  have b: "\<forall>i j. i \<le> j \<longrightarrow> j < length es \<longrightarrow> b < ie_mtimeUnix (es ! i) \<longrightarrow> b < ie_mtimeUnix (es ! j)"
    using mono order.strict_trans2 by blast
  show "sortSearch (length es) (\<lambda>i. ie_mtimeUnix (es ! i) > b) \<le> length es" by (rule sortSearch_iff(1) [OF b])
  show "p < length es \<Longrightarrow> p < sortSearch (length es) (\<lambda>i. ie_mtimeUnix (es ! i) > b) \<longleftrightarrow> ie_mtimeUnix (es ! p) \<le> b"
    using sortSearch_iff(2) [OF b, of p] by (simp add: not_le [symmetric])
qed

lemma nearby_walk:
  assumes "sorted (map ie_mtimeUnix es)" "limit > 0" "ix_entries idx = es"
  shows "\<exists>ps. distinct ps \<and> set ps = {p. inWindow es a b p} \<and>
    sorted_wrt (\<lambda>p q. \<bar>ie_mtimeUnix (es ! p) - (a + b) sdiv 2\<bar> \<le> \<bar>ie_mtimeUnix (es ! q) - (a + b) sdiv 2\<bar>) ps \<and>
    (\<forall>excl. nearbyKeysLocked idx a b limit excl None = take (nat limit) (walkKeys es excl (map int ps))) \<and>
    (\<forall>excl sk. nearbyKeysLocked idx a b limit excl (Some sk) =
       take (nat limit) (walkSkip es excl sk (nat (limit * nearbyScanFactor)) (map int ps)))"
proof -
  define lo where "lo = sortSearch (length es) (\<lambda>i. ie_mtimeUnix (es ! i) \<ge> a)"
  define hi where "hi = sortSearch (length es) (\<lambda>i. ie_mtimeUnix (es ! i) > b)"
  define mid where "mid = (a + b) sdiv 2"
  have mono: "i \<le> j \<Longrightarrow> j < length es \<Longrightarrow> ie_mtimeUnix (es ! i) \<le> ie_mtimeUnix (es ! j)" for i j
    using sorted_nth_mono [OF assms(1), of i j] by simp
  have hile: "hi \<le> length es" unfolding hi_def by (rule window_bounds(2) [OF assms(1)])
  have win: "inWindow es a b p \<longleftrightarrow> lo \<le> p \<and> p < hi" for p
  proof (cases "p < length es")
    case True
    then show ?thesis using window_bounds(1) [OF assms(1) True, of a] window_bounds(3) [OF assms(1) True, of b]
      by (simp add: inWindow_def lo_def hi_def)
  qed (use hile in \<open>simp add: inWindow_def\<close>)
  show ?thesis
  proof (cases "lo \<ge> hi \<or> es = []")
    case True
    have "\<not> inWindow es a b p" for p
    proof
      assume "inWindow es a b p"
      then have "lo < hi" "p < length es" using win [of p] by (simp_all add: inWindow_def)
      then show False using True by auto
    qed
    then have "{p. inWindow es a b p} = {}" by blast
    moreover have "nearbyKeysLocked idx a b limit excl sk = []" for excl sk
      unfolding nearbyKeysLocked_def Let_def assms(3) lo_def [symmetric] hi_def [symmetric] using True by auto
    ultimately show ?thesis by (intro exI [of _ "[]"]) (simp add: walkKeys_def walkSkip_def)
  next
    case False
    define r where "r = sortSearch (hi - lo) (\<lambda>i. ie_mtimeUnix (es ! (lo + i)) \<ge> mid)"
    define right where "right = r + lo"
    have m2: "\<forall>i j. i \<le> j \<longrightarrow> j < hi - lo \<longrightarrow> mid \<le> ie_mtimeUnix (es ! (lo + i)) \<longrightarrow> mid \<le> ie_mtimeUnix (es ! (lo + j))"
    proof (intro allI impI)
      fix i j assume "i \<le> j" "j < hi - lo" "mid \<le> ie_mtimeUnix (es ! (lo + i))"
      then show "mid \<le> ie_mtimeUnix (es ! (lo + j))" using mono [of "lo + i" "lo + j"] hile by linarith
    qed
    have rle: "r \<le> hi - lo" unfolding r_def by (rule sortSearch_iff(1) [OF m2])
    have split: "right \<le> p \<longleftrightarrow> mid \<le> ie_mtimeUnix (es ! p)" if "lo \<le> p" "p < hi" for p
      using sortSearch_iff(2) [OF m2, of "p - lo"] that by (auto simp: right_def r_def le_diff_conv2)
    have below: "ie_mtimeUnix (es ! p) < mid" if "lo \<le> p" "p < right" for p
      using split [of p] that rle False by (auto simp: right_def not_le)
    have above: "mid \<le> ie_mtimeUnix (es ! p)" if "right \<le> p" "p < hi" for p
      using split [of p] that by (simp add: right_def)
    have ok: "walkOk es mid (int lo) (int hi) (int right - 1) (int right)"
      unfolding walkOk_def
    proof (intro conjI allI impI)
      fix p assume "int lo \<le> p" "p \<le> int right - 1"
      then show "ie_mtimeUnix (es ! nat p) \<le> mid" using below [of "nat p"] by force
    next
      fix p assume "int right \<le> p" "p < int hi"
      then show "mid \<le> ie_mtimeUnix (es ! nat p)" using above [of "nat p"] by force
    qed (use hile in auto)
    have rb: "int right - 1 < int hi" "int lo \<le> int right" using rle False by (auto simp: right_def)
    let ?o = "outward es mid (int lo) (int hi) (int right - 1) (int right)"
    have o: "set ?o = {int lo..int right - 1} \<union> {int right..<int hi}" "distinct ?o"
      "sorted_wrt (\<lambda>p q. nearbyDist es mid p \<le> nearbyDist es mid q) ?o"
      using outward_sorted [OF assms(1) ok rb] by simp_all
    have so: "set ?o = {int lo..<int hi}" unfolding o(1) using rb by auto
    define ps where "ps = map nat ?o"
    have pi: "map int ps = ?o" using so by (auto simp: ps_def intro: map_idI)
    have "distinct ps" using o(2) pi by (metis distinct_map)
    moreover have "set ps = {p. inWindow es a b p}"
    proof -
      have "set ps = nat ` {int lo..<int hi}" using so by (simp add: ps_def)
      also have "\<dots> = {p. lo \<le> p \<and> p < hi}" by (auto simp: image_iff intro!: bexI [of _ "int _"])
      finally show ?thesis using win by simp
    qed
    moreover have "sorted_wrt (\<lambda>p q. \<bar>ie_mtimeUnix (es ! p) - mid\<bar> \<le> \<bar>ie_mtimeUnix (es ! q) - mid\<bar>) ps"
    proof -
      have "nearbyDist es mid p = \<bar>ie_mtimeUnix (es ! nat p) - mid\<bar>" for p by (simp add: nearbyDist_def Let_def)
      then show ?thesis using o(3) by (simp add: ps_def sorted_wrt_map)
    qed
    moreover have "nearbyKeysLocked idx a b limit excl sk =
        nearbyLoop es excl sk mid limit (int lo) (int hi) (int right - 1) (int right) [] 0" for excl sk
      unfolding nearbyKeysLocked_def Let_def assms(3) lo_def [symmetric] hi_def [symmetric] mid_def [symmetric]
        r_def [symmetric] right_def [symmetric] using False assms(2) by auto
    ultimately show ?thesis
      using nearbyLoop_None nearbyLoop_Some [of 0 limit] assms(2) unfolding mid_def
      by (intro exI [of _ ps]) (simp add: pi nearbyScanFactor_def mid_def)
  qed
qed

lemma filter_map_int: "filter (\<lambda>p. P (nat p)) (map int ps) = map int (filter P ps)"
  by (induction ps) auto

lemma walkKeys_nat:
  "walkKeys es excl (map int ps) = map (\<lambda>p. compactKey_Key (ie_key (es ! p))) (filter (\<lambda>p. \<not> excl (ie_key (es ! p))) ps)"
proof -
  have "filter (\<lambda>p. \<not> excl (ie_key (es ! nat p))) (map int ps) = map int (filter (\<lambda>p. \<not> excl (ie_key (es ! p))) ps)"
    by (rule filter_map_int)
  then show ?thesis by (simp add: walkKeys_def)
qed

lemma take_split_sorted:
  assumes "sorted_wrt R qs" "q \<in> set qs" "q \<notin> set (take n qs)"
  shows "length (take n qs) = n \<and> (\<forall>p \<in> set (take n qs). R p q)"
proof -
  have s: "qs = take n qs @ drop n qs" by simp
  then have "q \<in> set (drop n qs)" using assms(2,3) by (metis Un_iff set_append)
  moreover from this have "n < length qs" by (cases "n < length qs") auto
  ultimately show ?thesis using assms(1) s by (metis length_take min.absorb4 sorted_wrt_append)
qed

text \<open>Without a filter, the window search returns exactly the nearest keys: at most the limit, in order of
  distance from the window's midpoint, all modified inside the window and none excluded; and any other key
  of the window that is not excluded is left out only because the limit is full of keys at least as near.
  Entries still pending count.\<close>

theorem NearbyKeys_nearest:
  assumes "indexRun ops0 idx U I" "setMemberLaws ops" "limit > 0"
    "NearbyKeys ops a b limit exclude None idx = (keys, idx')"
  defines "es \<equiv> ix_entries idx'"
    and "dist \<equiv> (\<lambda>p. \<bar>ie_mtimeUnix (ix_entries idx' ! p) - (a + b) sdiv 2\<bar>)"
    and "wanted \<equiv> (\<lambda>p. inWindow (ix_entries idx') a b p \<and> ie_key (ix_entries idx' ! p) \<notin> newCompactKey ` set exclude)"
  shows "mset es = mset (ix_entries idx @ ix_pendingEntries idx) \<and>
    (\<exists>ps. keys = map (\<lambda>p. compactKey_Key (ie_key (es ! p))) ps \<and> distinct ps \<and> length ps \<le> nat limit \<and>
      sorted_wrt (\<lambda>p q. dist p \<le> dist q) ps \<and> (\<forall>p \<in> set ps. wanted p) \<and>
      (\<forall>q. wanted q \<longrightarrow> q \<in> set ps \<or> (length ps = nat limit \<and> (\<forall>p \<in> set ps. dist p \<le> dist q))))"
proof -
  let ?excl = "set_contains ops (foldl (set_add ops) (set_new ops) (map newCompactKey exclude))"
  have ex: "?excl ck \<longleftrightarrow> ck \<in> newCompactKey ` set exclude" for ck
    using set_contains_foldl [OF assms(2)] assms(2) by (auto simp: setMemberLaws_def)
  have idx': "idx' = drainEntriesLocked idx" "keys = nearbyKeysLocked idx' a b limit ?excl None"
    using assms(4) by (auto simp: NearbyKeys_def drainEntriesLocked_def Let_def split: if_splits)
  have m: "mset es = mset (ix_entries idx @ ix_pendingEntries idx)"
    by (simp add: es_def idx' drainEntriesLocked_def sortEntriesByMtime_def)
  have srt: "sorted (map ie_mtimeUnix es)"
    using entriesSorted_drain [OF indexRun_sorted [OF assms(1)]] by (simp add: entriesSorted_def idx' es_def)
  have w: "ix_entries idx' = es" by (simp add: es_def)
  obtain ps where ps: "distinct ps" "set ps = {p. inWindow es a b p}"
      "sorted_wrt (\<lambda>p q. dist p \<le> dist q) ps" "keys = take (nat limit) (walkKeys es ?excl (map int ps))"
    using nearby_walk [OF srt assms(3) w, of a b] idx'(2) unfolding dist_def w by blast
  define qs where "qs = filter (\<lambda>p. \<not> ?excl (ie_key (es ! p))) ps"
  have keys: "keys = map (\<lambda>p. compactKey_Key (ie_key (es ! p))) (take (nat limit) qs)"
    using ps(4) by (simp add: walkKeys_nat qs_def take_map)
  have qs: "distinct qs" "set qs = {p. wanted p}" "sorted_wrt (\<lambda>p q. dist p \<le> dist q) qs"
    using ps ex by (auto simp: qs_def wanted_def es_def sorted_wrt_filter)
  have "\<forall>p \<in> set (take (nat limit) qs). wanted p" using qs(2) by (auto dest: in_set_takeD)
  moreover have "wanted q \<longrightarrow> q \<in> set (take (nat limit) qs) \<or>
      (length (take (nat limit) qs) = nat limit \<and> (\<forall>p \<in> set (take (nat limit) qs). dist p \<le> dist q))" for q
    using take_split_sorted [OF qs(3), of q "nat limit"] qs(2) by blast
  ultimately show ?thesis using m keys qs by (intro conjI exI [of _ "take (nat limit) qs"]) (auto simp: sorted_wrt_take)
qed

text \<open>With a filter, every key returned is in the window, not excluded and passed by the filter, and the
  filter is asked about no more than eight keys per key allowed.\<close>

theorem NearbyKeys_filtered:
  assumes "indexRun ops0 idx U I" "setMemberLaws ops" "limit > 0"
    "NearbyKeys ops a b limit exclude (Some sk) idx = (keys, idx')"
  shows "\<exists>cands. length cands \<le> nat (limit * 8) \<and> keys = take (nat limit) (filter (\<lambda>k. \<not> sk k) cands) \<and>
    (\<forall>k \<in> set cands. \<exists>p. inWindow (ix_entries idx') a b p \<and> k = compactKey_Key (ie_key (ix_entries idx' ! p)) \<and>
       ie_key (ix_entries idx' ! p) \<notin> newCompactKey ` set exclude)"
proof -
  let ?es = "ix_entries idx'"
  let ?excl = "set_contains ops (foldl (set_add ops) (set_new ops) (map newCompactKey exclude))"
  have ex: "?excl ck \<longleftrightarrow> ck \<in> newCompactKey ` set exclude" for ck
    using set_contains_foldl [OF assms(2)] assms(2) by (auto simp: setMemberLaws_def)
  have idx': "idx' = drainEntriesLocked idx" "keys = nearbyKeysLocked idx' a b limit ?excl (Some sk)"
    using assms(4) by (auto simp: NearbyKeys_def drainEntriesLocked_def Let_def split: if_splits)
  have "sorted (map ie_mtimeUnix ?es)"
    using entriesSorted_drain [OF indexRun_sorted [OF assms(1)]] by (simp add: entriesSorted_def idx')
  then obtain ps where ps: "set ps = {p. inWindow ?es a b p}"
      "keys = take (nat limit) (walkSkip ?es ?excl sk (nat (limit * nearbyScanFactor)) (map int ps))"
    using nearby_walk [OF _ assms(3) refl, of idx' a b] idx'(2) by blast
  let ?c = "take (nat (limit * nearbyScanFactor)) (walkKeys ?es ?excl (map int ps))"
  have "\<forall>k \<in> set ?c. \<exists>p. inWindow ?es a b p \<and> k = compactKey_Key (ie_key (?es ! p)) \<and> ie_key (?es ! p) \<notin> newCompactKey ` set exclude"
  proof
    fix k assume "k \<in> set ?c"
    then have "k \<in> set (walkKeys ?es ?excl (map int ps))" by (rule in_set_takeD)
    then show "\<exists>p. inWindow ?es a b p \<and> k = compactKey_Key (ie_key (?es ! p)) \<and> ie_key (?es ! p) \<notin> newCompactKey ` set exclude"
      using ps(1) ex by (auto simp: walkKeys_nat)
  qed
  then show ?thesis using ps(2) by (intro exI [of _ ?c]) (simp add: walkSkip_def nearbyScanFactor_def)
qed

subsection \<open>Witnesses\<close>

lemma demoIndex_entries: "ix_entries demoIndex = []"
    "ix_pendingEntries demoIndex = [\<lparr>ie_key = newCompactKey (keyOfHash demoHash), ie_mtimeUnix = 200\<rparr>]"
  by (simp_all add: demoIndex_def demoServed_def Index_Put_def appendAddLocked_def resetAddLogLocked_def Let_def
      BlobGenForm_def blobServableLocked_def emptyIndex_def mergePendingLocked_def split: prod.splits)

theorem NearbyKeys_nearest_witness:
  "length (fst (NearbyKeys memOps 100 400 3 [] None demoIndex)) = 1"
proof -
  obtain keys idx' where n: "NearbyKeys memOps 100 400 3 [] None demoIndex = (keys, idx')" by (metis prod.exhaust)
  from NearbyKeys_nearest [OF demoIndex_run setMemberLaws_memOps _ n]
  have m: "mset (ix_entries idx') = mset (ix_entries demoIndex @ ix_pendingEntries demoIndex)" and
    "\<exists>ps. keys = map (\<lambda>p. compactKey_Key (ie_key (ix_entries idx' ! p))) ps \<and> distinct ps \<and> length ps \<le> 3 \<and>
      (\<forall>p \<in> set ps. inWindow (ix_entries idx') 100 400 p) \<and>
      (\<forall>q. inWindow (ix_entries idx') 100 400 q \<longrightarrow> q \<in> set ps \<or> length ps = 3)" by auto
  then obtain ps where ps: "keys = map (\<lambda>p. compactKey_Key (ie_key (ix_entries idx' ! p))) ps" "distinct ps"
      "\<forall>p \<in> set ps. inWindow (ix_entries idx') 100 400 p"
      "\<forall>q. inWindow (ix_entries idx') 100 400 q \<longrightarrow> q \<in> set ps \<or> length ps = 3" by blast
  have e: "ix_entries idx' = [\<lparr>ie_key = newCompactKey (keyOfHash demoHash), ie_mtimeUnix = 200\<rparr>]"
    using m by (simp add: demoIndex_entries)
  have "set ps \<subseteq> {0}" using ps(3) by (auto simp: inWindow_def e)
  then have le: "length ps \<le> 1" using ps(2) distinct_card [of ps] card_mono [of "{0::nat}" "set ps"] by simp
  moreover have "0 \<in> set ps" using ps(4) [rule_format, of 0] le by (simp add: inWindow_def e)
  ultimately have "length ps = 1" by (cases ps) auto
  then show ?thesis using n ps(1) by simp
qed

theorem NearbyKeys_filtered_witness:
  "length (fst (NearbyKeys memOps 100 400 3 [] (Some (\<lambda>_. True)) demoIndex)) = 0"
proof -
  obtain keys idx' where n: "NearbyKeys memOps 100 400 3 [] (Some (\<lambda>_. True)) demoIndex = (keys, idx')"
    by (metis prod.exhaust)
  from NearbyKeys_filtered [OF demoIndex_run setMemberLaws_memOps _ n] show ?thesis using n by auto
qed

end
