(* ===== verification/HaveFilter.thy ===== *)
theory HaveFilter
  imports KeySets
begin

text \<open>
  The Bloom filter a client sends with a batch request to name what it holds: the client's side
  (\<^verbatim>\<open>cacheclient/havefilter.go\<close>) that fills it and the server's side (\<^verbatim>\<open>havefilter.go\<close>) that
  reads it from the wire.  A missing filter is \<^term>\<open>None\<close>; the element count of the filter is an
  \<^typ>\<open>int\<close>, since it arrives from the network.
\<close>

section \<open>Definitions\<close>

record haveFilter =
  hf_Bits :: bytes
  hf_K :: int

definition haveFilterHashes :: int where
  "haveFilterHashes = 6"

definition haveFilterMaxHashes :: int where
  "haveFilterMaxHashes = 10"

subsection \<open>Client\<close>

definition haveFilterBytes :: "nat \<Rightarrow> nat" where
  "haveFilterBytes n =
    (let size = n * 16 div 8 in
     if size < 2 ^ 10 then 2 ^ 10 else if size > 2 ^ 16 then 2 ^ 16 else size)"

definition haveFilterBit :: "u64 \<Rightarrow> nat \<Rightarrow> u32 \<Rightarrow> u32" where
  "haveFilterBit key i m =
    (let h1 = ucast (drop_bit 32 key) :: u32; h2 = (ucast key :: u32) OR 1
     in (h1 + of_nat i * h2) mod m)"

definition setBit :: "bytes \<Rightarrow> u32 \<Rightarrow> bytes" where
  "setBit bits idx =
    (let j = unat (idx div 8) in bits[j := bits ! j OR push_bit (unat (idx mod 8)) 1])"

definition bitSet :: "bytes \<Rightarrow> u32 \<Rightarrow> bool" where
  "bitSet bits idx \<longleftrightarrow> bits ! unat (idx div 8) AND push_bit (unat (idx mod 8)) 1 \<noteq> 0"

definition addKey :: "nat \<Rightarrow> u32 \<Rightarrow> bytes \<Rightarrow> u64 \<Rightarrow> bytes" where
  "addKey k m bits key = foldl (\<lambda>bits i. setBit bits (haveFilterBit key i m)) bits [0..<k]"

definition newHaveFilter :: "nat \<Rightarrow> u64 list \<Rightarrow> haveFilter option" where
  "newHaveFilter n all =
    (if n = 0 then None
     else let bits = replicate (haveFilterBytes n) 0; m = of_nat (length bits * 8)
       in Some \<lparr>hf_Bits = foldl (addKey (nat haveFilterHashes) m) bits all, hf_K = haveFilterHashes\<rparr>)"

definition clientContains :: "haveFilter option \<Rightarrow> actionHash \<Rightarrow> bool" where
  "clientContains f h =
    (case f of None \<Rightarrow> False
     | Some f \<Rightarrow>
       if hf_Bits f = [] then False
       else let m = of_nat (length (hf_Bits f) * 8); key = keyOf64 h
         in list_all (\<lambda>i. bitSet (hf_Bits f) (haveFilterBit key i m)) [0..<nat (hf_K f)])"

definition haveFilterKeys :: "actionHash list \<Rightarrow> u64 list" where
  "haveFilterKeys all = map keyOf64 all"

subsection \<open>Server\<close>

definition usable :: "haveFilter option \<Rightarrow> bool" where
  "usable f =
    (case f of None \<Rightarrow> False
     | Some f \<Rightarrow> length (hf_Bits f) > 0 \<and> hf_K f \<ge> 1 \<and> hf_K f \<le> haveFilterMaxHashes)"

definition serverFilterBit :: "actionHash \<Rightarrow> nat \<Rightarrow> u32 \<Rightarrow> u32" where
  "serverFilterBit h i m =
    (let key = beUint64 (take 8 h);
         h1 = ucast (drop_bit 32 key) :: u32; h2 = (ucast key :: u32) OR 1
     in (h1 + of_nat i * h2) mod m)"

definition serverContains :: "haveFilter option \<Rightarrow> actionHash \<Rightarrow> bool" where
  "serverContains f h =
    (if \<not> usable f then False
     else let bits = hf_Bits (the f); m = of_nat (length bits * 8)
       in list_all (\<lambda>i. bitSet bits (serverFilterBit h i m)) [0..<nat (hf_K (the f))])"

section \<open>No false negatives\<close>

lemma haveFilterBytes_bounds: "2 ^ 10 \<le> haveFilterBytes n" "haveFilterBytes n \<le> 2 ^ 16"
  by (simp_all add: haveFilterBytes_def Let_def)

lemma length_setBit [simp]: "length (setBit bits idx) = length bits"
  by (simp add: setBit_def Let_def)

lemma and_nonzero_iff: "x AND y \<noteq> (0 :: byte) \<longleftrightarrow> (\<exists>n. bit x n \<and> bit y n)"
proof -
  have "n < 8" if "bit x n" for n using bit_imp_le_length [OF that] by simp
  then show ?thesis by (auto simp: bit_eq_iff bit_and_iff)
qed

lemma bitSet_setBit: "unat (idx div 8) < length bits \<Longrightarrow> bitSet (setBit bits idx) idx"
proof -
  assume "unat (idx div 8) < length bits"
  moreover have "unat (idx mod 8) < 8" by (simp add: unat_mod)
  then have "bit (push_bit (unat (idx mod 8)) 1 :: byte) (unat (idx mod 8))"
    by (simp add: bit_exp_iff push_bit_eq_mult)
  then have "(x OR push_bit (unat (idx mod 8)) 1) AND push_bit (unat (idx mod 8)) 1 \<noteq> (0 :: byte)" for x
    unfolding and_nonzero_iff by (auto simp: bit_or_iff)
  ultimately show ?thesis by (simp add: bitSet_def setBit_def Let_def)
qed

lemma bitSet_mono: "bitSet bits idx \<Longrightarrow> bitSet (setBit bits idx') idx"
proof (cases "unat (idx div 8) = unat (idx' div 8) \<and> unat (idx' div 8) < length bits")
  case True
  assume "bitSet bits idx"
  then obtain n where "bit (bits ! unat (idx div 8)) n" "bit (push_bit (unat (idx mod 8)) 1 :: byte) n"
    unfolding bitSet_def and_nonzero_iff by blast
  then have "(bits ! unat (idx div 8) OR push_bit (unat (idx' mod 8)) 1) AND push_bit (unat (idx mod 8)) 1 \<noteq> 0"
    unfolding and_nonzero_iff bit_or_iff by blast
  then show ?thesis using True by (simp add: bitSet_def setBit_def Let_def)
next
  case False
  assume "bitSet bits idx"
  then show ?thesis using False by (cases "unat (idx' div 8) < length bits") (auto simp: bitSet_def setBit_def Let_def list_update_beyond not_less)
qed

lemma filterBit_in_range:
  assumes "0 < length bits" "length bits < 2 ^ 29"
  shows "unat (haveFilterBit key i (of_nat (length bits * 8)) div 8) < length bits"
proof -
  let ?m = "of_nat (length bits * 8) :: u32"
  have m: "unat ?m = length bits * 8" using assms(2) by (simp add: unat_of_nat take_bit_nat_eq_self del: of_nat_mult)
  have "unat (x mod ?m) < length bits * 8" for x
    using assms(1) m by (simp add: unat_mod del: of_nat_mult)
  then show ?thesis by (simp add: haveFilterBit_def Let_def unat_div less_mult_imp_div_less del: of_nat_mult)
qed

lemma serverFilterBit_eq: "serverFilterBit h i m = haveFilterBit (keyOf64 h) i m"
proof -
  have "beUint64 (take 8 h) = beUint64 h"
    by (rule word_unat_eq_iff [THEN iffD2]) (simp add: unat_beUint64)
  then show ?thesis by (simp add: serverFilterBit_def haveFilterBit_def keyOf64_def Let_def)
qed

lemma foldl_setBit:
  assumes "\<And>i. unat (f i div 8) < length bits"
  shows "length (foldl (\<lambda>b i. setBit b (f i)) bits is) = length bits"
    and "i \<in> set is \<or> bitSet bits (f i) \<Longrightarrow> bitSet (foldl (\<lambda>b i. setBit b (f i)) bits is) (f i)"
    and "bitSet bits j \<Longrightarrow> bitSet (foldl (\<lambda>b i. setBit b (f i)) bits is) j"
  using assms
proof (induction "is" arbitrary: bits)
  case (Cons k ks)
  { case 1 then show ?case using Cons.IH(1) [of "setBit bits (f k)"] by simp }
  { case 2
    then have "i \<in> set ks \<or> bitSet (setBit bits (f k)) (f i)"
      using bitSet_setBit bitSet_mono by auto
    then show ?case using Cons.IH(2) [of "setBit bits (f k)"] 2 by simp }
  { case 3 then show ?case using Cons.IH(3) [of "setBit bits (f k)"] bitSet_mono by simp }
qed simp_all

lemma addKey_facts:
  assumes "0 < length bits" "length bits < 2 ^ 29" and m: "m = of_nat (length bits * 8)"
  shows "length (addKey k m bits x) = length bits"
    and "bitSet bits j \<Longrightarrow> bitSet (addKey k m bits x) j"
    and "i < k \<Longrightarrow> bitSet (addKey k m bits x) (haveFilterBit x i m)"
proof -
  have range: "unat (haveFilterBit x i m div 8) < length bits" for i
    using filterBit_in_range [OF assms(1,2)] m by simp
  note step = foldl_setBit [of "\<lambda>i. haveFilterBit x i m" bits, OF range]
  show "length (addKey k m bits x) = length bits"
    "bitSet bits j \<Longrightarrow> bitSet (addKey k m bits x) j"
    "i < k \<Longrightarrow> bitSet (addKey k m bits x) (haveFilterBit x i m)"
    using step(1,3) step(2) [of i "[0..<k]"] by (simp_all add: addKey_def)
qed

lemma foldl_addKey:
  assumes "0 < length bits" "length bits < 2 ^ 29" and "m = of_nat (length bits * 8)"
  shows "length (foldl (addKey k m) bits keys) = length bits"
    and "bitSet bits j \<Longrightarrow> bitSet (foldl (addKey k m) bits keys) j"
    and "key \<in> set keys \<Longrightarrow> i < k \<Longrightarrow> bitSet (foldl (addKey k m) bits keys) (haveFilterBit key i m)"
  using assms
proof (induction keys arbitrary: bits j)
  case (Cons x xs)
  have pre: "0 < length (addKey k m bits x)" "length (addKey k m bits x) < 2 ^ 29"
      "m = of_nat (length (addKey k m bits x) * 8)"
    if "0 < length bits" "length bits < 2 ^ 29" "m = of_nat (length bits * 8)" for bits
    using that unfolding addKey_facts(1) [OF that] by blast+
  { case 1
    show ?case
      using Cons.IH(1) [OF pre [OF 1]] addKey_facts(1) [OF 1, of k x] unfolding foldl_Cons by (rule trans) }
  { case 2
    show ?case
      unfolding foldl_Cons by (rule Cons.IH(2) [OF addKey_facts(2) [OF 2(2-4) 2(1)] pre [OF 2(2-4)]]) }
  { case 3
    show ?case
    proof (cases "key \<in> set xs")
      case True
      show ?thesis unfolding foldl_Cons by (rule Cons.IH(3) [OF True 3(2) pre [OF 3(3-5)]])
    next
      case False
      then have "key = x" using 3(1) by simp
      then show ?thesis
        unfolding foldl_Cons using Cons.IH(2) [OF addKey_facts(3) [OF 3(3-5) 3(2)] pre [OF 3(3-5)]] by simp
    qed }
qed simp_all

lemma newHaveFilter_contains:
  assumes "0 < n" and "h \<in> set held" and f: "f = newHaveFilter n (haveFilterKeys held)"
  shows "clientContains f h" "serverContains f h"
proof -
  define bits where "bits = replicate (haveFilterBytes n) (0 :: byte)"
  define out where "out = foldl (addKey 6 (of_nat (length bits * 8))) bits (haveFilterKeys held)"
  have len: "0 < length bits" "length bits < 2 ^ 29"
    using haveFilterBytes_bounds [of n] by (simp_all add: bits_def)
  have feq: "f = Some \<lparr>hf_Bits = out, hf_K = 6\<rparr>"
    using assms(1) by (simp add: f newHaveFilter_def out_def bits_def haveFilterHashes_def Let_def)
  have l: "length out = length bits" unfolding out_def by (rule foldl_addKey(1) [OF len refl])
  have "bitSet out (haveFilterBit (keyOf64 h) i (of_nat (length out * 8)))" if "i < 6" for i
    unfolding l unfolding out_def using foldl_addKey(3) [OF len refl _ that] assms(2)
    by (simp add: haveFilterKeys_def)
  then show "clientContains f h" "serverContains f h"
    using l len by (auto simp: feq clientContains_def serverContains_def usable_def haveFilterMaxHashes_def
        serverFilterBit_eq list_all_iff Let_def)
qed

section \<open>Properties\<close>

text \<open>(C24) Every hash the client put in its filter is found by the server that receives it, so the
  server never leaves a held key in the window; and the client's own check agrees with the server's
  on any filter the server accepts.\<close>

theorem haveFilter_no_false_negatives:
  assumes "0 < n"
  shows "(\<forall>h \<in> set held. serverContains (newHaveFilter n (haveFilterKeys held)) h) \<and>
    (usable f \<longrightarrow> serverContains f h = clientContains f h)"
proof
  show "\<forall>h \<in> set held. serverContains (newHaveFilter n (haveFilterKeys held)) h"
    using newHaveFilter_contains(2) [OF assms _ refl] by blast
  show "usable f \<longrightarrow> serverContains f h = clientContains f h"
    by (auto simp: usable_def serverContains_def clientContains_def serverFilterBit_eq Let_def split: option.splits)
qed

theorem haveFilter_no_false_negatives_witness:
  "0 < (1 :: nat) \<and>
   serverContains (newHaveFilter 1 (haveFilterKeys [replicate 32 7])) (replicate 32 7) \<and>
   usable (Some \<lparr>hf_Bits = [255], hf_K = 1\<rparr>) \<and>
   serverContains (Some \<lparr>hf_Bits = [255], hf_K = 1\<rparr>) zeroHash = clientContains (Some \<lparr>hf_Bits = [255], hf_K = 1\<rparr>) zeroHash"
proof -
  have "usable (Some \<lparr>hf_Bits = [255], hf_K = 1\<rparr>)" by (simp add: usable_def haveFilterMaxHashes_def)
  then show ?thesis
    using haveFilter_no_false_negatives [of 1 "[replicate 32 7]" "Some \<lparr>hf_Bits = [255], hf_K = 1\<rparr>" zeroHash]
    by (intro conjI) simp_all
qed

end
