(* ===== verification/Batch.thy ===== *)
theory Batch
  imports Handlers NearbyKeys HaveFilter
begin

text \<open>
  The batch endpoints (\<^verbatim>\<open>batch.go\<close>) and the bounded parallel loop they use (\<^verbatim>\<open>parmap.go\<close>).  The
  JSON bodies are given decoded and answered as data, and a tar stream is the list of its members.
  The workers of the loop take the items in turn; the order in which their calls take effect is an
  argument, and each call is atomic.
\<close>

section \<open>Definitions\<close>

subsection \<open>The parallel loop\<close>

fun runAll :: "('a \<Rightarrow> 's \<Rightarrow> 'b option \<times> 's) \<Rightarrow> 'a list \<Rightarrow> nat list \<Rightarrow> 'b option list \<Rightarrow> 's \<Rightarrow> 'b option list \<times> 's" where
  "runAll fn items [] results s = (results, s)"
| "runAll fn items (i # is) results s =
    (let (r, s) = fn (items ! i) s in runAll fn items is (results[i := r]) s)"

definition parallelFilter :: "(nat \<Rightarrow> nat list) \<Rightarrow> 'a list \<Rightarrow> ('a \<Rightarrow> 's \<Rightarrow> 'b option \<times> 's) \<Rightarrow> 's \<Rightarrow> 'b list \<times> 's" where
  "parallelFilter sched items fn s =
    (if items = [] then ([], s)
     else let (results, s) = runAll fn items (sched (length items)) (replicate (length items) None) s
       in (List.map_filter id results, s))"

subsection \<open>Reading many objects\<close>

record batchGetRequest =
  bg_Keys :: "string list"
  bg_Prefetch :: bool
  bg_PrefetchOnly :: bool
  bg_Have :: "haveFilter option"

record batchGetManifestEntry =
  mf_Key :: string
  mf_Size :: int
  mf_Metadata :: kvMap
  mf_Prefetch :: bool

record batchEntry =
  be_key :: string
  be_meta :: ObjectMeta
  be_prefetch :: bool

record openedEntry =
  oe_entry :: batchEntry
  oe_f :: diskFile
  oe_size :: int

definition maxBatchKeys :: nat where "maxBatchKeys = 4096"
definition prefetchWindow :: int where "prefetchWindow = 30 * 1000000000"
definition maxPrefetchEntries :: int where "maxPrefetchEntries = 200"

text \<open>An entry, or the reason there is none.\<close>

definition servableEntry :: "decoders \<Rightarrow> sysEnv \<Rightarrow> bool \<Rightarrow> string \<Rightarrow> Storage \<Rightarrow> (string + batchEntry) \<times> Storage" where
  "servableEntry dec env prefetch key s =
    (case Stat env key s of
       (Inl e, s) \<Rightarrow>
         if e = ErrNotFound then (case absentKeyReason key s of (why, s) \<Rightarrow> (Inl why, s)) else (Inl ''stat_error'', s)
     | (Inr om, s) \<Rightarrow>
         (case evictModuleIndexOnReadByKey dec env key om s of
            (True, s) \<Rightarrow> (Inl ''module_index_evicted'', s)
          | (False, s) \<Rightarrow>
              (case ensureOutputID dec env key om None s of
                 ((ok, om), s) \<Rightarrow>
                   if \<not> ok then (Inl ''selfheal_failed'', s)
                   else (Inr \<lparr>be_key = key, be_meta = om, be_prefetch = prefetch\<rparr>, s))))"

definition keepEntry :: "(string + batchEntry) \<times> Storage \<Rightarrow> batchEntry option \<times> Storage" where
  "keepEntry r = (case r of (Inl why, s) \<Rightarrow> (None, s) | (Inr e, s) \<Rightarrow> (Some e, s))"

definition buildPrefetchEntries ::
    "decoders \<Rightarrow> sysEnv \<Rightarrow> (nat \<Rightarrow> nat list) \<Rightarrow> string list \<Rightarrow> Storage \<Rightarrow> batchEntry list \<times> Storage" where
  "buildPrefetchEntries dec env sched keys s =
    parallelFilter sched keys (\<lambda>key s. keepEntry (servableEntry dec env True key s)) s"

definition openVerifiedEntry :: "sysEnv \<Rightarrow> batchEntry \<Rightarrow> Storage \<Rightarrow> openedEntry option \<times> Storage" where
  "openVerifiedEntry env e s =
    (case OpenBody env (be_key e) s of
       (Inl err, s) \<Rightarrow> (None, s)
     | (Inr (f, sz), s) \<Rightarrow>
         (case verifyStoredDigestFor env (be_key e) f (om_Metadata (be_meta e)) s of
            (Inr True, s) \<Rightarrow> (Some \<lparr>oe_entry = e, oe_f = f, oe_size = sz\<rparr>, s)
          | (Inl err, s) \<Rightarrow> (None, s)
          | (Inr False, s) \<Rightarrow> (None, snd (Delete env (be_key e) s))))"

definition openVerifiedEntries ::
    "sysEnv \<Rightarrow> (nat \<Rightarrow> nat list) \<Rightarrow> batchEntry list \<Rightarrow> Storage \<Rightarrow> openedEntry list \<times> Storage" where
  "openVerifiedEntries env sched entries s = parallelFilter sched entries (openVerifiedEntry env) s"

text \<open>The earliest and the latest modification time of the entries.\<close>

definition modRange :: "batchEntry list \<Rightarrow> (int \<times> int) option" where
  "modRange es =
    foldl (\<lambda>r e. let t = om_ModTime (be_meta e) in
       case r of None \<Rightarrow> Some (t, t) | Some (lo, hi) \<Rightarrow> Some (if t < lo then t else lo, if t > hi then t else hi)) None es"

definition prefetchEntries ::
    "decoders \<Rightarrow> sysEnv \<Rightarrow> (nat \<Rightarrow> nat list) \<Rightarrow> (compactKey, 'x) setOps \<Rightarrow> batchGetRequest \<Rightarrow> string list \<Rightarrow> batchEntry list
      \<Rightarrow> Storage \<Rightarrow> batchEntry list \<times> Storage" where
  "prefetchEntries dec env sched ops req lookup entries s =
    (case (modRange entries, st_index s) of
       (Some (minMod, maxMod), Some idx) \<Rightarrow>
         if \<not> bg_Prefetch req then (entries, s)
         else let (freshKeys, idx) = NearbyKeys ops (unixSec (minMod - prefetchWindow)) (unixSec (maxMod + prefetchWindow))
                    maxPrefetchEntries lookup
                    (Some (\<lambda>key. let (h, ok) = extractActionHash key in ok \<and> serverContains (bg_Have req) h)) idx;
                  (prefetched, s) = buildPrefetchEntries dec env sched freshKeys (s\<lparr>st_index := Some idx\<rparr>)
           in (if bg_PrefetchOnly req then prefetched else entries @ prefetched, s)
     | _ \<Rightarrow> (entries, s))"

record tarMember =
  tm_name :: string
  tm_data :: bytes

text \<open>Writing the members: the ones written whole, and whether all were.\<close>

fun streamMembers :: "sysEnv \<Rightarrow> openedEntry list \<Rightarrow> tarMember list \<times> bool" where
  "streamMembers env [] = ([], True)"
| "streamMembers env (o' # os) =
    (let data = take (nat (oe_size o')) (rd_data (fileReader env (oe_f o'))) in
     if int (length data) \<noteq> oe_size o' then ([], False)
     else let (ms, ok) = streamMembers env os in (\<lparr>tm_name = ''data/'' @ be_key (oe_entry o'), tm_data = data\<rparr> # ms, ok))"

definition manifestOf :: "openedEntry list \<Rightarrow> batchGetManifestEntry list" where
  "manifestOf opened =
    map (\<lambda>o'. \<lparr>mf_Key = be_key (oe_entry o'), mf_Size = oe_size o', mf_Metadata = om_Metadata (be_meta (oe_entry o')),
               mf_Prefetch = be_prefetch (oe_entry o')\<rparr>) opened"

datatype batchGetAnswer = BatchGetError httpResponse
  | BatchGetTar kvMap "batchGetManifestEntry list" "tarMember list" bool

text \<open>The request is none when its body is no JSON.\<close>

definition handleBatchGet ::
    "decoders \<Rightarrow> sysEnv \<Rightarrow> (nat \<Rightarrow> nat list) \<Rightarrow> (compactKey, 'x) setOps \<Rightarrow> string \<Rightarrow> string \<Rightarrow> batchGetRequest option \<Rightarrow> bool
      \<Rightarrow> Storage \<Rightarrow> batchGetAnswer \<times> Storage" where
  "handleBatchGet dec env sched ops jsonErr verb request prefetchEnabled s =
    (if verb \<noteq> ''GET'' \<and> verb \<noteq> ''POST''
     then (BatchGetError (writeError [] 405 ''method_not_allowed'' ''method not allowed''), s)
     else let hdrs = (if \<not> prefetchEnabled then setHeader headerPrefetch ''off'' [] else []) in
     case request of None \<Rightarrow> (BatchGetError (writeError hdrs 400 ''invalid_request'' (''invalid JSON: '' @ jsonErr)), s)
     | Some req \<Rightarrow>
       if bg_Keys req = [] then (BatchGetError (writeError hdrs 400 ''invalid_request'' ''no keys specified''), s)
       else if length (bg_Keys req) > maxBatchKeys
       then (BatchGetError (writeError hdrs 400 ''invalid_request'' (''too many keys: '' @ formatNat (length (bg_Keys req))
               @ '' (max '' @ formatNat maxBatchKeys @ '')'')), s)
       else let lookup = (if \<not> prefetchEnabled \<and> bg_PrefetchOnly req then [] else bg_Keys req);
                req = (if \<not> prefetchEnabled then req\<lparr>bg_Prefetch := False, bg_PrefetchOnly := False\<rparr> else req);
                (entries, s) = parallelFilter sched lookup (\<lambda>key s. keepEntry (servableEntry dec env False key s)) s;
                (entries, s) = prefetchEntries dec env sched ops req lookup entries s;
                (opened, s) = openVerifiedEntries env sched entries s;
                (members, complete) = streamMembers env opened
            in (BatchGetTar (setHeader ''Content-Type'' ''application/x-tar'' hdrs) (manifestOf opened) members complete, s))"

subsection \<open>Storing many objects\<close>

record batchPutManifestEntry =
  bp_Key :: string
  bp_Metadata :: kvMap

record batchPutResult =
  br_Key :: string
  br_Status :: string
  br_Message :: string

text \<open>The items of a tar stream: a member with its body, or the error that ends the stream.\<close>

datatype tarItem = TarHdr string reader | TarFail ioErr

datatype batchPutAnswer = BatchPutError httpResponse | BatchPutFailed string | BatchPutDone "batchPutResult list"

fun statusText :: "storeStatus \<Rightarrow> string" where
  "statusText storeStatusStored = ''stored''"
| "statusText storeStatusDropped = ''dropped''"
| "statusText storeStatusConflict = ''conflict''"
| "statusText storeStatusError = ''error''"

definition cloneAudit :: "kvMap option \<Rightarrow> kvMap option" where
  "cloneAudit aud = map_option (kvMerge []) aud"

definition limitReader :: "int \<Rightarrow> reader \<Rightarrow> reader" where
  "limitReader n r = (if int (length (rd_data r)) \<ge> n then bytesReader (take (nat n) (rd_data r)) else r)"

definition dataName :: "batchPutManifestEntry \<Rightarrow> string" where
  "dataName e = ''data/'' @ bp_Key e"

text \<open>The manifest's own faults: an empty key, or a key named twice.\<close>

fun manifestFault :: "nat \<Rightarrow> string list \<Rightarrow> batchPutManifestEntry list \<Rightarrow> string option" where
  "manifestFault i seen [] = None"
| "manifestFault i seen (e # es) =
    (if bp_Key e = [] then Some (''manifest entry '' @ formatNat i @ '' has empty key'')
     else if dataName e \<in> set seen then Some (''duplicate key in manifest: '' @ bp_Key e)
     else manifestFault (Suc i) (dataName e # seen) es)"

definition findEntry :: "string \<Rightarrow> batchPutManifestEntry list \<Rightarrow> (nat \<times> batchPutManifestEntry) option" where
  "findEntry name es = find (\<lambda>(i, e). dataName e = name) (enumerate 0 es)"

text \<open>The members in stream order; the system of the \<open>n\<close>-th store is \<open>envs n\<close>.  A fault of the stream
  ends the batch with a status, a code and a message.\<close>

fun putMembers :: "decoders \<Rightarrow> (nat \<Rightarrow> sysEnv) \<Rightarrow> (storeErr \<Rightarrow> string) \<Rightarrow> int \<Rightarrow> kvMap option \<Rightarrow> batchPutManifestEntry list \<Rightarrow> nat
    \<Rightarrow> tarItem list \<Rightarrow> string list \<Rightarrow> batchPutResult list \<Rightarrow> Storage
    \<Rightarrow> (((nat \<times> string \<times> string) + string list \<times> batchPutResult list) \<times> Storage)" where
  "putMembers dec envs errText limit aud manifest n [] seen results s = (Inr (seen, results), s)"
| "putMembers dec envs errText limit aud manifest n (TarFail e # items) seen results s =
    (if e = maxBytesErr
     then (Inl (413, ''too_large'', ''batch exceeds max size of '' @ formatInt (int maxBatchKeys * limit) @ '' bytes''), s)
     else (Inl (400, ''invalid_request'', ''read tar member: '' @ errText (ErrIo e)), s))"
| "putMembers dec envs errText limit aud manifest n (TarHdr name body # items) seen results s =
    (case findEntry name manifest of
       None \<Rightarrow> (Inl (400, ''invalid_request'', ''data member '' @ name @ '' has no manifest entry''), s)
     | Some (i, e) \<Rightarrow>
       if name \<in> set seen then (Inl (400, ''invalid_request'', ''duplicate data member '' @ name), s)
       else case storeOneObject dec (envs n) (bp_Key e) (limitReader limit body) (bp_Metadata e) (cloneAudit aud) s of
         ((st, err), s) \<Rightarrow>
           putMembers dec envs errText limit aud manifest (Suc n) items (name # seen)
             (results[i := (results ! i)\<lparr>br_Status := statusText st,
                br_Message := (if st = storeStatusError then (case err of Some x \<Rightarrow> errText x | None \<Rightarrow> []) else [])\<rparr>]) s)"

definition batchFail :: "bool \<Rightarrow> nat \<times> string \<times> string \<Rightarrow> batchPutAnswer" where
  "batchFail committed f =
    (case f of (status, code, message) \<Rightarrow>
       if \<not> committed then BatchPutError (writeError [] status code message) else BatchPutFailed (code @ '': '' @ message))"

text \<open>The stream after the manifest.  \<open>committed\<close> says whether the keep-alive has begun the answer, and
  \<open>order\<close> is the order of a \<^verbatim>\<open>range\<close> over the data names.\<close>

definition batchPutBody ::
    "decoders \<Rightarrow> (nat \<Rightarrow> sysEnv) \<Rightarrow> (storeErr \<Rightarrow> string) \<Rightarrow> (string list \<Rightarrow> string list) \<Rightarrow> bool \<Rightarrow> int \<Rightarrow> kvMap option
      \<Rightarrow> batchPutManifestEntry list \<Rightarrow> tarItem list \<Rightarrow> Storage \<Rightarrow> batchPutAnswer \<times> Storage" where
  "batchPutBody dec envs errText order committed limit aud manifest items s =
    (case putMembers dec envs errText limit aud manifest 0 items []
            (map (\<lambda>e. \<lparr>br_Key = bp_Key e, br_Status = [], br_Message = []\<rparr>) manifest) s of
       (Inl f, s) \<Rightarrow> (batchFail committed f, s)
     | (Inr (seen, results), s) \<Rightarrow>
         (case filter (\<lambda>name. name \<notin> set seen) (order (map dataName manifest)) of
            [] \<Rightarrow> (BatchPutDone results, s)
          | name # _ \<Rightarrow>
              (batchFail committed (400, ''invalid_request'',
                 ''manifest entry '' @ drop (length ''data/'') name @ '' has no data member '' @ name), s)))"

text \<open>The request: the items of its tar stream, and the manifest its first member decodes to, none when
  that is no JSON.  The quotation marks a message puts around a name are left out.\<close>

definition handleBatchPut ::
    "decoders \<Rightarrow> (nat \<Rightarrow> sysEnv) \<Rightarrow> (storeErr \<Rightarrow> string) \<Rightarrow> string \<Rightarrow> (string list \<Rightarrow> string list) \<Rightarrow> bool \<Rightarrow> string \<Rightarrow> auditInfo option \<Rightarrow> int
      \<Rightarrow> tarItem list \<Rightarrow> batchPutManifestEntry list option \<Rightarrow> Storage \<Rightarrow> batchPutAnswer \<times> Storage" where
  "handleBatchPut dec envs errText jsonErr order committed verb a limit stream manifest s =
    (if verb \<noteq> ''PUT'' then (BatchPutError (writeError [] 405 ''method_not_allowed'' ''method not allowed''), s)
     else case stream of
       [] \<Rightarrow> (BatchPutError (writeError [] 400 ''invalid_request'' ''read tar: EOF''), s)
     | TarFail e # items \<Rightarrow>
         (BatchPutError (if e = maxBytesErr
            then writeError [] 413 ''too_large'' (''batch exceeds max size of '' @ formatInt (int maxBatchKeys * limit) @ '' bytes'')
            else writeError [] 400 ''invalid_request'' (''read tar: '' @ errText (ErrIo e))), s)
     | TarHdr name body # items \<Rightarrow>
         if name \<noteq> ''manifest.json''
         then (BatchPutError (writeError [] 400 ''invalid_request'' (''first tar member must be manifest.json, got '' @ name)), s)
         else (case manifest of
           None \<Rightarrow> (BatchPutError (writeError [] 400 ''invalid_request'' (''invalid manifest.json: '' @ jsonErr)), s)
         | Some es \<Rightarrow>
             if es = [] then (BatchPutError (writeError [] 400 ''invalid_request'' ''manifest has no entries''), s)
             else if length es > maxBatchKeys
             then (BatchPutError (writeError [] 413 ''too_large'' (''too many entries: '' @ formatNat (length es)
                     @ '' (max '' @ formatNat maxBatchKeys @ '')'')), s)
             else case manifestFault 0 [] es of
               Some msg \<Rightarrow> (BatchPutError (writeError [] 400 ''invalid_request'' msg), s)
             | None \<Rightarrow> batchPutBody dec envs errText order committed limit (auditMapFromContext a) es items s))"

section \<open>The parallel loop\<close>

definition schedOk :: "(nat \<Rightarrow> nat list) \<Rightarrow> bool" where
  "schedOk sched \<longleftrightarrow> (\<forall>n. set (sched n) = {..<n} \<and> distinct (sched n))"

lemma runAll_pure:
  "runAll (\<lambda>x s. (g x, s)) items is results s = (foldl (\<lambda>rs i. rs[i := g (items ! i)]) results is, s)"
  by (induction "is" arbitrary: results) simp_all

lemma foldl_update_nth:
  assumes "i < length rs"
  shows "foldl (\<lambda>rs i. rs[i := h i]) rs is ! i = (if i \<in> set is then h i else rs ! i)"
  using assms by (induction "is" arbitrary: rs) (auto simp: nth_list_update)

lemma length_foldl_update [simp]: "length (foldl (\<lambda>rs i. rs[i := h i]) rs is) = length rs"
  by (induction "is" arbitrary: rs) simp_all

lemma parallelFilter_pure:
  assumes "schedOk sched"
  shows "parallelFilter sched items (\<lambda>x s. (g x, s)) s = (List.map_filter g items, s)"
proof -
  let ?rs = "foldl (\<lambda>rs i. rs[i := g (items ! i)]) (replicate (length items) None) (sched (length items))"
  have "?rs = map g items"
    by (rule nth_equalityI) (use assms in \<open>simp_all add: foldl_update_nth schedOk_def\<close>)
  then show ?thesis by (cases "items = []") (simp_all add: parallelFilter_def runAll_pure map_filter_def filter_map o_def)
qed

text \<open>An invariant of the calls is one of the loop, and every result comes from a call.\<close>

lemma runAll_inv:
  assumes "\<And>x s r s'. x \<in> set items \<Longrightarrow> Inv s \<Longrightarrow> fn x s = (r, s') \<Longrightarrow> Inv s' \<and> (\<forall>y. r = Some y \<longrightarrow> Q y)"
    and "Inv s" "set is \<subseteq> {..<length items}" "\<forall>y. Some y \<in> set results \<longrightarrow> Q y"
    and "runAll fn items is results s = (rs, s')"
  shows "Inv s' \<and> (\<forall>y. Some y \<in> set rs \<longrightarrow> Q y)"
  using assms(2-)
proof (induction "is" arbitrary: s results)
  case (Cons i "is")
  obtain r t where f: "fn (items ! i) s = (r, t)" by fastforce
  have it: "Inv t \<and> (\<forall>y. r = Some y \<longrightarrow> Q y)" using assms(1) [OF _ Cons.prems(1) f] Cons.prems(2) by simp
  have "\<forall>y. Some y \<in> set (results[i := r]) \<longrightarrow> Q y"
    using it Cons.prems(3) set_update_subset_insert [of results i r] by blast
  then show ?case using Cons.IH [of t "results[i := r]"] it Cons.prems(2,4) f by simp
qed simp

lemma parallelFilter_inv:
  assumes "\<And>x s r s'. x \<in> set items \<Longrightarrow> Inv s \<Longrightarrow> fn x s = (r, s') \<Longrightarrow> Inv s' \<and> (\<forall>y. r = Some y \<longrightarrow> Q y)"
    and "schedOk sched" "Inv s" "parallelFilter sched items fn s = (ys, s')"
  shows "Inv s' \<and> (\<forall>y \<in> set ys. Q y)"
proof (cases "items = []")
  case True
  then show ?thesis using assms(3,4) by (simp add: parallelFilter_def)
next
  case False
  obtain rs t where r: "runAll fn items (sched (length items)) (replicate (length items) None) s = (rs, t)" by fastforce
  have "Inv t \<and> (\<forall>y. Some y \<in> set rs \<longrightarrow> Q y)"
    by (rule runAll_inv [where Inv = Inv and Q = Q, OF assms(1) assms(3) _ _ r]) (use assms(2) in \<open>auto simp: schedOk_def\<close>)
  then show ?thesis using assms(4) False r by (auto simp: parallelFilter_def map_filter_def)
qed

section \<open>Keys of the prefetch window\<close>

lemma searchLoop_bounds: "i \<le> j \<Longrightarrow> i \<le> searchLoop f i j \<and> searchLoop f i j \<le> j"
proof (induction f i j rule: searchLoop.induct)
  case (1 f i j)
  let ?h = "(i + j) div 2"
  show ?case
  proof (cases "i < j")
    case True
    have b: "i \<le> ?h" "?h < j" using True by auto
    show ?thesis
    proof (cases "f ?h")
      case f: True
      have "searchLoop f i j = searchLoop f i ?h" using True f by (simp add: searchLoop.simps [of f i j])
      then show ?thesis using 1(2) [OF True refl] f b by simp
    next
      case f: False
      have "searchLoop f i j = searchLoop f (?h + 1) j" using True f by (simp add: searchLoop.simps [of f i j])
      then show ?thesis using 1(1) [OF True refl] f b by simp
    qed
  next
    case False
    then have "searchLoop f i j = i" by (simp add: searchLoop.simps [of f i j])
    then show ?thesis using "1.prems" by simp
  qed
qed

lemma set_outward:
  "left < hi \<Longrightarrow> lo \<le> right \<Longrightarrow> set (outward es mid lo hi left right) \<subseteq> {lo..<hi}"
proof (induction es mid lo hi left right rule: outward.induct)
  case (1 es mid lo hi left right)
  obtain pos left' right' where st: "nearbyStep es mid lo hi left right = (pos, left', right')" by (metis prod.exhaust)
  show ?case
  proof (cases "left \<ge> lo \<or> right < hi")
    case True
    then have "pos \<in> {lo..<hi} \<and> left' < hi \<and> lo \<le> right'" using "1.prems" st by (auto simp: nearbyStep_def split: if_splits)
    then show ?thesis using "1.IH" [OF True st [symmetric] refl] True st by (subst outward.simps) simp
  qed (subst outward.simps, simp)
qed

lemma NearbyKeys_keys:
  assumes "NearbyKeys ops a b limit exclude (Some sk) idx = (keys, idx')" "limit > 0"
  shows "set keys \<subseteq> (\<lambda>e. compactKey_Key (ie_key e)) ` (set (ix_entries idx) \<union> set (ix_pendingEntries idx))"
    "ix_entries idx' = ix_entries (drainEntriesLocked idx)" "ix_pendingEntries idx' = ix_pendingEntries (drainEntriesLocked idx)"
proof -
  let ?excl = "set_contains ops (foldl (set_add ops) (set_new ops) (map newCompactKey exclude))"
  have idx': "idx' = drainEntriesLocked idx" "keys = nearbyKeysLocked idx' a b limit ?excl (Some sk)"
    using assms(1) by (auto simp: NearbyKeys_def drainEntriesLocked_def Let_def split: if_splits)
  then show "ix_entries idx' = ix_entries (drainEntriesLocked idx)" "ix_pendingEntries idx' = ix_pendingEntries (drainEntriesLocked idx)"
    by simp_all
  let ?es = "ix_entries idx'"
  have es: "set ?es \<subseteq> set (ix_entries idx) \<union> set (ix_pendingEntries idx)"
    by (simp add: idx'(1) drainEntriesLocked_def sortEntriesByMtime_def)
  have loop: "set (nearbyLoop ?es ?excl (Some sk) mid limit (int lo) (int hi) (int right - 1) (int right) [] 0)
      \<subseteq> (\<lambda>e. compactKey_Key (ie_key e)) ` set ?es"
    if "lo < hi" "lo \<le> right" "right \<le> hi" "hi \<le> length ?es" for mid lo hi right
  proof -
    have "nearbyLoop ?es ?excl (Some sk) mid limit (int lo) (int hi) (int right - 1) (int right) [] 0 =
        take (nat limit) (walkSkip ?es ?excl sk (nat (limit * nearbyScanFactor)) (outward ?es mid (int lo) (int hi) (int right - 1) (int right)))"
      using assms(2) by (subst nearbyLoop_Some) (simp_all add: nearbyScanFactor_def)
    also have "set \<dots> \<subseteq> set (walkKeys ?es ?excl (outward ?es mid (int lo) (int hi) (int right - 1) (int right)))"
      unfolding walkSkip_def by (auto dest!: in_set_takeD)
    also have "\<dots> \<subseteq> (\<lambda>e. compactKey_Key (ie_key e)) ` set ?es"
      using set_outward [of "int right - 1" "int hi" "int lo" "int right" ?es mid] that by (fastforce simp: walkKeys_def)
    finally show ?thesis .
  qed
  have ss: "sortSearch n f \<le> n" for n f using searchLoop_bounds [of 0 n f] by (simp add: sortSearch_def)
  define lo hi where "lo = sortSearch (length ?es) (\<lambda>i. ie_mtimeUnix (?es ! i) \<ge> a)"
    and "hi = sortSearch (length ?es) (\<lambda>i. ie_mtimeUnix (?es ! i) > b)"
  define right where "right = sortSearch (hi - lo) (\<lambda>i. ie_mtimeUnix (?es ! (lo + i)) \<ge> (a + b) sdiv 2) + lo"
  have "keys = [] \<or> lo < hi \<and>
      keys = nearbyLoop ?es ?excl (Some sk) ((a + b) sdiv 2) limit (int lo) (int hi) (int right - 1) (int right) [] 0"
    unfolding idx'(2) nearbyKeysLocked_def Let_def lo_def [symmetric] hi_def [symmetric] right_def [symmetric] by auto
  moreover have "lo \<le> right" "right \<le> hi \<or> \<not> lo < hi" "hi \<le> length ?es"
    using ss [of "hi - lo" "\<lambda>i. ie_mtimeUnix (?es ! (lo + i)) \<ge> (a + b) sdiv 2"] ss [of "length ?es"]
    unfolding right_def by (linarith, linarith, simp add: hi_def)
  ultimately have "set keys \<subseteq> (\<lambda>e. compactKey_Key (ie_key e)) ` set ?es"
    using loop by (metis empty_set empty_subsetI)
  then show "set keys \<subseteq> (\<lambda>e. compactKey_Key (ie_key e)) ` (set (ix_entries idx) \<union> set (ix_pendingEntries idx))"
    using es by blast
qed

section \<open>Reading many objects\<close>

text \<open>What a batch of reads does to the store: objects go or stay what they are.\<close>

definition shrinks :: "decoders \<Rightarrow> string set \<Rightarrow> Storage \<Rightarrow> Storage \<Rightarrow> bool" where
  "shrinks dec K s s' \<longleftrightarrow> guardsOk dec K s' \<and> pathOf s' = pathOf s \<and> indexKeys s' \<subseteq> indexKeys s \<and>
     (\<forall>p f'. lookupFile p s' = Some f' \<longrightarrow> (\<exists>f. lookupFile p s = Some f \<and> sameObject f f'))"

lemma sameObject_refl [simp]: "sameObject f f"
  by (simp add: sameObject_def)

lemma sameObject_digest: "sameObject f f' \<Longrightarrow> digestMatches f' = digestMatches f"
  by (simp add: sameObject_def digestMatches_def)

lemma shrinks_refl: "guardsOk dec K s \<Longrightarrow> shrinks dec K s s"
  by (auto simp: shrinks_def)

lemma shrinks_trans:
  assumes "shrinks dec K s t" "shrinks dec K t u" shows "shrinks dec K s u"
  unfolding shrinks_def
proof (intro conjI allI impI)
  show "guardsOk dec K u" "pathOf u = pathOf s" "indexKeys u \<subseteq> indexKeys s" using assms by (auto simp: shrinks_def)
  fix p f' assume "lookupFile p u = Some f'"
  then obtain g where g: "lookupFile p t = Some g" "sameObject g f'" using assms(2) unfolding shrinks_def by blast
  then obtain f where "lookupFile p s = Some f" "sameObject f g" using assms(1) unfolding shrinks_def by blast
  then show "\<exists>f. lookupFile p s = Some f \<and> sameObject f f'" using g(2) by (auto simp: sameObject_def)
qed

lemma shrinks_read: "readStep dec K key s s' \<Longrightarrow> shrinks dec K s s'"
  unfolding readStep_def shrinks_def by (metis sameObject_refl)

text \<open>An entry of a key: its object is there, and the digest it carries is the stored one.\<close>

definition entryFor :: "Storage \<Rightarrow> string set \<Rightarrow> batchEntry \<Rightarrow> bool" where
  "entryFor s K e \<longleftrightarrow> be_key e \<in> K \<and> (\<exists>f. lookupFile (pathOf s (be_key e)) s = Some f \<and>
     kvGet (om_Metadata (be_meta e)) storedDigestMetaKey = kvGet (getMetadata f) storedDigestMetaKey)"

lemma entryFor_before: "shrinks dec K s t \<Longrightarrow> entryFor t K e \<Longrightarrow> entryFor s K e"
  unfolding entryFor_def shrinks_def by (metis sameObject_def)

lemma servableEntry_ok:
  assumes "guardsOk dec K s" "key \<in> K" "readEnvOk env" "servableEntry dec env prefetch key s = (r, s')"
  shows "shrinks dec K s s' \<and> (\<forall>e. r = Inr e \<longrightarrow> entryFor s K e)"
proof -
  have env: "visitsAll (env_order env)" "env_cap env < 2 ^ 63" using assms(3) by (simp_all add: readEnvOk_def)
  obtain st s1 where st: "Stat env key s = (st, s1)" by fastforce
  note st' = Stat_guards [OF assms(1,2) env(1) st]
  have sh: "shrinks dec K s t" if "guardStep dec K key s1 t \<or> (guardsOk dec K t \<and> sameFiles s1 t)" for t
    using that st' shrinks_read readStep_guard readStep_same readStep_after shrinks_trans by metis
  show ?thesis
  proof (cases st)
    case (Inl err)
    obtain why s2 where a: "absentKeyReason key s1 = (why, s2)" by fastforce
    have "guardsOk dec K s2" "sameFiles s1 s2" using absentKeyReason_ok [OF _ a] st' by blast+
    then show ?thesis using assms(4) st Inl a sh [of s1] sh [of s2] st' by (auto simp: servableEntry_def split: if_splits)
  next
    case (Inr om)
    then obtain f where f: "lookupFile (pathOf s key) s = Some f" "map_of (om_Metadata om) = map_of (getMetadata f)"
      using st' by blast
    have f1: "lookupFile (pathOf s1 key) s1 = Some f" using f(1) st' sameFiles_path [of s s1] by simp
    obtain ev s2 where ev: "evictModuleIndexOnReadByKey dec env key om s1 = (ev, s2)" by fastforce
    note ev' = evictModuleIndexOnReadByKey_ok [OF _ assms(2) f1 ev]
    show ?thesis
    proof (cases ev)
      case True
      then show ?thesis using assms(4) st Inr ev ev' st' sh [of s2] by (auto simp: servableEntry_def)
    next
      case False
      then have e2: "sameFiles s1 s2" "guardsOk dec K s2" using ev' st' by (auto simp: guardStep_def)
      have f2: "lookupFile (pathOf s2 key) s2 = Some f" using f1 sameFiles_path [OF e2(1)] by simp
      obtain b om' s3 where h: "ensureOutputID dec env key om None s2 = ((b, om'), s3)" by (metis prod.exhaust)
      from ensureOutputID_ok [OF e2(2) assms(2) f2 _ env h] obtain f' where h': "healStep dec K key s2 s3 f f'" by auto
      have "shrinks dec K s s3" using sh [of s2] e2 readStep_heal [OF h' f2] shrinks_read shrinks_trans by blast
      moreover have "s' = s3" "r = Inr e \<Longrightarrow> e = \<lparr>be_key = key, be_meta = om', be_prefetch = prefetch\<rparr>" for e
        using assms(4) st Inr ev False h by (auto simp: servableEntry_def split: if_splits)
      moreover have "kvGet (om_Metadata om') storedDigestMetaKey = kvGet (om_Metadata om) storedDigestMetaKey"
        using h by (auto simp: ensureOutputID_def kvGet_def update_conv' outputIDMetaKey_def storedDigestMetaKey_def
            split: if_splits prod.splits sum.splits)
      ultimately show ?thesis using f assms(2) by (auto simp: entryFor_def kvGet_map_of)
    qed
  qed
qed

text \<open>An opened entry: the bytes of its object, in agreement with the stored digest.\<close>

definition openedFor :: "string set \<Rightarrow> Storage \<Rightarrow> openedEntry \<Rightarrow> bool" where
  "openedFor K s o' \<longleftrightarrow> be_key (oe_entry o') \<in> K \<and> (\<exists>f. lookupFile (pathOf s (be_key (oe_entry o'))) s = Some f \<and> digestMatches f \<and>
     f_body (oe_f o') = f_body f \<and> oe_size o' = int (length (f_body f)))"

lemma openVerifiedEntry_ok:
  assumes s0: "shrinks dec K s0 s" "entryFor s0 K e" and o: "openVerifiedEntry env e s = (r, s')"
  shows "shrinks dec K s0 s' \<and> (\<forall>y. r = Some y \<longrightarrow> openedFor K s0 y)"
proof -
  let ?k = "be_key e"
  have ok: "guardsOk dec K s" "pathOf s = pathOf s0" using s0(1) by (simp_all add: shrinks_def)
  have k: "?k \<in> K" using s0(2) by (simp add: entryFor_def)
  obtain b s1 where b: "OpenBody env ?k s = (b, s1)" by fastforce
  note b' = OpenBody_guards [OF ok(1) b]
  have s1: "shrinks dec K s0 s1" using b' readStep_same shrinks_read shrinks_trans [OF s0(1)] by blast
  show ?thesis
  proof (cases b)
    case (Inl err)
    then show ?thesis using o b s1 by (auto simp: openVerifiedEntry_def)
  next
    case (Inr fn)
    then obtain f n where fn: "b = Inr (f, n)" by (metis prod.exhaust)
    then have f: "b = Inr (f, n)" "lookupFile (pathOf s ?k) s = Some f" "n = int (length (f_body f))" using b' by blast+
    obtain f0 where f0: "lookupFile (pathOf s0 ?k) s0 = Some f0" "sameObject f0 f"
      using s0(1) f(2) unfolding ok(2) shrinks_def by blast
    then have dg: "kvGet (om_Metadata (be_meta e)) storedDigestMetaKey = kvGet (getMetadata f) storedDigestMetaKey"
      using s0(2) unfolding entryFor_def sameObject_def by simp
    have f1: "lookupFile (pathOf s1 ?k) s1 = Some f" using f(2) b' sameFiles_path [of s s1] by simp
    obtain v s2 where v: "verifyStoredDigestFor env ?k f (om_Metadata (be_meta e)) s1 = (v, s2)" by fastforce
    note v' = verifyStoredDigestFor_ok [OF _ k f1 dg v]
    have s2: "shrinks dec K s0 s2" using v' b' readStep_same shrinks_read shrinks_trans [OF s1] by blast
    consider "v = Inr True" | "v = Inr False" | e' where "v = Inl e'" by (cases v) (metis (full_types))+
    then show ?thesis
    proof cases
      case 1
      then have "r = Some \<lparr>oe_entry = e, oe_f = f, oe_size = n\<rparr>" "s' = s2" using o b f v by (simp_all add: openVerifiedEntry_def)
      moreover have "digestMatches f0" using 1 v' b' f0(2) sameObject_digest by blast
      ultimately show ?thesis using s2 f0 f(3) k by (simp add: openedFor_def sameObject_def)
    next
      case 2
      then have "r = None" "s' = snd (Delete env ?k s2)" using o b f v by (simp_all add: openVerifiedEntry_def)
      then show ?thesis
        using guardStep_Delete [OF _ k, of dec s2 env] v' b' readStep_guard shrinks_read shrinks_trans [OF s2] by blast
    next
      case 3
      then show ?thesis using o b f v s2 by (simp add: openVerifiedEntry_def)
    qed
  qed
qed

lemma servableEntries_ok:
  assumes "shrinks dec K s0 s" "set keys \<subseteq> K" "readEnvOk env" "schedOk sched"
    and "parallelFilter sched keys (\<lambda>key s. keepEntry (servableEntry dec env prefetch key s)) s = (es, s')"
  shows "shrinks dec K s0 s' \<and> (\<forall>e \<in> set es. entryFor s0 K e)"
proof (rule parallelFilter_inv [where Inv = "shrinks dec K s0" and Q = "entryFor s0 K", OF _ assms(4,1,5)])
  fix key t r t' assume k: "key \<in> set keys" "shrinks dec K s0 t" "keepEntry (servableEntry dec env prefetch key t) = (r, t')"
  obtain q u where q: "servableEntry dec env prefetch key t = (q, u)" by fastforce
  have "guardsOk dec K t" using k(2) by (simp add: shrinks_def)
  note ok = servableEntry_ok [OF this _ assms(3) q]
  have "t' = u" "\<And>e. r = Some e \<Longrightarrow> q = Inr e" using k(3) q by (auto simp: keepEntry_def split: sum.splits)
  then show "shrinks dec K s0 t' \<and> (\<forall>e. r = Some e \<longrightarrow> entryFor s0 K e)"
    using ok k(1,2) assms(2) shrinks_trans entryFor_before by blast
qed

lemma shrinks_index:
  assumes "shrinks dec K s0 s" "st_index s = Some idx"
    and "ix_entries idx' = ix_entries (drainEntriesLocked idx)" "ix_pendingEntries idx' = ix_pendingEntries (drainEntriesLocked idx)"
  shows "shrinks dec K s0 (s\<lparr>st_index := Some idx'\<rparr>)" (is "shrinks dec K s0 ?s")
proof -
  have g: "guardsOk dec K s" using assms(1) by (simp add: shrinks_def)
  have "storeOk K ?s = storeOk K s" by (simp add: storeOk_def metaCoherent_def inj_on_def)
  then have "guardsOk dec K ?s" using guardsOk_quiet [OF g, of ?s] g by (simp add: guardsOk_def)
  moreover have "indexKeys ?s \<subseteq> indexKeys s"
    using assms(2-4) by (auto simp: indexKeys_def drainEntriesLocked_def sortEntriesByMtime_def)
  moreover have "pathOf ?s = pathOf s" by (rule ext) simp
  ultimately show ?thesis using assms(1) unfolding shrinks_def by auto
qed

lemma prefetchEntries_ok:
  assumes "shrinks dec K s0 s" "indexKeys s0 \<subseteq> K" "readEnvOk env" "schedOk sched" "\<forall>e \<in> set entries. entryFor s0 K e"
    and "prefetchEntries dec env sched ops req lookup entries s = (es, s')"
  shows "shrinks dec K s0 s' \<and> (\<forall>e \<in> set es. entryFor s0 K e)"
proof (cases "\<exists>r idx. modRange entries = Some r \<and> st_index s = Some idx \<and> bg_Prefetch req")
  case False
  then have "es = entries" "s' = s"
    using assms(6) by (auto simp: prefetchEntries_def split: option.splits prod.splits if_splits)
  then show ?thesis using assms(1,5) by simp
next
  case True
  then obtain a b idx where r: "modRange entries = Some (a, b)" "st_index s = Some idx" "bg_Prefetch req" by auto
  let ?sk = "\<lambda>key. let (h, ok) = extractActionHash key in ok \<and> serverContains (bg_Have req) h"
  obtain keys idx' where n: "NearbyKeys ops (unixSec (a - prefetchWindow)) (unixSec (b + prefetchWindow)) maxPrefetchEntries lookup (Some ?sk) idx
      = (keys, idx')" by fastforce
  note nk = NearbyKeys_keys [OF n, unfolded maxPrefetchEntries_def, simplified]
  obtain pre t where p: "buildPrefetchEntries dec env sched keys (s\<lparr>st_index := Some idx'\<rparr>) = (pre, t)" by fastforce
  have "set keys \<subseteq> indexKeys s" using nk(1) r(2) by (simp add: indexKeys_def)
  then have "set keys \<subseteq> K" using assms(1,2) unfolding shrinks_def by blast
  from servableEntries_ok [OF shrinks_index [OF assms(1) r(2) nk(2,3)] this assms(3,4) p [unfolded buildPrefetchEntries_def]]
  have pre: "shrinks dec K s0 t \<and> (\<forall>e \<in> set pre. entryFor s0 K e)" .
  have "s' = t" "set es \<subseteq> set entries \<union> set pre"
    using assms(6) r n p by (auto simp: prefetchEntries_def split: if_splits)
  then show ?thesis using pre assms(5) by blast
qed

lemma openVerifiedEntries_ok:
  assumes "shrinks dec K s0 s" "\<forall>e \<in> set entries. entryFor s0 K e" "schedOk sched"
    and "openVerifiedEntries env sched entries s = (os, s')"
  shows "shrinks dec K s0 s' \<and> (\<forall>o' \<in> set os. openedFor K s0 o')"
  by (rule parallelFilter_inv [where Inv = "shrinks dec K s0" and Q = "openedFor K s0", OF _ assms(3,1) assms(4) [unfolded openVerifiedEntries_def]])
    (use assms(2) openVerifiedEntry_ok in blast)

lemma streamMembers_ok:
  assumes "\<forall>o' \<in> set os. openedFor K s0 o'" "streamMembers env os = (ms, complete)"
  shows "(\<forall>m \<in> set ms. \<exists>k \<in> K. \<exists>f. tm_name m = ''data/'' @ k \<and> lookupFile (pathOf s0 k) s0 = Some f \<and> tm_data m = f_body f \<and> digestMatches f) \<and>
    map tm_name ms = take (length ms) (map (\<lambda>e. ''data/'' @ mf_Key e) (manifestOf os)) \<and> (complete \<longrightarrow> length ms = length os)"
  using assms
proof (induction os arbitrary: ms complete)
  case (Cons o' os)
  let ?d = "take (nat (oe_size o')) (rd_data (fileReader env (oe_f o')))"
  obtain ms' c where r: "streamMembers env os = (ms', c)" by fastforce
  show ?case
  proof (cases "int (length ?d) = oe_size o'")
    case False
    then have "ms = []" "\<not> complete" using Cons.prems(2) by (auto simp: Let_def)
    then show ?thesis by simp
  next
    case True
    have ms: "ms = \<lparr>tm_name = ''data/'' @ be_key (oe_entry o'), tm_data = ?d\<rparr> # ms'" "complete = c"
      using Cons.prems(2) True r by (auto simp: Let_def)
    from Cons.prems(1) obtain f where f: "be_key (oe_entry o') \<in> K" "lookupFile (pathOf s0 (be_key (oe_entry o'))) s0 = Some f" "digestMatches f"
        "f_body (oe_f o') = f_body f" "oe_size o' = int (length (f_body f))" by (auto simp: openedFor_def)
    have "?d = f_body f"
      using True f(4,5) by (cases "env_fault env SysRead") (auto simp: fileReader_def bytesReader_def)
    then show ?thesis using Cons.IH [OF _ r] Cons.prems(1) f(1-3) by (auto simp: ms manifestOf_def)
  qed
qed (simp add: manifestOf_def)

lemma handleBatchGet_ok:
  assumes "guardsOk dec K s" "set (bg_Keys req) \<subseteq> K" "indexKeys s \<subseteq> K" "readEnvOk env" "schedOk sched"
    and "handleBatchGet dec env sched ops jsonErr verb (Some req) prefetchEnabled s = (BatchGetTar h manifest members complete, s')"
  shows "shrinks dec K s s' \<and>
    (\<forall>m \<in> set members. \<exists>k \<in> K. \<exists>f. tm_name m = ''data/'' @ k \<and> lookupFile (pathOf s k) s = Some f \<and> tm_data m = f_body f \<and> digestMatches f) \<and>
    map tm_name members = take (length members) (map (\<lambda>e. ''data/'' @ mf_Key e) manifest) \<and>
    (complete \<longrightarrow> length members = length manifest)"
proof -
  let ?lookup = "if \<not> prefetchEnabled \<and> bg_PrefetchOnly req then [] else bg_Keys req"
  let ?req = "if \<not> prefetchEnabled then req\<lparr>bg_Prefetch := False, bg_PrefetchOnly := False\<rparr> else req"
  obtain es s1 where 1: "parallelFilter sched ?lookup (\<lambda>key s. keepEntry (servableEntry dec env False key s)) s = (es, s1)" by fastforce
  obtain es' s2 where 2: "prefetchEntries dec env sched ops ?req ?lookup es s1 = (es', s2)" by fastforce
  obtain os s3 where 3: "openVerifiedEntries env sched es' s2 = (os, s3)" by fastforce
  obtain ms c where 4: "streamMembers env os = (ms, c)" by fastforce
  have r: "manifest = manifestOf os" "members = ms" "complete = c" "s' = s3"
    using assms(6) unfolding handleBatchGet_def by (simp_all add: 1 2 3 4 Let_def split: if_splits)
  have "set ?lookup \<subseteq> K" using assms(2) by auto
  from servableEntries_ok [OF shrinks_refl [OF assms(1)] this assms(4,5) 1]
  have e1: "shrinks dec K s s1" "\<forall>e \<in> set es. entryFor s K e" by blast+
  from prefetchEntries_ok [OF e1(1) assms(3,4,5) e1(2) 2]
  have e2: "shrinks dec K s s2" "\<forall>e \<in> set es'. entryFor s K e" by blast+
  from openVerifiedEntries_ok [OF e2 assms(5) 3]
  have e3: "shrinks dec K s s3" "\<forall>o' \<in> set os. openedFor K s o'" by blast+
  from streamMembers_ok [OF e3(2) 4] e3(1) show ?thesis by (simp add: r manifestOf_def)
qed

section \<open>Properties\<close>

text \<open>(C4) A batch GET serves only verified objects.  Whatever the order in which the workers run, each
  member of the answer is the complete body of the object stored under the key that names it, and it
  agrees with the digest stored with it.  The members follow the manifest, and a complete answer has
  one for each of its entries.  The batch removes and repairs objects at most.\<close>

theorem handleBatchGet_verified:
  assumes "guardsOk dec K s" "set (bg_Keys req) \<subseteq> K" "indexKeys s \<subseteq> K" "readEnvOk env" "schedOk sched"
    and "handleBatchGet dec env sched ops jsonErr verb (Some req) prefetchEnabled s = (BatchGetTar h manifest members complete, s')"
  shows "shrinks dec K s s' \<and>
    (\<forall>m \<in> set members. \<exists>k f. tm_name m = ''data/'' @ k \<and> lookupFile (pathOf s k) s = Some f \<and> tm_data m = f_body f \<and> digestMatches f) \<and>
    map tm_name members = take (length members) (map (\<lambda>e. ''data/'' @ mf_Key e) manifest) \<and>
    (complete \<longrightarrow> length members = length manifest)"
  using handleBatchGet_ok [OF assms] by blast

lemma handleBatchGet_verified_witness:
  "guardsOk specDecoders {''k''} storedStore \<and> readEnvOk calmEnv \<and> schedOk (\<lambda>n. rev [0..<n]) \<and>
   (\<exists>h manifest members complete s'.
      handleBatchGet specDecoders calmEnv (\<lambda>n. rev [0..<n]) memOps [] ''GET''
        (Some \<lparr>bg_Keys = [''k''], bg_Prefetch = True, bg_PrefetchOnly = False, bg_Have = None\<rparr>) True storedStore
        = (BatchGetTar h manifest members complete, s') \<and>
      shrinks specDecoders {''k''} storedStore s' \<and>
      map tm_name members = take (length members) (map (\<lambda>e. ''data/'' @ mf_Key e) manifest))"
proof -
  let ?req = "\<lparr>bg_Keys = [''k''], bg_Prefetch = True, bg_PrefetchOnly = False, bg_Have = None\<rparr>"
  let ?go = "handleBatchGet specDecoders calmEnv (\<lambda>n. rev [0..<n]) memOps [] ''GET'' (Some ?req) True storedStore"
  have env: "readEnvOk calmEnv" by (simp add: readEnvOk_def calmEnv_def visitsAll_def)
  have sched: "schedOk (\<lambda>n. rev [0..<n])" by (auto simp: schedOk_def)
  have keys: "set (bg_Keys ?req) \<subseteq> {''k''}" "indexKeys storedStore \<subseteq> {''k''}"
    using storedStore_ok(4) by (simp_all add: indexKeys_def)
  have "\<exists>h manifest members complete s'. ?go = (BatchGetTar h manifest members complete, s')"
    by (simp add: handleBatchGet_def maxBatchKeys_def Let_def split: prod.split)
  then obtain h manifest members complete s' where g: "?go = (BatchGetTar h manifest members complete, s')" by blast
  from handleBatchGet_verified [OF storedStore_ok(1) keys env sched g] show ?thesis
    using storedStore_ok(1) env sched g by blast
qed

section \<open>Storing many objects\<close>

lemma manifestFault_None:
  "manifestFault i seen es = None \<Longrightarrow> distinct (map dataName es) \<and> (\<forall>e \<in> set es. bp_Key e \<noteq> [] \<and> dataName e \<notin> set seen)"
  by (induction i seen es rule: manifestFault.induct) (auto split: if_splits)

lemma findEntry_Some:
  "findEntry name es = Some (i, e) \<Longrightarrow> i < length es \<and> es ! i = e \<and> dataName e = name"
  unfolding findEntry_def by (auto simp: find_Some_iff nth_enumerate_eq)

text \<open>What the request asks for, as a reference: the members of the stream stored one after another in stream
  order, each under the key of its entry, with the outcome of each.\<close>

type_synonym batchOutcome = "batchPutManifestEntry \<times> storeStatus \<times> storeErr option"

fun storeMembers :: "decoders \<Rightarrow> (nat \<Rightarrow> sysEnv) \<Rightarrow> int \<Rightarrow> kvMap option \<Rightarrow> nat \<Rightarrow> (batchPutManifestEntry \<times> reader) list \<Rightarrow> Storage
    \<Rightarrow> batchOutcome list \<times> Storage" where
  "storeMembers dec envs limit aud n [] s = ([], s)"
| "storeMembers dec envs limit aud n ((e, body) # ms) s =
    (case storeOneObject dec (envs n) (bp_Key e) (limitReader limit body) (bp_Metadata e) (cloneAudit aud) s of
       ((st, err), s) \<Rightarrow> (case storeMembers dec envs limit aud (Suc n) ms s of (outs, s) \<Rightarrow> ((e, st, err) # outs, s)))"

definition memberItem :: "batchPutManifestEntry \<times> reader \<Rightarrow> tarItem" where
  "memberItem m = TarHdr (dataName (fst m)) (snd m)"

definition noteOutcome :: "(storeErr \<Rightarrow> string) \<Rightarrow> storeStatus \<Rightarrow> storeErr option \<Rightarrow> batchPutResult \<Rightarrow> batchPutResult" where
  "noteOutcome errText st err r = r\<lparr>br_Status := statusText st,
     br_Message := (if st = storeStatusError then (case err of Some x \<Rightarrow> errText x | None \<Rightarrow> []) else [])\<rparr>"

text \<open>The results once some members have been stored: an entry whose member was among them has its outcome, the others
  are as they were.\<close>

definition noted :: "(storeErr \<Rightarrow> string) \<Rightarrow> batchPutManifestEntry list \<Rightarrow> batchOutcome list \<Rightarrow> batchPutResult list \<Rightarrow> batchPutResult list \<Rightarrow> bool" where
  "noted errText manifest outs results results' \<longleftrightarrow> length results' = length results \<and>
     (\<forall>i < length manifest. if manifest ! i \<in> fst ` set outs
        then \<exists>st err. (manifest ! i, st, err) \<in> set outs \<and> results' ! i = noteOutcome errText st err (results ! i)
        else results' ! i = results ! i)"

lemma storeMembers_entries: "storeMembers dec envs limit aud n ms s = (outs, s') \<Longrightarrow> map fst outs = map fst ms"
  by (induction ms arbitrary: n s outs) (auto split: prod.splits)

lemma noted_Cons:
  assumes "distinct (map dataName manifest)" "i < length manifest" "manifest ! i \<notin> fst ` set outs" "length results = length manifest"
    and "noted errText manifest outs (results[i := noteOutcome errText st err (results ! i)]) results'"
  shows "noted errText manifest ((manifest ! i, st, err) # outs) results results'"
proof -
  let ?o = "(manifest ! i, st, err) # outs"
  note n = assms(5) [unfolded noted_def]
  have "if manifest ! j \<in> fst ` set ?o
      then \<exists>st err. (manifest ! j, st, err) \<in> set ?o \<and> results' ! j = noteOutcome errText st err (results ! j)
      else results' ! j = results ! j" if j: "j < length manifest" for j
  proof (cases "j = i")
    case True
    then have "results' ! j = noteOutcome errText st err (results ! j)" using n assms(2-4) by simp
    then show ?thesis using True by auto
  next
    case False
    then have ne: "manifest ! j \<noteq> manifest ! i" using assms(1,2) j by (metis distinct_conv_nth distinct_map)
    have "results[i := noteOutcome errText st err (results ! i)] ! j = results ! j" using False by simp
    then have "if manifest ! j \<in> fst ` set outs
      then \<exists>st err. (manifest ! j, st, err) \<in> set outs \<and> results' ! j = noteOutcome errText st err (results ! j)
      else results' ! j = results ! j" using n j by metis
    then show ?thesis using ne by (cases "manifest ! j \<in> fst ` set outs") auto
  qed
  moreover have "length results' = length results" using n by simp
  ultimately show ?thesis unfolding noted_def by blast
qed

lemma putMembers_noted:
  assumes "distinct (map dataName manifest)" "length results = length manifest"
    and "putMembers dec envs errText limit aud manifest n items seen results s = (Inr (seen', results'), s')"
  shows "\<exists>members outs. items = map memberItem members \<and> storeMembers dec envs limit aud n members s = (outs, s') \<and>
    set (map fst members) \<subseteq> set manifest \<and> distinct (map (dataName \<circ> fst) members) \<and> set (map (dataName \<circ> fst) members) \<inter> set seen = {} \<and>
    set seen' = set (map (dataName \<circ> fst) members) \<union> set seen \<and> noted errText manifest outs results results'"
  using assms(2,3)
proof (induction items arbitrary: n seen results s)
  case Nil
  then show ?case by (intro exI [of _ "[]"] exI [of _ "[]"]) (simp add: noted_def)
next
  case (Cons item items)
  show ?case
  proof (cases item)
    case (TarFail e)
    then show ?thesis using Cons.prems by (auto split: if_splits)
  next
    case (TarHdr name body)
    then obtain i e where f: "findEntry name manifest = Some (i, e)"
      using Cons.prems(2) by (cases "findEntry name manifest") auto
    note fe = findEntry_Some [OF f]
    obtain st err t where o: "storeOneObject dec (envs n) (bp_Key e) (limitReader limit body) (bp_Metadata e) (cloneAudit aud) s = ((st, err), t)"
      by (metis prod.exhaust)
    let ?r = "results[i := noteOutcome errText st err (results ! i)]"
    have rest: "putMembers dec envs errText limit aud manifest (Suc n) items (name # seen) ?r t = (Inr (seen', results'), s')"
      and new: "name \<notin> set seen"
      using Cons.prems(2) TarHdr f o by (auto simp: noteOutcome_def split: if_splits)
    have "length ?r = length manifest" using Cons.prems(1) by simp
    from Cons.IH [OF this rest] obtain ms outs where ms: "items = map memberItem ms"
        "storeMembers dec envs limit aud (Suc n) ms t = (outs, s')" "set (map fst ms) \<subseteq> set manifest" "distinct (map (dataName \<circ> fst) ms)"
        "set (map (dataName \<circ> fst) ms) \<inter> set (name # seen) = {}" "set seen' = set (map (dataName \<circ> fst) ms) \<union> set (name # seen)"
        "noted errText manifest outs ?r results'" by blast
    have "e \<notin> fst ` set ms" using ms(5) fe by force
    then have "manifest ! i \<notin> fst ` set outs" using storeMembers_entries [OF ms(2)] fe by (metis image_set)
    from noted_Cons [OF assms(1) _ this Cons.prems(1) ms(7)] fe have "noted errText manifest ((e, st, err) # outs) results results'" by simp
    moreover have "item # items = map memberItem ((e, body) # ms)" using TarHdr ms(1) fe by (simp add: memberItem_def)
    ultimately show ?thesis using ms(2-6) new o fe
      by (intro exI [of _ "(e, body) # ms"] exI [of _ "(e, st, err) # outs"]) (auto simp: comp_def)
  qed
qed

lemma entries_covered:
  assumes "distinct (map dataName manifest)" "set (map fst ms) \<subseteq> set manifest" "set (map dataName manifest) \<subseteq> set (map (dataName \<circ> fst) ms)"
  shows "set manifest \<subseteq> set (map fst ms)"
proof
  fix e assume e: "e \<in> set manifest"
  then obtain x where x: "x \<in> set ms" "dataName (fst x) = dataName e" using assms(3) by auto
  moreover have "fst x \<in> set manifest" using x(1) assms(2) by auto
  ultimately have "fst x = e" using assms(1) e by (auto simp: distinct_map dest: inj_onD)
  then show "e \<in> set (map fst ms)" using x(1) by auto
qed

text \<open>(C25) What a batch PUT that reports success has done.  Its stream is the manifest and then one data member for
  each entry, in any order, and nothing else; the manifest names no key twice; the members were stored one after another in
  stream order, and the store is what these stores leave.  There is a result for each entry, in the manifest's order,
  and its status and message are the outcome of storing that entry's member: stored, dropped,
  in conflict, or the error.\<close>

theorem handleBatchPut_results:
  assumes "\<And>xs. set (order xs) = set xs"
    and "handleBatchPut dec envs errText jsonErr order committed verb a limit stream (Some manifest) s = (BatchPutDone results, s')"
  shows "map br_Key results = map bp_Key manifest \<and> distinct (map bp_Key manifest) \<and> length manifest \<le> maxBatchKeys \<and>
    (\<forall>r \<in> set results. br_Status r \<in> {''stored'', ''dropped'', ''conflict'', ''error''}) \<and>
    (\<exists>mbody members outs. stream = TarHdr ''manifest.json'' mbody # map memberItem members \<and>
       distinct (map fst members) \<and> set (map fst members) = set manifest \<and>
       storeMembers dec envs limit (auditMapFromContext a) 0 members s = (outs, s') \<and>
       (\<forall>i < length manifest. \<exists>st err. (manifest ! i, st, err) \<in> set outs \<and>
          results ! i = noteOutcome errText st err \<lparr>br_Key = bp_Key (manifest ! i), br_Status = [], br_Message = []\<rparr>))"
proof -
  obtain mbody items where b: "manifestFault 0 [] manifest = None" "length manifest \<le> maxBatchKeys" "stream = TarHdr ''manifest.json'' mbody # items"
      "batchPutBody dec envs errText order committed limit (auditMapFromContext a) manifest items s = (BatchPutDone results, s')"
    using assms(2) unfolding handleBatchPut_def by (auto split: if_splits list.splits tarItem.splits option.splits)
  have d: "distinct (map dataName manifest)" using manifestFault_None [OF b(1)] by blast
  let ?r0 = "map (\<lambda>e. \<lparr>br_Key = bp_Key e, br_Status = [], br_Message = []\<rparr>) manifest"
  obtain seen where m: "putMembers dec envs errText limit (auditMapFromContext a) manifest 0 items [] ?r0 s = (Inr (seen, results), s')"
      "filter (\<lambda>name. name \<notin> set seen) (order (map dataName manifest)) = []"
    using b(4) unfolding batchPutBody_def batchFail_def by (auto split: sum.splits prod.splits list.splits if_splits)
  have "length ?r0 = length manifest" by simp
  from putMembers_noted [OF d this m(1)] obtain ms outs where ms: "items = map memberItem ms"
      "storeMembers dec envs limit (auditMapFromContext a) 0 ms s = (outs, s')" "set (map fst ms) \<subseteq> set manifest" "distinct (map (dataName \<circ> fst) ms)"
      "set seen = set (map (dataName \<circ> fst) ms) \<union> set []" "noted errText manifest outs ?r0 results" by blast
  have "set (map dataName manifest) \<subseteq> set (map (dataName \<circ> fst) ms)"
    using m(2) assms(1) [of "map dataName manifest"] ms(5) by (auto simp: filter_empty_conv)
  from entries_covered [OF d ms(3) this] have all: "set manifest \<subseteq> set (map fst ms)" .
  have each: "\<exists>st err. (manifest ! i, st, err) \<in> set outs \<and>
      results ! i = noteOutcome errText st err \<lparr>br_Key = bp_Key (manifest ! i), br_Status = [], br_Message = []\<rparr>" if "i < length manifest" for i
  proof -
    have "manifest ! i \<in> fst ` set outs" using all that storeMembers_entries [OF ms(2)] by (metis image_set nth_mem subsetD)
    moreover have "?r0 ! i = \<lparr>br_Key = bp_Key (manifest ! i), br_Status = [], br_Message = []\<rparr>" using that by simp
    ultimately show ?thesis using ms(6) that unfolding noted_def by metis
  qed
  have len: "length results = length manifest" using ms(6) by (simp add: noted_def)
  have keys: "map br_Key results = map bp_Key manifest"
    by (rule nth_equalityI) (use len each in \<open>fastforce simp: noteOutcome_def\<close>)+
  have texts: "statusText x \<in> {''stored'', ''dropped'', ''conflict'', ''error''}" for x by (cases x) simp_all
  have "\<forall>r \<in> set results. br_Status r \<in> {''stored'', ''dropped'', ''conflict'', ''error''}"
    using each len texts by (fastforce simp: in_set_conv_nth noteOutcome_def)
  moreover have "distinct (map bp_Key manifest)" using d by (simp add: distinct_map dataName_def inj_on_def)
  moreover have "distinct (map fst ms)" using ms(4) by (metis distinct_map map_map)
  ultimately show ?thesis using keys b(2,3) ms(1-3) all each by blast
qed

lemma handleBatchPut_results_witness:
  "\<exists>results s'. handleBatchPut specDecoders (\<lambda>_. calmEnv) (\<lambda>_. []) [] rev False ''PUT'' None 9
      [TarHdr ''manifest.json'' (bytesReader []), TarHdr ''data/k'' (bytesReader [1, 2])]
      (Some [\<lparr>bp_Key = ''k'', bp_Metadata = []\<rparr>]) emptyStore = (BatchPutDone results, s') \<and>
    map br_Key results = [''k'']"
proof -
  let ?m = "[\<lparr>bp_Key = ''k'', bp_Metadata = []\<rparr>]"
  obtain st err t where o: "storeOneObject specDecoders calmEnv ''k'' (limitReader 9 (bytesReader [1, 2])) [] (cloneAudit None) emptyStore
      = ((st, err), t)" by (metis prod.exhaust)
  have f: "findEntry ''data/k'' ?m = Some (0, \<lparr>bp_Key = ''k'', bp_Metadata = []\<rparr>)"
    by (simp add: findEntry_def dataName_def)
  have "\<exists>results s'. handleBatchPut specDecoders (\<lambda>_. calmEnv) (\<lambda>_. []) [] rev False ''PUT'' None 9
      [TarHdr ''manifest.json'' (bytesReader []), TarHdr ''data/k'' (bytesReader [1, 2])] (Some ?m) emptyStore = (BatchPutDone results, s')"
    by (simp add: handleBatchPut_def maxBatchKeys_def dataName_def batchPutBody_def f o auditMapFromContext_def)
  then obtain results s' where p: "handleBatchPut specDecoders (\<lambda>_. calmEnv) (\<lambda>_. []) [] rev False ''PUT'' None 9
      [TarHdr ''manifest.json'' (bytesReader []), TarHdr ''data/k'' (bytesReader [1, 2])] (Some ?m) emptyStore = (BatchPutDone results, s')"
    by blast
  have "set (rev xs) = set xs" for xs :: "string list" by simp
  from handleBatchPut_results [OF this p] p show ?thesis by auto
qed

end
