(* ===== verification/EvictionLaws.thy ===== *)
theory EvictionLaws
  imports Eviction Batch
begin

text \<open>
  Laws of the eviction sweep (theory \<^verbatim>\<open>Eviction\<close>): it only removes files, it keeps the invariant of
  the store, and without faults it brings the objects under the size budget and spares what was used
  since the cutoff.
\<close>

section \<open>A sweep only removes files\<close>

definition sweepStep :: "decoders \<Rightarrow> string set \<Rightarrow> Storage \<Rightarrow> Storage \<Rightarrow> bool" where
  "sweepStep dec K s s' \<longleftrightarrow> guardsOk dec K s' \<and> st_dataDir s' = st_dataDir s \<and> pathOf s' = pathOf s \<and> indexKeys s' \<subseteq> indexKeys s \<and>
     (\<forall>p. lookupFile p s' = lookupFile p s \<or> lookupFile p s' = None)"

lemma sweepStep_refl: "guardsOk dec K s \<Longrightarrow> sweepStep dec K s s"
  by (simp add: sweepStep_def)

lemma sweepStep_trans: "sweepStep dec K s t \<Longrightarrow> sweepStep dec K t u \<Longrightarrow> sweepStep dec K s u"
  unfolding sweepStep_def by (metis subset_trans)

lemma noteEvicted_fields [simp]:
  "st_dataDir (noteEvicted k s) = st_dataDir s" "st_files (noteEvicted k s) = st_files s"
  "st_index (noteEvicted k s) = st_index s" "st_access (noteEvicted k s) = st_access s"
  "st_metaCache (noteEvicted k s) = st_metaCache s" "st_cleanKeys (noteEvicted k s) = st_cleanKeys s"
  "st_digestOK (noteEvicted k s) = st_digestOK s" "st_metaStrings (noteEvicted k s) = st_metaStrings s"
  by (simp_all add: noteEvicted_def Let_def split: prod.split option.split)

lemma memosOk_noteEvicted: "memosOk s \<Longrightarrow> memosOk (noteEvicted k s)"
  by (auto simp: memosOk_def noteEvicted_def Let_def lru_Put_ok [THEN conjunct1] split: prod.split option.split)

text \<open>Removing a file and forgetting memories keeps the invariant, whichever file it is.\<close>

lemma guardsOk_remove:
  assumes "guardsOk dec K s" "memosOk s'" "st_dataDir s' = st_dataDir s"
    and "st_files s' = AList.delete p (st_files s)" "st_index s' = st_index s"
    and "\<And>k. metaLookup s' k = None \<or> metaLookup s' k = metaLookup s k"
    and "\<And>h. digestLookup s' h = None \<or> digestLookup s' h = digestLookup s h"
    and "\<And>h. cleanLookup s' h = None \<or> cleanLookup s' h = cleanLookup s h"
  shows "sweepStep dec K s s'"
proof -
  have path: "pathOf s' = pathOf s" using assms(3) by (simp add: pathOf_def fun_eq_iff)
  have look: "lookupFile q s' = (if q = p then None else lookupFile q s)" for q
    by (simp add: lookupFile_def assms(4) delete_conv')
  have "metaCoherent K s'"
    using assms(1,6) look path unfolding guardsOk_def storeOk_def metaCoherent_def by (metis option.distinct(1))
  then have "storeOk K s'" using assms(1,2) path by (simp add: guardsOk_def storeOk_def)
  moreover have "inoInj s'"
    using assms(1) look unfolding guardsOk_def inoInj_def
    by (auto simp: assms(4) distinct_delete split: if_splits)
  moreover have "memoOk dec s' f h" if "k \<in> K" "extractActionHash k = (h, True)" "lookupFile (pathOf s' k) s' = Some f" for k h f
    using assms(1) that look path memoOk_mono [OF _ assms(7,8)] unfolding guardsOk_def by (metis option.distinct(1))
  ultimately have "guardsOk dec K s'" using assms(1) by (simp add: guardsOk_def)
  then show ?thesis using path look assms(3,5) by (simp add: sweepStep_def indexKeys_def)
qed

lemma evictOne_step:
  assumes "guardsOk dec K s" "evictOne env key m s = (b, s')"
  shows "sweepStep dec K s s' \<and> st_index s' = st_index s"
proof (cases b)
  case False
  then have "s' = s" using assms(2) by (auto simp: evictOne_def Let_def split: if_splits sum.splits)
  then show ?thesis using sweepStep_refl [OF assms(1)] by simp
next
  case True
  then have s': "s' = noteEvicted key (forgetMeta key (forgetClean key (forgetAccess key (dropFile (pathOf s key) s))))"
    using assms(2) by (auto simp: evictOne_def Let_def split: if_splits sum.splits)
  have m: "memosOk s" using assms(1) by (simp add: guardsOk_def storeOk_def)
  let ?t = "forgetClean key (forgetAccess key (dropFile (pathOf s key) s))"
  have m': "memosOk ?t" "memosOk (forgetAccess key (dropFile (pathOf s key) s))" using m by (simp_all add: memosOk_forgets)
  obtain hk ok where hk: "extractActionHash key = (hk, ok)" by fastforce
  have dig: "digestLookup s' = digestLookup ?t" "cleanLookup s' = cleanLookup ?t"
    by (rule memo_frame; simp add: s')+
  have "sweepStep dec K s s'"
  proof (rule guardsOk_remove [OF assms(1)])
    show "memosOk s'" unfolding s' by (intro memosOk_noteEvicted memosOk_forgets m'(1))
    show "st_dataDir s' = st_dataDir s" by (simp add: s')
    show "st_files s' = AList.delete (pathOf s key) (st_files s)" "st_index s' = st_index s" by (simp_all add: s' dropFile_def)
    have "metaLookup s' k = metaLookup (forgetMeta key ?t) k" for k by (simp add: s' metaLookup_def)
    then show "metaLookup s' k = None \<or> metaLookup s' k = metaLookup s k" for k
      by (simp add: metaLookup_forgetMeta [OF m'(1)])
    show "digestLookup s' h = None \<or> digestLookup s' h = digestLookup s h"
      "cleanLookup s' h = None \<or> cleanLookup s' h = cleanLookup s h" for h
      by (simp_all add: dig forgetClean_lookup [OF m'(2) hk])
  qed
  then show ?thesis by (simp add: s')
qed

lemma evictBatch_step:
  "guardsOk dec K s \<Longrightarrow> evictBatch env vs stats s = (stats', s') \<Longrightarrow> sweepStep dec K s s'"
proof (induction vs arbitrary: stats s)
  case Nil
  then show ?case using sweepStep_refl by simp
next
  case (Cons v vs)
  obtain b t where e: "evictOne env (compactKey_Key (ev_key v)) (ev_mtimeUnix v) s = (b, t)" by fastforce
  have t: "sweepStep dec K s t" using evictOne_step [OF Cons.prems(1) e] by blast
  then have "guardsOk dec K t" by (simp add: sweepStep_def)
  then have "sweepStep dec K t s'" using Cons.IH Cons.prems(2) e by (cases b) auto
  with t show ?case by (rule sweepStep_trans)
qed

lemma guardsOk_index: "guardsOk dec K s \<Longrightarrow> guardsOk dec K (s\<lparr>st_index := i\<rparr>)"
proof -
  assume g: "guardsOk dec K s"
  have "storeOk K (s\<lparr>st_index := i\<rparr>) = storeOk K s" by (simp add: storeOk_def metaCoherent_def inj_on_def)
  then show ?thesis using guardsOk_quiet [OF g, of "s\<lparr>st_index := i\<rparr>"] g by (simp add: guardsOk_def)
qed

lemma sweepStep_index:
  "guardsOk dec K s \<Longrightarrow> indexKeys (s\<lparr>st_index := i\<rparr>) \<subseteq> indexKeys s \<Longrightarrow> sweepStep dec K s (s\<lparr>st_index := i\<rparr>)"
  by (simp add: sweepStep_def guardsOk_index fun_eq_iff)

lemma indexKeys_RemoveKeys: "indexKeys (s\<lparr>st_index := map_option (Index_RemoveKeys ops e keys) (st_index s)\<rparr>) \<subseteq> indexKeys s"
proof -
  have "set (ix_entries (Index_RemoveKeys ops e keys i)) \<union> set (ix_pendingEntries (Index_RemoveKeys ops e keys i))
      \<subseteq> set (ix_entries i) \<union> set (ix_pendingEntries i)" for i
    by (auto simp: Index_RemoveKeys_def Let_def resetAddLogLocked_def drainEntriesLocked_def sortEntriesByMtime_def split: if_splits)
  then show ?thesis by (auto simp: indexKeys_def split: option.split)
qed

lemma flushBatch_step:
  assumes "guardsOk dec K s" "flushBatch ops env batch stats s = (stats', s')"
  shows "sweepStep dec K s s'"
proof (cases "batch = []")
  case True
  then show ?thesis using assms sweepStep_refl by (simp add: flushBatch_def)
next
  case False
  then have e: "evictBatch env batch stats (s\<lparr>st_index := map_option (Index_RemoveKeys ops (env_epoch env)
      (map (\<lambda>v. compactKey_Key (ev_key v)) batch)) (st_index s)\<rparr>) = (stats', s')"
    using assms(2) by (simp add: flushBatch_def)
  show ?thesis
    by (rule sweepStep_trans [OF sweepStep_index [OF assms(1) indexKeys_RemoveKeys] evictBatch_step [OF guardsOk_index [OF assms(1)] e]])
qed

lemma sweepWalk_step:
  "guardsOk dec K s \<Longrightarrow> sweepWalk ops env cutoff ageCutoff objs batch stats s = (stats', s') \<Longrightarrow> sweepStep dec K s s'"
proof (induction objs arbitrary: batch stats s)
  case Nil
  then show ?case using flushBatch_step by fastforce
next
  case (Cons obj objs)
  show ?case
  proof (cases "\<exists>b st. sweepWalk ops env cutoff ageCutoff objs b st s = (stats', s')")
    case True
    then show ?thesis using Cons.IH Cons.prems(1) by blast
  next
    case False
    then obtain b st t where f: "flushBatch ops env b stats s = (st, t)" "sweepWalk ops env cutoff ageCutoff objs [] st t = (stats', s')"
      using Cons.prems(2) by (auto simp: Let_def split: if_splits prod.splits)
    have t: "sweepStep dec K s t" by (rule flushBatch_step [OF Cons.prems(1) f(1)])
    then have "guardsOk dec K t" by (simp add: sweepStep_def)
    from sweepStep_trans [OF t Cons.IH [OF this f(2)]] show ?thesis .
  qed
qed

lemma pruneAccess_fields [simp]:
  "st_dataDir (pruneAccess live s) = st_dataDir s" "st_files (pruneAccess live s) = st_files s"
  "st_index (pruneAccess live s) = st_index s" "st_metaCache (pruneAccess live s) = st_metaCache s"
  "st_cleanKeys (pruneAccess live s) = st_cleanKeys s" "st_digestOK (pruneAccess live s) = st_digestOK s"
  "st_evicted (pruneAccess live s) = st_evicted s" "st_metaStrings (pruneAccess live s) = st_metaStrings s"
  by (simp_all add: pruneAccess_def)

lemma sweepStep_prune:
  assumes "guardsOk dec K s" shows "sweepStep dec K s (pruneAccess live s)"
proof -
  have m: "memosOk (pruneAccess live s) = memosOk s" by (simp add: memosOk_def)
  have p: "pathOf (pruneAccess live s) = pathOf s" by (simp add: pathOf_def fun_eq_iff)
  have l: "lookupFile q (pruneAccess live s) = lookupFile q s" for q by (simp add: lookupFile_def)
  have "storeOk K (pruneAccess live s)"
    using assms m p l by (simp add: guardsOk_def storeOk_def metaCoherent_def metaLookup_def)
  then have "guardsOk dec K (pruneAccess live s)"
    using guardsOk_quiet [OF assms] by (simp add: digestLookup_def cleanLookup_def)
  then show ?thesis using p l by (simp add: sweepStep_def indexKeys_def)
qed

text \<open>A sweep removes objects; then it keeps the index or rebuilds it by a walk.\<close>

lemma Evict_step:
  assumes "guardsOk dec K s" "Evict ops env maxAge maxBytes s = (stats, s')"
  obtains u where "sweepStep dec K s u" "s' = u \<or> s' = rebuildIndex env u"
proof -
  define scan where "scan = scanForEviction (maxBytes > 0) s"
  define st0 where "st0 = \<lparr>es_Scanned = sc_scanned scan, es_EvictedAge = 0, es_EvictedSize = 0, es_BytesFreed = 0, es_BytesTotal = sc_totalBytes scan\<rparr>"
  define age where "age = (if maxAge > 0 then unixSec (env_now env) - maxAge sdiv 1000000000 else 0)"
  define cut where "cut = max age (sizeCutoff scan maxBytes)"
  obtain st1 t where t: "(if cut > 0 then sweepBelow ops env cut age st0 s else (st0, s)) = (st1, t)" by fastforce
  let ?u = "pruneAccess (\<lambda>ck. case sc_live scan of None \<Rightarrow> False | Some l \<Rightarrow> ck \<in> l) t"
  have s': "s' = ?u \<or> s' = rebuildIndex env ?u"
    using assms(2) t unfolding Evict_def Let_def scan_def [symmetric] st0_def [symmetric] age_def [symmetric]
    unfolding cut_def [symmetric] by (auto split: if_splits)
  have 1: "sweepStep dec K s t"
    using t sweepWalk_step [OF assms(1)] sweepStep_refl [OF assms(1)] by (auto simp: sweepBelow_def split: if_splits)
  then have "sweepStep dec K t ?u" by (intro sweepStep_prune) (simp add: sweepStep_def)
  from that [OF sweepStep_trans [OF 1 this] s'] show thesis .
qed

section \<open>The cutoff frees enough\<close>

definition walkBytes :: "Storage \<Rightarrow> int" where
  "walkBytes s = sum_list (map lob_Size (Walk s))"

text \<open>The last use of an object, as both walks compute it.\<close>

definition usedAt :: "Storage \<Rightarrow> ListObject \<Rightarrow> int" where
  "usedAt s obj = lastUsedUnix obj (memAccessOf (newCompactKey (lob_Key obj)) s)"

definition bucketOf :: "Storage \<Rightarrow> ListObject \<Rightarrow> int" where
  "bucketOf s obj = usedAt s obj sdiv evictionBucketSeconds"

lemma keys_update: "fst ` set (AList.update k v xs) = insert k (fst ` set xs)"
  using dom_update [of k v xs] by (simp add: dom_map_of_conv_image_fst)

lemma foldl_scanOne:
  "foldl (scanOne s h) sc objs = sc' \<Longrightarrow>
   sc_totalBytes sc' = sc_totalBytes sc + sum_list (map lob_Size objs) \<and>
   (h \<longrightarrow> bucketGet (sc_byBucket sc') b = bucketGet (sc_byBucket sc) b + sum_list (map lob_Size (filter (\<lambda>o'. bucketOf s o' = b) objs))) \<and>
   (h \<longrightarrow> fst ` set (sc_byBucket sc') = fst ` set (sc_byBucket sc) \<union> bucketOf s ` set objs) \<and>
   (distinct (map fst (sc_byBucket sc)) \<longrightarrow> distinct (map fst (sc_byBucket sc')))"
proof (induction objs arbitrary: sc)
  case (Cons obj objs)
  let ?t = "scanOne s h sc obj"
  have f: "sc_totalBytes ?t = sc_totalBytes sc + lob_Size obj"
    "h \<Longrightarrow> sc_byBucket ?t = AList.update (bucketOf s obj) (bucketGet (sc_byBucket sc) (bucketOf s obj) + lob_Size obj) (sc_byBucket sc)"
    "\<not> h \<Longrightarrow> sc_byBucket ?t = sc_byBucket sc"
    by (simp_all add: scanOne_def Let_def bucketOf_def usedAt_def)
  show ?case using Cons.IH [of ?t] Cons.prems f
    by (cases h) (auto simp: bucketGet_def update_conv' distinct_update keys_update)
qed simp

lemma sum_by_bucket:
  assumes "finite S"
  shows "(\<Sum>b \<in> S. sum_list (map f (filter (\<lambda>o'. g o' = b) os))) = (sum_list (map f (filter (\<lambda>o'. g o' \<in> S) os)) :: int)"
proof (induction os)
  case (Cons a os)
  have "(\<Sum>b \<in> S. sum_list (map f (filter (\<lambda>o'. g o' = b) (a # os))))
      = (\<Sum>b \<in> S. (if g a = b then f a else 0) + sum_list (map f (filter (\<lambda>o'. g o' = b) os)))"
    by (rule sum.cong) auto
  then show ?case using Cons assms by (simp add: sum.distrib)
qed simp

lemma cutoffLoop_spec:
  assumes "sorted bs" "distinct bs"
  shows "case cutoffLoop m need freed bs of
      Some c \<Rightarrow> \<exists>b \<in> set bs. c = (b + 1) * evictionBucketSeconds \<and> freed + (\<Sum>x \<in> {x \<in> set bs. x \<le> b}. bucketGet m x) \<ge> need
    | None \<Rightarrow> bs = [] \<or> freed + (\<Sum>x \<in> set bs. bucketGet m x) < need"
  using assms
proof (induction bs arbitrary: freed)
  case (Cons b bs)
  let ?f = "freed + bucketGet m b"
  have nb: "b \<notin> set bs" "\<forall>x \<in> set bs. b < x" using Cons.prems by (auto simp: less_le)
  show ?case
  proof (cases "?f \<ge> need")
    case True
    have "{x. (x = b \<or> x \<in> set bs) \<and> x \<le> b} = {b}" using nb by auto
    then show ?thesis using True by (auto simp: Let_def)
  next
    case False
    then have step: "cutoffLoop m need freed (b # bs) = cutoffLoop m need ?f bs" by (simp add: Let_def)
    have IH: "case cutoffLoop m need ?f bs of
      Some c \<Rightarrow> \<exists>b \<in> set bs. c = (b + 1) * evictionBucketSeconds \<and> ?f + (\<Sum>x \<in> {x \<in> set bs. x \<le> b}. bucketGet m x) \<ge> need
    | None \<Rightarrow> bs = [] \<or> ?f + (\<Sum>x \<in> set bs. bucketGet m x) < need" using Cons by simp
    show ?thesis
    proof (cases "cutoffLoop m need ?f bs")
      case None
      then show ?thesis using IH False nb unfolding step by (auto simp: add.assoc)
    next
      case (Some c)
      then obtain b' where b': "b' \<in> set bs" "c = (b' + 1) * evictionBucketSeconds"
          "?f + (\<Sum>x \<in> {x \<in> set bs. x \<le> b'}. bucketGet m x) \<ge> need" using IH by auto
      have "{x \<in> set (b # bs). x \<le> b'} = insert b {x \<in> set bs. x \<le> b'}" using b'(1) nb by auto
      then have "(\<Sum>x \<in> {x \<in> set (b # bs). x \<le> b'}. bucketGet m x) = bucketGet m b + (\<Sum>x \<in> {x \<in> set bs. x \<le> b'}. bucketGet m x)"
        using nb(1) by simp
      then show ?thesis unfolding step using Some b' by (auto intro!: bexI [of _ b'])
    qed
  qed
qed simp

lemma sdiv_pos: "0 \<le> a \<Longrightarrow> a sdiv 600 = a div (600 :: int)"
  by (cases "a = 0") (simp_all add: signed_divide_int_def)

lemma sum_list_mono_filter:
  assumes "\<And>o'. o' \<in> set os \<Longrightarrow> P o' \<Longrightarrow> Q o'" "\<And>o'. o' \<in> set os \<Longrightarrow> 0 \<le> (f o' :: int)"
  shows "sum_list (map f (filter P os)) \<le> sum_list (map f (filter Q os))"
  using assms by (induction os) (auto intro: add_increasing)

lemma lob_Size_nonneg: "obj \<in> set (Walk s) \<Longrightarrow> 0 \<le> lob_Size obj"
  by (auto simp: Walk_def List.map_filter_def walkOne_def Let_def split: if_splits)

lemma sizeCutoff_frees:
  fixes s :: Storage and maxBytes :: int
  assumes "0 < maxBytes" "\<And>obj. obj \<in> set (Walk s) \<Longrightarrow> 0 \<le> usedAt s obj"
  defines "c \<equiv> sizeCutoff (scanForEviction True s) maxBytes"
  shows "walkBytes s \<le> maxBytes \<or>
    0 < c \<and> walkBytes s - maxBytes \<le> sum_list (map lob_Size (filter (\<lambda>obj. usedAt s obj < c) (Walk s)))"
proof (cases "walkBytes s \<le> maxBytes")
  case False
  define sc where "sc = scanForEviction True s"
  define bs where "bs = sort (map fst (sc_byBucket sc))"
  note fo = foldl_scanOne [OF sc_def [unfolded scanForEviction_def, symmetric], simplified]
  have tot: "sc_totalBytes sc = walkBytes s" using fo by (simp add: walkBytes_def)
  have bk: "bucketGet (sc_byBucket sc) b = sum_list (map lob_Size (filter (\<lambda>o'. bucketOf s o' = b) (Walk s)))" for b
    using fo by (simp add: bucketGet_def)
  have sb: "set bs = bucketOf s ` set (Walk s)" "sorted bs" "distinct bs"
    using fo by (simp_all add: bs_def)
  have all: "(\<Sum>x \<in> S. bucketGet (sc_byBucket sc) x) = sum_list (map lob_Size (filter (\<lambda>o'. bucketOf s o' \<in> S) (Walk s)))"
    if "finite S" for S using sum_by_bucket [OF that] by (simp add: bk)
  have full: "(\<Sum>x \<in> set bs. bucketGet (sc_byBucket sc) x) = walkBytes s"
    using all [of "set bs"] sb(1) by (simp add: walkBytes_def cong: filter_cong)
  have ne: "bs \<noteq> []" using False assms(1) sb(1) by (auto simp: walkBytes_def)
  note cl = cutoffLoop_spec [OF sb(2,3), where m = "sc_byBucket sc" and need = "walkBytes s - maxBytes" and freed = 0]
  obtain c' where c': "cutoffLoop (sc_byBucket sc) (walkBytes s - maxBytes) 0 bs = Some c'"
    using cl ne full assms(1) by (cases "cutoffLoop (sc_byBucket sc) (walkBytes s - maxBytes) 0 bs") auto
  then have cc: "c = c'"
    using False assms(1) unfolding c_def sc_def [symmetric] sizeCutoff_def tot Let_def bs_def [symmetric] by simp
  from cl c' obtain b where b: "b \<in> set bs" "c = (b + 1) * evictionBucketSeconds"
      "walkBytes s - maxBytes \<le> (\<Sum>x \<in> {x \<in> set bs. x \<le> b}. bucketGet (sc_byBucket sc) x)" by (auto simp: cc)
  have nn: "0 \<le> bucketOf s obj" "usedAt s obj < (bucketOf s obj + 1) * 600" if "obj \<in> set (Walk s)" for obj
    using assms(2) [OF that] by (simp_all add: bucketOf_def evictionBucketSeconds_def sdiv_pos)
  have "walkBytes s - maxBytes \<le> sum_list (map lob_Size (filter (\<lambda>o'. bucketOf s o' \<in> {x \<in> set bs. x \<le> b}) (Walk s)))"
    using b(3) all [of "{x \<in> set bs. x \<le> b}"] by simp
  also have "\<dots> \<le> sum_list (map lob_Size (filter (\<lambda>obj. usedAt s obj < c) (Walk s)))"
  proof (rule sum_list_mono_filter)
    fix o' assume o: "o' \<in> set (Walk s)" "bucketOf s o' \<in> {x \<in> set bs. x \<le> b}"
    then have "(bucketOf s o' + 1) * 600 \<le> (b + 1) * 600" by simp
    then show "usedAt s o' < c" using nn(2) [OF o(1)] b(2) by (simp add: evictionBucketSeconds_def)
  qed (rule lob_Size_nonneg)
  finally have "walkBytes s - maxBytes \<le> sum_list (map lob_Size (filter (\<lambda>obj. usedAt s obj < c) (Walk s)))" .
  moreover have "0 \<le> b" using b(1) nn(1) sb(1) by auto
  ultimately show ?thesis using b(2) by (simp add: evictionBucketSeconds_def)
qed simp

section \<open>Without faults every victim goes\<close>

definition removable :: "sysEnv \<Rightarrow> bool" where
  "removable env \<longleftrightarrow> env_fault env SysStat = None \<and> env_fault env SysRemove = None"

text \<open>A victim whose key is exact and whose file is the one the walk saw.\<close>

definition victimFor :: "Storage \<Rightarrow> evictionVictim \<Rightarrow> bool" where
  "victimFor s v \<longleftrightarrow> newCompactKey (compactKey_Key (ev_key v)) = ev_key v \<and>
     (\<exists>f. lookupFile (pathOf s (compactKey_Key (ev_key v))) s = Some f \<and> ev_mtimeUnix v = unixSec (f_mtime f))"

abbreviation victimPath :: "Storage \<Rightarrow> evictionVictim \<Rightarrow> string" where
  "victimPath s v \<equiv> pathOf s (compactKey_Key (ev_key v))"

lemma memAccessOf_forget:
  "ck \<noteq> newCompactKey key \<Longrightarrow> memAccessOf ck (forgetAccess key s) = memAccessOf ck s"
  by (cases "accessShardFor (newCompactKey key) < length (st_access s)")
    (auto simp: memAccessOf_def lastAccessOf_def forgetAccess_def Let_def nth_list_update list_update_beyond)

lemma memAccessOf_cong: "st_access s = st_access t \<Longrightarrow> memAccessOf ck s = memAccessOf ck t"
  by (simp add: memAccessOf_def lastAccessOf_def)

lemma evictOne_removes:
  assumes "removable env" "victimFor s v" "evictOne env (compactKey_Key (ev_key v)) (ev_mtimeUnix v) s = (b, s')"
  shows "b \<and> st_files s' = filter (\<lambda>pf. fst pf \<noteq> victimPath s v) (st_files s) \<and> st_dataDir s' = st_dataDir s \<and>
    (\<forall>ck. ck \<noteq> ev_key v \<longrightarrow> memAccessOf ck s' = memAccessOf ck s)"
proof -
  let ?k = "compactKey_Key (ev_key v)"
  from assms(2) obtain f where f: "newCompactKey ?k = ev_key v" "lookupFile (pathOf s ?k) s = Some f" "ev_mtimeUnix v = unixSec (f_mtime f)"
    by (auto simp: victimFor_def)
  have "evictOne env ?k (ev_mtimeUnix v) s
      = (True, noteEvicted ?k (forgetMeta ?k (forgetClean ?k (forgetAccess ?k (dropFile (pathOf s ?k) s)))))"
    using assms(1) f by (simp add: evictOne_def osOpen_def removable_def Let_def)
  then have b: "b" "s' = noteEvicted ?k (forgetMeta ?k (forgetClean ?k (forgetAccess ?k (dropFile (pathOf s ?k) s))))"
    using assms(3) by simp_all
  have "memAccessOf ck s' = memAccessOf ck (forgetAccess ?k (dropFile (pathOf s ?k) s))" for ck
    by (rule memAccessOf_cong) (simp add: b(2))
  moreover have "memAccessOf ck (dropFile (pathOf s ?k) s) = memAccessOf ck s" for ck by (rule memAccessOf_cong) simp
  ultimately have "ck \<noteq> ev_key v \<Longrightarrow> memAccessOf ck s' = memAccessOf ck s" for ck
    using memAccessOf_forget [of ck ?k] f(1) by simp
  moreover have "st_files s' = filter (\<lambda>pf. fst pf \<noteq> victimPath s v) (st_files s)"
    by (simp add: b(2) dropFile_def AList.delete_eq case_prod_unfold) (metis)
  ultimately show ?thesis using b(1) by (simp add: b(2))
qed

lemma map_of_keep: "q \<notin> P \<Longrightarrow> map_of (filter (\<lambda>pf. fst pf \<notin> P) xs) q = map_of xs q"
  by (induction xs) auto

lemma victimFor_keep:
  assumes "victimFor s w" "st_dataDir s' = st_dataDir s" "st_files s' = filter (\<lambda>pf. fst pf \<notin> P) (st_files s)" "victimPath s w \<notin> P"
  shows "victimFor s' w"
proof -
  have "lookupFile q s' = lookupFile q s" if "q \<notin> P" for q
    using that by (simp add: lookupFile_def assms(3) map_of_keep)
  then show ?thesis using assms by (simp add: victimFor_def pathOf_def)
qed

text \<open>What removing the victims of a list leaves, and what the statistics count.\<close>

definition removesAll :: "string set \<Rightarrow> compactKey set \<Rightarrow> int \<Rightarrow> EvictStats \<Rightarrow> Storage \<Rightarrow> EvictStats \<Rightarrow> Storage \<Rightarrow> bool" where
  "removesAll P C n stats s stats' s' \<longleftrightarrow> st_files s' = filter (\<lambda>pf. fst pf \<notin> P) (st_files s) \<and> st_dataDir s' = st_dataDir s \<and>
     (\<forall>ck. ck \<notin> C \<longrightarrow> memAccessOf ck s' = memAccessOf ck s) \<and>
     es_BytesFreed stats' = es_BytesFreed stats + n \<and> es_BytesTotal stats' = es_BytesTotal stats"

lemma removesAll_trans:
  assumes "removesAll P C n st s st' s'" "removesAll P' C' n' st' s' st'' s''"
  shows "removesAll (P \<union> P') (C \<union> C') (n + n') st s st'' s''"
  using assms by (auto simp: removesAll_def intro!: filter_cong)

lemma evictBatch_removes:
  assumes "removable env" "\<forall>v \<in> set vs. victimFor s v" "distinct (map (victimPath s) vs)" "evictBatch env vs stats s = (stats', s')"
  shows "removesAll (victimPath s ` set vs) (ev_key ` set vs) (sum_list (map ev_size vs)) stats s stats' s'"
  using assms(2-4)
proof (induction vs arbitrary: stats s)
  case Nil
  then show ?case by (simp add: removesAll_def)
next
  case (Cons v vs)
  obtain b t where e: "evictOne env (compactKey_Key (ev_key v)) (ev_mtimeUnix v) s = (b, t)" by fastforce
  note ev = evictOne_removes [OF assms(1) _ e]
  let ?st = "(if ev_byAge v then stats\<lparr>es_EvictedAge := es_EvictedAge stats + 1\<rparr>
             else stats\<lparr>es_EvictedSize := es_EvictedSize stats + 1\<rparr>)\<lparr>es_BytesFreed := es_BytesFreed stats + ev_size v\<rparr>"
  have one: "removesAll {victimPath s v} {ev_key v} (ev_size v) stats s ?st t"
    using ev Cons.prems(1) by (simp add: removesAll_def)
  have path: "pathOf t = pathOf s" using ev Cons.prems(1) by (simp add: pathOf_def fun_eq_iff)
  have "\<forall>w \<in> set vs. victimFor t w"
    using one Cons.prems(1,2) victimFor_keep [of s _ t "{victimPath s v}"] by (auto simp: removesAll_def image_iff)
  then have "removesAll (victimPath t ` set vs) (ev_key ` set vs) (sum_list (map ev_size vs)) ?st t stats' s'"
    using Cons.IH [of t ?st] Cons.prems(2,3) ev Cons.prems(1) e by (simp add: path)
  from removesAll_trans [OF one this] show ?case by (simp add: path)
qed

lemma flushBatch_removes:
  assumes "removable env" "\<forall>v \<in> set vs. victimFor s v" "distinct (map (victimPath s) vs)" "flushBatch ops env vs stats s = (stats', s')"
  shows "removesAll (victimPath s ` set vs) (ev_key ` set vs) (sum_list (map ev_size vs)) stats s stats' s'"
proof (cases "vs = []")
  case True
  then show ?thesis using assms(4) by (simp add: flushBatch_def removesAll_def)
next
  case False
  define t where "t = s\<lparr>st_index := map_option (Index_RemoveKeys ops (env_epoch env)
      (map (\<lambda>v. compactKey_Key (ev_key v)) vs)) (st_index s)\<rparr>"
  have e: "evictBatch env vs stats t = (stats', s')" using False assms(4) by (simp add: flushBatch_def t_def)
  have t: "pathOf t = pathOf s" "st_files t = st_files s" "st_dataDir t = st_dataDir s" "st_access t = st_access s"
    by (simp_all add: t_def fun_eq_iff)
  have "victimFor t v = victimFor s v" for v using t(1,2) by (simp add: victimFor_def lookupFile_def)
  then have "removesAll (victimPath t ` set vs) (ev_key ` set vs) (sum_list (map ev_size vs)) stats t stats' s'"
    using evictBatch_removes [OF assms(1) _ _ e] assms(2,3) t(1) by simp
  then show ?thesis using t memAccessOf_cong [OF t(4)] by (simp add: removesAll_def)
qed

text \<open>An object the walk reports: its key is exact and names the file seen.\<close>

definition objFor :: "Storage \<Rightarrow> ListObject \<Rightarrow> bool" where
  "objFor s obj \<longleftrightarrow> canonicalKey (lob_Key obj) \<and>
     (\<exists>f. lookupFile (pathOf s (lob_Key obj)) s = Some f \<and> lob_LastModified obj = f_mtime f)"

abbreviation objPath :: "Storage \<Rightarrow> ListObject \<Rightarrow> string" where
  "objPath s obj \<equiv> pathOf s (lob_Key obj)"

definition victimOf :: "Storage \<Rightarrow> int \<Rightarrow> ListObject \<Rightarrow> evictionVictim" where
  "victimOf s ageCutoff obj = \<lparr>ev_key = newCompactKey (lob_Key obj), ev_size = lob_Size obj,
     ev_mtimeUnix = unixSec (lob_LastModified obj), ev_byAge = (ageCutoff > 0 \<and> usedAt s obj < ageCutoff)\<rparr>"

lemma victimOf_fields [simp]:
  "ev_key (victimOf s a obj) = newCompactKey (lob_Key obj)" "ev_size (victimOf s a obj) = lob_Size obj"
  "ev_mtimeUnix (victimOf s a obj) = unixSec (lob_LastModified obj)"
  by (simp_all add: victimOf_def)

lemma victimFor_victimOf:
  assumes "objFor s obj" shows "victimFor s (victimOf s a obj)" "victimPath s (victimOf s a obj) = objPath s obj"
  using assms by (auto simp: objFor_def victimFor_def canonicalKey_def)

lemma objFor_keep:
  assumes "removesAll P C n st s st' t" "objFor s obj" "objPath s obj \<notin> P" "newCompactKey (lob_Key obj) \<notin> C"
  shows "objFor t obj" "usedAt t obj = usedAt s obj" "pathOf t = pathOf s"
proof -
  show p: "pathOf t = pathOf s" using assms(1) by (simp add: removesAll_def pathOf_def fun_eq_iff)
  have "lookupFile (objPath s obj) t = lookupFile (objPath s obj) s"
    using assms(1,3) by (simp add: removesAll_def lookupFile_def map_of_keep)
  then show "objFor t obj" using assms(2) p by (simp add: objFor_def)
  show "usedAt t obj = usedAt s obj" using assms(1,4) by (simp add: removesAll_def usedAt_def)
qed

lemma key_of_batch:
  assumes "canonicalKey (lob_Key obj)" "objPath s obj \<notin> victimPath s ` set batch"
  shows "newCompactKey (lob_Key obj) \<notin> ev_key ` set batch"
proof
  assume "newCompactKey (lob_Key obj) \<in> ev_key ` set batch"
  then obtain v where "v \<in> set batch" "ev_key v = newCompactKey (lob_Key obj)" by auto
  then have "victimPath s v = objPath s obj" "v \<in> set batch" using assms(1) by (simp_all add: canonicalKey_def)
  then show False using assms(2) by force
qed

text \<open>The sweep removes the batch it holds and the objects last used before the cutoff.\<close>

definition sweptPaths :: "Storage \<Rightarrow> int \<Rightarrow> ListObject list \<Rightarrow> string set" where
  "sweptPaths s cutoff objs = objPath s ` {obj \<in> set objs. usedAt s obj < cutoff}"

definition sweptBytes :: "Storage \<Rightarrow> int \<Rightarrow> ListObject list \<Rightarrow> int" where
  "sweptBytes s cutoff objs = sum_list (map lob_Size (filter (\<lambda>obj. usedAt s obj < cutoff) objs))"

lemma swept_simps:
  "sweptPaths s c [] = {}" "sweptBytes s c [] = 0"
  "sweptPaths s c (obj # objs) = (if usedAt s obj < c then insert (objPath s obj) (sweptPaths s c objs) else sweptPaths s c objs)"
  "sweptBytes s c (obj # objs) = (if usedAt s obj < c then lob_Size obj else 0) + sweptBytes s c objs"
  by (auto simp: sweptPaths_def sweptBytes_def)

lemma swept_cong:
  assumes "\<And>obj. obj \<in> set objs \<Longrightarrow> usedAt t obj = usedAt s obj" "pathOf t = pathOf s"
  shows "sweptPaths t c objs = sweptPaths s c objs" "sweptBytes t c objs = sweptBytes s c objs"
  using assms by (auto simp: sweptPaths_def sweptBytes_def intro!: arg_cong [where f = sum_list] map_cong filter_cong)

lemma sweepWalk_removes:
  assumes env: "removable env"
  shows "\<forall>v \<in> set batch. victimFor s v \<Longrightarrow> \<forall>obj \<in> set objs. objFor s obj \<Longrightarrow>
    distinct (map (victimPath s) batch @ map (objPath s) objs) \<Longrightarrow> sweepWalk ops env c a objs batch stats s = (stats', s') \<Longrightarrow>
    \<exists>C. removesAll (victimPath s ` set batch \<union> sweptPaths s c objs) C (sum_list (map ev_size batch) + sweptBytes s c objs) stats s stats' s'"
proof (induction objs arbitrary: batch stats s)
  case Nil
  then show ?case using flushBatch_removes [OF env, of batch s ops stats stats' s'] by (auto simp: swept_simps)
next
  case (Cons obj objs)
  let ?v = "victimOf s a obj" let ?b = "batch @ [?v]"
  have v: "victimFor s ?v" "victimPath s ?v = objPath s obj" using victimFor_victimOf Cons.prems(2) by auto
  have b: "\<forall>w \<in> set ?b. victimFor s w" "distinct (map (victimPath s) ?b @ map (objPath s) objs)"
    using Cons.prems(1,3) v by auto
  have split: "victimPath s ` set ?b = insert (objPath s obj) (victimPath s ` set batch)"
    "sum_list (map ev_size ?b) = sum_list (map ev_size batch) + lob_Size obj" using v by auto
  have p: "\<forall>obj \<in> set objs. objFor s obj" using Cons.prems(2) by simp
  consider (keep) "\<not> usedAt s obj < c" "sweepWalk ops env c a objs batch stats s = (stats', s')"
    | (add) "usedAt s obj < c" "sweepWalk ops env c a objs ?b stats s = (stats', s')"
    | (flush) st t where "usedAt s obj < c" "flushBatch ops env ?b stats s = (st, t)" "sweepWalk ops env c a objs [] st t = (stats', s')"
    using Cons.prems(4) by (auto simp: Let_def usedAt_def [symmetric] victimOf_def [symmetric] split: if_splits prod.splits)
  then show ?case
  proof cases
    case keep
    then show ?thesis using Cons.IH [OF Cons.prems(1) p _ keep(2)] Cons.prems(3) by (simp add: swept_simps)
  next
    case add
    from Cons.IH [OF b(1) p b(2) add(2)] show ?thesis
      using add(1) unfolding split by (simp add: swept_simps insert_commute add.assoc)
  next
    case flush
    have db: "distinct (map (victimPath s) ?b)" using b(2) by (simp only: distinct_append)
    note fl = flushBatch_removes [OF env b(1) db flush(2)]
    have "set (map (victimPath s) ?b) \<inter> set (map (objPath s) objs) = {}" using b(2) by (simp only: distinct_append)
    then have out: "objPath s o' \<notin> victimPath s ` set ?b" "canonicalKey (lob_Key o')" if "o' \<in> set objs" for o'
      using p that by (force simp only: set_map, simp add: objFor_def)
    note kp = objFor_keep [OF fl bspec [OF p] out(1) key_of_batch [OF out(2,1)]]
    have pt: "pathOf t = pathOf s" using fl by (simp add: removesAll_def pathOf_def fun_eq_iff)
    have "\<forall>o' \<in> set objs. objFor t o'" "distinct (map (victimPath t) [] @ map (objPath t) objs)"
      using kp(1) b(2) by (simp_all add: pt)
    from Cons.IH [OF _ this flush(3)] obtain C where
      "removesAll (sweptPaths t c objs) C (sweptBytes t c objs) st t stats' s'" by auto
    then have "removesAll (sweptPaths s c objs) C (sweptBytes s c objs) st t stats' s'"
      using swept_cong [OF kp(2) pt] by simp
    from removesAll_trans [OF fl this] show ?thesis
      using flush(1) unfolding split by (auto simp: swept_simps add.assoc)
  qed
qed

section \<open>What a sweep leaves\<close>

text \<open>A store whose files the sweep can name: the key the walk reports for a file is exact and leads
  back to it, and no file is dated before 1970.\<close>

definition sweepable :: "Storage \<Rightarrow> bool" where
  "sweepable s \<longleftrightarrow> distinct (map fst (st_files s)) \<and>
     (\<forall>x \<in> set (st_files s). \<forall>obj. walkOne s x = Some obj \<longrightarrow>
        canonicalKey (lob_Key obj) \<and> objPath s obj = fst x \<and> 0 \<le> f_mtime (snd x))"

lemma walkOne_fields:
  "walkOne s x = Some obj \<Longrightarrow> lob_LastModified obj = f_mtime (snd x) \<and> lob_LastAccess obj = f_atime (snd x)"
  by (auto simp: walkOne_def Let_def split: if_splits)

lemma sweepable_walk:
  assumes "sweepable s" "obj \<in> set (Walk s)" shows "objFor s obj" "0 \<le> usedAt s obj"
proof -
  obtain x where x: "x \<in> set (st_files s)" "walkOne s x = Some obj"
    using assms(2) by (auto simp: Walk_def List.map_filter_def)
  then have k: "canonicalKey (lob_Key obj)" "objPath s obj = fst x" "0 \<le> f_mtime (snd x)" using assms(1) unfolding sweepable_def by blast+
  have "lookupFile (fst x) s = Some (snd x)" using assms(1) x(1) by (simp add: lookupFile_def sweepable_def)
  then show "objFor s obj" using k walkOne_fields [OF x(2)] by (simp add: objFor_def)
  have "0 \<le> unixSec (lob_LastModified obj)" using k(3) walkOne_fields [OF x(2)] by (simp add: unixSec_def)
  then show "0 \<le> usedAt s obj" by (auto simp: usedAt_def lastUsedUnix_def Let_def split: option.splits)
qed

lemma distinct_map_filtered:
  "distinct (map fst xs) \<Longrightarrow> \<forall>x \<in> set xs. \<forall>y. g x = Some y \<longrightarrow> h y = fst x \<Longrightarrow>
   distinct (map h (List.map_filter g xs)) \<and> h ` set (List.map_filter g xs) \<subseteq> fst ` set xs"
  by (induction xs) (auto simp: List.map_filter_simps split: option.splits)

lemma map_filter_filter:
  assumes "\<And>x y. x \<in> set xs \<Longrightarrow> g x = Some y \<Longrightarrow> Q x \<longleftrightarrow> R y"
  shows "List.map_filter g (filter Q xs) = filter R (List.map_filter g xs)"
  using assms by (induction xs) (auto simp: List.map_filter_simps split: option.splits)

lemma Walk_removed:
  assumes "sweepable s" "st_files s' = filter (\<lambda>pf. fst pf \<notin> P) (st_files s)" "st_dataDir s' = st_dataDir s"
  shows "Walk s' = filter (\<lambda>obj. objPath s obj \<notin> P) (Walk s)"
proof -
  have "walkOne s' x = walkOne s x" if "fst x \<notin> P" for x
  proof -
    have "lookupFile (fst x) s' = lookupFile (fst x) s" using that by (simp add: lookupFile_def assms(2) map_of_keep)
    then show ?thesis by (simp add: walkOne_def pathToKey_def assms(3) Let_def)
  qed
  then have "Walk s' = List.map_filter (walkOne s) (filter (\<lambda>pf. fst pf \<notin> P) (st_files s))"
    unfolding Walk_def assms(2) List.map_filter_def by (intro map_cong filter_cong) auto
  also have "\<dots> = filter (\<lambda>obj. objPath s obj \<notin> P) (Walk s)"
    unfolding Walk_def using assms(1) by (intro map_filter_filter) (simp add: sweepable_def)
  finally show ?thesis .
qed

lemma Walk_swept:
  assumes "sweepable s"
  shows "filter (\<lambda>obj. objPath s obj \<notin> sweptPaths s c (Walk s)) (Walk s) = filter (\<lambda>obj. c \<le> usedAt s obj) (Walk s)"
proof (rule filter_cong [OF refl])
  fix obj assume o: "obj \<in> set (Walk s)"
  have "distinct (map (objPath s) (Walk s))"
    using distinct_map_filtered [of "st_files s" "walkOne s" "objPath s"] assms by (simp add: Walk_def sweepable_def)
  then have "inj_on (objPath s) (set (Walk s))" by (simp add: distinct_map)
  from inj_on_image_mem_iff [OF this o, of "{o' \<in> set (Walk s). usedAt s o' < c}"]
  show "(objPath s obj \<notin> sweptPaths s c (Walk s)) = (c \<le> usedAt s obj)"
    using o unfolding sweptPaths_def by (simp add: not_less Collect_restrict)
qed

lemma sum_list_filter_split: "sum_list (map f (filter P xs)) + sum_list (map f (filter (\<lambda>x. \<not> P x) xs)) = (sum_list (map f xs) :: int)"
  by (induction xs) auto

lemma sweepBelow_leaves:
  assumes "sweepable s" "removable env" "sweepBelow ops env c a stats s = (stats', s')"
  shows "Walk s' = filter (\<lambda>obj. c \<le> usedAt s obj) (Walk s)" "es_BytesTotal stats' = es_BytesTotal stats"
    "es_BytesFreed stats' = es_BytesFreed stats + sweptBytes s c (Walk s)" "st_files s' = filter (\<lambda>pf. fst pf \<notin> sweptPaths s c (Walk s)) (st_files s)"
    "st_dataDir s' = st_dataDir s"
proof -
  have "distinct (map (victimPath s) [] @ map (objPath s) (Walk s))"
    using distinct_map_filtered [of "st_files s" "walkOne s" "objPath s"] assms(1) by (simp add: Walk_def sweepable_def)
  from sweepWalk_removes [OF assms(2) _ _ this assms(3) [unfolded sweepBelow_def]] sweepable_walk(1) [OF assms(1)]
  obtain C where r: "removesAll (sweptPaths s c (Walk s)) C (sweptBytes s c (Walk s)) stats s stats' s'" by auto
  then show f: "st_files s' = filter (\<lambda>pf. fst pf \<notin> sweptPaths s c (Walk s)) (st_files s)" "st_dataDir s' = st_dataDir s"
    "es_BytesTotal stats' = es_BytesTotal stats" "es_BytesFreed stats' = es_BytesFreed stats + sweptBytes s c (Walk s)"
    by (simp_all add: removesAll_def)
  show "Walk s' = filter (\<lambda>obj. c \<le> usedAt s obj) (Walk s)"
    using Walk_removed [OF assms(1) f(1,2)] Walk_swept [OF assms(1)] by simp
qed

lemma Walk_cong:
  assumes "st_files t = st_files s" "st_dataDir t = st_dataDir s" shows "Walk t = Walk s"
  unfolding Walk_def walkOne_def [abs_def] lookupFile_def assms by (rule refl)

text \<open>The cutoff a sweep works with.\<close>

definition sweepCutoff :: "sysEnv \<Rightarrow> int \<Rightarrow> int \<Rightarrow> Storage \<Rightarrow> int" where
  "sweepCutoff env maxAge maxBytes s =
    max (if maxAge > 0 then unixSec (env_now env) - maxAge sdiv 1000000000 else 0) (sizeCutoff (scanForEviction (maxBytes > 0) s) maxBytes)"

lemma Evict_leaves:
  assumes "sweepable s" "removable env" "Evict ops env maxAge maxBytes s = (stats, s')"
  defines "c \<equiv> sweepCutoff env maxAge maxBytes s"
  shows "Walk s' = filter (\<lambda>obj. c \<le> usedAt s obj) (Walk s)" "es_BytesTotal stats = walkBytes s"
    "es_BytesFreed stats = sweptBytes s c (Walk s)"
proof -
  define scan where "scan = scanForEviction (maxBytes > 0) s"
  define st0 where "st0 = \<lparr>es_Scanned = sc_scanned scan, es_EvictedAge = 0, es_EvictedSize = 0, es_BytesFreed = 0, es_BytesTotal = sc_totalBytes scan\<rparr>"
  define age where "age = (if maxAge > 0 then unixSec (env_now env) - maxAge sdiv 1000000000 else 0)"
  have c: "c = max age (sizeCutoff scan maxBytes)" by (simp add: c_def sweepCutoff_def age_def scan_def)
  obtain st1 t where t: "(if c > 0 then sweepBelow ops env c age st0 s else (st0, s)) = (st1, t)" by fastforce
  have "stats = st1" "Walk s' = Walk t"
    using assms(3) t unfolding Evict_def Let_def scan_def [symmetric] st0_def [symmetric] age_def [symmetric]
    unfolding c [symmetric] by (auto simp: rebuildIndex_def intro: Walk_cong split: if_splits)
  moreover have "sc_totalBytes scan = walkBytes s"
    using foldl_scanOne [OF scan_def [unfolded scanForEviction_def, symmetric]] by (simp add: walkBytes_def)
  moreover have "filter (\<lambda>obj. c \<le> usedAt s obj) (Walk s) = Walk s" "sweptBytes s c (Walk s) = 0" if "\<not> c > 0"
  proof -
    have "\<forall>obj \<in> set (Walk s). c \<le> usedAt s obj" using sweepable_walk(2) [OF assms(1)] that by fastforce
    then show "filter (\<lambda>obj. c \<le> usedAt s obj) (Walk s) = Walk s" "sweptBytes s c (Walk s) = 0"
      by (auto simp: sweptBytes_def filter_empty_conv not_less)
  qed
  ultimately show "Walk s' = filter (\<lambda>obj. c \<le> usedAt s obj) (Walk s)" "es_BytesTotal stats = walkBytes s"
    "es_BytesFreed stats = sweptBytes s c (Walk s)"
    using t sweepBelow_leaves [OF assms(1,2), of ops c age st0 st1 t] by (auto simp: st0_def split: if_splits)
qed

section \<open>Properties\<close>

text \<open>(C2) A sweep without faults ends within the size budget, on a store whose objects have canonical keys (no
  upper-case digits in the hash of a build-cache key) that lead back to their files, and times not before 1970.  It keeps exactly the objects last used
  at or after one cutoff, so nothing it removes was used later than anything it keeps.  What is left
  is the total it measured less the bytes it says it freed, at most \<^verbatim>\<open>max_bytes\<close> when that is set, and
  nothing older than \<^verbatim>\<open>max_age\<close> when that is set.  A store within its budget and without an age limit
  is left alone.\<close>

theorem Evict_within_budget:
  assumes "sweepable s" "removable env" "Evict ops env maxAge maxBytes s = (stats, s')"
  shows "(\<exists>cutoff. Walk s' = filter (\<lambda>obj. cutoff \<le> usedAt s obj) (Walk s)) \<and>
    walkBytes s' = es_BytesTotal stats - es_BytesFreed stats \<and> (0 < maxBytes \<longrightarrow> walkBytes s' \<le> maxBytes) \<and>
    (0 < maxAge \<longrightarrow> (\<forall>obj \<in> set (Walk s'). unixSec (env_now env) - maxAge sdiv 1000000000 \<le> usedAt s obj)) \<and>
    (maxAge \<le> 0 \<and> (maxBytes \<le> 0 \<or> walkBytes s \<le> maxBytes) \<longrightarrow> Walk s' = Walk s)"
proof -
  define c where "c = sweepCutoff env maxAge maxBytes s"
  note ev = Evict_leaves [OF assms, folded c_def]
  have left: "walkBytes s' = walkBytes s - sweptBytes s c (Walk s)"
    using sum_list_filter_split [of lob_Size "\<lambda>obj. usedAt s obj < c" "Walk s"]
    by (simp add: walkBytes_def ev(1) sweptBytes_def not_less)
  have used: "\<And>obj. obj \<in> set (Walk s) \<Longrightarrow> 0 \<le> usedAt s obj" by (rule sweepable_walk(2) [OF assms(1)])
  have swept: "0 \<le> sweptBytes s c (Walk s)"
    using lob_Size_nonneg [of _ s] by (auto simp: sweptBytes_def intro!: sum_list_nonneg)
  have "walkBytes s' \<le> maxBytes" if "0 < maxBytes"
  proof -
    let ?b = "sizeCutoff (scanForEviction True s) maxBytes"
    have "?b \<le> c" using that by (simp add: c_def sweepCutoff_def)
    then have "sum_list (map lob_Size (filter (\<lambda>obj. usedAt s obj < ?b) (Walk s))) \<le> sweptBytes s c (Walk s)"
      unfolding sweptBytes_def by (intro sum_list_mono_filter lob_Size_nonneg [of _ s]) auto
    then show ?thesis using sizeCutoff_frees [OF that used] left swept by linarith
  qed
  moreover have "unixSec (env_now env) - maxAge sdiv 1000000000 \<le> c" if "0 < maxAge" using that by (simp add: c_def sweepCutoff_def)
  moreover have "Walk s' = Walk s" if "maxAge \<le> 0" "maxBytes \<le> 0 \<or> walkBytes s \<le> maxBytes"
  proof -
    have "sc_totalBytes (scanForEviction (0 < maxBytes) s) = walkBytes s"
      using foldl_scanOne [OF scanForEviction_def [symmetric]] by (simp add: walkBytes_def)
    then have "c = 0" using that by (auto simp: c_def sweepCutoff_def sizeCutoff_def)
    then show ?thesis using ev(1) used by simp
  qed
  ultimately show ?thesis using ev left by auto
qed

definition fullStore :: Storage where
  "fullStore = emptyStore\<lparr>st_files := [(''/d/k'', \<lparr>f_ino = 1, f_body = [1, 2], f_attr = None, f_orig = None, f_mtime = 5, f_atime = None\<rparr>)]\<rparr>"

lemma fullStore_walk:
  "walkOne fullStore (''/d/k'', f) = Some \<lparr>lob_Key = ''k'', lob_Size = int (length (f_body f)), lob_LastModified = f_mtime f, lob_LastAccess = f_atime f\<rparr>"
proof -
  have "\<not> isReservedFile (filepathBase ''/d/k'')" by code_simp
  moreover have "filepathRel ''/d'' ''/d/k'' = Some ''k''" by code_simp
  moreover have "\<not> hasPrefix ''k'' (hashedPrefix @ ''/'')" "splitOn CHR ''/'' ''k'' = [''k'']" by code_simp+
  ultimately show ?thesis by (simp add: walkOne_def fullStore_def emptyStore_def pathToKey_def)
qed

lemma Evict_within_budget_witness:
  "sweepable fullStore \<and> removable calmEnv \<and> walkBytes fullStore = 2 \<and>
   walkBytes (snd (Evict memOps calmEnv 0 1 fullStore)) \<le> 1"
proof -
  have k: "canonicalKey ''k''" by code_simp
  have p: "pathOf fullStore ''k'' = ''/d/k''" using pathOf_emptyStore by (simp add: fullStore_def pathOf_def)
  have s: "sweepable fullStore"
    using k p fullStore_walk by (simp add: sweepable_def) (simp add: fullStore_def)
  have r: "removable calmEnv" by (simp add: removable_def calmEnv_def)
  define f where "f = \<lparr>f_ino = 1, f_body = [1, 2 :: byte], f_attr = None, f_orig = None, f_mtime = 5, f_atime = None\<rparr>"
  have "st_files fullStore = [(''/d/k'', f)]" by (simp add: fullStore_def f_def)
  then have w: "walkBytes fullStore = 2" by (simp add: walkBytes_def Walk_def fullStore_walk List.map_filter_simps f_def)
  show ?thesis
    using Evict_within_budget [OF s r, of memOps 0 1 "fst (Evict memOps calmEnv 0 1 fullStore)" "snd (Evict memOps calmEnv 0 1 fullStore)"] s r w
    by simp
qed

end
