(* ===== verification/Startup.thy ===== *)
theory Startup
  imports EvictionLaws
begin

text \<open>
  The start of a store: the format version of its data directory and what goes with it
  (\<^verbatim>\<open>cacheversion.go\<close>), \<^verbatim>\<open>NewStorage\<close> (\<^verbatim>\<open>storage.go\<close>) and the choice between the file system's access
  times and records in memory (\<^verbatim>\<open>main.go\<close>).  The lock on the directory and the byte budgets of the
  memories are arguments.  The data directory is the association list of its files.
\<close>

section \<open>Definitions\<close>

type_synonym dataFiles = "(string \<times> diskFile) list"

datatype startErr = StartCreateDir ioErr | StartLocked ioErr | StartReadVersion ioErr | StartCorruptVersion string
  | StartPurge ioErr | StartWriteVersion ioErr

definition currentCacheVersion :: int where
  "currentCacheVersion = 4"

definition newFile :: "sysEnv \<Rightarrow> diskFile" where
  "newFile env = \<lparr>f_ino = env_ino env, f_body = [], f_attr = None, f_orig = None, f_mtime = env_now env, f_atime = Some (env_now env)\<rparr>"

text \<open>\<^verbatim>\<open>os.WriteFile\<close>: the file keeps its inode and its attributes when it is there.\<close>

definition osWriteFile :: "sysEnv \<Rightarrow> string \<Rightarrow> bytes \<Rightarrow> dataFiles \<Rightarrow> ioErr option \<times> dataFiles" where
  "osWriteFile env path data files =
    (case env_fault env SysCreateTemp of Some e \<Rightarrow> (Some e, files)
     | None \<Rightarrow>
       let f = (case map_of files path of Some f \<Rightarrow> f | None \<Rightarrow> newFile env)
       in (None, AList.update path (f\<lparr>f_body := data, f_mtime := env_now env\<rparr>) files))"

definition versionPath :: "string \<Rightarrow> string" where
  "versionPath dataDir = filepathJoin [dataDir, cacheVersionFile]"

definition readCacheVersion :: "sysEnv \<Rightarrow> string \<Rightarrow> dataFiles \<Rightarrow> startErr + int" where
  "readCacheVersion env dataDir files =
    (case env_fault env SysRead of Some e \<Rightarrow> Inl (StartReadVersion e)
     | None \<Rightarrow>
       (case map_of files (versionPath dataDir) of None \<Rightarrow> Inr 1
        | Some f \<Rightarrow>
          let s = trimSpace (string_of (f_body f)) in
          (case parseInt s of None \<Rightarrow> Inl (StartCorruptVersion s) | Some v \<Rightarrow> Inr v)))"

definition writeCacheVersion :: "sysEnv \<Rightarrow> string \<Rightarrow> int \<Rightarrow> dataFiles \<Rightarrow> ioErr option \<times> dataFiles" where
  "writeCacheVersion env dataDir v files = osWriteFile env (versionPath dataDir) (bytes_of (formatInt v @ [CHR 0x0A])) files"

text \<open>The entry of the data directory a file is under.\<close>

definition topName :: "string \<Rightarrow> string \<Rightarrow> string" where
  "topName dataDir path = (case filepathRel dataDir path of None \<Rightarrow> [] | Some rel \<Rightarrow> hd (splitOn CHR ''/'' rel))"

text \<open>\<^verbatim>\<open>os.RemoveAll\<close> on an entry removes what it can and answers the first error: while removals fail, the paths
  that withstand them stay, the entry itself among them.\<close>

definition stuckPath :: "sysEnv \<Rightarrow> string \<Rightarrow> bool" where
  "stuckPath env path \<longleftrightarrow> env_fault env SysRemove \<noteq> None \<and> env_stuck env path"

definition removeAll :: "sysEnv \<Rightarrow> string \<Rightarrow> string \<Rightarrow> dataFiles \<Rightarrow> ioErr option \<times> dataFiles" where
  "removeAll env dataDir name files =
    (let left = filter (\<lambda>pf. topName dataDir (fst pf) \<noteq> name \<or> stuckPath env (fst pf)) files in
     (if stuckPath env (filepathJoin [dataDir, name]) \<or> (\<exists>pf \<in> set left. topName dataDir (fst pf) = name)
      then env_fault env SysRemove else None, left))"

fun purgeEntries :: "sysEnv \<Rightarrow> string \<Rightarrow> string list \<Rightarrow> dataFiles \<Rightarrow> ioErr option \<times> dataFiles" where
  "purgeEntries env dataDir [] files = (None, files)"
| "purgeEntries env dataDir (name # names) files =
    (if name = lockFileName then purgeEntries env dataDir names files
     else case removeAll env dataDir name files of
       (Some e, files) \<Rightarrow> (Some e, files)
     | (None, files) \<Rightarrow> purgeEntries env dataDir names files)"

text \<open>The entries are taken in the order of their names; one with no file under it is not seen here.\<close>

definition purgeDataDir :: "sysEnv \<Rightarrow> string \<Rightarrow> dataFiles \<Rightarrow> ioErr option \<times> dataFiles" where
  "purgeDataDir env dataDir files =
    (case env_fault env SysWalk of Some e \<Rightarrow> (Some e, files)
     | None \<Rightarrow> purgeEntries env dataDir (sort (remdups (map (\<lambda>pf. topName dataDir (fst pf)) files))) files)"

definition ensureCacheVersion :: "sysEnv \<Rightarrow> string \<Rightarrow> dataFiles \<Rightarrow> startErr option \<times> dataFiles" where
  "ensureCacheVersion env dataDir files =
    (case readCacheVersion env dataDir files of
       Inl e \<Rightarrow> (Some e, files)
     | Inr stored \<Rightarrow>
       if stored = currentCacheVersion then (None, files)
       else case purgeDataDir env dataDir files of
         (Some e, files) \<Rightarrow> (Some (StartPurge e), files)
       | (None, files) \<Rightarrow>
           (case writeCacheVersion env dataDir currentCacheVersion files of
              (Some e, files) \<Rightarrow> (Some (StartWriteVersion e), files)
            | (None, files) \<Rightarrow> (None, files)))"

definition isTempPath :: "string \<Rightarrow> bool" where
  "isTempPath path \<longleftrightarrow> hasPrefix (filepathBase path) tempFilePrefix"

definition sweepTempFiles :: "sysEnv \<Rightarrow> dataFiles \<Rightarrow> dataFiles" where
  "sweepTempFiles env files =
    (if env_fault env SysRemove \<noteq> None then files else filter (\<lambda>pf. \<not> isTempPath (fst pf)) files)"

record memoBudgets =
  mb_clean :: int
  mb_meta :: int
  mb_evicted :: int

definition NewStorage ::
    "sysEnv \<Rightarrow> memoBudgets \<Rightarrow> bool \<Rightarrow> u64 \<Rightarrow> ioErr option \<Rightarrow> string \<Rightarrow> string \<Rightarrow> string \<Rightarrow> dataFiles \<Rightarrow> (startErr + Storage) \<times> dataFiles" where
  "NewStorage env mb entriesDefault epoch0 lockErr dataDir woAction woNotification files =
    (case env_fault env SysMkdirAll of Some e \<Rightarrow> (Inl (StartCreateDir e), files)
     | None \<Rightarrow>
       (case lockErr of Some e \<Rightarrow> (Inl (StartLocked e), files)
        | None \<Rightarrow>
          (case ensureCacheVersion env dataDir files of
             (Some e, files) \<Rightarrow> (Inl e, files)
           | (None, files) \<Rightarrow>
             let files = sweepTempFiles env files;
                 s = \<lparr>st_dataDir = dataDir, st_woAction = woAction, st_woNotification = woNotification, st_files = files, st_index = None,
                      st_access = [], st_metaCache = Some (newMetaCache (mb_meta mb)), st_cleanKeys = Some (newCleanKeyMemo (mb_clean mb)),
                      st_digestOK = Some (newDigestMemo (mb_clean mb)), st_evicted = Some (newEvictedMemo (mb_evicted mb)),
                      st_metaStrings = \<lparr>ms_m = [], ms_bytes = 0\<rparr>\<rparr>;
                 walk = (if env_fault env SysWalk \<noteq> None then None
                   else Some (map (\<lambda>o'. \<lparr>lo_key = lob_Key o', lo_lastModified = unixSec (lob_LastModified o')\<rparr>) (Walk s)))
             in (Inr (s\<lparr>st_index := Some (NewIndex entriesDefault epoch0 (env_epoch env) walk)\<rparr>), files))))"

text \<open>The probe of the access times answers an error or whether they are recorded.\<close>

definition configureLastUseTracking :: "ioErr + bool \<Rightarrow> Storage \<Rightarrow> Storage" where
  "configureLastUseTracking recorded s = (if recorded = Inr True then s else EnableAccessTracking s)"

section \<open>Reserved names\<close>

lemma filepathBase_printPath:
  assumes "plainElem n" shows "filepathBase (printPath r (es @ [n])) = n"
proof -
  have n: "CHR ''/'' \<notin> set n" "n \<noteq> []" using assms by (simp_all add: plainElem_def)
  have "\<exists>pre. printPath r (es @ [n]) = pre @ CHR ''/'' # n \<or> printPath r (es @ [n]) = n"
  proof (cases "es = []")
    case True
    then show ?thesis using n by (auto simp: printPath_def)
  next
    case False
    then have "joinWith CHR ''/'' (es @ [n]) = joinWith CHR ''/'' es @ CHR ''/'' # n" by (simp add: joinWith_append)
    then show ?thesis by (auto simp: printPath_def)
  qed
  then show ?thesis using filepathBase_join [OF n] by metis
qed

text \<open>The server's own files lie beside the objects and are never one of them.\<close>

lemma reserved_path:
  assumes "d \<noteq> []" "name \<in> {lockFileName, cacheVersionFile, sweepMarkerFile}"
  shows "filepathBase (filepathJoin [d, name]) = name" "isReservedFile (filepathBase (filepathJoin [d, name]))"
    "\<not> isTempPath (filepathJoin [d, name])"
proof -
  have n: "plainElem name" "isReservedFile name" "\<not> hasPrefix name tempFilePrefix"
    using assms(2) by (auto simp: lockFileName_def cacheVersionFile_def sweepMarkerFile_def tempFilePrefix_def plainElem_def
        isReservedFile_def hasPrefix_def)
  show b: "filepathBase (filepathJoin [d, name]) = name"
    using filepathJoin_plain [OF assms(1), of "[name]"] filepathBase_printPath [OF n(1)] n(1) by simp
  show "isReservedFile (filepathBase (filepathJoin [d, name]))" "\<not> isTempPath (filepathJoin [d, name])"
    using n by (simp_all add: b isTempPath_def)
qed

text \<open>A key whose file leads back to it.\<close>

definition goodKey :: "string \<Rightarrow> bool" where
  "goodKey k \<longleftrightarrow> canonicalKey k \<and> (plainKey k \<or> \<not> isKeySafe k)"

lemma dotless_not_reserved: "n \<noteq> [] \<Longrightarrow> hd n \<noteq> CHR ''.'' \<Longrightarrow> \<not> isReservedFile n"
  by (cases n) (auto simp: isReservedFile_def lockFileName_def cacheVersionFile_def sweepMarkerFile_def tempFilePrefix_def hasPrefix_def)

lemma goodKey_not_reserved:
  assumes "d \<noteq> []" "goodKey k" shows "\<not> isReservedFile (filepathBase (keyToPath d k))"
proof (cases "isKeySafe k")
  case True
  then have p: "plainKey k" using assms(2) by (simp add: goodKey_def)
  obtain pre name where k: "splitOn CHR ''/'' k = pre @ [name]" "4 < length name" "list_all safeChar name"
    by (rule plainKey_parts [OF p])
  have e: "shardElems k = (pre @ [take 2 name, take 2 (drop 2 name)]) @ [drop 4 name]" by (simp add: shardElems_def Let_def k(1))
  then have "plainElem (drop 4 name)" using shardElems_plain [OF p] by simp
  then have b: "filepathBase (keyToPath d k) = drop 4 name"
    using filepathBase_printPath [of "drop 4 name" "isRooted d" "pathElems d @ pre @ [take 2 name, take 2 (drop 2 name)]"]
    by (simp add: keyToPath_plain [OF assms(1) p] e)
  have ne: "drop 4 name \<noteq> []" using k(2) by simp
  then have "hd (drop 4 name) \<in> set name" by (meson hd_in_set in_set_dropD)
  then have "safeChar (hd (drop 4 name))" using k(3) by (simp add: list_all_iff)
  then have "hd (drop 4 name) \<noteq> CHR ''.''" using safeChar_dot by metis
  then show ?thesis using dotless_not_reserved [OF ne] b by simp
next
  case False
  define name where "name = hexEncode (sha256 (bytes_of k))"
  have len: "length name = 64" by (simp add: name_def)
  have "plainElem (drop 4 name)" using hashedElems_plain [of k] by (simp add: name_def)
  then have b: "filepathBase (keyToPath d k) = drop 4 name"
    using filepathBase_printPath [of "drop 4 name" "isRooted d" "pathElems d @ [hashedPrefix, take 2 name, take 2 (drop 2 name)]"]
    by (simp add: keyToPath_hashed [OF assms(1) False] Let_def name_def [symmetric])
  have ne: "drop 4 name \<noteq> []" using len by simp
  then have "hd (drop 4 name) \<in> set name" by (meson hd_in_set in_set_dropD)
  then have "hd (drop 4 name) \<in> hexDigit ` {..<16}" using set_hexEncode by (auto simp: name_def)
  moreover have "\<forall>n \<in> set [0..<16]. hexDigit n \<noteq> CHR ''.''" by code_simp
  ultimately have "hd (drop 4 name) \<noteq> CHR ''.''" by force
  then show ?thesis using dotless_not_reserved [OF ne] b by simp
qed

lemma goodKey_back:
  assumes "d \<noteq> []" "goodKey k" "isKeySafe k \<or> orig (keyToPath d k) = Some k"
  shows "pathToKey orig d (keyToPath d k) = k"
  using assms pathToKey_plain pathToKey_hashed by (cases "isKeySafe k") (auto simp: goodKey_def)

section \<open>Files and keys\<close>

text \<open>Every file is the server's own or the object of one of the keys.\<close>

definition keyFiles :: "string set \<Rightarrow> Storage \<Rightarrow> bool" where
  "keyFiles K s \<longleftrightarrow> (\<forall>p f. lookupFile p s = Some f \<longrightarrow>
     isReservedFile (filepathBase p) \<or> (\<exists>k \<in> K. p = pathOf s k \<and> (isKeySafe k \<or> f_orig f = Some k)))"

lemma keyFiles_walk:
  assumes "keyFiles K s" "distinct (map fst (st_files s))" "\<forall>k \<in> K. goodKey k" "st_dataDir s \<noteq> []"
    and "x \<in> set (st_files s)" "walkOne s x = Some obj"
  shows "lob_Key obj \<in> K" "objPath s obj = fst x"
proof -
  have l: "lookupFile (fst x) s = Some (snd x)" using assms(2,5) by (simp add: lookupFile_def)
  have r: "\<not> isReservedFile (filepathBase (fst x))" using assms(6) by (auto simp: walkOne_def Let_def split: if_splits)
  then obtain k where k: "k \<in> K" "fst x = pathOf s k" "isKeySafe k \<or> f_orig (snd x) = Some k"
    using assms(1) l unfolding keyFiles_def by blast
  let ?orig = "\<lambda>p. case lookupFile p s of Some f \<Rightarrow> f_orig f | None \<Rightarrow> None"
  have "goodKey k" using assms(3) k(1) by blast
  moreover have "isKeySafe k \<or> ?orig (keyToPath (st_dataDir s) k) = Some k" using k(2,3) l by (auto simp: pathOf_def)
  ultimately have "pathToKey ?orig (st_dataDir s) (fst x) = k"
    unfolding k(2) pathOf_def by (rule goodKey_back [OF assms(4)])
  then have "lob_Key obj = k" using assms(6) by (auto simp: walkOne_def Let_def split: if_splits)
  then show "lob_Key obj \<in> K" "objPath s obj = fst x" using k by simp_all
qed

lemma keyFiles_Walk_keys:
  assumes "keyFiles K s" "distinct (map fst (st_files s))" "\<forall>k \<in> K. goodKey k" "st_dataDir s \<noteq> []"
  shows "lob_Key ` set (Walk s) \<subseteq> K"
  using keyFiles_walk(1) [OF assms] by (auto simp: Walk_def List.map_filter_def)

lemma keyFiles_sweepable:
  assumes "keyFiles K s" "distinct (map fst (st_files s))" "\<forall>k \<in> K. goodKey k" "st_dataDir s \<noteq> []"
    and "\<forall>x \<in> set (st_files s). 0 \<le> f_mtime (snd x)"
  shows "sweepable s"
  unfolding sweepable_def
proof (intro conjI ballI allI impI)
  fix x obj assume x: "x \<in> set (st_files s)" "walkOne s x = Some obj"
  note kw = keyFiles_walk [OF assms(1-4) x]
  show "canonicalKey (lob_Key obj)" using kw(1) assms(3) by (simp add: goodKey_def)
  show "objPath s obj = fst x" "0 \<le> f_mtime (snd x)" using kw(2) assms(5) x(1) by auto
qed (rule assms(2))

subsection \<open>The keys of a rebuilt index\<close>

lemma indexBuild_entries:
  "ie_key ` set (ib_entries (foldl indexBuild_add b objs)) \<subseteq> ie_key ` set (ib_entries b) \<union> (newCompactKey \<circ> lo_key) ` set objs"
proof (induction objs arbitrary: b)
  case (Cons ob objs)
  have "ie_key ` set (ib_entries (indexBuild_add b ob)) \<subseteq> insert (newCompactKey (lo_key ob)) (ie_key ` set (ib_entries b))"
    by (auto simp: indexBuild_add_def Let_def split: prod.splits if_splits)
  with Cons.IH [of "indexBuild_add b ob"]
  have "ie_key ` set (ib_entries (foldl indexBuild_add (indexBuild_add b ob) objs))
      \<subseteq> insert (newCompactKey (lo_key ob)) (ie_key ` set (ib_entries b)) \<union> (newCompactKey \<circ> lo_key) ` set objs" by blast
  then show ?case by simp
qed simp

lemma Index_rebuild_keys:
  "ie_key ` set (ix_entries (Index_rebuild e (Some objs) idx)) \<subseteq> (newCompactKey \<circ> lo_key) ` set objs"
  "ix_pendingEntries (Index_rebuild e (Some objs) idx) = ix_pendingEntries idx"
  using indexBuild_entries [of "newIndexBuild (hashCount idx) (\<not> EntryTrackingEnabled idx)" objs]
  by (auto simp: Index_rebuild_def Let_def applyRebuild_def resetAddLogLocked_def indexBuild_finish_def newIndexBuild_def sortEntriesByMtime_def
      split: if_splits)

lemma indexKeys_walked:
  assumes "lob_Key ` set objs \<subseteq> K" "\<forall>k \<in> K. goodKey k"
    and "\<forall>e \<in> set (ix_pendingEntries idx). compactKey_Key (ie_key e) \<in> K"
  shows "indexKeys (s\<lparr>st_index := Some (Index_rebuild e (Some (map (\<lambda>o'. \<lparr>lo_key = lob_Key o', lo_lastModified = unixSec (lob_LastModified o')\<rparr>) objs)) idx)\<rparr>) \<subseteq> K"
proof -
  have "compactKey_Key (newCompactKey (lob_Key ob)) \<in> K" if "ob \<in> set objs" for ob
    using assms(1,2) that by (auto simp: goodKey_def canonicalKey_def)
  then show ?thesis
    using Index_rebuild_keys [of e "map (\<lambda>o'. \<lparr>lo_key = lob_Key o', lo_lastModified = unixSec (lob_LastModified o')\<rparr>) objs" idx] assms(3)
    unfolding indexKeys_def by (fastforce simp: image_iff)
qed

section \<open>Starting\<close>

definition inoFiles :: "dataFiles \<Rightarrow> bool" where
  "inoFiles files \<longleftrightarrow> distinct (map fst files) \<and>
     (\<forall>p q f g. map_of files p = Some f \<longrightarrow> map_of files q = Some g \<longrightarrow> f_ino f = f_ino g \<longrightarrow> p = q)"

lemma inoFiles_filter: "inoFiles files \<Longrightarrow> inoFiles (filter P files)"
  unfolding inoFiles_def by (auto simp: List.distinct_map_filter dest!: map_of_SomeD)

lemma version_roundtrip: "parseInt (trimSpace (string_of (bytes_of (formatInt 4 @ [CHR 0x0A])))) = Some 4"
proof -
  have "trimSpace (formatInt 4 @ [CHR 0x0A]) = formatInt 4"
    by (simp add: formatInt_def formatNat.simps trimSpace_def isSpaceChar_def digitChar_def)
  then show ?thesis using parseInt_formatInt [of 4] by (simp only: string_of_bytes_of) simp
qed

lemma writeCacheVersion_ok:
  assumes "inoFiles files" "\<forall>f \<in> snd ` set files. f_ino f \<noteq> env_ino env"
    and "env_fault env SysRead = None" "writeCacheVersion env d currentCacheVersion files = (None, files')"
  shows "inoFiles files'" "readCacheVersion env d files' = Inr currentCacheVersion"
    "fst ` set files' = insert (versionPath d) (fst ` set files)"
proof -
  let ?b = "bytes_of (formatInt currentCacheVersion @ [CHR 0x0A])"
  define f where "f = (case map_of files (versionPath d) of Some f \<Rightarrow> f | None \<Rightarrow> newFile env)"
  have f: "files' = AList.update (versionPath d) (f\<lparr>f_body := ?b, f_mtime := env_now env\<rparr>) files"
      "map_of files (versionPath d) = Some f \<or> map_of files (versionPath d) = None \<and> f_ino f = env_ino env"
    using assms(4) by (auto simp: writeCacheVersion_def osWriteFile_def Let_def f_def newFile_def split: option.splits)
  have fresh: "g \<in> snd ` set files" if "map_of files p = Some g" for p g using that by (force dest: map_of_SomeD)
  show "inoFiles files'"
    using assms(1,2) f(2) fresh unfolding inoFiles_def f(1)
    by (auto simp: distinct_update update_conv' split: if_splits)
  show "readCacheVersion env d files' = Inr currentCacheVersion"
    using assms(3) version_roundtrip by (simp add: readCacheVersion_def f(1) update_conv' currentCacheVersion_def)
  show "fst ` set files' = insert (versionPath d) (fst ` set files)" by (simp add: f(1) keys_update)
qed

lemma purgeEntries_done:
  "purgeEntries env d names files = (None, kept) \<Longrightarrow>
   kept = filter (\<lambda>pf. topName d (fst pf) \<notin> set names \<or> topName d (fst pf) = lockFileName) files"
proof (induction names arbitrary: files)
  case (Cons name names)
  show ?case
  proof (cases "name = lockFileName")
    case True
    then show ?thesis using Cons by (auto intro!: filter_cong)
  next
    case False
    obtain e left where r: "removeAll env d name files = (e, left)" by fastforce
    then have e: "e = None" "purgeEntries env d names left = (None, kept)" using Cons.prems False by (auto split: option.splits)
    have "\<not> stuckPath env (fst pf)" if "pf \<in> set files" "topName d (fst pf) = name" for pf
      using r e(1) that by (cases pf) (auto simp: removeAll_def Let_def stuckPath_def split: if_splits)
    then have "left = filter (\<lambda>pf. topName d (fst pf) \<noteq> name) files"
      using r by (auto simp: removeAll_def Let_def intro!: filter_cong)
    then show ?thesis using Cons.IH [OF e(2)] False by (auto intro!: filter_cong)
  qed
qed simp

lemma purgeDataDir_done:
  assumes "purgeDataDir env d files = (None, kept)" shows "kept = filter (\<lambda>pf. topName d (fst pf) = lockFileName) files"
proof -
  have "purgeEntries env d (sort (remdups (map (\<lambda>pf. topName d (fst pf)) files))) files = (None, kept)"
    using assms by (auto simp: purgeDataDir_def split: option.splits)
  from purgeEntries_done [OF this] show ?thesis by (auto intro!: filter_cong)
qed

lemma ensureCacheVersion_ok:
  assumes "inoFiles files" "\<forall>f \<in> snd ` set files. f_ino f \<noteq> env_ino env" "ensureCacheVersion env d files = (None, files')"
  shows "inoFiles files' \<and> readCacheVersion env d files' = Inr currentCacheVersion \<and>
    (files' = files \<or> (\<exists>v. readCacheVersion env d files = Inr v \<and> v \<noteq> currentCacheVersion \<and>
       (\<forall>p \<in> fst ` set files'. p = versionPath d \<or> topName d p = lockFileName)))"
proof -
  obtain v where v: "readCacheVersion env d files = Inr v"
    using assms(3) by (auto simp: ensureCacheVersion_def split: sum.splits)
  then have rd: "env_fault env SysRead = None" by (auto simp: readCacheVersion_def split: option.splits)
  show ?thesis
  proof (cases "v = currentCacheVersion")
    case True
    then show ?thesis using assms v by (simp add: ensureCacheVersion_def)
  next
    case False
    then obtain kept where k: "purgeDataDir env d files = (None, kept)" "writeCacheVersion env d currentCacheVersion kept = (None, files')"
      using assms(3) v by (auto simp: ensureCacheVersion_def split: prod.splits option.splits)
    have kept: "kept = filter (\<lambda>pf. topName d (fst pf) = lockFileName) files" by (rule purgeDataDir_done [OF k(1)])
    have "inoFiles kept" "\<forall>f \<in> snd ` set kept. f_ino f \<noteq> env_ino env"
      using assms(1,2) inoFiles_filter by (auto simp: kept)
    note w = writeCacheVersion_ok [OF this rd k(2)]
    have "\<forall>p \<in> fst ` set files'. p = versionPath d \<or> topName d p = lockFileName"
      unfolding w(3) by (auto simp: kept)
    then show ?thesis using w(1,2) v False by blast
  qed
qed

lemma readCacheVersion_sweep:
  assumes "d \<noteq> []" shows "readCacheVersion env d (sweepTempFiles env files) = readCacheVersion env d files"
proof -
  have "\<not> isTempPath (versionPath d)" using reserved_path(3) [OF assms, of cacheVersionFile] by (simp add: versionPath_def)
  then have "map_of (sweepTempFiles env files) (versionPath d) = map_of files (versionPath d)"
    using map_of_keep [of "versionPath d" "{p. isTempPath p}" files] by (simp add: sweepTempFiles_def)
  then show ?thesis unfolding readCacheVersion_def by (simp only:)
qed

lemma NewStorage_parts:
  assumes "NewStorage env mb entriesDefault epoch0 lockErr d woAction woNotification files = (Inr s, files')"
  obtains v where "ensureCacheVersion env d files = (None, v)" "files' = sweepTempFiles env v" "st_files s = files'" "st_dataDir s = d"
    "st_metaCache s = Some (newLRUCache (mb_meta mb))" "st_cleanKeys s = Some (newLRUCache (mb_clean mb))"
    "st_digestOK s = Some (newLRUCache (mb_clean mb))" "st_evicted s = Some (newLRUCache (mb_evicted mb))"
    "st_metaStrings s = \<lparr>ms_m = [], ms_bytes = 0\<rparr>"
    "st_index s = Some (NewIndex entriesDefault epoch0 (env_epoch env) (if env_fault env SysWalk \<noteq> None then None
       else Some (map (\<lambda>o'. \<lparr>lo_key = lob_Key o', lo_lastModified = unixSec (lob_LastModified o')\<rparr>) (Walk s))))"
proof -
  obtain v where v: "ensureCacheVersion env d files = (None, v)" "files' = sweepTempFiles env v"
    using assms by (auto simp: NewStorage_def Let_def split: option.splits prod.splits)
  define s0 where "s0 = \<lparr>st_dataDir = d, st_woAction = woAction, st_woNotification = woNotification, st_files = files', st_index = None,
      st_access = [], st_metaCache = Some (newMetaCache (mb_meta mb)), st_cleanKeys = Some (newCleanKeyMemo (mb_clean mb)),
      st_digestOK = Some (newDigestMemo (mb_clean mb)), st_evicted = Some (newEvictedMemo (mb_evicted mb)),
      st_metaStrings = \<lparr>ms_m = [], ms_bytes = 0\<rparr>\<rparr>"
  have s: "s = s0\<lparr>st_index := Some (NewIndex entriesDefault epoch0 (env_epoch env) (if env_fault env SysWalk \<noteq> None then None
      else Some (map (\<lambda>o'. \<lparr>lo_key = lob_Key o', lo_lastModified = unixSec (lob_LastModified o')\<rparr>) (Walk s0))))\<rparr>"
    using assms v unfolding NewStorage_def s0_def by (auto simp: Let_def split: option.splits prod.splits)
  have w: "Walk s0 = Walk s" by (rule Walk_cong) (simp_all add: s)
  have i: "st_index s = Some (NewIndex entriesDefault epoch0 (env_epoch env) (if env_fault env SysWalk \<noteq> None then None
      else Some (map (\<lambda>o'. \<lparr>lo_key = lob_Key o', lo_lastModified = unixSec (lob_LastModified o')\<rparr>) (Walk s0))))"
    by (subst s) simp
  have f: "st_files s = files'" "st_dataDir s = d"
    "st_metaCache s = Some (newLRUCache (mb_meta mb))" "st_cleanKeys s = Some (newLRUCache (mb_clean mb))"
    "st_digestOK s = Some (newLRUCache (mb_clean mb))" "st_evicted s = Some (newLRUCache (mb_evicted mb))"
    "st_metaStrings s = \<lparr>ms_m = [], ms_bytes = 0\<rparr>"
    by (simp_all add: s, simp_all add: s0_def newMetaCache_def newCleanKeyMemo_def newDigestMemo_def newEvictedMemo_def)
  show thesis by (rule that [OF v f i [unfolded w]])
qed

lemma NewStorage_start:
  assumes "inoFiles files" "\<forall>f \<in> snd ` set files. f_ino f \<noteq> env_ino env" "d \<noteq> []"
    and "inj_on (keyToPath d) K" "hashInj K" "env_fault env SysRemove = None" "env_fault env SysWalk = None"
    and "NewStorage env mb entriesDefault epoch0 lockErr d woAction woNotification files = (Inr s, files')"
  shows "guardsOk dec K s \<and> st_files s = files' \<and> readCacheVersion env d files' = Inr currentCacheVersion \<and>
    (if readCacheVersion env d files = Inr currentCacheVersion then files' = filter (\<lambda>pf. \<not> isTempPath (fst pf)) files
     else \<forall>p \<in> fst ` set files'. p = versionPath d \<or> topName d p = lockFileName) \<and>
    (\<forall>p \<in> fst ` set files'. \<not> isTempPath p) \<and>
    (\<exists>idx. st_index s = Some idx \<and> advertised idx = {h. \<exists>obj \<in> set (Walk s). keyHash (lob_Key obj) = Some h})"
proof -
  have nf: "(env_fault env SysWalk \<noteq> None) = False" using assms(7) by simp
  obtain v where v: "ensureCacheVersion env d files = (None, v)" "files' = sweepTempFiles env v" "st_files s = files'" "st_dataDir s = d"
    "st_metaCache s = Some (newLRUCache (mb_meta mb))" "st_cleanKeys s = Some (newLRUCache (mb_clean mb))"
    "st_digestOK s = Some (newLRUCache (mb_clean mb))" "st_evicted s = Some (newLRUCache (mb_evicted mb))"
    "st_metaStrings s = \<lparr>ms_m = [], ms_bytes = 0\<rparr>"
    "st_index s = Some (NewIndex entriesDefault epoch0 (env_epoch env)
       (Some (map (\<lambda>o'. \<lparr>lo_key = lob_Key o', lo_lastModified = unixSec (lob_LastModified o')\<rparr>) (Walk s))))"
    by (rule NewStorage_parts [OF assms(8), unfolded nf if_False])
  note e = ensureCacheVersion_ok [OF assms(1,2) v(1)]
  have f': "files' = filter (\<lambda>pf. \<not> isTempPath (fst pf)) v" using v(2) assms(6) by (simp add: sweepTempFiles_def)
  have "inoFiles files'" unfolding f' using e by (intro inoFiles_filter) simp
  then have "inoInj s" unfolding inoInj_def inoFiles_def lookupFile_def v(3) .
  moreover have "storeOk K s"
    using assms(4) by (simp add: storeOk_def memosOk_def metaCoherent_def metaLookup_def v newLRUCache_ok pathOf_def [abs_def])
  moreover have "memoOk dec s f h" for f h by (simp add: memoOk_def digestLookup_def cleanLookup_def v newLRUCache_ok)
  ultimately have g: "guardsOk dec K s" using assms(5) by (simp add: guardsOk_def)
  have r: "readCacheVersion env d files' = Inr currentCacheVersion"
    using readCacheVersion_sweep [OF assms(3), of env v] e v(2) by simp
  have cur: "v = files" if "readCacheVersion env d files = Inr currentCacheVersion" using e that by auto
  have old: "\<forall>p \<in> fst ` set v. p = versionPath d \<or> topName d p = lockFileName" if "readCacheVersion env d files \<noteq> Inr currentCacheVersion"
    using e that by auto
  let ?objs = "map (\<lambda>o'. \<lparr>lo_key = lob_Key o', lo_lastModified = unixSec (lob_LastModified o')\<rparr>) (Walk s)"
  have "advertised (NewIndex entriesDefault epoch0 (env_epoch env) (Some ?objs)) = {h. \<exists>obj \<in> set (Walk s). keyHash (lob_Key obj) = Some h}"
    using Index_rebuild_fields(1,2) [OF refl, of "env_epoch env" ?objs "emptyIndex epoch0 entriesDefault"] finite_keyHashes [of ?objs]
    by (simp add: NewIndex_def advertised_def emptyIndex_def)
  then show ?thesis using g r v(3,10) cur old by (auto simp: f')
qed

lemma ensureCacheVersion_old:
  assumes "distinct (map fst files)" "ensureCacheVersion env d files = (None, v)" "map_of v p = Some f" "p \<noteq> versionPath d"
  shows "map_of files p = Some f"
proof (cases "v = files")
  case False
  then obtain kept where k: "purgeDataDir env d files = (None, kept)" "writeCacheVersion env d currentCacheVersion kept = (None, v)"
    using assms(2) by (auto simp: ensureCacheVersion_def split: sum.splits prod.splits option.splits if_splits)
  have "map_of kept p = Some f"
    using k(2) assms(3,4) by (auto simp: writeCacheVersion_def osWriteFile_def Let_def update_conv' split: option.splits)
  moreover have "set kept \<subseteq> set files" unfolding purgeDataDir_done [OF k(1)] by auto
  ultimately show ?thesis using assms(1) by (meson map_of_SomeD map_of_is_SomeI subsetD)
qed (use assms(3) in simp)

text \<open>The objects of a started store are objects the directory held, and so are the keys the index knows.\<close>

lemma NewStorage_keys:
  assumes "inoFiles files" "\<forall>f \<in> snd ` set files. f_ino f \<noteq> env_ino env" "d \<noteq> []" "\<forall>k \<in> K. goodKey k"
    and "\<forall>p f. map_of files p = Some f \<longrightarrow>
       isReservedFile (filepathBase p) \<or> (\<exists>k \<in> K. p = keyToPath d k \<and> (isKeySafe k \<or> f_orig f = Some k))"
    and "NewStorage env mb entriesDefault epoch0 lockErr d woAction woNotification files = (Inr s, files')"
  shows "st_dataDir s = d" "keyFiles K s" "indexKeys s \<subseteq> K"
    "k \<in> K \<Longrightarrow> lookupFile (pathOf s k) s = Some f \<Longrightarrow> map_of files (keyToPath d k) = Some f"
proof -
  obtain v where v: "ensureCacheVersion env d files = (None, v)" "files' = sweepTempFiles env v" "st_files s = files'" "st_dataDir s = d"
    and ix: "st_index s = Some (NewIndex entriesDefault epoch0 (env_epoch env) (if env_fault env SysWalk \<noteq> None then None
       else Some (map (\<lambda>o'. \<lparr>lo_key = lob_Key o', lo_lastModified = unixSec (lob_LastModified o')\<rparr>) (Walk s))))"
    by (rule NewStorage_parts [OF assms(6)]) blast
  show d: "st_dataDir s = d" by (rule v(4))
  have dv: "distinct (map fst v)" "distinct (map fst files)"
    using ensureCacheVersion_ok [OF assms(1,2) v(1)] assms(1) by (auto simp: inoFiles_def)
  have sub: "set files' \<subseteq> set v" "distinct (map fst files')"
    using dv(1) by (auto simp: v(2) sweepTempFiles_def List.distinct_map_filter split: option.splits)
  have vp: "isReservedFile (filepathBase (versionPath d))"
    using reserved_path(2) [OF assms(3), of cacheVersionFile] by (simp add: versionPath_def isReservedFile_def)
  have old: "map_of files p = Some f" if "lookupFile p s = Some f" "p \<noteq> versionPath d" for p f
  proof -
    have "(p, f) \<in> set v" using that(1) sub(1) by (auto simp: lookupFile_def v(3) dest: map_of_SomeD)
    then show ?thesis using ensureCacheVersion_old [OF dv(2) v(1) _ that(2)] dv(1) by simp
  qed
  have path: "pathOf s = keyToPath d" by (simp add: pathOf_def fun_eq_iff v(4))
  show kf: "keyFiles K s" unfolding keyFiles_def path using old vp assms(5) by metis
  have kp: "keyToPath d k \<noteq> versionPath d" if "k \<in> K" for k using goodKey_not_reserved [OF assms(3), of k] assms(4) that vp by metis
  then show "k \<in> K \<Longrightarrow> lookupFile (pathOf s k) s = Some f \<Longrightarrow> map_of files (keyToPath d k) = Some f"
    using old path by simp
  have "lob_Key ` set (Walk s) \<subseteq> K"
    using keyFiles_Walk_keys [OF kf _ assms(4)] sub(2) assms(3) by (simp add: v(3,4))
  from indexKeys_walked [OF this assms(4), where idx = "emptyIndex epoch0 entriesDefault" and s = s and e = "env_epoch env"]
  show "indexKeys s \<subseteq> K" using ix by (cases "env_fault env SysWalk") (auto simp: indexKeys_def NewIndex_def emptyIndex_def Index_rebuild_def)
qed

section \<open>Properties\<close>

text \<open>(C26) A store that starts is well formed, where no removal and no walk of the directory fails.  Its memories are empty and coherent, so the invariant the
  request handlers keep holds for every set of keys with files of their own.  The directory carries the
  current format version; it holds what it held before when it carried that version already, and
  otherwise nothing but the lock file and the version marker.  No upload cut short is left, and the
  index advertises exactly the build-cache objects the walk reports.\<close>

theorem NewStorage_ok:
  assumes "inoFiles files" "\<forall>f \<in> snd ` set files. f_ino f \<noteq> env_ino env" "d \<noteq> []"
    and "inj_on (keyToPath d) K" "hashInj K" "env_fault env SysRemove = None" "env_fault env SysWalk = None"
    and "NewStorage env mb entriesDefault epoch0 lockErr d woAction woNotification files = (Inr s, files')"
  shows "guardsOk dec K s \<and> st_files s = files' \<and> readCacheVersion env d files' = Inr currentCacheVersion \<and>
    (if readCacheVersion env d files = Inr currentCacheVersion then files' = filter (\<lambda>pf. \<not> isTempPath (fst pf)) files
     else \<forall>p \<in> fst ` set files'. p = versionPath d \<or> topName d p = lockFileName) \<and>
    (\<forall>p \<in> fst ` set files'. \<not> isTempPath p) \<and>
    (\<exists>idx. st_index s = Some idx \<and> advertised idx = {h. \<exists>obj \<in> set (Walk s). keyHash (lob_Key obj) = Some h})"
  by (rule NewStorage_start [OF assms])

lemma NewStorage_ok_witness:
  "\<exists>s files'. NewStorage calmEnv \<lparr>mb_clean = 9, mb_meta = 9, mb_evicted = 9\<rparr> True 1 None ''/d'' ''allow'' ''never'' [] = (Inr s, files') \<and>
     guardsOk specDecoders {''k''} s \<and> st_files s = files' \<and> readCacheVersion calmEnv ''/d'' files' = Inr currentCacheVersion"
proof -
  let ?n = "NewStorage calmEnv \<lparr>mb_clean = 9, mb_meta = 9, mb_evicted = 9\<rparr> True 1 None ''/d'' ''allow'' ''never'' []"
  have "\<exists>s. fst ?n = Inr s"
    by (simp add: NewStorage_def ensureCacheVersion_def readCacheVersion_def calmEnv_def currentCacheVersion_def purgeDataDir_def
        writeCacheVersion_def osWriteFile_def Let_def)
  then obtain s where n: "?n = (Inr s, snd ?n)" by (metis prod.collapse)
  have c: "env_fault calmEnv SysRemove = None" "env_fault calmEnv SysWalk = None" by (simp_all add: calmEnv_def)
  have i: "inoFiles []" "\<forall>f \<in> snd ` set ([] :: dataFiles). f_ino f \<noteq> env_ino calmEnv" "''/d'' \<noteq> []"
      "inj_on (keyToPath ''/d'') {''k''}" "hashInj {''k''}" by (simp_all add: inoFiles_def hashInj_def)
  show ?thesis using NewStorage_ok [OF i c n, of specDecoders] n by blast
qed

end
