(* ===== verification/Config.thy ===== *)
theory Config
  imports RiceIndex ObjAttrs Strconv
begin

text \<open>
  The configuration (\<^verbatim>\<open>config.go\<close>) and the check of a request's credentials (\<^verbatim>\<open>auth.go\<close>), with the
  part of \<^verbatim>\<open>encoding/base64\<close> they use.  The configuration is given as its JSON decodes to, a value read
  from an environment variable resolved; the environment itself is an argument.
\<close>

section \<open>Definitions\<close>

subsection \<open>Base64\<close>

definition b64Alphabet :: string where
  "b64Alphabet = ''ABCDEFGHIJKLMNOPQRSTUVWXYZabcdefghijklmnopqrstuvwxyz0123456789+/''"

definition b64Char :: "nat \<Rightarrow> char" where
  "b64Char n = b64Alphabet ! n"

definition b64Val :: "char \<Rightarrow> nat option" where
  "b64Val c = indexByte b64Alphabet c"

text \<open>\<^verbatim>\<open>StdEncoding.EncodeToString\<close> and \<^verbatim>\<open>DecodeString\<close>: three bytes are four characters, the last group
  is padded, and a decoder passes over line ends.\<close>

fun base64Encode :: "bytes \<Rightarrow> string" where
  "base64Encode [] = []"
| "base64Encode [a] =
    (let n = unat a * 65536 in [b64Char (n div 262144), b64Char (n div 4096 mod 64), CHR ''='', CHR ''=''])"
| "base64Encode [a, b] =
    (let n = unat a * 65536 + unat b * 256
     in [b64Char (n div 262144), b64Char (n div 4096 mod 64), b64Char (n div 64 mod 64), CHR ''=''])"
| "base64Encode (a # b # c # rest) =
    (let n = unat a * 65536 + unat b * 256 + unat c
     in b64Char (n div 262144) # b64Char (n div 4096 mod 64) # b64Char (n div 64 mod 64) # b64Char (n mod 64) # base64Encode rest)"

definition b64Join :: "string \<Rightarrow> nat option" where
  "b64Join cs = foldl (\<lambda>r c. case (r, b64Val c) of (Some n, Some v) \<Rightarrow> Some (n * 64 + v) | _ \<Rightarrow> None) (Some 0) cs"

fun b64Groups :: "string \<Rightarrow> bytes option" where
  "b64Groups [] = Some []"
| "b64Groups (c0 # c1 # c2 # c3 # rest) =
    (if c2 = CHR ''='' then
       (if c3 = CHR ''='' \<and> rest = [] then map_option (\<lambda>n. [of_nat (n div 16)]) (b64Join [c0, c1]) else None)
     else if c3 = CHR ''='' then
       (if rest = [] then map_option (\<lambda>n. [of_nat (n div 1024), of_nat (n div 4 mod 256)]) (b64Join [c0, c1, c2]) else None)
     else case (b64Join [c0, c1, c2, c3], b64Groups rest) of
       (Some n, Some bs) \<Rightarrow> Some (of_nat (n div 65536) # of_nat (n div 256 mod 256) # of_nat (n mod 256) # bs)
     | _ \<Rightarrow> None)"
| "b64Groups _ = None"

definition base64Decode :: "string \<Rightarrow> bytes option" where
  "base64Decode s = b64Groups (filter (\<lambda>c. c \<noteq> CHR 0x0D \<and> c \<noteq> CHR 0x0A) s)"

subsection \<open>The configuration\<close>

record Credential =
  cr_Username :: string
  cr_Password :: string

record EvictionConfig =
  ec_MaxAge :: int
  ec_MaxBytes :: "int option"
  ec_Interval :: int

definition AgeLimit :: "EvictionConfig \<Rightarrow> int" where
  "AgeLimit e = ec_MaxAge e"

definition SizeLimit :: "EvictionConfig \<Rightarrow> int" where
  "SizeLimit e = (case ec_MaxBytes e of None \<Rightarrow> 0 | Some n \<Rightarrow> n)"

definition evictionEnabled :: "EvictionConfig \<Rightarrow> bool" where
  "evictionEnabled e \<longleftrightarrow> AgeLimit e > 0 \<or> SizeLimit e > 0"

record Config =
  cf_Listen :: string
  cf_MetricsListen :: string
  cf_Bucket :: string
  cf_DataDir :: string
  cf_woAction :: string
  cf_woNotification :: string
  cf_DisableAuth :: bool
  cf_Credentials :: "Credential list"
  cf_LogMode :: string
  cf_DashboardListen :: "string option"
  cf_MaxConcurrentRequests :: int
  cf_IndexBlobInterval :: "int option"
  cf_IndexHashBits :: int
  cf_MaxObjectBytes :: int
  cf_Prefetch :: "bool option"
  cf_Eviction :: EvictionConfig

definition defaultMaxConcurrentRequests :: int where "defaultMaxConcurrentRequests = 128"
definition defaultMaxObjectBytes :: int where "defaultMaxObjectBytes = 1073741824"
definition defaultEvictionMaxBytes :: int where "defaultEvictionMaxBytes = 50 * 1073741824"
definition defaultEvictionInterval :: int where "defaultEvictionInterval = 24 * 3600 * 1000000000"

definition PrefetchEnabled :: "Config \<Rightarrow> bool" where
  "PrefetchEnabled c \<longleftrightarrow> (case cf_Prefetch c of None \<Rightarrow> True | Some p \<Rightarrow> p)"

definition defaultDashboardListen :: string where "defaultDashboardListen = '':9002''"

definition DashboardListenAddr :: "Config \<Rightarrow> string" where
  "DashboardListenAddr c = (case cf_DashboardListen c of None \<Rightarrow> defaultDashboardListen | Some a \<Rightarrow> a)"

subsection \<open>Byte sizes\<close>

datatype sizeErr = NotAByteSize | NegativeSize | SizeOverflows

definition byteSizeUnits :: "(string \<times> int) list" where
  "byteSizeUnits =
    [(''KIB'', 2 ^ 10), (''MIB'', 2 ^ 20), (''GIB'', 2 ^ 30), (''TIB'', 2 ^ 40),
     (''KB'', 2 ^ 10), (''MB'', 2 ^ 20), (''GB'', 2 ^ 30), (''TB'', 2 ^ 40),
     (''K'', 2 ^ 10), (''M'', 2 ^ 20), (''G'', 2 ^ 30), (''T'', 2 ^ 40), (''B'', 1)]"

definition hasSuffix :: "string \<Rightarrow> string \<Rightarrow> bool" where
  "hasSuffix s p \<longleftrightarrow> hasPrefix (rev s) (rev p)"

fun cutUnit :: "(string \<times> int) list \<Rightarrow> string \<Rightarrow> string \<times> int" where
  "cutUnit [] up = (up, 1)"
| "cutUnit ((suffix, factor) # us) up =
    (if hasSuffix up suffix then (take (length up - length suffix) up, factor) else cutUnit us up)"

text \<open>\<^verbatim>\<open>strings.TrimSpace\<close> and \<^verbatim>\<open>strings.ToUpper\<close> are modelled on ASCII characters: for a text with others (a
  no-break space, a dotless i), which the library trims or maps too, the definition says nothing.\<close>

definition parseByteSize :: "string \<Rightarrow> sizeErr + int" where
  "parseByteSize s =
    (let (up, factor) = cutUnit byteSizeUnits (toUpper (trimSpace s)) in
     case parseInt (trimSpace up) of None \<Rightarrow> Inl NotAByteSize
     | Some n \<Rightarrow>
       if n < 0 then Inl NegativeSize
       else if factor > 1 \<and> n > 2 ^ 62 div factor then Inl SizeOverflows
       else Inr (n * factor))"

subsection \<open>Loading\<close>

datatype configErr = BadWriteOnceAction | BadWriteOnceNotification | BadLogMode string | BucketRequired | DataDirRequired
  | BadIndexHashBits int | NegativeMaxAge | BadMaxBytesEnv string sizeErr | NegativeMaxBytes | AuthDisabledWithCredentials
  | CredentialRequired | EmptyCredential nat

text \<open>\<^verbatim>\<open>CACHE_MAX_BYTES\<close>, the empty string when it is not set.\<close>

definition envMaxBytes :: "string \<Rightarrow> configErr + int" where
  "envMaxBytes env =
    (let raw = trimSpace env in
     if raw = [] then Inr defaultEvictionMaxBytes
     else case parseByteSize raw of Inl e \<Rightarrow> Inl (BadMaxBytesEnv raw e) | Inr n \<Rightarrow> Inr n)"

fun emptyCredential :: "nat \<Rightarrow> Credential list \<Rightarrow> nat option" where
  "emptyCredential i [] = None"
| "emptyCredential i (c # cs) = (if cr_Username c = [] \<or> cr_Password c = [] then Some i else emptyCredential (Suc i) cs)"

definition withDefaults :: "Config \<Rightarrow> Config" where
  "withDefaults c =
    c\<lparr>cf_Listen := (if cf_Listen c = [] then '':9000'' else cf_Listen c),
      cf_woAction := (if cf_woAction c = [] then ''allow'' else cf_woAction c),
      cf_woNotification := (if cf_woNotification c = [] then ''never'' else cf_woNotification c),
      cf_LogMode := (if cf_LogMode c = [] then ''normal'' else cf_LogMode c),
      cf_MaxConcurrentRequests := (if cf_MaxConcurrentRequests c \<le> 0 then defaultMaxConcurrentRequests else cf_MaxConcurrentRequests c),
      cf_MaxObjectBytes := (if cf_MaxObjectBytes c \<le> 0 then defaultMaxObjectBytes else cf_MaxObjectBytes c),
      cf_Eviction := (cf_Eviction c)\<lparr>ec_Interval := (if ec_Interval (cf_Eviction c) \<le> 0 then defaultEvictionInterval
                                                     else ec_Interval (cf_Eviction c))\<rparr>\<rparr>"

definition checkCredentials :: "Config \<Rightarrow> configErr option" where
  "checkCredentials c =
    (if cf_DisableAuth c then (if cf_Credentials c \<noteq> [] then Some AuthDisabledWithCredentials else None)
     else if cf_Credentials c = [] then Some CredentialRequired
     else map_option EmptyCredential (emptyCredential 0 (cf_Credentials c)))"

definition LoadConfig :: "string \<Rightarrow> Config \<Rightarrow> configErr + Config" where
  "LoadConfig env c0 =
    (let c = withDefaults c0 in
     if cf_woAction c \<notin> {''allow'', ''deny''} then Inl BadWriteOnceAction
     else if cf_woNotification c \<notin> {''never'', ''always'', ''content_differs''} then Inl BadWriteOnceNotification
     else if cf_LogMode c \<notin> {''normal'', ''verbose''} then Inl (BadLogMode (cf_LogMode c))
     else if cf_Bucket c = [] then Inl BucketRequired
     else if cf_DataDir c = [] then Inl DataDirRequired
     else if cf_IndexHashBits c \<noteq> 0 \<and> (cf_IndexHashBits c < int indexHashBitsMin \<or> cf_IndexHashBits c > int indexHashBitsMax)
     then Inl (BadIndexHashBits (cf_IndexHashBits c))
     else if AgeLimit (cf_Eviction c) < 0 then Inl NegativeMaxAge
     else case (case ec_MaxBytes (cf_Eviction c) of Some n \<Rightarrow> Inr n | None \<Rightarrow> envMaxBytes env) of
       Inl e \<Rightarrow> Inl e
     | Inr n \<Rightarrow>
       let c = c\<lparr>cf_Eviction := (cf_Eviction c)\<lparr>ec_MaxBytes := Some n\<rparr>\<rparr> in
       if n < 0 then Inl NegativeMaxBytes
       else case checkCredentials c of Some e \<Rightarrow> Inl e | None \<Rightarrow> Inr c)"

subsection \<open>Credentials of a request\<close>

datatype authErr = MissingAuthorization | UnsupportedScheme | InvalidEncoding | InvalidFormat | EmptyBasic | InvalidCredentials

definition anonymousUser :: string where "anonymousUser = ''<ANON>''"

text \<open>\<^verbatim>\<open>strings.SplitN(s, ":", 2)\<close>, none when there is no colon.\<close>

definition splitColon :: "string \<Rightarrow> (string \<times> string) option" where
  "splitColon s = (case indexByte s CHR '':'' of None \<Rightarrow> None | Some i \<Rightarrow> Some (take i s, drop (Suc i) s))"

fun matchCredential :: "string \<Rightarrow> string \<Rightarrow> Credential list \<Rightarrow> string option" where
  "matchCredential u p [] = None"
| "matchCredential u p (c # cs) =
    (if cr_Username c = [] \<or> cr_Password c = [] then matchCredential u p cs
     else if cr_Username c = u \<and> cr_Password c = p then Some (cr_Username c)
     else matchCredential u p cs)"

definition authenticate :: "string \<Rightarrow> Config \<Rightarrow> authErr + string" where
  "authenticate auth c =
    (if cf_DisableAuth c then Inr anonymousUser
     else if auth = [] then Inl MissingAuthorization
     else if \<not> hasPrefix auth ''Basic '' then Inl UnsupportedScheme
     else case base64Decode (trimPrefix auth ''Basic '') of None \<Rightarrow> Inl InvalidEncoding
     | Some bs \<Rightarrow>
       (case splitColon (string_of bs) of None \<Rightarrow> Inl InvalidFormat
        | Some (u, p) \<Rightarrow>
          if u = [] \<or> p = [] then Inl EmptyBasic
          else (case matchCredential u p (cf_Credentials c) of None \<Rightarrow> Inl InvalidCredentials | Some user \<Rightarrow> Inr user)))"

text \<open>The header the client sends, \<^verbatim>\<open>req.SetBasicAuth\<close>.\<close>

definition basicAuth :: "string \<Rightarrow> string \<Rightarrow> string" where
  "basicAuth u p = ''Basic '' @ base64Encode (bytes_of (u @ '':'' @ p))"

section \<open>Base64 round trip\<close>

lemma b64Val_Char: "n < 64 \<Longrightarrow> b64Val (b64Char n) = Some n \<and> b64Char n \<noteq> CHR ''='' \<and> b64Char n \<noteq> CHR 0x0D \<and> b64Char n \<noteq> CHR 0x0A"
proof -
  have "\<forall>n \<in> set [0..<64]. b64Val (b64Char n) = Some n \<and> b64Char n \<noteq> CHR ''='' \<and> b64Char n \<noteq> CHR 0x0D \<and> b64Char n \<noteq> CHR 0x0A"
    by code_simp
  then show "n < 64 \<Longrightarrow> b64Val (b64Char n) = Some n \<and> b64Char n \<noteq> CHR ''='' \<and> b64Char n \<noteq> CHR 0x0D \<and> b64Char n \<noteq> CHR 0x0A" by simp
qed

lemma byte_back: "of_nat (unat (b :: byte)) = b" by simp

lemma b64_split:
  fixes a b c :: nat
  assumes "a < 256" "b < 256" "c < 256"
  defines "n \<equiv> a * 65536 + b * 256 + c"
  shows "n div 262144 < 64" "n div 4096 mod 64 < 64" "n div 64 mod 64 < 64" "n mod 64 < 64"
    "((n div 262144 * 64 + n div 4096 mod 64) * 64 + n div 64 mod 64) * 64 + n mod 64 = n"
    "n div 65536 = a" "n div 256 mod 256 = b" "n mod 256 = c"
proof -
  have "n < 16777216" using assms by simp
  then show "n div 262144 < 64" "n div 4096 mod 64 < 64" "n div 64 mod 64 < 64" "n mod 64 < 64" by simp_all
  have d: "n div 4096 = n div 64 div 64" "n div 262144 = n div 64 div 64 div 64" by (simp_all add: div_mult2_eq [symmetric])
  show "((n div 262144 * 64 + n div 4096 mod 64) * 64 + n div 64 mod 64) * 64 + n mod 64 = n"
    unfolding d by simp
  define x where "x = a * 256 + b"
  have m: "n = x * 256 + c" by (simp add: n_def x_def)
  have "n div 256 = x" "n mod 256 = c" using assms(3) by (simp_all add: m)
  then have "n div 256 = a * 256 + b" "n mod 256 = c" by (simp_all add: x_def)
  then show "n div 65536 = a" "n div 256 mod 256 = b" "n mod 256 = c"
    using assms div_mult2_eq [of n 256 256] by simp_all
qed

lemma b64Groups_encode:
  "b64Groups (base64Encode bs) = Some bs \<and> filter (\<lambda>c. c \<noteq> CHR 0x0D \<and> c \<noteq> CHR 0x0A) (base64Encode bs) = base64Encode bs"
proof (induction bs rule: base64Encode.induct)
  case 1
  then show ?case by simp
next
  case (2 a)
  have a: "unat a < 256" by (rule unat_byte_bound)
  have s: "unat a * 65536 div 262144 < 64" "unat a * 65536 div 4096 mod 64 < 64"
    using b64_split(1,2) [OF a, of 0 0] by (simp_all only: add_0_right mult_0 zero_less_numeral)
  have q: "(unat a * 65536 div 262144 * 64 + unat a * 65536 div 4096 mod 64) div 16 = unat a"
  proof -
    have "16 * m mod 64 = 16 * (m mod 4)" for m :: nat using mod_mult_mult1 [of 16 m 4] by simp
    moreover have "m div 4 * 64 + 16 * (m mod 4) = 16 * m" for m :: nat by presburger
    ultimately have "m div 4 * 64 + 16 * m mod 64 = 16 * m" for m :: nat by simp
    then show ?thesis by simp
  qed
  show ?case using b64Val_Char [OF s(1)] b64Val_Char [OF s(2)] q by (simp add: Let_def b64Join_def)
next
  case (3 a b)
  have a: "unat a < 256" "unat b < 256" by (rule unat_byte_bound)+
  define n where "n = unat a * 65536 + unat b * 256"
  note s = b64_split [OF a, of 0, unfolded add_0_right, OF zero_less_numeral, folded n_def]
  define p0 p1 p2 where p: "p0 = n div 262144" "p1 = n div 4096 mod 64" "p2 = n div 64 mod 64"
  have e: "base64Encode [a, b] = [b64Char p0, b64Char p1, b64Char p2, CHR ''='']" by (simp add: Let_def n_def p)
  note v = b64Val_Char [OF s(1), folded p] b64Val_Char [OF s(2), folded p] b64Val_Char [OF s(3), folded p]
  have "n = (unat a * 1024 + unat b * 4) * 64" by (simp add: n_def)
  then have "n mod 64 = 0" by (metis mod_mult_self2_is_0)
  then have "(p0 * 64 + p1) * 64 + p2 = n div 64" using s(5) [folded p] by simp
  moreover have "n div 64 div 1024 = unat a" "n div 64 div 4 mod 256 = unat b"
    using s(6,7) by (simp_all add: div_mult2_eq [symmetric])
  ultimately show ?case using v unfolding e by (simp add: b64Join_def)
next
  case (4 a b c rest)
  have a: "unat a < 256" "unat b < 256" "unat c < 256" by (rule unat_byte_bound)+
  define n where "n = unat a * 65536 + unat b * 256 + unat c"
  note s = b64_split [OF a, folded n_def]
  define p0 p1 p2 p3 where p: "p0 = n div 262144" "p1 = n div 4096 mod 64" "p2 = n div 64 mod 64" "p3 = n mod 64"
  have e: "base64Encode (a # b # c # rest) = b64Char p0 # b64Char p1 # b64Char p2 # b64Char p3 # base64Encode rest"
    by (simp add: Let_def n_def p)
  note v = b64Val_Char [OF s(1), folded p] b64Val_Char [OF s(2), folded p] b64Val_Char [OF s(3), folded p] b64Val_Char [OF s(4), folded p]
  have "b64Join [b64Char p0, b64Char p1, b64Char p2, b64Char p3] = Some n"
    using v s(5) [folded p] by (simp add: b64Join_def)
  then show ?case using 4 v unfolding e by (simp add: s(6-8))
qed

lemma base64_roundtrip: "base64Decode (base64Encode bs) = Some bs"
  using b64Groups_encode by (simp add: base64Decode_def)

section \<open>Credentials\<close>

lemma splitColon_Some: "splitColon s = Some (u, p) \<longleftrightarrow> s = u @ '':'' @ p \<and> CHR '':'' \<notin> set u"
proof
  assume "splitColon s = Some (u, p)"
  then obtain i where i: "indexByte s CHR '':'' = Some i" "u = take i s" "p = drop (Suc i) s" by (auto simp: splitColon_def split: option.splits)
  note x = indexByte_Some [OF i(1)]
  then show "s = u @ '':'' @ p \<and> CHR '':'' \<notin> set u" using i(2,3) id_take_nth_drop [of i s] by simp
next
  assume s: "s = u @ '':'' @ p \<and> CHR '':'' \<notin> set u"
  have "indexByte (u @ CHR '':'' # p) CHR '':'' = Some (length u)" if "CHR '':'' \<notin> set u" for u using that by (induction u) auto
  then show "splitColon s = Some (u, p)" using s by (simp add: splitColon_def)
qed

lemma matchCredential_Some:
  "matchCredential u p cs = Some user \<longleftrightarrow> user = u \<and> u \<noteq> [] \<and> p \<noteq> [] \<and> (\<exists>c \<in> set cs. cr_Username c = u \<and> cr_Password c = p)"
  by (induction cs) auto

lemma LoadConfig_parts:
  assumes "LoadConfig env c0 = Inr c"
  obtains n where "c = (withDefaults c0)\<lparr>cf_Eviction := (cf_Eviction (withDefaults c0))\<lparr>ec_MaxBytes := Some n\<rparr>\<rparr>" "0 \<le> n"
    "checkCredentials c = None" "cf_woAction c \<in> {''allow'', ''deny''}" "cf_woNotification c \<in> {''never'', ''always'', ''content_differs''}"
    "cf_LogMode c \<in> {''normal'', ''verbose''}" "cf_Bucket c \<noteq> []" "cf_DataDir c \<noteq> []" "0 \<le> AgeLimit (cf_Eviction c)"
    "cf_IndexHashBits c = 0 \<or> int indexHashBitsMin \<le> cf_IndexHashBits c \<and> cf_IndexHashBits c \<le> int indexHashBitsMax"
    "ec_MaxBytes (cf_Eviction c0) = Some n \<or> ec_MaxBytes (cf_Eviction c0) = None \<and> envMaxBytes env = Inr n"
proof -
  let ?c = "withDefaults c0"
  have e: "ec_MaxBytes (cf_Eviction ?c) = ec_MaxBytes (cf_Eviction c0)" by (simp add: withDefaults_def)
  obtain n where n: "(case ec_MaxBytes (cf_Eviction ?c) of Some n \<Rightarrow> Inr n | None \<Rightarrow> envMaxBytes env) = Inr n"
      "c = ?c\<lparr>cf_Eviction := (cf_Eviction ?c)\<lparr>ec_MaxBytes := Some n\<rparr>\<rparr>" "0 \<le> n" "checkCredentials c = None"
    using assms unfolding LoadConfig_def Let_def by (simp split: if_splits sum.splits [where 'a = configErr] option.splits [where 'a = configErr])
  show thesis
    by (rule that [OF n(2-4)]) (use assms n(1) e in \<open>auto simp: LoadConfig_def Let_def n(2) AgeLimit_def not_less split: if_splits option.splits\<close>)
qed

lemma emptyCredential_None: "emptyCredential i cs = None \<longleftrightarrow> (\<forall>c \<in> set cs. cr_Username c \<noteq> [] \<and> cr_Password c \<noteq> [])"
  by (induction i cs rule: emptyCredential.induct) auto

section \<open>Properties\<close>

text \<open>(C27) A server that checks credentials admits exactly the bearers of one.  With a configuration that
  loads and does not set \<^verbatim>\<open>disable_auth\<close> (which admits every request as the anonymous user), a request is
  admitted as a user exactly when its header carries, in basic encoding, that user's name and the password
  configured with it, and the name has no colon in it.  The header the client builds from a configured credential is
  admitted, when the name has no colon in it; a user whose configured name has one is never admitted.\<close>

theorem authenticate_iff:
  assumes "LoadConfig env c0 = Inr c" "\<not> cf_DisableAuth c"
  shows "(authenticate auth c = Inr user \<longleftrightarrow>
      (\<exists>payload p. auth = ''Basic '' @ payload \<and> base64Decode payload = Some (bytes_of (user @ '':'' @ p)) \<and> CHR '':'' \<notin> set user \<and>
         (\<exists>cr \<in> set (cf_Credentials c). cr_Username cr = user \<and> cr_Password cr = p))) \<and>
    (\<forall>cr \<in> set (cf_Credentials c). CHR '':'' \<notin> set (cr_Username cr) \<longrightarrow>
       authenticate (basicAuth (cr_Username cr) (cr_Password cr)) c = Inr (cr_Username cr))"
proof -
  obtain n where "checkCredentials c = None" by (rule LoadConfig_parts [OF assms(1)])
  then have full: "cr_Username cr \<noteq> [] \<and> cr_Password cr \<noteq> []" if "cr \<in> set (cf_Credentials c)" for cr
    using that assms(2) by (auto simp: checkCredentials_def emptyCredential_None split: if_splits)
  have one: "authenticate a c = Inr u \<longleftrightarrow>
      (\<exists>payload p. a = ''Basic '' @ payload \<and> base64Decode payload = Some (bytes_of (u @ '':'' @ p)) \<and> CHR '':'' \<notin> set u \<and>
         (\<exists>cr \<in> set (cf_Credentials c). cr_Username cr = u \<and> cr_Password cr = p))" (is "?l = ?r") for a u
  proof
    assume ?l
    then obtain bs p where b: "hasPrefix a ''Basic ''" "base64Decode (trimPrefix a ''Basic '') = Some bs" "splitColon (string_of bs) = Some (u, p)"
        "matchCredential u p (cf_Credentials c) = Some u"
      using assms(2) by (auto simp: authenticate_def matchCredential_Some split: if_splits option.splits)
    then have "a = ''Basic '' @ trimPrefix a ''Basic ''" using hasPrefixD [OF b(1)] by (simp add: trimPrefix_def)
    moreover have "bs = bytes_of (u @ '':'' @ p)" "CHR '':'' \<notin> set u" using b(3) unfolding splitColon_Some string_of_eq_iff by blast+
    ultimately show ?r using b(2,4) unfolding matchCredential_Some by metis
  next
    assume ?r
    then obtain payload p cr where r: "a = ''Basic '' @ payload" "base64Decode payload = Some (bytes_of (u @ '':'' @ p))" "CHR '':'' \<notin> set u"
        "cr \<in> set (cf_Credentials c)" "cr_Username cr = u" "cr_Password cr = p" by blast
    have "splitColon (string_of (bytes_of (u @ '':'' @ p))) = Some (u, p)" using r(3) unfolding splitColon_Some string_of_bytes_of by simp
    moreover have "matchCredential u p (cf_Credentials c) = Some u" "u \<noteq> []" "p \<noteq> []"
      using r(4-6) full [OF r(4)] unfolding matchCredential_Some by auto
    moreover have "trimPrefix a ''Basic '' = payload" "hasPrefix a ''Basic ''" "a \<noteq> []" unfolding r(1) by (simp_all add: trimPrefix_def hasPrefix_def)
    ultimately show ?l using assms(2) r(2) unfolding authenticate_def by simp
  qed
  have "authenticate (basicAuth (cr_Username cr) (cr_Password cr)) c = Inr (cr_Username cr)"
    if "cr \<in> set (cf_Credentials c)" "CHR '':'' \<notin> set (cr_Username cr)" for cr
    unfolding one basicAuth_def using that base64_roundtrip by blast
  then show ?thesis using one by blast
qed

definition demoConfig :: Config where
  "demoConfig = \<lparr>cf_Listen = [], cf_MetricsListen = [], cf_Bucket = ''b'', cf_DataDir = ''/d'', cf_woAction = [], cf_woNotification = [],
     cf_DisableAuth = False, cf_Credentials = [\<lparr>cr_Username = ''u'', cr_Password = ''p''\<rparr>], cf_LogMode = [], cf_DashboardListen = None,
     cf_MaxConcurrentRequests = 0, cf_IndexBlobInterval = None, cf_IndexHashBits = 0, cf_MaxObjectBytes = 0, cf_Prefetch = None,
     cf_Eviction = \<lparr>ec_MaxAge = 0, ec_MaxBytes = None, ec_Interval = 0\<rparr>\<rparr>"

definition demoLoaded :: Config where
  "demoLoaded = (withDefaults demoConfig)\<lparr>cf_Eviction := \<lparr>ec_MaxAge = 0, ec_MaxBytes = Some defaultEvictionMaxBytes, ec_Interval = defaultEvictionInterval\<rparr>\<rparr>"

lemma demoConfig_loads: "LoadConfig [] demoConfig = Inr demoLoaded"
  by (simp add: LoadConfig_def demoLoaded_def withDefaults_def demoConfig_def Let_def AgeLimit_def envMaxBytes_def trimSpace_def
      checkCredentials_def defaultEvictionMaxBytes_def)

lemma authenticate_iff_witness:
  "LoadConfig [] demoConfig = Inr demoLoaded \<and> \<not> cf_DisableAuth demoLoaded \<and> authenticate (basicAuth ''u'' ''p'') demoLoaded = Inr ''u''"
proof -
  have d: "\<not> cf_DisableAuth demoLoaded" "cf_Credentials demoLoaded = [\<lparr>cr_Username = ''u'', cr_Password = ''p''\<rparr>]"
    by (simp_all add: demoLoaded_def withDefaults_def demoConfig_def)
  show ?thesis using authenticate_iff [OF demoConfig_loads d(1)] d demoConfig_loads by simp
qed

text \<open>What the operator has to have written for a configuration to load.\<close>

definition configLoadable :: "string \<Rightarrow> Config \<Rightarrow> bool" where
  "configLoadable env c \<longleftrightarrow> cf_woAction c \<in> {[], ''allow'', ''deny''} \<and> cf_woNotification c \<in> {[], ''never'', ''always'', ''content_differs''} \<and>
    cf_LogMode c \<in> {[], ''normal'', ''verbose''} \<and> cf_Bucket c \<noteq> [] \<and> cf_DataDir c \<noteq> [] \<and>
    (cf_IndexHashBits c = 0 \<or> 32 \<le> cf_IndexHashBits c \<and> cf_IndexHashBits c \<le> 64) \<and> 0 \<le> ec_MaxAge (cf_Eviction c) \<and>
    (case ec_MaxBytes (cf_Eviction c) of Some n \<Rightarrow> 0 \<le> n | None \<Rightarrow> trimSpace env = [] \<or> (\<exists>n. parseByteSize (trimSpace env) = Inr n)) \<and>
    (if cf_DisableAuth c then cf_Credentials c = []
     else cf_Credentials c \<noteq> [] \<and> (\<forall>cr \<in> set (cf_Credentials c). cr_Username cr \<noteq> [] \<and> cr_Password cr \<noteq> []))"

lemma cutUnit_factor: "cutUnit us up = (rest, factor) \<Longrightarrow> factor = 1 \<or> factor \<in> snd ` set us"
  by (induction us up rule: cutUnit.induct) (auto split: if_splits)

lemma parseByteSize_nonneg: "parseByteSize t = Inr n \<Longrightarrow> 0 \<le> n"
proof -
  assume ok: "parseByteSize t = Inr n"
  obtain up k where k: "cutUnit byteSizeUnits (toUpper (trimSpace t)) = (up, k)" by fastforce
  have "0 \<le> k" using cutUnit_factor [OF k] by (auto simp: byteSizeUnits_def)
  with ok show "0 \<le> n" by (auto simp: parseByteSize_def k split: option.splits if_splits)
qed

lemma LoadConfig_loadable:
  assumes "LoadConfig env c0 = Inr c" shows "configLoadable env c0"
proof -
  obtain n where p: "c = (withDefaults c0)\<lparr>cf_Eviction := (cf_Eviction (withDefaults c0))\<lparr>ec_MaxBytes := Some n\<rparr>\<rparr>" "0 \<le> n"
    "checkCredentials c = None" "cf_woAction c \<in> {''allow'', ''deny''}" "cf_woNotification c \<in> {''never'', ''always'', ''content_differs''}"
    "cf_LogMode c \<in> {''normal'', ''verbose''}" "cf_Bucket c \<noteq> []" "cf_DataDir c \<noteq> []" "0 \<le> AgeLimit (cf_Eviction c)"
    "cf_IndexHashBits c = 0 \<or> int indexHashBitsMin \<le> cf_IndexHashBits c \<and> cf_IndexHashBits c \<le> int indexHashBitsMax"
    "ec_MaxBytes (cf_Eviction c0) = Some n \<or> ec_MaxBytes (cf_Eviction c0) = None \<and> envMaxBytes env = Inr n"
    by (rule LoadConfig_parts [OF assms])
  have w: "cf_woAction c0 \<in> {[], ''allow'', ''deny''}" "cf_woNotification c0 \<in> {[], ''never'', ''always'', ''content_differs''}"
    "cf_LogMode c0 \<in> {[], ''normal'', ''verbose''}"
    using p(4-6) unfolding p(1) by (auto simp: withDefaults_def split: if_splits)
  have f: "cf_Bucket c0 \<noteq> []" "cf_DataDir c0 \<noteq> []" "0 \<le> ec_MaxAge (cf_Eviction c0)"
    "cf_IndexHashBits c0 = 0 \<or> 32 \<le> cf_IndexHashBits c0 \<and> cf_IndexHashBits c0 \<le> 64"
    using p(7-10) unfolding p(1) by (simp_all add: withDefaults_def AgeLimit_def indexHashBitsMin_def indexHashBitsMax_def)
  have c: "cf_DisableAuth c = cf_DisableAuth c0" "cf_Credentials c = cf_Credentials c0" unfolding p(1) by (simp_all add: withDefaults_def)
  have "if cf_DisableAuth c then cf_Credentials c = []
     else cf_Credentials c \<noteq> [] \<and> (\<forall>cr \<in> set (cf_Credentials c). cr_Username cr \<noteq> [] \<and> cr_Password cr \<noteq> [])"
    using p(3) by (auto simp: checkCredentials_def emptyCredential_None split: if_splits)
  then have k: "if cf_DisableAuth c0 then cf_Credentials c0 = []
     else cf_Credentials c0 \<noteq> [] \<and> (\<forall>cr \<in> set (cf_Credentials c0). cr_Username cr \<noteq> [] \<and> cr_Password cr \<noteq> [])"
    unfolding c .
  have b: "case ec_MaxBytes (cf_Eviction c0) of Some n \<Rightarrow> 0 \<le> n | None \<Rightarrow> trimSpace env = [] \<or> (\<exists>n. parseByteSize (trimSpace env) = Inr n)"
    using p(2,11) by (auto simp: envMaxBytes_def Let_def split: if_splits sum.splits)
  show ?thesis unfolding configLoadable_def using w f k b by blast
qed

lemma LoadConfig_total:
  assumes "configLoadable env c0" shows "\<exists>c. LoadConfig env c0 = Inr c"
proof -
  let ?c = "withDefaults c0"
  note l = assms [unfolded configLoadable_def]
  have e: "ec_MaxBytes (cf_Eviction ?c) = ec_MaxBytes (cf_Eviction c0)" "AgeLimit (cf_Eviction ?c) = ec_MaxAge (cf_Eviction c0)"
    "cf_Bucket ?c = cf_Bucket c0" "cf_DataDir ?c = cf_DataDir c0" "cf_IndexHashBits ?c = cf_IndexHashBits c0"
    by (simp_all add: withDefaults_def AgeLimit_def)
  have w: "cf_woAction ?c \<in> {''allow'', ''deny''}" "cf_woNotification ?c \<in> {''never'', ''always'', ''content_differs''}"
    "cf_LogMode ?c \<in> {''normal'', ''verbose''}"
    using l by (auto simp: withDefaults_def)
  obtain n where n: "(case ec_MaxBytes (cf_Eviction c0) of Some n \<Rightarrow> Inr n | None \<Rightarrow> envMaxBytes env) = Inr n" "0 \<le> n"
  proof (cases "ec_MaxBytes (cf_Eviction c0)")
    case None
    then have "trimSpace env = [] \<or> (\<exists>n. parseByteSize (trimSpace env) = Inr n)" using l by simp
    then obtain n where "envMaxBytes env = Inr n" "0 \<le> n"
      using parseByteSize_nonneg by (cases "trimSpace env = []") (auto simp: envMaxBytes_def Let_def defaultEvictionMaxBytes_def)
    then show thesis using that None by simp
  next
    case (Some m)
    then show thesis using that l by simp
  qed
  have k: "checkCredentials (?c\<lparr>cf_Eviction := x\<rparr>) = None" for x
    using l by (auto simp: checkCredentials_def withDefaults_def emptyCredential_None split: if_splits)
  have h: "\<not> (cf_IndexHashBits c0 \<noteq> 0 \<and> (cf_IndexHashBits c0 < int indexHashBitsMin \<or> int indexHashBitsMax < cf_IndexHashBits c0))"
    using l by (auto simp: indexHashBitsMin_def indexHashBitsMax_def)
  have "0 \<le> ec_MaxAge (cf_Eviction c0)" "cf_Bucket c0 \<noteq> []" "cf_DataDir c0 \<noteq> []" using l by blast+
  with w h n(2) show ?thesis unfolding LoadConfig_def Let_def e n(1) by (simp add: k del: insert_iff)
qed

text \<open>(C28) Which configurations load, and with what.  A configuration loads exactly when the bucket and the data
  directory are named, the write-once action and notification and the log mode are absent or one of those the code
  knows, the hash width is zero or 32 to 64, the maximal age is not negative, the eviction budget is not
  negative - where it is absent, the one of the environment reads as a byte size or is absent too - and either the
  check of credentials is switched off and there are none, or there is a credential and none has an empty part.  The
  loaded configuration has every absent field set: a listen address, choices out of those known, positive limits on
  requests and object size and a positive interval; a maximal age and a budget that are not negative
  (zero switches the rule off); the budget is the one configured, else the one of the environment, else the
  built-in one.\<close>

theorem LoadConfig_ok:
  "((\<exists>c. LoadConfig env c0 = Inr c) \<longleftrightarrow> configLoadable env c0) \<and>
   (\<forall>c. LoadConfig env c0 = Inr c \<longrightarrow>
    cf_Bucket c \<noteq> [] \<and> cf_DataDir c \<noteq> [] \<and> cf_Listen c \<noteq> [] \<and>
    cf_woAction c \<in> {''allow'', ''deny''} \<and> cf_woNotification c \<in> {''never'', ''always'', ''content_differs''} \<and>
    cf_LogMode c \<in> {''normal'', ''verbose''} \<and> 0 \<le> AgeLimit (cf_Eviction c) \<and>
    0 < cf_MaxConcurrentRequests c \<and> 0 < cf_MaxObjectBytes c \<and> 0 < ec_Interval (cf_Eviction c) \<and>
    (cf_IndexHashBits c = 0 \<or> 32 \<le> cf_IndexHashBits c \<and> cf_IndexHashBits c \<le> 64) \<and> 0 \<le> SizeLimit (cf_Eviction c) \<and>
    SizeLimit (cf_Eviction c) = (case ec_MaxBytes (cf_Eviction c0) of Some n \<Rightarrow> n
       | None \<Rightarrow> if trimSpace env = [] then defaultEvictionMaxBytes else projr (parseByteSize (trimSpace env))) \<and>
    (if cf_DisableAuth c then cf_Credentials c = []
     else cf_Credentials c \<noteq> [] \<and> (\<forall>cr \<in> set (cf_Credentials c). cr_Username cr \<noteq> [] \<and> cr_Password cr \<noteq> [])))"
  (is "_ \<and> (\<forall>c. _ \<longrightarrow> ?ok c)")
proof -
  have ok: "?ok c \<and> configLoadable env c0" if load: "LoadConfig env c0 = Inr c" for c
  proof -
    obtain n where p: "c = (withDefaults c0)\<lparr>cf_Eviction := (cf_Eviction (withDefaults c0))\<lparr>ec_MaxBytes := Some n\<rparr>\<rparr>" "0 \<le> n"
      "checkCredentials c = None" "cf_woAction c \<in> {''allow'', ''deny''}" "cf_woNotification c \<in> {''never'', ''always'', ''content_differs''}"
      "cf_LogMode c \<in> {''normal'', ''verbose''}" "cf_Bucket c \<noteq> []" "cf_DataDir c \<noteq> []" "0 \<le> AgeLimit (cf_Eviction c)"
      "cf_IndexHashBits c = 0 \<or> int indexHashBitsMin \<le> cf_IndexHashBits c \<and> cf_IndexHashBits c \<le> int indexHashBitsMax"
      "ec_MaxBytes (cf_Eviction c0) = Some n \<or> ec_MaxBytes (cf_Eviction c0) = None \<and> envMaxBytes env = Inr n"
      by (rule LoadConfig_parts [OF load])
    have d: "0 < cf_MaxConcurrentRequests c" "0 < cf_MaxObjectBytes c" "0 < ec_Interval (cf_Eviction c)" "cf_Listen c \<noteq> []"
      unfolding p(1) by (simp_all add: withDefaults_def defaultMaxConcurrentRequests_def defaultMaxObjectBytes_def defaultEvictionInterval_def)
    have n: "SizeLimit (cf_Eviction c) = n" unfolding p(1) by (simp add: SizeLimit_def)
    have n': "n = (case ec_MaxBytes (cf_Eviction c0) of Some n \<Rightarrow> n
         | None \<Rightarrow> if trimSpace env = [] then defaultEvictionMaxBytes else projr (parseByteSize (trimSpace env)))"
      using p(11) by (auto simp: envMaxBytes_def Let_def split: if_splits sum.splits)
    have cr: "if cf_DisableAuth c then cf_Credentials c = []
       else cf_Credentials c \<noteq> [] \<and> (\<forall>cr \<in> set (cf_Credentials c). cr_Username cr \<noteq> [] \<and> cr_Password cr \<noteq> [])"
      using p(3) by (auto simp: checkCredentials_def emptyCredential_None split: if_splits)
    have h: "cf_IndexHashBits c = 0 \<or> 32 \<le> cf_IndexHashBits c \<and> cf_IndexHashBits c \<le> 64"
      using p(10) by (simp add: indexHashBitsMin_def indexHashBitsMax_def)
    have "?ok c" using p(2,4-9) d n n' cr h by metis
    moreover have "configLoadable env c0" by (rule LoadConfig_loadable [OF load])
    ultimately show ?thesis by blast
  qed
  then show ?thesis using LoadConfig_total by blast
qed

lemma LoadConfig_ok_witness:
  "configLoadable [] demoConfig \<and> LoadConfig [] demoConfig = Inr demoLoaded \<and> SizeLimit (cf_Eviction demoLoaded) = 50 * 2 ^ 30 \<and>
   cf_LogMode demoLoaded \<in> {''normal'', ''verbose''} \<and> 0 < cf_MaxObjectBytes demoLoaded \<and>
   (\<nexists>c. LoadConfig [] (demoConfig\<lparr>cf_LogMode := ''quiet''\<rparr>) = Inr c)"
proof -
  have "ec_MaxBytes (cf_Eviction demoConfig) = None" by (simp add: demoConfig_def)
  then have "configLoadable [] demoConfig \<and> SizeLimit (cf_Eviction demoLoaded) = 50 * 2 ^ 30 \<and>
     cf_LogMode demoLoaded \<in> {''normal'', ''verbose''} \<and> 0 < cf_MaxObjectBytes demoLoaded"
    using LoadConfig_ok [of "[]" demoConfig] demoConfig_loads by (simp add: trimSpace_def defaultEvictionMaxBytes_def)
  moreover have "\<not> configLoadable [] (demoConfig\<lparr>cf_LogMode := ''quiet''\<rparr>)" by (simp add: configLoadable_def)
  ultimately show ?thesis using LoadConfig_ok [of "[]" "demoConfig\<lparr>cf_LogMode := ''quiet''\<rparr>"] demoConfig_loads by simp
qed

subsection \<open>Byte sizes\<close>

lemma digit_not_unit: "digitVal d \<noteq> None \<Longrightarrow> d \<notin> set ''BIKMGT''"
proof -
  have "\<forall>c \<in> set ''BIKMGT''. digitVal c = None" by code_simp
  then show "digitVal d \<noteq> None \<Longrightarrow> d \<notin> set ''BIKMGT''" by auto
qed

lemma hasSuffix_digits:
  assumes "ds \<noteq> []" "last ds \<notin> set p" shows "hasSuffix (ds @ suffix) p = hasSuffix suffix p"
proof (cases "length p \<le> length suffix")
  case True
  then show ?thesis by (simp add: hasSuffix_def hasPrefix_def)
next
  case False
  then have "take (length p) (rev suffix @ rev ds) ! length suffix = last ds"
    using assms(1) by (cases "rev ds") (auto simp: nth_append last_rev [symmetric])
  moreover have "rev p ! length suffix \<in> set p" using False by (metis linorder_not_le length_rev nth_mem set_rev)
  ultimately have "\<not> hasSuffix (ds @ suffix) p" using assms(2) by (auto simp: hasSuffix_def hasPrefix_def)
  moreover have "\<not> hasSuffix suffix p" using False by (auto simp: hasSuffix_def hasPrefix_def dest: arg_cong [where f = length])
  ultimately show ?thesis by simp
qed

lemma cutUnit_digits:
  assumes "ds \<noteq> []" "\<forall>u \<in> set us. last ds \<notin> set (fst u)"
  shows "cutUnit us (ds @ suffix) = (ds @ fst (cutUnit us suffix), snd (cutUnit us suffix))"
  using assms(2)
proof (induction us)
  case (Cons u us)
  obtain p f where u: "u = (p, f)" by fastforce
  have "length p \<le> length suffix" if "hasSuffix suffix p" using arg_cong [OF that [unfolded hasSuffix_def hasPrefix_def], of length] by simp
  then show ?case using Cons hasSuffix_digits [OF assms(1), of p suffix] by (auto simp: u)
qed simp

lemma cutUnit_unit:
  assumes "(suffix, factor) \<in> set (([], 1) # byteSizeUnits)" "ds \<noteq> []" "digitVal (last ds) \<noteq> None"
  shows "cutUnit byteSizeUnits (ds @ suffix) = (ds, factor)"
proof -
  have "\<forall>u \<in> set (([], 1) # byteSizeUnits). cutUnit byteSizeUnits (fst u) = ([], snd u)" by code_simp
  then have "cutUnit byteSizeUnits suffix = ([], factor)" using assms(1) by fastforce
  moreover have "\<forall>u \<in> set byteSizeUnits. set (fst u) \<subseteq> set ''BIKMGT''" by (simp add: byteSizeUnits_def)
  then have "\<forall>u \<in> set byteSizeUnits. last ds \<notin> set (fst u)" using digit_not_unit [OF assms(3)] by blast
  ultimately show ?thesis using cutUnit_digits [OF assms(2), of byteSizeUnits suffix] by simp
qed

lemma digit_not_space: "digitVal c \<noteq> None \<Longrightarrow> \<not> isSpaceChar c"
  by (auto simp: digitVal_def isSpaceChar_def Let_def split: if_splits)

lemma trimSpace_digits: "\<forall>c \<in> set ds. digitVal c \<noteq> None \<Longrightarrow> trimSpace ds = ds"
proof -
  assume d: "\<forall>c \<in> set ds. digitVal c \<noteq> None"
  have "dropWhile isSpaceChar xs = xs" if "\<forall>c \<in> set xs. \<not> isSpaceChar c" for xs using that by (cases xs) auto
  from this [of ds] this [of "rev ds"] show ?thesis using d digit_not_space by (simp add: trimSpace_def)
qed



end
