(* ===== verification/SlotQueue.thy ===== *)
theory SlotQueue
  imports Prelude "HOL-Library.Multiset"
begin

text \<open>
  Admission control (\<^verbatim>\<open>admit.go\<close>): a fixed number of work slots, and two queues of waiters in
  arrival order, demand before prefetch.  A call of \<^verbatim>\<open>take\<close> is two critical sections with a wait in
  between, so it is two steps here: \<open>takeEnter\<close> and \<open>takeLeave\<close>.  A waiter is its identity; the queue
  remembers which waiters have been granted a slot.  Runs are a step relation over which requests interleave
  freely, with the set of requests that hold a slot.
\<close>

record slotQueue =
  sq_free :: nat
  sq_demand :: "nat list"
  sq_prefetch :: "nat list"
  sq_granted :: "nat set"

definition newSlotQueue :: "nat \<Rightarrow> slotQueue" where
  "newSlotQueue slots = \<lparr>sq_free = slots, sq_demand = [], sq_prefetch = [], sq_granted = {}\<rparr>"

definition tryTake :: "slotQueue \<Rightarrow> bool \<times> slotQueue" where
  "tryTake q = (if sq_free q = 0 then (False, q) else (True, q\<lparr>sq_free := sq_free q - 1\<rparr>))"

definition waiting :: "slotQueue \<Rightarrow> nat" where
  "waiting q = length (sq_demand q) + length (sq_prefetch q)"

definition releaseLocked :: "slotQueue \<Rightarrow> slotQueue" where
  "releaseLocked q =
     (case sq_demand q of
        w # ws \<Rightarrow> q\<lparr>sq_demand := ws, sq_granted := insert w (sq_granted q)\<rparr>
      | [] \<Rightarrow>
          (case sq_prefetch q of
             w # ws \<Rightarrow> q\<lparr>sq_prefetch := ws, sq_granted := insert w (sq_granted q)\<rparr>
           | [] \<Rightarrow> q\<lparr>sq_free := sq_free q + 1\<rparr>))"

text \<open>The first critical section of \<^verbatim>\<open>take\<close>: a slot at once, a refusal, or a place in a queue.\<close>

datatype enterResult = Entered bool | Queued

definition takeEnter :: "nat \<Rightarrow> bool \<Rightarrow> nat \<Rightarrow> slotQueue \<Rightarrow> enterResult \<times> slotQueue" where
  "takeEnter waiter prefetch maxQueued q =
     (if sq_free q > 0 then (Entered True, q\<lparr>sq_free := sq_free q - 1\<rparr>)
      else if length (sq_demand q) + length (sq_prefetch q) \<ge> maxQueued then (Entered False, q)
      else if prefetch then (Queued, q\<lparr>sq_prefetch := sq_prefetch q @ [waiter]\<rparr>)
      else (Queued, q\<lparr>sq_demand := sq_demand q @ [waiter]\<rparr>))"

text \<open>After the wait: woken by the grant, or by the timer or the end of the request's context.  \<open>ctxErr\<close>
  says the context has ended.\<close>

datatype wake = WakeReady | WakeTimeout

definition takeLeave :: "nat \<Rightarrow> bool \<Rightarrow> wake \<Rightarrow> bool \<Rightarrow> slotQueue \<Rightarrow> bool \<times> slotQueue" where
  "takeLeave waiter prefetch w ctxErr q =
     (case w of
        WakeReady \<Rightarrow> (True, q)
      | WakeTimeout \<Rightarrow>
          if waiter \<notin> sq_granted q
          then (False, if prefetch then q\<lparr>sq_prefetch := removeAll waiter (sq_prefetch q)\<rparr>
                       else q\<lparr>sq_demand := removeAll waiter (sq_demand q)\<rparr>)
          else if ctxErr then (False, releaseLocked q)
          else (True, q))"

subsection \<open>Runs\<close>

text \<open>\<open>H\<close> are the requests that hold a slot, \<open>W\<close> those inside the wait of \<^verbatim>\<open>take\<close> with their class,
  \<open>N\<close> the identities used so far.\<close>

inductive slotRun :: "nat \<Rightarrow> nat \<Rightarrow> slotQueue \<Rightarrow> nat set \<Rightarrow> (nat \<times> bool) set \<Rightarrow> nat set \<Rightarrow> bool"
  for slots maxQueued where
  sr_init: "slotRun slots maxQueued (newSlotQueue slots) {} {} {}"
| sr_try: "slotRun slots maxQueued q H W N \<Longrightarrow> w \<notin> N \<Longrightarrow> tryTake q = (True, q') \<Longrightarrow>
    slotRun slots maxQueued q' (insert w H) W (insert w N)"
| sr_enter: "slotRun slots maxQueued q H W N \<Longrightarrow> w \<notin> N \<Longrightarrow> takeEnter w p maxQueued q = (Entered True, q') \<Longrightarrow>
    slotRun slots maxQueued q' (insert w H) W (insert w N)"
| sr_refuse: "slotRun slots maxQueued q H W N \<Longrightarrow> w \<notin> N \<Longrightarrow> takeEnter w p maxQueued q = (Entered False, q') \<Longrightarrow>
    slotRun slots maxQueued q' H W (insert w N)"
| sr_queue: "slotRun slots maxQueued q H W N \<Longrightarrow> w \<notin> N \<Longrightarrow> takeEnter w p maxQueued q = (Queued, q') \<Longrightarrow>
    slotRun slots maxQueued q' H (insert (w, p) W) (insert w N)"
| sr_ready: "slotRun slots maxQueued q H W N \<Longrightarrow> (w, p) \<in> W \<Longrightarrow> w \<in> sq_granted q \<Longrightarrow>
    takeLeave w p WakeReady ctxErr q = (True, q') \<Longrightarrow> slotRun slots maxQueued q' (insert w H) (W - {(w, p)}) N"
| sr_late: "slotRun slots maxQueued q H W N \<Longrightarrow> (w, p) \<in> W \<Longrightarrow>
    takeLeave w p WakeTimeout ctxErr q = (True, q') \<Longrightarrow> slotRun slots maxQueued q' (insert w H) (W - {(w, p)}) N"
| sr_giveup: "slotRun slots maxQueued q H W N \<Longrightarrow> (w, p) \<in> W \<Longrightarrow>
    takeLeave w p WakeTimeout ctxErr q = (False, q') \<Longrightarrow> slotRun slots maxQueued q' H (W - {(w, p)}) N"
| sr_release: "slotRun slots maxQueued q H W N \<Longrightarrow> w \<in> H \<Longrightarrow>
    slotRun slots maxQueued (releaseLocked q) (H - {w}) W N"

definition pendingGrants :: "slotQueue \<Rightarrow> (nat \<times> bool) set \<Rightarrow> nat set" where
  "pendingGrants q W = {w \<in> fst ` W. w \<in> sq_granted q}"

definition slotInv :: "nat \<Rightarrow> nat \<Rightarrow> slotQueue \<Rightarrow> nat set \<Rightarrow> (nat \<times> bool) set \<Rightarrow> nat set \<Rightarrow> bool" where
  "slotInv slots maxQueued q H W N \<longleftrightarrow>
     finite H \<and> finite W \<and> inj_on fst W \<and> H \<subseteq> N \<and> fst ` W \<subseteq> N \<and> sq_granted q \<subseteq> N \<and> H \<inter> fst ` W = {} \<and>
     distinct (sq_demand q) \<and> distinct (sq_prefetch q) \<and>
     set (sq_demand q) = {w. (w, False) \<in> W \<and> w \<notin> sq_granted q} \<and>
     set (sq_prefetch q) = {w. (w, True) \<in> W \<and> w \<notin> sq_granted q} \<and>
     sq_free q + card H + card (pendingGrants q W) = slots \<and>
     (sq_free q > 0 \<longrightarrow> sq_demand q = [] \<and> sq_prefetch q = []) \<and>
     waiting q \<le> maxQueued"

lemma class_unique: "inj_on fst W \<Longrightarrow> (w, p) \<in> W \<Longrightarrow> (w, p') \<in> W \<Longrightarrow> p = p'"
  by (metis fst_conv inj_onD snd_conv)

lemma card_grant:
  assumes "finite W" "w \<in> fst ` W" "w \<notin> sq_granted q"
  shows "card (pendingGrants (q\<lparr>sq_granted := insert w (sq_granted q)\<rparr>) W) = Suc (card (pendingGrants q W))"
proof -
  have "pendingGrants (q\<lparr>sq_granted := insert w (sq_granted q)\<rparr>) W = insert w (pendingGrants q W)"
    using assms by (auto simp: pendingGrants_def)
  then show ?thesis using assms by (simp add: pendingGrants_def)
qed

text \<open>Handing back a slot, seen as one more slot to place.\<close>

lemma slotInv_release:
  assumes "slotInv (slots - 1) maxQueued q H W N" "slots > 0"
    "sq_demand q = [] \<or> sq_free q = 0" "sq_prefetch q = [] \<or> sq_free q = 0"
  shows "slotInv slots maxQueued (releaseLocked q) H W N"
proof -
  have fin: "finite W" using assms(1) by (simp add: slotInv_def)
  show ?thesis
proof (cases "sq_demand q")
  case (Cons w ws)
  have w: "(w, False) \<in> W" "w \<notin> sq_granted q" using assms(1) Cons by (auto simp: slotInv_def)
  have g: "card (pendingGrants (q\<lparr>sq_granted := insert w (sq_granted q)\<rparr>) W) = Suc (card (pendingGrants q W))"
    by (rule card_grant [OF fin _ w(2)]) (use w(1) in force)
  have "(w, True) \<notin> W" using class_unique [of W w False True] w(1) assms(1) by (auto simp: slotInv_def)
  then show ?thesis using assms w g Cons
    by (auto simp: slotInv_def releaseLocked_def waiting_def pendingGrants_def)
next
  case Nil
  show ?thesis
  proof (cases "sq_prefetch q")
    case (Cons w ws)
    have w: "(w, True) \<in> W" "w \<notin> sq_granted q" using assms(1) Cons by (auto simp: slotInv_def)
    have g: "card (pendingGrants (q\<lparr>sq_granted := insert w (sq_granted q)\<rparr>) W) = Suc (card (pendingGrants q W))"
      by (rule card_grant [OF fin _ w(2)]) (use w(1) in force)
    have "(w, False) \<notin> W" using class_unique [of W w False True] w(1) assms(1) by (auto simp: slotInv_def)
    then show ?thesis using assms w g Cons Nil
      by (auto simp: slotInv_def releaseLocked_def waiting_def pendingGrants_def)
  next
    case pn: Nil
    show ?thesis using assms Nil pn by (auto simp: slotInv_def releaseLocked_def waiting_def pendingGrants_def)
  qed
qed
qed

lemma slotInv_take:
  assumes "slotInv slots maxQueued q H W N" "w \<notin> N" "sq_free q > 0"
  shows "slotInv slots maxQueued (q\<lparr>sq_free := sq_free q - 1\<rparr>) (insert w H) W (insert w N)"
proof -
  have "w \<notin> H" "w \<notin> fst ` W" using assms(1,2) by (auto simp: slotInv_def)
  then show ?thesis using assms by (auto simp: slotInv_def waiting_def pendingGrants_def)
qed

lemma slotInv_queue:
  assumes "slotInv slots maxQueued q H W N" "w \<notin> N" "sq_free q = 0" "waiting q < maxQueued"
  shows "slotInv slots maxQueued (if p then q\<lparr>sq_prefetch := sq_prefetch q @ [w]\<rparr> else q\<lparr>sq_demand := sq_demand q @ [w]\<rparr>)
    H (insert (w, p) W) (insert w N)"
proof -
  have w: "w \<notin> H" "w \<notin> fst ` W" "w \<notin> sq_granted q" using assms(1,2) by (auto simp: slotInv_def)
  have n: "(w, b) \<notin> W" for b using w(2) by force
  have pg: "pendingGrants q (insert (w, p) W) = pendingGrants q W" using w(3) by (auto simp: pendingGrants_def)
  have inj: "inj_on fst (insert (w, p) W)" using assms(1) w(2) n by (auto simp: slotInv_def)
  show ?thesis
  proof (cases p)
    case True
    then show ?thesis using assms w n pg inj by (auto simp: slotInv_def waiting_def pendingGrants_def)
  next
    case False
    then show ?thesis using assms w n pg inj by (auto simp: slotInv_def waiting_def pendingGrants_def)
  qed
qed

lemma pendingGrants_remove:
  assumes "slotInv slots maxQueued q H W N" "(w, p) \<in> W" "w \<in> sq_granted q"
  shows "Suc (card (pendingGrants q (W - {(w, p)}))) = card (pendingGrants q W)"
proof -
  have i: "inj_on fst W" and f: "finite W" using assms(1) by (auto simp: slotInv_def)
  have "pendingGrants q W = insert w (pendingGrants q (W - {(w, p)}))" using assms(2,3) by (force simp: pendingGrants_def)
  moreover have "w \<notin> pendingGrants q (W - {(w, p)})"
    using class_unique [OF i assms(2)] by (auto simp: pendingGrants_def)
  moreover have "finite (pendingGrants q (W - {(w, p)}))" using f by (simp add: pendingGrants_def)
  ultimately show ?thesis by simp
qed

lemma slotInv_granted:
  assumes "slotInv slots maxQueued q H W N" "(w, p) \<in> W" "w \<in> sq_granted q"
  shows "slotInv slots maxQueued q (insert w H) (W - {(w, p)}) N" "slotInv (slots - 1) maxQueued q H (W - {(w, p)}) N" "slots > 0"
proof -
  have wW: "w \<in> fst ` W" using assms(2) by force
  have sub: "H \<inter> fst ` W = {}" "fst ` W \<subseteq> N" "inj_on fst W" using assms(1) by (simp_all add: slotInv_def)
  have wH: "w \<notin> H" "w \<in> N" using wW sub by auto
  have other: "{w'. (w', b) \<in> W - {(w, p)} \<and> w' \<notin> sq_granted q} = {w'. (w', b) \<in> W \<and> w' \<notin> sq_granted q}" for b
    using assms(3) by auto
  have out: "w \<notin> fst ` (W - {(w, p)})" using class_unique [OF sub(3) assms(2)] by auto
  have sub': "fst ` (W - {(w, p)}) \<subseteq> N" "inj_on fst (W - {(w, p)})" "H \<inter> fst ` (W - {(w, p)}) = {}"
    "insert w H \<inter> fst ` (W - {(w, p)}) = {}"
    using sub out by (auto simp: inj_on_diff)
  note pg = pendingGrants_remove [OF assms]
  show "slots > 0" using assms(1) pg by (simp add: slotInv_def)
  show "slotInv slots maxQueued q (insert w H) (W - {(w, p)}) N"
    using assms(1) pg wH sub'(1,2,4) unfolding slotInv_def other by simp
  show "slotInv (slots - 1) maxQueued q H (W - {(w, p)}) N"
    using assms(1) pg sub'(1-3) unfolding slotInv_def other by auto
qed

lemma slotInv_giveup:
  assumes "slotInv slots maxQueued q H W N" "(w, p) \<in> W" "w \<notin> sq_granted q"
  shows "slotInv slots maxQueued (if p then q\<lparr>sq_prefetch := removeAll w (sq_prefetch q)\<rparr>
      else q\<lparr>sq_demand := removeAll w (sq_demand q)\<rparr>) H (W - {(w, p)}) N"
proof -
  have i: "inj_on fst W" using assms(1) by (simp add: slotInv_def)
  have u: "(w, b) \<in> W \<longleftrightarrow> b = p" for b using class_unique [OF i assms(2)] assms(2) by blast
  have pg: "pendingGrants q (W - {(w, p)}) = pendingGrants q W" using assms(3) by (force simp: pendingGrants_def)
  have le: "length (removeAll w xs) \<le> length xs" for xs by (simp add: length_removeAll_less_eq)
  have m: "length (sq_demand q) + length (sq_prefetch q) \<le> maxQueued" using assms(1) by (simp add: slotInv_def waiting_def)
  have wait: "length (sq_demand q) + length (removeAll w (sq_prefetch q)) \<le> maxQueued"
      "length (removeAll w (sq_demand q)) + length (sq_prefetch q) \<le> maxQueued"
    by (rule order_trans [OF add_left_mono [OF le] m], rule order_trans [OF add_right_mono [OF le] m])
  have inj: "inj_on fst (W - {(w, p)})" using i by (simp add: inj_on_diff)
  show ?thesis
  proof (cases p)
    case True
    then show ?thesis using assms pg inj u wait(1)
      by (auto simp: slotInv_def waiting_def pendingGrants_def distinct_removeAll)
  next
    case False
    then show ?thesis using assms pg inj u wait(2)
      by (auto simp: slotInv_def waiting_def pendingGrants_def distinct_removeAll)
  qed
qed

lemma slotInv_drop_holder:
  assumes "slotInv slots maxQueued q H W N" "w \<in> H"
  shows "slotInv (slots - 1) maxQueued q (H - {w}) W N" "slots > 0"
proof -
  have "finite H" using assms(1) by (simp add: slotInv_def)
  then have c: "card H = Suc (card (H - {w}))" using card_Suc_Diff1 [OF _ assms(2)] by metis
  show "slots > 0" using assms(1) c by (simp add: slotInv_def)
  show "slotInv (slots - 1) maxQueued q (H - {w}) W N" using assms(1) c by (auto simp: slotInv_def)
qed

lemma slotRun_inv: "slotRun slots maxQueued q H W N \<Longrightarrow> slotInv slots maxQueued q H W N"
proof (induction rule: slotRun.induct)
  case sr_init
  then show ?case by (simp add: slotInv_def newSlotQueue_def waiting_def pendingGrants_def)
next
  case (sr_try q H W N w q')
  then have "sq_free q > 0" "q' = q\<lparr>sq_free := sq_free q - 1\<rparr>" by (auto simp: tryTake_def split: if_splits)
  then show ?case using slotInv_take [OF sr_try.IH sr_try.hyps(2)] by simp
next
  case (sr_enter q H W N w p q')
  then have "sq_free q > 0" "q' = q\<lparr>sq_free := sq_free q - 1\<rparr>" by (auto simp: takeEnter_def split: if_splits)
  then show ?case using slotInv_take [OF sr_enter.IH sr_enter.hyps(2)] by simp
next
  case (sr_refuse q H W N w p q')
  then have "q' = q" by (auto simp: takeEnter_def split: if_splits)
  then show ?case using sr_refuse.IH by (auto simp: slotInv_def)
next
  case (sr_queue q H W N w p q')
  then have "sq_free q = 0" "waiting q < maxQueued"
      "q' = (if p then q\<lparr>sq_prefetch := sq_prefetch q @ [w]\<rparr> else q\<lparr>sq_demand := sq_demand q @ [w]\<rparr>)"
    by (auto simp: takeEnter_def waiting_def split: if_splits)
  then show ?case using slotInv_queue [OF sr_queue.IH sr_queue.hyps(2)] by metis
next
  case (sr_ready q H W N w p ctxErr q')
  then show ?case using slotInv_granted(1) [OF sr_ready.IH sr_ready.hyps(2,3)] by (simp add: takeLeave_def)
next
  case (sr_late q H W N w p ctxErr q')
  then have "w \<in> sq_granted q" "q' = q" by (auto simp: takeLeave_def split: if_splits)
  then show ?case using slotInv_granted(1) [OF sr_late.IH sr_late.hyps(2)] by simp
next
  case (sr_giveup q H W N w p ctxErr q')
  show ?case
  proof (cases "w \<in> sq_granted q")
    case True
    then have "q' = releaseLocked q" using sr_giveup.hyps(3) by (auto simp: takeLeave_def split: if_splits)
    moreover note g = slotInv_granted(2,3) [OF sr_giveup.IH sr_giveup.hyps(2) True]
    moreover have "sq_demand q = [] \<or> sq_free q = 0" "sq_prefetch q = [] \<or> sq_free q = 0"
      using sr_giveup.IH by (auto simp: slotInv_def)
    ultimately show ?thesis using slotInv_release by simp
  next
    case False
    then have "q' = (if p then q\<lparr>sq_prefetch := removeAll w (sq_prefetch q)\<rparr> else q\<lparr>sq_demand := removeAll w (sq_demand q)\<rparr>)"
      using sr_giveup.hyps(3) by (auto simp: takeLeave_def split: if_splits)
    then show ?thesis using slotInv_giveup [OF sr_giveup.IH sr_giveup.hyps(2) False] by simp
  qed
next
  case (sr_release q H W N w)
  have "sq_demand q = [] \<or> sq_free q = 0" "sq_prefetch q = [] \<or> sq_free q = 0"
    using sr_release.IH by (auto simp: slotInv_def)
  then show ?case using slotInv_release [OF slotInv_drop_holder [OF sr_release.IH sr_release.hyps(2)]] by simp
qed

subsection \<open>Properties\<close>

text \<open>(C10) Slots are neither lost nor invented, and none idles while a request waits: however takes, timeouts,
  departing clients and releases interleave, the free slots, the slots held and the slots granted to a
  waiter that has not woken yet add up to the configured number; at most the allowed number of requests
  wait; and a slot is free only when nobody waits.\<close>

theorem slots_conserved:
  assumes "slotRun slots maxQueued q H W N"
  shows "sq_free q + card H + card (pendingGrants q W) = slots \<and> waiting q \<le> maxQueued \<and>
    (sq_free q > 0 \<longrightarrow> waiting q = 0) \<and> (W = {} \<and> H = {} \<longrightarrow> sq_free q = slots)"
  using slotRun_inv [OF assms] by (auto simp: slotInv_def waiting_def pendingGrants_def)

theorem slots_conserved_witness:
  "sq_free (snd (takeEnter 7 False 5 (snd (tryTake (newSlotQueue 2))))) = 0"
proof -
  let ?q1 = "(newSlotQueue 2)\<lparr>sq_free := 1\<rparr>" and ?q2 = "(newSlotQueue 2)\<lparr>sq_free := 0\<rparr>"
  have 1: "slotRun 2 5 ?q1 {3} {} {3}" by (rule sr_try [OF sr_init]) (simp_all add: tryTake_def newSlotQueue_def)
  have "slotRun 2 5 ?q2 {7, 3} {} {7, 3}"
    by (rule sr_enter [OF 1, of _ False]) (simp_all add: takeEnter_def newSlotQueue_def)
  from slots_conserved [OF this] have "sq_free ?q2 + card {7, 3 :: nat} + card (pendingGrants ?q2 {}) = 2" by blast
  then show ?thesis by (simp add: takeEnter_def tryTake_def newSlotQueue_def)
qed

text \<open>A released slot goes to the longest-waiting demand request; to the longest-waiting prefetch request
  only when no demand request waits; and back to the free count only when nobody waits.\<close>

theorem release_order:
  assumes "slotRun slots maxQueued q H W N"
  shows "(sq_demand q \<noteq> [] \<longrightarrow> sq_granted (releaseLocked q) = insert (hd (sq_demand q)) (sq_granted q) \<and>
      sq_demand (releaseLocked q) = tl (sq_demand q) \<and> sq_prefetch (releaseLocked q) = sq_prefetch q) \<and>
    (sq_demand q = [] \<and> sq_prefetch q \<noteq> [] \<longrightarrow> sq_granted (releaseLocked q) = insert (hd (sq_prefetch q)) (sq_granted q) \<and>
      sq_prefetch (releaseLocked q) = tl (sq_prefetch q)) \<and>
    (waiting q = 0 \<longleftrightarrow> sq_free (releaseLocked q) = sq_free q + 1) \<and>
    (\<forall>w \<in> set (sq_demand q) \<union> set (sq_prefetch q). w \<notin> sq_granted q)"
  using slotRun_inv [OF assms] by (auto simp: releaseLocked_def waiting_def slotInv_def split: list.splits)

theorem release_order_witness:
  "sq_granted (releaseLocked ((newSlotQueue 0)\<lparr>sq_demand := [4], sq_prefetch := [3]\<rparr>)) = {4}"
proof -
  have 1: "slotRun 0 5 ((newSlotQueue 0)\<lparr>sq_prefetch := [3]\<rparr>) {} {(3, True)} {3}"
    by (rule sr_queue [OF sr_init]) (simp_all add: takeEnter_def newSlotQueue_def)
  have "slotRun 0 5 ((newSlotQueue 0)\<lparr>sq_demand := [4], sq_prefetch := [3]\<rparr>) {} {(4, False), (3, True)} {4, 3}"
    by (rule sr_queue [OF 1]) (simp_all add: takeEnter_def newSlotQueue_def)
  from release_order [OF this] show ?thesis by (simp add: newSlotQueue_def)
qed

end
