(* ===== verification/Server.thy ===== *)
theory Server
  imports Startup Config SlotQueue
begin

text \<open>
  A request from its arrival to its handler (\<^verbatim>\<open>server.go\<close>): the probes answered before any check, the
  work slot, the credentials, the bucket and the route; and the report of skipped lookups
  (\<^verbatim>\<open>skips.go\<close>).  A request holds its body in the form each handler reads it: the bytes, the decoded
  JSON, or the members of the tar stream.  What the run decides (the outcome of the wait for a slot,
  the systems of the stores, the schedule of the workers, texts of errors) is the record \<open>serveEnv\<close>.
\<close>

section \<open>Definitions\<close>

subsection \<open>Skip reports\<close>

record skipReport =
  sk_GetNotInIndex :: nat
  sk_GetEmptyIndex :: nat
  sk_GetBatchBackoff :: nat
  sk_GetKnownMiss :: nat
  sk_PutKnown :: nat
  sk_PutFailed :: nat
  sk_PutRefusedBuildID :: nat
  sk_PutRefusedModIndex :: nat
  sk_PutAbandoned :: nat
  sk_PutRefused :: nat
  sk_SkippedKeys :: "string list"
  sk_SkippedAgo :: "int list"

definition maxSkipReportCount :: nat where "maxSkipReportCount = 2 ^ 32"
definition maxSkipSample :: nat where "maxSkipSample = 64"

definition skipReport_valid :: "skipReport \<Rightarrow> bool" where
  "skipReport_valid r \<longleftrightarrow> list_all (\<lambda>v. v < maxSkipReportCount)
       [sk_GetNotInIndex r, sk_GetEmptyIndex r, sk_GetBatchBackoff r, sk_GetKnownMiss r, sk_PutKnown r, sk_PutFailed r,
        sk_PutRefusedBuildID r, sk_PutRefusedModIndex r, sk_PutAbandoned r, sk_PutRefused r] \<and>
     length (sk_SkippedKeys r) \<le> maxSkipSample \<and> length (sk_SkippedAgo r) \<le> length (sk_SkippedKeys r) \<and>
     list_all (\<lambda>age. age \<ge> 0) (sk_SkippedAgo r) \<and>
     list_all (\<lambda>k. snd (extractActionHash (gbciKeyPrefix @ k))) (sk_SkippedKeys r)"

definition storedAfter :: "sysEnv \<Rightarrow> string \<Rightarrow> int \<Rightarrow> Storage \<Rightarrow> bool \<times> Storage" where
  "storedAfter env key moment s =
    (case Stat env key s of (Inl e, s) \<Rightarrow> (False, s) | (Inr om, s) \<Rightarrow> (om_ModTime om > moment, s))"

fun classifySkippedKeys :: "sysEnv \<Rightarrow> string list \<Rightarrow> int list \<Rightarrow> Storage \<Rightarrow> string list \<times> Storage" where
  "classifySkippedKeys env [] ago s = ([], s)"
| "classifySkippedKeys env (k # ks) ago s =
    (let key = gbciKeyPrefix @ k; (why, s) = absentKeyReason key s;
         (verdict, s) =
           (if why = ''advertised_unservable'' then
              (case ago of [] \<Rightarrow> (''advertised'', s)
               | a # _ \<Rightarrow>
                 let (later, s) = storedAfter env key (env_now env + wrap64 (- wrap64 (a * 1000000000))) s
                 in (if later then ''stored_later'' else ''advertised'', s))
            else if why = ''evicted'' then (''evicted'', s) else (''unknown'', s));
         (vs, s) = classifySkippedKeys env ks (tl ago) s
     in (verdict # vs, s))"

datatype skipBody = SkipOk skipReport | SkipTooLarge | SkipBad string

definition handleSkipReport :: "sysEnv \<Rightarrow> skipBody \<Rightarrow> Storage \<Rightarrow> httpResponse \<times> Storage" where
  "handleSkipReport env body s =
    (case body of
       SkipTooLarge \<Rightarrow> (writeError [] 413 ''too_large'' ''skip report too large'', s)
     | SkipBad e \<Rightarrow> (writeError [] 400 ''bad_skip_report'' (''skip report: '' @ e), s)
     | SkipOk rep \<Rightarrow>
         if \<not> skipReport_valid rep then (writeError [] 400 ''bad_skip_report'' ''skip report: a count is out of range'', s)
         else (\<lparr>rs_status = 204, rs_headers = [], rs_body = []\<rparr>,
               snd (classifySkippedKeys env (sk_SkippedKeys rep) (sk_SkippedAgo rep) s)))"

subsection \<open>Requests\<close>

record httpRequest =
  rq_method :: string
  rq_path :: string
  rq_query :: kvMap
  rq_headers :: kvMap
  rq_remote :: string
  rq_body :: reader
  rq_batchGet :: "batchGetRequest option"
  rq_tar :: "tarItem list"
  rq_manifest :: "batchPutManifestEntry list option"
  rq_skips :: skipBody

definition header :: "httpRequest \<Rightarrow> string \<Rightarrow> string" where
  "header r name = kvGet (rq_headers r) (canonicalHeaderKey name)"

text \<open>The host of \<^verbatim>\<open>net.SplitHostPort\<close>, none on its errors.\<close>

definition lastIndex :: "string \<Rightarrow> char \<Rightarrow> nat option" where
  "lastIndex s c = map_option (\<lambda>i. length s - Suc i) (indexByte (rev s) c)"

definition splitHost :: "string \<Rightarrow> string option" where
  "splitHost hp =
    (case lastIndex hp CHR '':'' of None \<Rightarrow> None
     | Some i \<Rightarrow>
       let checked = (\<lambda>host j k. if CHR ''['' \<in> set (drop j hp) \<or> CHR '']'' \<in> set (drop k hp) then None else Some host) in
       if hd hp = CHR ''['' then
         (case indexByte hp CHR '']'' of None \<Rightarrow> None
          | Some e \<Rightarrow> if Suc e \<noteq> i then None else checked (take (e - 1) (tl hp)) 1 (Suc e))
       else let host = take i hp in if CHR '':'' \<in> set host then None else checked host 0 0)"

definition clientIP :: "httpRequest \<Rightarrow> string" where
  "clientIP r =
    (let cf = header r ''CF-Connecting-IP''; real = header r ''X-Real-IP''; fwd = header r ''X-Forwarded-For'' in
     if cf \<noteq> [] then cf
     else if real \<noteq> [] then real
     else if fwd \<noteq> [] then trimSpace (case indexByte fwd CHR '','' of Some i \<Rightarrow> take i fwd | None \<Rightarrow> fwd)
     else case splitHost (rq_remote r) of Some host \<Rightarrow> host | None \<Rightarrow> rq_remote r)"

definition healthPath :: string where "healthPath = ''/_health''"
definition wellKnownHealthPath :: string where "wellKnownHealthPath = ''/.well-known/docker-updater/health''"
definition wellKnownPreUpdatePath :: string where "wellKnownPreUpdatePath = ''/.well-known/docker-updater/pre-update''"
definition versionRoute :: string where "versionRoute = ''/_version''"
definition skipReportKey :: string where "skipReportKey = ''_skips''"
definition retryAfterSeconds :: nat where "retryAfterSeconds = 2"

text \<open>\<^verbatim>\<open>strings.SplitN(path, "/", 2)\<close>: the bucket, and the key when there is a slash.\<close>

definition bucketAndKey :: "string \<Rightarrow> string \<times> string" where
  "bucketAndKey urlPath =
    (let path = trimPrefix urlPath ''/'' in
     case indexByte path CHR ''/'' of None \<Rightarrow> (path, []) | Some i \<Rightarrow> (take i path, drop (Suc i) path))"

datatype route = RouteIndex | RouteBatchGet | RouteSkipReport | RouteGetObject string | RouteHeadObject string | RouteBatchPut
  | RoutePutObject string | RouteDeleteObject string | RouteNone

definition routeOf :: "string \<Rightarrow> string \<Rightarrow> route" where
  "routeOf verb key =
    (if verb = ''GET'' \<and> key = ''_index'' then RouteIndex
     else if (verb = ''GET'' \<or> verb = ''POST'') \<and> key = ''_batch/get'' then RouteBatchGet
     else if verb = ''POST'' \<and> key = skipReportKey then RouteSkipReport
     else if verb = ''GET'' \<and> key \<noteq> [] then RouteGetObject key
     else if verb = ''HEAD'' \<and> key \<noteq> [] then RouteHeadObject key
     else if verb = ''PUT'' \<and> key = ''_batch/put'' then RouteBatchPut
     else if verb = ''PUT'' \<and> key \<noteq> [] then RoutePutObject key
     else if verb = ''DELETE'' \<and> key \<noteq> [] then RouteDeleteObject key
     else RouteNone)"

datatype answer = Answer httpResponse | AnswerBatchGet batchGetAnswer | AnswerBatchPut batchPutAnswer

record serveEnv =
  se_envs :: "nat \<Rightarrow> sysEnv"
  se_sched :: "nat \<Rightarrow> nat list"
  se_order :: "string list \<Rightarrow> string list"
  se_committed :: bool
  se_admitted :: bool
  se_errText :: "storeErr \<Rightarrow> string"
  se_jsonErr :: string
  se_stamp :: string
  se_version :: bytes

definition auditOf :: "serveEnv \<Rightarrow> string \<Rightarrow> httpRequest \<Rightarrow> auditInfo" where
  "auditOf se user r =
    \<lparr>ai_Username = user, ai_Timestamp = se_stamp se, ai_ClientIP = clientIP r, ai_UserAgent = header r ''User-Agent''\<rparr>"

definition handleRoute ::
    "decoders \<Rightarrow> (compactKey, 'x) setOps \<Rightarrow> Config \<Rightarrow> serveEnv \<Rightarrow> string \<Rightarrow> httpRequest \<Rightarrow> route \<Rightarrow> Storage \<Rightarrow> answer \<times> Storage" where
  "handleRoute dec ops cfg se user r rt s =
    (let env = se_envs se 0; errText = se_errText se; a = Some (auditOf se user r) in
     case rt of
       RouteIndex \<Rightarrow>
         (let inm = header r ''If-None-Match'';
              (resp, idx) = handleGetIndex (env_now env) (rq_query r) (if inm = [] then None else Some inm) (st_index s)
          in (Answer resp, s\<lparr>st_index := idx\<rparr>))
     | RouteBatchGet \<Rightarrow>
         apfst AnswerBatchGet (handleBatchGet dec env (se_sched se) ops (se_jsonErr se) (rq_method r) (rq_batchGet r) (PrefetchEnabled cfg) s)
     | RouteSkipReport \<Rightarrow> apfst Answer (handleSkipReport env (rq_skips r) s)
     | RouteGetObject key \<Rightarrow> apfst Answer (handleGetObject dec env errText key s)
     | RouteHeadObject key \<Rightarrow> apfst Answer (handleHeadObject env errText key s)
     | RouteBatchPut \<Rightarrow>
         apfst AnswerBatchPut (handleBatchPut dec (se_envs se) errText (se_jsonErr se) (se_order se) (se_committed se) (rq_method r) a
           (cf_MaxObjectBytes cfg) (rq_tar r) (rq_manifest r) s)
     | RoutePutObject key \<Rightarrow>
         apfst Answer (handlePutObject dec env errText key (rq_headers r) a (cf_MaxObjectBytes cfg) (rq_body r) s)
     | RouteDeleteObject key \<Rightarrow> apfst Answer (handleDeleteObject env errText key s)
     | RouteNone \<Rightarrow> (Answer (writeError [] 405 ''method_not_allowed'' ''method not allowed''), s))"

text \<open>The probes, which need no slot and no credentials.  \<^verbatim>\<open>http.Error\<close> answers the draining text.\<close>

definition draining :: httpResponse where
  "draining = \<lparr>rs_status = 503, rs_headers = setHeader ''X-Content-Type-Options'' ''nosniff'' (setHeader ''Content-Type''
       ''text/plain; charset=utf-8'' (setHeader ''Retry-After'' (formatNat retryAfterSeconds) [])),
     rs_body = bytes_of (''draining'' @ [CHR 0x0A])\<rparr>"

definition probeAnswer :: "bool \<Rightarrow> serveEnv \<Rightarrow> string \<Rightarrow> httpResponse option" where
  "probeAnswer shuttingDown se path =
    (if path = healthPath \<or> path = wellKnownHealthPath then
       Some (if shuttingDown then draining
             else \<lparr>rs_status = 200, rs_headers = setHeader ''Content-Type'' ''text/plain; charset=utf-8'' [], rs_body = bytes_of (''ok'' @ [CHR 0x0A])\<rparr>)
     else if path = versionRoute then
       Some \<lparr>rs_status = 200, rs_headers = setHeader ''Content-Type'' ''application/json'' [], rs_body = se_version se\<rparr>
     else if path = wellKnownPreUpdatePath then
       Some (if shuttingDown then draining else \<lparr>rs_status = 200, rs_headers = [], rs_body = []\<rparr>)
     else None)"

definition ServeHTTP ::
    "decoders \<Rightarrow> (compactKey, 'x) setOps \<Rightarrow> Config \<Rightarrow> bool \<Rightarrow> serveEnv \<Rightarrow> httpRequest \<Rightarrow> Storage \<Rightarrow> answer \<times> Storage" where
  "ServeHTTP dec ops cfg shuttingDown se r s =
    (case probeAnswer shuttingDown se (rq_path r) of Some resp \<Rightarrow> (Answer resp, s)
     | None \<Rightarrow>
       if \<not> se_admitted se
       then (Answer (writeError (setHeader ''Retry-After'' (formatNat retryAfterSeconds) []) 503 ''overloaded''
               ''server is at capacity, retry after a moment''), s)
       else case authenticate (header r ''Authorization'') cfg of
         Inl e \<Rightarrow> (Answer (writeError [] 403 ''access_denied'' ''access denied''), s)
       | Inr user \<Rightarrow>
           let (bucket, key) = bucketAndKey (rq_path r) in
           if bucket \<noteq> cf_Bucket cfg
           then (Answer (writeError [] 404 ''unknown_bucket'' ''the specified bucket does not exist''), s)
           else handleRoute dec ops cfg se user r (routeOf (rq_method r) key) s)"

end
