(* ===== verification/Churn.thy ===== *)
theory Churn
  imports LruCache ActionKey
begin

text \<open>
  The tracker of packages stored again under a new key (\<^verbatim>\<open>churn.go\<close>): what it remembers of a package, how
  it names the difference between two uploads, and the counts and the ring of examples behind the panel.
  The Prometheus counter, the project totals and the prose of the panel are not modelled.  A Go map of
  counts is a function with a default of zero.
\<close>

section \<open>Definitions\<close>

definition churnEntryBytes :: int where "churnEntryBytes = 160"
definition churnRecentMax :: nat where "churnRecentMax = 40"
definition churnTopMax :: nat where "churnTopMax = 20"

definition changeGoVersion :: string where "changeGoVersion = ''go_version''"
definition changeToolchain :: string where "changeToolchain = ''toolchain''"
definition changeTarget :: string where "changeTarget = ''target''"
definition changeSources :: string where "changeSources = ''sources''"
definition changePath :: string where "changePath = ''path''"
definition changeInputs :: string where "changeInputs = ''inputs''"
definition changeOutput :: string where "changeOutput = ''output''"

lemmas change_defs = changeGoVersion_def changeToolchain_def changeTarget_def changeSources_def changePath_def changeInputs_def
  changeOutput_def

definition changeKinds :: "string list" where
  "changeKinds = [changeGoVersion, changeToolchain, changeTarget, changeSources, changePath, changeInputs, changeOutput]"

record packageSeen =
  ps_hash :: actionHash
  ps_content :: string
  ps_goVersion :: string
  ps_toolchain :: string
  ps_target :: string
  ps_src :: string
  ps_srcDir :: string
  ps_project :: string
  ps_at :: int
  ps_restores :: u32
  ps_sameOutput :: u32
  ps_lastChange :: string

definition packageSeen_bytes :: "packageSeen \<Rightarrow> int" where
  "packageSeen_bytes p = churnEntryBytes + int (length (ps_content p) + length (ps_goVersion p) + length (ps_toolchain p)
     + length (ps_target p) + length (ps_src p) + length (ps_srcDir p) + length (ps_project p) + length (ps_lastChange p))"

record fieldDiff =
  fd_Field :: string
  fd_From :: string
  fd_To :: string

record restoreEvent =
  re_At :: int
  re_Project :: string
  re_Package :: string
  re_Target :: string
  re_Change :: string
  re_Output :: string
  re_SameOutput :: bool
  re_Diffs :: "fieldDiff list"

record churnTracker =
  ct_entries :: "(string, packageSeen) lruCache"
  ct_recent :: "restoreEvent list"
  ct_total :: u64
  ct_same :: u64
  ct_unknown :: u64
  ct_byChange :: "string \<Rightarrow> u64"

definition churnSize :: "string \<Rightarrow> packageSeen \<Rightarrow> int" where
  "churnSize k p = int (length k) + packageSeen_bytes p"

definition newChurnTracker :: "int \<Rightarrow> churnTracker" where
  "newChurnTracker budget =
     \<lparr>ct_entries = newLRUCache budget, ct_recent = [], ct_total = 0, ct_same = 0, ct_unknown = 0, ct_byChange = (\<lambda>_. 0)\<rparr>"

definition outputSame :: string where "outputSame = ''same''"
definition outputChanged :: string where "outputChanged = ''changed''"
definition outputUnknown :: string where "outputUnknown = ''unknown''"

lemmas output_defs = outputSame_def outputChanged_def outputUnknown_def

definition outputVerdict :: "packageSeen \<Rightarrow> packageSeen \<Rightarrow> string" where
  "outputVerdict prev cur =
    (if ps_content prev = [] \<or> ps_content cur = [] then outputUnknown
     else if ps_content prev = ps_content cur then outputSame
     else outputChanged)"

text \<open>The closure \<^verbatim>\<open>add\<close> and the map from a field to its kind.\<close>

definition addDiff :: "string \<Rightarrow> string \<Rightarrow> string \<Rightarrow> fieldDiff list \<Rightarrow> fieldDiff list" where
  "addDiff field from to diffs = (if from \<noteq> to then diffs @ [\<lparr>fd_Field = field, fd_From = from, fd_To = to\<rparr>] else diffs)"

definition changeOfField :: "string \<Rightarrow> string" where
  "changeOfField field =
    (if field = ''go-version'' then changeGoVersion else if field = ''toolchain-version'' then changeToolchain
     else if field = ''target'' then changeTarget else if field = ''src'' then changeSources
     else if field = ''src-dir'' then changePath else [])"

definition classifyChange :: "packageSeen \<Rightarrow> packageSeen \<Rightarrow> fieldDiff list \<times> string" where
  "classifyChange prev cur =
    (let diffs = addDiff ''go-version'' (ps_goVersion prev) (ps_goVersion cur) [];
         diffs = addDiff ''toolchain-version'' (ps_toolchain prev) (ps_toolchain cur) diffs;
         diffs = addDiff ''target'' (ps_target prev) (ps_target cur) diffs;
         diffs = addDiff ''src'' (ps_src prev) (ps_src cur) diffs;
         diffs = (if ps_srcDir prev \<noteq> [] \<and> ps_srcDir cur \<noteq> [] then addDiff ''src-dir'' (ps_srcDir prev) (ps_srcDir cur) diffs else diffs)
     in if diffs \<noteq> [] then (diffs, changeOfField (fd_Field (hd diffs)))
        else if outputVerdict prev cur = outputSame then (diffs, changeInputs)
        else (diffs, changeOutput))"

definition churnKey :: "string \<Rightarrow> string \<Rightarrow> string" where
  "churnKey pkg target = pkg @ [CHR 0x00] @ target"

definition seenFrom :: "actionHash \<Rightarrow> (string \<Rightarrow> string) \<Rightarrow> string \<Rightarrow> int \<Rightarrow> packageSeen" where
  "seenFrom h m project now =
    \<lparr>ps_hash = h, ps_content = m ''content-id'', ps_goVersion = m ''go-version'', ps_toolchain = m ''toolchain-version'',
     ps_target = m ''target'', ps_src = m ''src'', ps_srcDir = m ''src-dir'', ps_project = project, ps_at = now,
     ps_restores = 0, ps_sameOutput = 0, ps_lastChange = []\<rparr>"

text \<open>A full ring drops its oldest event.\<close>

definition ringPush :: "restoreEvent \<Rightarrow> restoreEvent list \<Rightarrow> restoreEvent list" where
  "ringPush ev recent = (if length recent \<ge> churnRecentMax then take (churnRecentMax - 1) (drop 1 recent) else recent) @ [ev]"

definition observe :: "int \<Rightarrow> string \<Rightarrow> (string \<Rightarrow> string) \<Rightarrow> bool \<Rightarrow> string \<Rightarrow> churnTracker \<Rightarrow> churnTracker" where
  "observe now key m put project c =
    (let pkg = m ''pkg''; (h, ok) = extractActionHash key in
     if pkg = [] \<or> pkg = ''main'' \<or> pkg = ''command-line-arguments'' then c
     else if \<not> ok then c
     else
       let cur = seenFrom h m project now; k = churnKey pkg (ps_target cur); (prev, es) = lru_Get fnv1a (ct_entries c) k in
       case prev of
         None \<Rightarrow> c\<lparr>ct_entries := lru_Put fnv1a churnSize es k cur\<rparr>
       | Some prev \<Rightarrow>
           let cur = cur\<lparr>ps_restores := ps_restores prev, ps_sameOutput := ps_sameOutput prev, ps_lastChange := ps_lastChange prev\<rparr> in
           if ps_hash prev = h \<or> \<not> put then c\<lparr>ct_entries := lru_Put fnv1a churnSize es k cur\<rparr>
           else
             let (diffs, change) = classifyChange prev cur; output = outputVerdict prev cur; same = (output = outputSame);
                 cur = cur\<lparr>ps_restores := ps_restores cur + 1, ps_lastChange := change\<rparr>;
                 cur = (if same then cur\<lparr>ps_sameOutput := ps_sameOutput cur + 1\<rparr> else cur)
             in c\<lparr>ct_entries := lru_Put fnv1a churnSize es k cur, ct_total := ct_total c + 1,
                  ct_byChange := (ct_byChange c)(change := ct_byChange c change + 1),
                  ct_same := (if same then ct_same c + 1 else ct_same c),
                  ct_unknown := (if output = outputUnknown then ct_unknown c + 1 else ct_unknown c),
                  ct_recent := ringPush \<lparr>re_At = ps_at cur, re_Project = project, re_Package = pkg, re_Target = ps_target cur,
                    re_Change = change, re_Output = output, re_SameOutput = same, re_Diffs = diffs\<rparr> (ct_recent c)\<rparr>)"

subsection \<open>The panel\<close>

record churnPackage =
  cp_Package :: string
  cp_Target :: string
  cp_Project :: string
  cp_Restores :: u32
  cp_SameOutput :: u32
  cp_LastChange :: string

text \<open>\<^verbatim>\<open>strings.Cut\<close> at the separator.\<close>

definition cutKey :: "string \<Rightarrow> string \<times> string" where
  "cutKey k = (takeWhile (\<lambda>x. x \<noteq> CHR 0x00) k, tl (dropWhile (\<lambda>x. x \<noteq> CHR 0x00) k))"

definition rankPackage :: "string \<times> packageSeen \<Rightarrow> churnPackage option" where
  "rankPackage kp = (case kp of (k, p) \<Rightarrow>
     if ps_restores p = 0 then None
     else Some \<lparr>cp_Package = fst (cutKey k), cp_Target = snd (cutKey k), cp_Project = ps_project p, cp_Restores = ps_restores p,
       cp_SameOutput = ps_sameOutput p, cp_LastChange = ps_lastChange p\<rparr>)"

fun stringLess :: "string \<Rightarrow> string \<Rightarrow> bool" where
  "stringLess xs [] = False"
| "stringLess [] (y # ys) = True"
| "stringLess (x # xs) (y # ys) = ((of_char x :: nat) < of_char y \<or> x = y \<and> stringLess xs ys)"

definition churnBefore :: "churnPackage \<Rightarrow> churnPackage \<Rightarrow> bool" where
  "churnBefore a b =
    (if cp_Restores a \<noteq> cp_Restores b then cp_Restores a > cp_Restores b else stringLess (cp_Package a) (cp_Package b))"

record dashboardChurn =
  dc_Tracked :: nat
  dc_Restores :: u64
  dc_SameOutput :: u64
  dc_UnknownOutput :: u64
  dc_Causes :: "(string \<times> u64) list"
  dc_Top :: "churnPackage list"
  dc_Recent :: "restoreEvent list"

text \<open>The panel without its verdict.  \<^verbatim>\<open>sort.Slice\<close> leaves the order of ties open, so the sorted list is an
  argument; a share is kept as the count it is taken from.\<close>

definition snapshot :: "((churnPackage \<Rightarrow> churnPackage \<Rightarrow> bool) \<Rightarrow> churnPackage list \<Rightarrow> churnPackage list) \<Rightarrow> churnTracker \<Rightarrow> dashboardChurn" where
  "snapshot sortSlice c =
    \<lparr>dc_Tracked = lru_Len (ct_entries c), dc_Restores = ct_total c, dc_SameOutput = ct_same c, dc_UnknownOutput = ct_unknown c,
     dc_Causes = map (\<lambda>kind. (kind, ct_byChange c kind)) changeKinds,
     dc_Top = take churnTopMax (sortSlice churnBefore (List.map_filter rankPackage (lru_Range (ct_entries c)))),
     dc_Recent = rev (ct_recent c)\<rparr>"

text \<open>An object that moved, as the handlers report it.\<close>

record churnMove =
  cm_now :: int
  cm_key :: string
  cm_meta :: "string \<Rightarrow> string"
  cm_put :: bool
  cm_project :: string

definition observeAll :: "churnMove list \<Rightarrow> churnTracker \<Rightarrow> churnTracker" where
  "observeAll ms c = foldl (\<lambda>c m. observe (cm_now m) (cm_key m) (cm_meta m) (cm_put m) (cm_project m) c) c ms"

section \<open>The books of the tracker\<close>

definition noNul :: "string \<Rightarrow> bool" where
  "noNul x \<longleftrightarrow> CHR 0x00 \<notin> set x"

lemma cutKey_churnKey: "noNul p \<Longrightarrow> cutKey (churnKey p x) = (p, x)"
  unfolding noNul_def by (induction p) (auto simp: cutKey_def churnKey_def)

lemma churnKey_inj: "noNul p \<Longrightarrow> noNul q \<Longrightarrow> churnKey p x = churnKey q y \<longleftrightarrow> p = q \<and> x = y"
  by (metis cutKey_churnKey prod.inject)

definition restoreOk :: "restoreEvent \<Rightarrow> bool" where
  "restoreOk ev \<longleftrightarrow> re_Change ev \<in> set changeKinds - {changeTarget} \<and> (re_SameOutput ev \<longleftrightarrow> re_Output ev = outputSame) \<and>
     (re_Change ev = changeInputs \<longleftrightarrow> re_Diffs ev = [] \<and> re_SameOutput ev)"

text \<open>Every package is remembered under its own path and target.\<close>

definition churnKeys :: "(string, packageSeen) lruCache \<Rightarrow> bool" where
  "churnKeys es \<longleftrightarrow> lruOk fnv1a es \<and> (\<forall>k p. lruLookup fnv1a es k = Some p \<longrightarrow> (\<exists>pkg. noNul pkg \<and> k = churnKey pkg (ps_target p)))"

definition churnInv :: "churnTracker \<Rightarrow> bool" where
  "churnInv c \<longleftrightarrow> churnKeys (ct_entries c) \<and>
     ct_total c = sum_list (map (ct_byChange c) changeKinds) \<and> length (ct_recent c) \<le> churnRecentMax \<and> list_all restoreOk (ct_recent c)"

lemma change_distinct: "distinct changeKinds"
  by code_simp

lemma change_neq [simp]:
  "changeGoVersion \<noteq> changeTarget" "changeToolchain \<noteq> changeTarget" "changeSources \<noteq> changeTarget" "changePath \<noteq> changeTarget"
  "changeInputs \<noteq> changeTarget" "changeOutput \<noteq> changeTarget" "changeGoVersion \<noteq> changeInputs" "changeToolchain \<noteq> changeInputs"
  "changeSources \<noteq> changeInputs" "changePath \<noteq> changeInputs" "changeOutput \<noteq> changeInputs"
  using change_distinct by (auto simp: changeKinds_def)

lemma classifyChange_kind:
  assumes "classifyChange prev cur = (diffs, change)" "ps_target prev = ps_target cur"
  shows "change \<in> set changeKinds - {changeTarget}" "change = changeInputs \<longleftrightarrow> diffs = [] \<and> outputVerdict prev cur = outputSame"
  using assms
  by (auto simp: classifyChange_def addDiff_def Let_def changeKinds_def changeOfField_def split: if_splits)

lemma sum_changeKinds:
  assumes "change \<in> set changeKinds"
  shows "sum_list (map (f(change := f change + 1)) changeKinds) = sum_list (map f changeKinds) + (1 :: u64)"
proof -
  have "sum_list (map (f(change := f change + 1)) xs) = sum_list (map f xs) + (if change \<in> set xs then 1 else 0)" if "distinct xs" for xs
    using that by (induction xs) (auto simp: fun_upd_def)
  then show ?thesis using change_distinct assms by simp
qed

lemma length_ringPush: "length recent \<le> churnRecentMax \<Longrightarrow> length (ringPush ev recent) \<le> churnRecentMax"
  by (simp add: ringPush_def churnRecentMax_def)

lemma set_ringPush: "set (ringPush ev recent) \<subseteq> insert ev (set recent)"
  by (auto simp: ringPush_def dest: in_set_takeD in_set_dropD)

text \<open>Storing an entry under its own key.\<close>

lemma churnKeys_Put:
  assumes "churnKeys es" "noNul pkg" "k = churnKey pkg (ps_target cur)"
  shows "churnKeys (lru_Put fnv1a churnSize es k cur)"
  unfolding churnKeys_def
proof (intro conjI allI impI)
  have ok: "lruOk fnv1a es" using assms(1) by (simp add: churnKeys_def)
  then show "lruOk fnv1a (lru_Put fnv1a churnSize es k cur)" by (rule lru_Put_ok [THEN conjunct1])
  fix k' p assume l: "lruLookup fnv1a (lru_Put fnv1a churnSize es k cur) k' = Some p"
  show "\<exists>pkg. noNul pkg \<and> k' = churnKey pkg (ps_target p)"
  proof (cases "k' = k")
    case True
    then show ?thesis using l lru_Put_lookup(1) [OF ok] assms(2,3) by auto
  next
    case False
    from lru_Put_lookup(2) [OF ok False, where sizeOf = churnSize and v = cur] l show ?thesis using assms(1) by (auto simp: churnKeys_def)
  qed
qed

lemma observe_inv:
  assumes "churnInv c" "noNul (m ''pkg'')"
  shows "churnInv (observe now key m put project c)"
proof (cases "m ''pkg'' = [] \<or> m ''pkg'' = ''main'' \<or> m ''pkg'' = ''command-line-arguments'' \<or> \<not> snd (extractActionHash key)")
  case True
  then have "observe now key m put project c = c" by (auto simp: observe_def Let_def split: prod.splits)
  then show ?thesis using assms(1) by simp
next
  case False
  obtain h where h: "extractActionHash key = (h, True)" using False by (metis prod.collapse)
  define cur where "cur = seenFrom h m project now"
  define k where "k = churnKey (m ''pkg'') (ps_target cur)"
  obtain prev es where g: "lru_Get fnv1a (ct_entries c) k = (prev, es)" by fastforce
  have ok: "lruOk fnv1a (ct_entries c)" "\<forall>k p. lruLookup fnv1a (ct_entries c) k = Some p \<longrightarrow> (\<exists>pkg. noNul pkg \<and> k = churnKey pkg (ps_target p))"
    using assms(1) by (simp_all add: churnInv_def churnKeys_def)
  note get = lru_Get_ok [OF ok(1) g]
  have "churnKeys es" using ok(2) get(2,3) by (simp add: churnKeys_def)
  then have put: "churnKeys (lru_Put fnv1a churnSize es k x)" if "ps_target x = ps_target cur" for x
    using that assms(2) by (intro churnKeys_Put [where pkg = "m ''pkg''"]) (simp_all add: k_def)
  note o = observe_def [of now key m put project c, unfolded h cur_def [symmetric] Let_def prod.case, folded k_def, unfolded g prod.case]
  show ?thesis
  proof (cases "\<exists>p. prev = Some p \<and> ps_hash p \<noteq> h \<and> put")
    case False
    then show ?thesis using \<open>\<not> (m ''pkg'' = [] \<or> _)\<close> put assms(1) h by (auto simp: o churnInv_def split: option.split)
  next
    case True
    then obtain p where p: "prev = Some p" "ps_hash p \<noteq> h" "put" by blast
    then obtain pkg where "noNul pkg" "k = churnKey pkg (ps_target p)" using ok(2) get(1) by metis
    then have t: "ps_target p = ps_target cur" using churnKey_inj assms(2) by (simp add: k_def)
    define cur' where "cur' = cur\<lparr>ps_restores := ps_restores p, ps_sameOutput := ps_sameOutput p, ps_lastChange := ps_lastChange p\<rparr>"
    obtain diffs change where cc: "classifyChange p cur' = (diffs, change)" by fastforce
    have t': "ps_target p = ps_target cur'" using t by (simp add: cur'_def)
    note kind = classifyChange_kind [OF cc t']
    then have s: "sum_list (map ((ct_byChange c)(change := ct_byChange c change + 1)) changeKinds) = ct_total c + 1"
      using assms(1) by (subst sum_changeKinds) (auto simp: churnInv_def)
    have r: "list_all restoreOk (ringPush ev (ct_recent c))" if "restoreOk ev" for ev
      using set_ringPush [of ev "ct_recent c"] assms(1) that by (auto simp: churnInv_def list_all_iff)
    have inv: "churnKeys (ct_entries c)" "length (ct_recent c) \<le> churnRecentMax" using assms(1) by (simp_all add: churnInv_def)
    show ?thesis
      unfolding o p(1) option.case cur'_def [symmetric] cc prod.case
      using \<open>\<not> (m ''pkg'' = [] \<or> _)\<close> h p(2,3) kind s t'
      by (auto simp: churnInv_def restoreOk_def cur'_def intro!: put length_ringPush inv r)
  qed
qed

lemma newChurnTracker_inv: "churnInv (newChurnTracker b)"
  by (simp add: churnInv_def churnKeys_def newChurnTracker_def newLRUCache_ok sum_list_0)

section \<open>Properties\<close>

text \<open>(C30) The books of the tracker balance.  After any sequence of uploads and hits of packages, the
  re-stores counted are exactly the sum of the counts of the change kinds, the ring holds at most forty
  examples, a re-store is of the kind inputs exactly when no field differs and the output is the same, and
  no re-store is ever attributed to a change of the target: the target is part of the key a package is
  remembered under, so the two uploads compared always agree on it.\<close>

theorem churn_books:
  assumes "list_all (\<lambda>m. noNul (cm_meta m ''pkg'')) ms"
  shows "let c = observeAll ms (newChurnTracker b) in
     ct_total c = sum_list (map (ct_byChange c) changeKinds) \<and> length (ct_recent c) \<le> churnRecentMax \<and>
     list_all (\<lambda>ev. re_Change ev \<in> set changeKinds - {changeTarget} \<and>
       (re_Change ev = changeInputs \<longleftrightarrow> re_Diffs ev = [] \<and> re_Output ev = outputSame)) (ct_recent c)"
proof -
  have "churnInv c \<Longrightarrow> list_all (\<lambda>m. noNul (cm_meta m ''pkg'')) ms \<Longrightarrow> churnInv (observeAll ms c)" for c
    unfolding observeAll_def by (induction ms arbitrary: c) (simp_all add: observe_inv)
  from this [OF newChurnTracker_inv assms, of b] show ?thesis
    by (auto simp: churnInv_def Let_def restoreOk_def list_all_iff)
qed

text \<open>Two uploads of a package under different keys.\<close>

definition demoMove :: "string \<Rightarrow> string \<Rightarrow> churnMove" where
  "demoMove dir digit =
    \<lparr>cm_now = 5, cm_key = gbciKeyPrefix @ concat (replicate 64 digit),
     cm_meta = (\<lambda>f. if f = ''pkg'' then ''fmt'' else if f = ''target'' then ''linux/amd64'' else if f = ''src-dir'' then dir else []),
     cm_put = True, cm_project = ''p''\<rparr>"

lemma churn_books_witness:
  "let c = observeAll [demoMove ''/a'' ''0'', demoMove ''/b'' ''1''] (newChurnTracker 100000) in
     ct_total c = sum_list (map (ct_byChange c) changeKinds) \<and> length (ct_recent c) \<le> churnRecentMax"
proof -
  have "list_all (\<lambda>m. noNul (cm_meta m ''pkg'')) [demoMove ''/a'' ''0'', demoMove ''/b'' ''1'']" by (simp add: demoMove_def noNul_def)
  from churn_books [OF this, of 100000] show ?thesis by (simp add: Let_def)
qed

end
