(* ===== verification/MemLimit.thy ===== *)
theory MemLimit
  imports Startup Churn "HOL-Library.Log_Nat"
begin

text \<open>
  How the server stays inside its memory limit (\<^verbatim>\<open>memlimit.go\<close>): the ceiling it discovers, the share of it
  each cache may claim, and the controller that samples the memory in use and scales the caches.  A
  \<^verbatim>\<open>float64\<close> is a rational, and each operation rounds its exact result to 53 significant bits, ties to even;
  every value here lies far from the ends of the exponent range.  What the runtime reports (the memory in
  use, the limit, the files of the control group) is an argument.
\<close>

section \<open>Definitions\<close>

subsection \<open>Floating point\<close>

definition roundEven :: "rat \<Rightarrow> int" where
  "roundEven x = (let n = \<lfloor>x\<rfloor>; d = x - of_int n in if d < 1 / 2 \<or> d = 1 / 2 \<and> even n then n else n + 1)"

text \<open>The binary exponent of a positive rational.\<close>

definition binade :: "rat \<Rightarrow> int" where
  "binade x =
    (let (p, q) = quotient_of x; e = int (floorlog 2 (nat p)) - int (floorlog 2 (nat q))
     in if 2 powi e \<le> x then e else e - 1)"

definition float64 :: "rat \<Rightarrow> rat" where
  "float64 x = (if x \<le> 0 then 0 else let u = 2 powi (binade x - 52) in of_int (roundEven (x / u)) * u)"

definition fmul :: "rat \<Rightarrow> rat \<Rightarrow> rat" where
  "fmul x y = float64 (x * y)"

definition floatToInt :: "rat \<Rightarrow> int" where
  "floatToInt x = \<lfloor>x\<rfloor>"

subsection \<open>The budget\<close>

definition metaCacheBudgetFraction :: rat where "metaCacheBudgetFraction = float64 (1 / 10)"
definition cleanMemoBudgetFraction :: rat where "cleanMemoBudgetFraction = float64 (3 / 100)"
definition evictedMemoBudgetFraction :: rat where "evictedMemoBudgetFraction = float64 (3 / 100)"
definition churnBudgetFraction :: rat where "churnBudgetFraction = float64 (2 / 100)"
definition defaultMetaCacheBytes :: int where "defaultMetaCacheBytes = 32 * 2 ^ 20"
definition defaultCleanMemoBytes :: int where "defaultCleanMemoBytes = 16 * 2 ^ 20"
definition defaultEvictedMemoBytes :: int where "defaultEvictedMemoBytes = 24 * 2 ^ 20"
definition defaultChurnBytes :: int where "defaultChurnBytes = 16 * 2 ^ 20"
definition memShrinkFraction :: rat where "memShrinkFraction = float64 (85 / 100)"
definition memGrowFraction :: rat where "memGrowFraction = float64 (65 / 100)"
definition memShrinkStep :: rat where "memShrinkStep = 1 / 2"
definition memGrowStep :: rat where "memGrowStep = 5 / 4"
definition memMinScale :: rat where "memMinScale = 1 / 32"
definition memShrinkCooldown :: int where "memShrinkCooldown = 2 * 1000000000"
definition memGrowCooldown :: int where "memGrowCooldown = 30 * 1000000000"

text \<open>The files of the control group, in the order they are read; \<open>contents\<close> is none for one that cannot
  be read.\<close>

definition cgroupMemoryLimitPaths :: "string list" where
  "cgroupMemoryLimitPaths = [''/sys/fs/cgroup/memory.max'', ''/sys/fs/cgroup/memory/memory.limit_in_bytes'']"

fun readCgroupFrom :: "(string \<Rightarrow> string option) \<Rightarrow> string list \<Rightarrow> int option" where
  "readCgroupFrom contents [] = None"
| "readCgroupFrom contents (path # paths) =
    (case contents path of None \<Rightarrow> readCgroupFrom contents paths
     | Some text \<Rightarrow>
       let x = trimSpace text in
       if x = [] \<or> x = ''max'' then readCgroupFrom contents paths
       else case parseInt x of None \<Rightarrow> readCgroupFrom contents paths
         | Some v \<Rightarrow> if v \<le> 0 \<or> v \<ge> 2 ^ 62 then readCgroupFrom contents paths else Some v)"

definition readCgroupMemoryLimit :: "(string \<Rightarrow> string option) \<Rightarrow> int option" where
  "readCgroupMemoryLimit contents = readCgroupFrom contents cgroupMemoryLimitPaths"

definition detectMemoryBudget :: "int \<Rightarrow> (string \<Rightarrow> string option) \<Rightarrow> int \<times> string" where
  "detectMemoryBudget limit contents =
    (if limit > 0 \<and> limit \<noteq> 2 ^ 63 - 1 then (limit, ''GOMEMLIMIT'')
     else case readCgroupMemoryLimit contents of Some v \<Rightarrow> (v, ''cgroup'') | None \<Rightarrow> (0, ''unknown''))"

definition cacheBudget :: "int \<Rightarrow> rat \<Rightarrow> int \<Rightarrow> int" where
  "cacheBudget memoryBudget fraction fallback =
    (if memoryBudget \<le> 0 then fallback
     else let n = floatToInt (fmul (float64 (of_int memoryBudget)) fraction) in if n > 0 then n else 1)"

definition storeBudgets :: "int \<Rightarrow> memoBudgets" where
  "storeBudgets memoryBudget =
    \<lparr>mb_clean = cacheBudget memoryBudget cleanMemoBudgetFraction defaultCleanMemoBytes,
     mb_meta = cacheBudget memoryBudget metaCacheBudgetFraction defaultMetaCacheBytes,
     mb_evicted = cacheBudget memoryBudget evictedMemoBudgetFraction defaultEvictedMemoBytes\<rparr>"

subsection \<open>The controller\<close>

text \<open>The caches a server registers, and where each lives.\<close>

datatype cacheKind = MetaCacheKind | CleanMemoKind | DigestMemoKind | EvictedMemoKind | ChurnKind

record caches =
  ca_store :: Storage
  ca_churn :: churnTracker

definition setBudgetOf :: "cacheKind \<Rightarrow> int \<Rightarrow> caches \<Rightarrow> caches" where
  "setBudgetOf kind b ca =
    (let s = ca_store ca in
     case kind of
       MetaCacheKind \<Rightarrow> ca\<lparr>ca_store := s\<lparr>st_metaCache := map_option (\<lambda>c. lru_SetBudget c b) (st_metaCache s)\<rparr>\<rparr>
     | CleanMemoKind \<Rightarrow> ca\<lparr>ca_store := s\<lparr>st_cleanKeys := map_option (\<lambda>c. lru_SetBudget c b) (st_cleanKeys s)\<rparr>\<rparr>
     | DigestMemoKind \<Rightarrow> ca\<lparr>ca_store := s\<lparr>st_digestOK := map_option (\<lambda>c. lru_SetBudget c b) (st_digestOK s)\<rparr>\<rparr>
     | EvictedMemoKind \<Rightarrow> ca\<lparr>ca_store := s\<lparr>st_evicted := map_option (\<lambda>c. lru_SetBudget c b) (st_evicted s)\<rparr>\<rparr>
     | ChurnKind \<Rightarrow> ca\<lparr>ca_churn := (ca_churn ca)\<lparr>ct_entries := lru_SetBudget (ct_entries (ca_churn ca)) b\<rparr>\<rparr>)"

definition budgetOf :: "cacheKind \<Rightarrow> caches \<Rightarrow> int option" where
  "budgetOf kind ca =
    (case kind of
       MetaCacheKind \<Rightarrow> map_option lc_budget (st_metaCache (ca_store ca))
     | CleanMemoKind \<Rightarrow> map_option lc_budget (st_cleanKeys (ca_store ca))
     | DigestMemoKind \<Rightarrow> map_option lc_budget (st_digestOK (ca_store ca))
     | EvictedMemoKind \<Rightarrow> map_option lc_budget (st_evicted (ca_store ca))
     | ChurnKind \<Rightarrow> Some (lc_budget (ct_entries (ca_churn ca))))"

record memController =
  mc_budget :: int
  mc_shrinkAt :: int
  mc_growAt :: int
  mc_caches :: "(cacheKind \<times> int) list"
  mc_scale :: rat
  mc_lastShrink :: "int option"
  mc_lastGrow :: "int option"
  mc_warnedAtFloor :: bool

definition newMemController :: "int \<Rightarrow> memController" where
  "newMemController budget =
    \<lparr>mc_budget = budget, mc_shrinkAt = floatToInt (fmul (float64 (of_int budget)) memShrinkFraction),
     mc_growAt = floatToInt (fmul (float64 (of_int budget)) memGrowFraction), mc_caches = [], mc_scale = 1,
     mc_lastShrink = None, mc_lastGrow = None, mc_warnedAtFloor = False\<rparr>"

definition scaled :: "int \<Rightarrow> rat \<Rightarrow> int" where
  "scaled full scale = (let n = floatToInt (fmul (float64 (of_int full)) scale) in if n < 1 then 1 else n)"

definition Register :: "cacheKind \<Rightarrow> int \<Rightarrow> memController \<Rightarrow> caches \<Rightarrow> memController \<times> caches" where
  "Register kind full m ca = (m\<lparr>mc_caches := mc_caches m @ [(kind, full)]\<rparr>, setBudgetOf kind (scaled full (mc_scale m)) ca)"

definition applyLocked :: "memController \<Rightarrow> caches \<Rightarrow> caches" where
  "applyLocked m ca = foldl (\<lambda>ca (kind, full). setBudgetOf kind (scaled full (mc_scale m)) ca) ca (mc_caches m)"

text \<open>A time that is the zero value is none.\<close>

definition cooling :: "int \<Rightarrow> int option \<Rightarrow> int \<Rightarrow> bool" where
  "cooling now moment cooldown = (case moment of None \<Rightarrow> False | Some t \<Rightarrow> now - t < cooldown)"

definition shrink :: "int \<Rightarrow> memController \<Rightarrow> caches \<Rightarrow> memController \<times> caches" where
  "shrink now m ca =
    (if cooling now (mc_lastShrink m) memShrinkCooldown then (m, ca)
     else if mc_scale m \<le> memMinScale then (m\<lparr>mc_warnedAtFloor := True\<rparr>, ca)
     else let m = m\<lparr>mc_lastShrink := Some now, mc_warnedAtFloor := False, mc_scale := max memMinScale (fmul (mc_scale m) memShrinkStep)\<rparr>
          in (m, applyLocked m ca))"

definition grow :: "int \<Rightarrow> memController \<Rightarrow> caches \<Rightarrow> memController \<times> caches" where
  "grow now m ca =
    (if mc_scale m \<ge> 1 then (m, ca)
     else if cooling now (mc_lastGrow m) memGrowCooldown then (m, ca)
     else let m = m\<lparr>mc_lastGrow := Some now, mc_scale := min 1 (fmul (mc_scale m) memGrowStep)\<rparr>
          in (m, applyLocked m ca))"

definition poll :: "int \<Rightarrow> int \<Rightarrow> memController \<Rightarrow> caches \<Rightarrow> memController \<times> caches" where
  "poll inUse now m ca =
    (if inUse \<ge> mc_shrinkAt m then shrink now m ca
     else if inUse \<le> mc_growAt m then grow now m ca
     else (m, ca))"

text \<open>The part of \<^verbatim>\<open>NewServer\<close> that sizes and registers the caches.\<close>

definition registerCaches :: "int \<Rightarrow> caches \<Rightarrow> memController \<times> caches" where
  "registerCaches memoryBudget ca =
    (let reg = (\<lambda>kind (m, ca). case budgetOf kind ca of None \<Rightarrow> (m, ca) | Some full \<Rightarrow> Register kind full m ca);
         (m, ca) = fold reg [MetaCacheKind, CleanMemoKind, DigestMemoKind, EvictedMemoKind] (newMemController memoryBudget, ca);
         churnBudget = cacheBudget memoryBudget churnBudgetFraction defaultChurnBytes
     in Register ChurnKind churnBudget m (setBudgetOf ChurnKind churnBudget ca))"

text \<open>One tick of \<^verbatim>\<open>Run\<close>: a controller with no budget never runs.\<close>

definition tick :: "int \<Rightarrow> int \<Rightarrow> memController \<times> caches \<Rightarrow> memController \<times> caches" where
  "tick inUse now mca = (case mca of (m, ca) \<Rightarrow> if mc_budget m \<le> 0 then (m, ca) else poll inUse now m ca)"

definition ticks :: "(int \<times> int) list \<Rightarrow> memController \<times> caches \<Rightarrow> memController \<times> caches" where
  "ticks samples mca = fold (\<lambda>(inUse, now). tick inUse now) samples mca"

section \<open>Rounding\<close>

lemma roundEven_error: "\<bar>of_int (roundEven x) - x\<bar> \<le> 1 / 2"
proof -
  have "of_int \<lfloor>x\<rfloor> \<le> x" "x < of_int \<lfloor>x\<rfloor> + 1" by linarith+
  then show ?thesis by (auto simp: roundEven_def Let_def abs_le_iff)
qed

lemma binary_bounds:
  assumes "n > 0" shows "2 powi (int (floorlog 2 n) - 1) \<le> (of_nat n :: rat)" "(of_nat n :: rat) < 2 powi int (floorlog 2 n)"
proof -
  have l: "2 ^ (floorlog 2 n - 1) \<le> n" "n < 2 ^ floorlog 2 n"
    using assms floorlog_bounds [of n 2] by auto
  have pos: "floorlog 2 n > 0" using l(2) assms by (cases "floorlog 2 n") auto
  from l(1) have "(2 :: rat) ^ (floorlog 2 n - 1) \<le> of_nat n" by (metis of_nat_le_iff of_nat_numeral of_nat_power)
  then show "2 powi (int (floorlog 2 n) - 1) \<le> (of_nat n :: rat)" using pos by (metis One_nat_def Suc_leI of_nat_1 of_nat_diff power_int_of_nat)
  from l(2) have "(of_nat n :: rat) < 2 ^ floorlog 2 n" by (metis of_nat_less_iff of_nat_numeral of_nat_power)
  then show "(of_nat n :: rat) < 2 powi int (floorlog 2 n)" by simp
qed

lemma binade_le: assumes "x > 0" shows "2 powi binade x \<le> x"
proof -
  obtain p q where pq: "quotient_of x = (p, q)" by fastforce
  have x: "x = of_int p / of_int q" "q > 0" using quotient_of_div [OF pq] quotient_of_denom_pos [OF pq] by auto
  then have p: "p > 0" using assms by (simp add: zero_less_divide_iff)
  let ?a = "floorlog 2 (nat p)" and ?b = "floorlog 2 (nat q)"
  have "2 powi (int ?a - 1) \<le> (of_int p :: rat)" using binary_bounds(1) [of "nat p"] p by simp
  moreover have "(of_int q :: rat) \<le> 2 powi int ?b" using binary_bounds(2) [of "nat q"] x(2) by simp
  ultimately have "2 powi (int ?a - 1) / 2 powi int ?b \<le> (of_int p / of_int q :: rat)" using x(2) p by (intro frac_le) simp_all
  moreover have "(2 :: rat) powi (int ?a - int ?b - 1) = 2 powi (int ?a - 1) / 2 powi int ?b"
    by (subst power_int_diff [symmetric]) (simp_all add: algebra_simps)
  ultimately have "2 powi (int ?a - int ?b - 1) \<le> x" unfolding x(1) by simp
  then show ?thesis by (simp add: binade_def pq Let_def)
qed

lemma float64_error: assumes "x > 0" shows "\<bar>float64 x - x\<bar> \<le> x / 2 ^ 53"
proof -
  define u :: rat where "u = 2 powi (binade x - 52)"
  have u: "u > 0" by (simp add: u_def)
  have "u = 2 powi binade x / 2 ^ 52" by (simp add: u_def power_int_diff)
  then have ux: "u \<le> x / 2 ^ 52" using binade_le [OF assms] by (simp add: divide_right_mono)
  have "float64 x - x = (of_int (roundEven (x / u)) - x / u) * u" using assms u by (simp add: float64_def u_def [symmetric] Let_def field_simps)
  then have "\<bar>float64 x - x\<bar> \<le> 1 / 2 * u" using roundEven_error [of "x / u"] u by (simp add: abs_mult mult_right_mono del: times_divide_eq_left)
  also have "\<dots> \<le> x / 2 ^ 53" using ux by simp
  finally show ?thesis .
qed

lemma fmul_bounds:
  assumes "x > 0" "y > 0" shows "x * y * (1 - 1 / 2 ^ 53) \<le> fmul x y" "fmul x y \<le> x * y * (1 + 1 / 2 ^ 53)"
proof -
  define z e where "z = x * y" and "e = (1 :: rat) / 2 ^ 53"
  have "\<bar>fmul x y - z\<bar> \<le> z * e" unfolding fmul_def z_def e_def using assms float64_error [of "x * y"] by simp
  then have "z - z * e \<le> fmul x y" "fmul x y \<le> z + z * e" by linarith+
  then show "x * y * (1 - 1 / 2 ^ 53) \<le> fmul x y" "fmul x y \<le> x * y * (1 + 1 / 2 ^ 53)"
    unfolding z_def [symmetric] e_def [symmetric] by (simp_all add: right_diff_distrib distrib_left)
qed

section \<open>The scale\<close>

definition scaleOk :: "memController \<Rightarrow> bool" where
  "scaleOk m \<longleftrightarrow> memMinScale \<le> mc_scale m \<and> mc_scale m \<le> 1"

lemma memMinScale_range [simp]: "memMinScale \<le> 1" "0 < memMinScale" "0 \<le> memMinScale"
  by (simp_all add: memMinScale_def)

lemma scaleOk_pos: "scaleOk m \<Longrightarrow> 0 < mc_scale m"
  using memMinScale_range(2) unfolding scaleOk_def by linarith

lemma scaleOk_new: "scaleOk (newMemController b)"
  by (simp add: scaleOk_def newMemController_def)

lemma shrink_scale: "scaleOk m \<Longrightarrow> scaleOk (fst (shrink now m ca))"
proof -
  assume ok: "scaleOk m"
  then have "mc_scale m > 0" by (rule scaleOk_pos)
  then have "fmul (mc_scale m) memShrinkStep \<le> 1"
    using fmul_bounds(2) [of "mc_scale m" memShrinkStep] ok by (simp add: memShrinkStep_def scaleOk_def)
  then show ?thesis using ok by (simp add: shrink_def scaleOk_def Let_def)
qed

lemma grow_factor:
  assumes "scaleOk m" shows "mc_scale m * (6 / 5) \<le> fmul (mc_scale m) memGrowStep"
proof -
  have "mc_scale m > 0" using assms by (rule scaleOk_pos)
  then show ?thesis using fmul_bounds(1) [of "mc_scale m" memGrowStep] by (simp add: memGrowStep_def)
qed

lemma grow_scale: "scaleOk m \<Longrightarrow> scaleOk (fst (grow now m ca))"
  using grow_factor [of m] scaleOk_pos [of m] by (auto simp: grow_def scaleOk_def Let_def min_def)

lemma tick_scale: "scaleOk (fst mca) \<Longrightarrow> scaleOk (fst (tick inUse now mca))"
  by (auto simp: tick_def poll_def shrink_scale grow_scale split: prod.split)


lemma ticks_scale: "scaleOk (fst mca) \<Longrightarrow> scaleOk (fst (ticks samples mca))"
proof (induction samples arbitrary: mca)
  case (Cons x samples)
  then show ?case using Cons.IH [of "tick (fst x) (snd x) mca"] tick_scale [of mca] by (cases x) (simp add: ticks_def)
qed (simp add: ticks_def)

section \<open>Pressure and relief\<close>

text \<open>Moments a gap apart, the first a gap after an earlier moment if there was one.\<close>

fun spaced :: "int \<Rightarrow> int option \<Rightarrow> int list \<Rightarrow> bool" where
  "spaced gap prev [] = True"
| "spaced gap prev (t # ts) = (\<not> cooling t prev gap \<and> spaced gap (Some t) ts)"

lemma ticks_Cons [simp]: "ticks ((inUse, now) # samples) mca = ticks samples (tick inUse now mca)"
  by (simp add: ticks_def)

lemma ticks_Nil [simp]: "ticks [] mca = mca"
  by (simp add: ticks_def)

lemma tick_pressed: "mc_budget m > 0 \<Longrightarrow> inUse \<ge> mc_shrinkAt m \<Longrightarrow> tick inUse now (m, ca) = shrink now m ca"
  by (simp add: tick_def poll_def)

lemma tick_relieved: "mc_budget m > 0 \<Longrightarrow> inUse < mc_shrinkAt m \<Longrightarrow> inUse \<le> mc_growAt m \<Longrightarrow> tick inUse now (m, ca) = grow now m ca"
  by (simp add: tick_def poll_def)

lemma tick_fields:
  "mc_budget (fst (tick inUse now mca)) = mc_budget (fst mca)" "mc_shrinkAt (fst (tick inUse now mca)) = mc_shrinkAt (fst mca)"
  "mc_growAt (fst (tick inUse now mca)) = mc_growAt (fst mca)" "mc_caches (fst (tick inUse now mca)) = mc_caches (fst mca)"
  by (simp_all add: tick_def poll_def shrink_def grow_def Let_def split: prod.split)

text \<open>At an end of the range the scale stays there.\<close>

lemma pressed_floor:
  assumes "mc_scale (fst mca) = memMinScale" "mc_budget (fst mca) > 0" "list_all (\<lambda>(inUse, now). inUse \<ge> mc_shrinkAt (fst mca)) samples"
  shows "mc_scale (fst (ticks samples mca)) = memMinScale"
  using assms
proof (induction samples arbitrary: mca)
  case (Cons x samples)
  obtain inUse now where x: "x = (inUse, now)" by fastforce
  have "mc_scale (fst (tick inUse now mca)) = memMinScale"
    using Cons.prems tick_pressed [of "fst mca" inUse now "snd mca"] by (auto simp: x shrink_def)
  from Cons.IH [OF this] Cons.prems show ?case by (simp add: x tick_fields)
qed simp

lemma relieved_top:
  assumes "mc_scale (fst mca) = 1" "mc_budget (fst mca) > 0"
    and "list_all (\<lambda>(inUse, now). inUse < mc_shrinkAt (fst mca) \<and> inUse \<le> mc_growAt (fst mca)) samples"
  shows "mc_scale (fst (ticks samples mca)) = 1"
  using assms
proof (induction samples arbitrary: mca)
  case (Cons x samples)
  obtain inUse now where x: "x = (inUse, now)" by fastforce
  have "mc_scale (fst (tick inUse now mca)) = 1"
    using Cons.prems tick_relieved [of "fst mca" inUse now "snd mca"] by (auto simp: x grow_def)
  from Cons.IH [OF this] Cons.prems show ?case by (simp add: x tick_fields)
qed simp

lemma shrink_factor:
  assumes "scaleOk m" shows "fmul (mc_scale m) memShrinkStep \<le> mc_scale m * (51 / 100)"
  using fmul_bounds(2) [of "mc_scale m" memShrinkStep] scaleOk_pos [OF assms] by (simp add: memShrinkStep_def)

lemma pressed_scale:
  assumes "scaleOk (fst mca)" "mc_budget (fst mca) > 0" "list_all (\<lambda>(inUse, now). inUse \<ge> mc_shrinkAt (fst mca)) samples"
    and "spaced memShrinkCooldown (mc_lastShrink (fst mca)) (map snd samples)"
  shows "mc_scale (fst (ticks samples mca)) \<le> max memMinScale (mc_scale (fst mca) * (51 / 100) ^ length samples)"
  using assms
proof (induction samples arbitrary: mca)
  case (Cons x samples)
  obtain inUse now where x: "x = (inUse, now)" by fastforce
  obtain m ca where mca: "mca = (m, ca)" by fastforce
  have t: "tick inUse now mca = shrink now m ca" using Cons.prems by (simp add: mca x tick_pressed)
  show ?case
  proof (cases "mc_scale m \<le> memMinScale")
    case True
    then have "mc_scale (fst mca) = memMinScale" using Cons.prems(1) by (simp add: mca scaleOk_def)
    then show ?thesis using pressed_floor [OF _ Cons.prems(2,3)] by simp
  next
    case False
    then have s: "mc_lastShrink (fst (shrink now m ca)) = Some now" "mc_scale (fst (shrink now m ca)) = max memMinScale (fmul (mc_scale m) memShrinkStep)"
      using Cons.prems(4) by (simp_all add: shrink_def mca x Let_def)
    have IH: "mc_scale (fst (ticks samples (tick inUse now mca)))
        \<le> max memMinScale (mc_scale (fst (tick inUse now mca)) * (51 / 100) ^ length samples)"
    proof (rule Cons.IH)
      show "spaced memShrinkCooldown (mc_lastShrink (fst (tick inUse now mca))) (map snd samples)" using Cons.prems(4) by (simp add: t s(1) x)
    qed (use Cons.prems in \<open>simp_all add: tick_scale tick_fields x\<close>)
    have "mc_scale (fst (tick inUse now mca)) \<le> max memMinScale (mc_scale m * (51 / 100))"
      unfolding t s(2) using shrink_factor [of m] Cons.prems(1) by (auto simp: mca)
    then have "mc_scale (fst (tick inUse now mca)) * (51 / 100) ^ length samples \<le> max memMinScale (mc_scale m * (51 / 100)) * (51 / 100) ^ length samples"
      by (intro mult_right_mono) simp_all
    also have "\<dots> \<le> max memMinScale (mc_scale m * (51 / 100) ^ Suc (length samples))"
    proof (cases "memMinScale \<le> mc_scale m * (51 / 100)")
      case False
      have "memMinScale * (51 / 100) ^ length samples \<le> memMinScale * 1" by (intro mult_left_mono power_le_one) simp_all
      moreover have "max memMinScale (mc_scale m * (51 / 100)) = memMinScale" using False by (intro max_absorb1) linarith
      ultimately show ?thesis by (simp only: le_max_iff_disj mult_1_right simp_thms)
    next
      case True
      then have "max memMinScale (mc_scale m * (51 / 100)) = mc_scale m * (51 / 100)" by (rule max_absorb2)
      then show ?thesis by simp
    qed
    finally show ?thesis using IH by (simp add: x mca)
  qed
qed simp

lemma relieved_scale:
  assumes "scaleOk (fst mca)" "mc_budget (fst mca) > 0"
    and "list_all (\<lambda>(inUse, now). inUse < mc_shrinkAt (fst mca) \<and> inUse \<le> mc_growAt (fst mca)) samples"
    and "spaced memGrowCooldown (mc_lastGrow (fst mca)) (map snd samples)"
  shows "min 1 (mc_scale (fst mca) * (6 / 5) ^ length samples) \<le> mc_scale (fst (ticks samples mca))"
  using assms
proof (induction samples arbitrary: mca)
  case (Cons x samples)
  obtain inUse now where x: "x = (inUse, now)" by fastforce
  obtain m ca where mca: "mca = (m, ca)" by fastforce
  have t: "tick inUse now mca = grow now m ca" using Cons.prems by (simp add: mca x tick_relieved)
  show ?case
  proof (cases "mc_scale m \<ge> 1")
    case True
    then have "mc_scale (fst mca) = 1" using Cons.prems(1) by (simp add: mca scaleOk_def)
    then show ?thesis using relieved_top [OF _ Cons.prems(2,3)] by simp
  next
    case False
    then have s: "mc_lastGrow (fst (grow now m ca)) = Some now" "mc_scale (fst (grow now m ca)) = min 1 (fmul (mc_scale m) memGrowStep)"
      using Cons.prems(4) by (simp_all add: grow_def mca x Let_def)
    have IH: "min 1 (mc_scale (fst (tick inUse now mca)) * (6 / 5) ^ length samples) \<le> mc_scale (fst (ticks samples (tick inUse now mca)))"
    proof (rule Cons.IH)
      show "spaced memGrowCooldown (mc_lastGrow (fst (tick inUse now mca))) (map snd samples)" using Cons.prems(4) by (simp add: t s(1) x)
    qed (use Cons.prems in \<open>simp_all add: tick_scale tick_fields x\<close>)
    have "min 1 (mc_scale m * (6 / 5)) \<le> mc_scale (fst (tick inUse now mca))"
      unfolding t s(2) using grow_factor [of m] Cons.prems(1) by (auto simp: mca)
    then have "min 1 (mc_scale m * (6 / 5)) * (6 / 5) ^ length samples \<le> mc_scale (fst (tick inUse now mca)) * (6 / 5) ^ length samples"
      by (intro mult_right_mono) simp_all
    then have "min 1 (min 1 (mc_scale m * (6 / 5)) * (6 / 5) ^ length samples) \<le> mc_scale (fst (ticks samples (tick inUse now mca)))"
      by (intro order_trans [OF min.mono IH]) simp_all
    moreover have "min 1 (mc_scale m * (6 / 5) ^ Suc (length samples)) \<le> min 1 (min 1 (mc_scale m * (6 / 5)) * (6 / 5) ^ length samples)"
      by (simp add: min_def)
    ultimately show ?thesis unfolding x ticks_Cons by (simp only: mca fst_conv length_Cons)
  qed
qed simp


section \<open>The sizes of the caches\<close>

text \<open>A cache of a budget, none of whose shards holds more than its slice or one entry.\<close>

definition lruSized :: "int \<Rightarrow> ('k, 'v) lruCache \<Rightarrow> bool" where
  "lruSized b c \<longleftrightarrow> lc_budget c = b \<and> (\<forall>sh \<in> set (lc_shards c). sh_bytes sh \<le> shardBudget c \<or> length (sh_ll sh) \<le> 1)"

definition sizedTo :: "cacheKind \<Rightarrow> int \<Rightarrow> caches \<Rightarrow> bool" where
  "sizedTo kind b ca \<longleftrightarrow>
    (case kind of
       MetaCacheKind \<Rightarrow> (case st_metaCache (ca_store ca) of None \<Rightarrow> False | Some c \<Rightarrow> lruSized b c)
     | CleanMemoKind \<Rightarrow> (case st_cleanKeys (ca_store ca) of None \<Rightarrow> False | Some c \<Rightarrow> lruSized b c)
     | DigestMemoKind \<Rightarrow> (case st_digestOK (ca_store ca) of None \<Rightarrow> False | Some c \<Rightarrow> lruSized b c)
     | EvictedMemoKind \<Rightarrow> (case st_evicted (ca_store ca) of None \<Rightarrow> False | Some c \<Rightarrow> lruSized b c)
     | ChurnKind \<Rightarrow> lruSized b (ct_entries (ca_churn ca)))"

lemma evictLocked_fits:
  "evictLocked b (sh, bytes, ev) = (sh', bytes', ev') \<Longrightarrow> sh_bytes sh' \<le> b \<or> length (sh_ll sh') \<le> 1"
proof (induction b "(sh, bytes, ev)" arbitrary: sh bytes ev rule: evictLocked.induct)
  case (1 budget sh bytes ev)
  show ?case
  proof (cases "sh_bytes sh > budget \<and> length (sh_ll sh) > 1")
    case True
    obtain i e where l: "last (sh_ll sh) = (i, e)" by fastforce
    from 1(2) True l have "evictLocked budget (sh\<lparr>sh_ll := butlast (sh_ll sh), sh_items := (sh_items sh)(le_key e := None),
        sh_bytes := sh_bytes sh - le_size e\<rparr>, bytes - le_size e, ev + 1) = (sh', bytes', ev')"
      by (subst (asm) evictLocked.simps) simp
    from 1(1) [OF True l [symmetric] refl this] show ?thesis .
  next
    case False
    with 1(2) show ?thesis by (subst (asm) evictLocked.simps) auto
  qed
qed

lemma evictShards_fits:
  "evictShards b shs bytes ev = (shs', bytes', ev') \<Longrightarrow> \<forall>sh \<in> set shs'. sh_bytes sh \<le> b \<or> length (sh_ll sh) \<le> 1"
proof (induction shs arbitrary: bytes ev shs' bytes' ev')
  case (Cons sh shs)
  obtain sh1 b1 e1 where 1: "evictLocked b (sh, bytes, ev) = (sh1, b1, e1)" by (metis prod.exhaust)
  obtain shs2 b2 e2 where 2: "evictShards b shs b1 e1 = (shs2, b2, e2)" by (metis prod.exhaust)
  have "shs' = sh1 # shs2" using Cons.prems 1 2 by (simp add: Let_def)
  then show ?case using evictLocked_fits [OF 1] Cons.IH [OF 2] by simp
qed simp

lemma lru_SetBudget_sized: "0 \<le> b \<Longrightarrow> lruSized b (lru_SetBudget c b)"
  using evictShards_fits [of "shardBudget (c\<lparr>lc_budget := b\<rparr>)" "lc_shards c" "lc_bytes c" "lc_evictions c"]
  by (auto simp: lruSized_def lru_SetBudget_def Let_def shardBudget_def split: prod.splits)

lemma scaled_pos: "1 \<le> scaled full scale"
  by (simp add: scaled_def Let_def)

lemma setBudgetOf_sized:
  "0 \<le> b \<Longrightarrow> budgetOf kind ca \<noteq> None \<Longrightarrow> sizedTo kind b (setBudgetOf kind b ca)"
  "kind' \<noteq> kind \<Longrightarrow> sizedTo kind' b' (setBudgetOf kind b ca) = sizedTo kind' b' ca"
  "budgetOf kind' (setBudgetOf kind b ca) = None \<longleftrightarrow> budgetOf kind' ca = None"
  by (auto simp: sizedTo_def setBudgetOf_def budgetOf_def Let_def lru_SetBudget_sized split: cacheKind.splits option.splits)

lemma sizedTo_present: "sizedTo kind b ca \<Longrightarrow> budgetOf kind ca \<noteq> None"
  by (auto simp: sizedTo_def budgetOf_def split: cacheKind.splits option.splits)

text \<open>Every registered cache has the size of the scale.\<close>

definition cachesSized :: "memController \<times> caches \<Rightarrow> bool" where
  "cachesSized mca \<longleftrightarrow> distinct (map fst (mc_caches (fst mca))) \<and>
    (\<forall>kf \<in> set (mc_caches (fst mca)). sizedTo (fst kf) (scaled (snd kf) (mc_scale (fst mca))) (snd mca))"

lemma applyLocked_sized:
  assumes "distinct (map fst (mc_caches m))" "\<forall>kf \<in> set (mc_caches m). budgetOf (fst kf) ca \<noteq> None"
  shows "cachesSized (m, applyLocked m ca)"
proof -
  define f where "f = (\<lambda>ca (kind, full). setBudgetOf kind (scaled full (mc_scale m)) ca)"
  have "(\<forall>kf \<in> set xs. sizedTo (fst kf) (scaled (snd kf) (mc_scale m)) (foldl f ca xs)) \<and>
      (\<forall>kind b. kind \<notin> fst ` set xs \<longrightarrow> sizedTo kind b (foldl f ca xs) = sizedTo kind b ca)"
    if "distinct (map fst xs)" "\<forall>kf \<in> set xs. budgetOf (fst kf) ca \<noteq> None" for xs ca
    using that
  proof (induction xs arbitrary: ca)
    case (Cons x xs)
    obtain kind full where x: "x = (kind, full)" by fastforce
    let ?ca = "setBudgetOf kind (scaled full (mc_scale m)) ca"
    have s: "sizedTo kind (scaled full (mc_scale m)) ?ca"
      using Cons.prems(2) scaled_pos [of full "mc_scale m"] by (intro setBudgetOf_sized(1)) (auto simp: x)
    have "kind \<notin> fst ` set xs" using Cons.prems(1) by (force simp: x)
    with Cons.IH [of ?ca] Cons.prems s show ?case by (auto simp: f_def x setBudgetOf_sized(2,3))
  qed simp
  with assms show ?thesis by (simp add: cachesSized_def applyLocked_def f_def)
qed

lemma tick_sized: "cachesSized mca \<Longrightarrow> cachesSized (tick inUse now mca)"
proof -
  assume a: "cachesSized mca"
  obtain m ca where mca: "mca = (m, ca)" by fastforce
  have p: "distinct (map fst (mc_caches m))" "\<forall>kf \<in> set (mc_caches m). budgetOf (fst kf) ca \<noteq> None"
    using a sizedTo_present by (auto simp: cachesSized_def mca)
  have "cachesSized (m', applyLocked m' ca)" if "mc_caches m' = mc_caches m" for m'
    using applyLocked_sized [of m' ca] p that by simp
  moreover have "cachesSized (m\<lparr>mc_warnedAtFloor := True\<rparr>, ca)" using a by (simp add: cachesSized_def mca)
  ultimately show ?thesis using a by (simp add: mca tick_def poll_def shrink_def grow_def Let_def)
qed

lemma ticks_sized: "cachesSized mca \<Longrightarrow> cachesSized (ticks samples mca)"
proof (induction samples arbitrary: mca)
  case (Cons x samples)
  then show ?case using tick_sized by (cases x) simp
qed simp

lemma ticks_fields:
  "mc_budget (fst (ticks samples mca)) = mc_budget (fst mca)" "mc_shrinkAt (fst (ticks samples mca)) = mc_shrinkAt (fst mca)"
  "mc_growAt (fst (ticks samples mca)) = mc_growAt (fst mca)" "mc_caches (fst (ticks samples mca)) = mc_caches (fst mca)"
proof (induction samples arbitrary: mca)
  case (Cons x samples)
  { case 1 then show ?case using Cons(1) by (cases x) (simp add: tick_fields) }
  { case 2 then show ?case using Cons(2) by (cases x) (simp add: tick_fields) }
  { case 3 then show ?case using Cons(3) by (cases x) (simp add: tick_fields) }
  { case 4 then show ?case using Cons(4) by (cases x) (simp add: tick_fields) }
qed simp_all

lemma Register_sized:
  assumes "cachesSized (m, ca)" "kind \<notin> fst ` set (mc_caches m)" "budgetOf kind ca \<noteq> None"
  shows "cachesSized (Register kind full m ca)"
proof -
  have "fst kf \<noteq> kind" if "kf \<in> set (mc_caches m)" for kf using assms(2) that by blast
  then show ?thesis
    using assms setBudgetOf_sized(1) [OF _ assms(3), of "scaled full (mc_scale m)"] scaled_pos [of full "mc_scale m"]
    by (auto simp: cachesSized_def Register_def setBudgetOf_sized(2))
qed

text \<open>What a server registers at its start.\<close>

definition regStep :: "cacheKind \<Rightarrow> memController \<times> caches \<Rightarrow> memController \<times> caches" where
  "regStep kind mca = (case mca of (m, ca) \<Rightarrow> case budgetOf kind ca of None \<Rightarrow> (m, ca) | Some full \<Rightarrow> Register kind full m ca)"

lemma regStep_sized:
  assumes "cachesSized mca" "kind \<notin> fst ` set (mc_caches (fst mca))"
  shows "cachesSized (regStep kind mca)" "fst ` set (mc_caches (fst (regStep kind mca))) \<subseteq> insert kind (fst ` set (mc_caches (fst mca)))"
    "mc_budget (fst (regStep kind mca)) = mc_budget (fst mca)" "mc_scale (fst (regStep kind mca)) = mc_scale (fst mca)"
  using assms Register_sized [of "fst mca" "snd mca" kind] by (auto simp: regStep_def Register_def split: prod.splits option.splits)

lemma regSteps_sized:
  assumes "distinct kinds" "cachesSized mca" "fst ` set (mc_caches (fst mca)) \<inter> set kinds = {}"
  shows "cachesSized (fold regStep kinds mca) \<and> fst ` set (mc_caches (fst (fold regStep kinds mca))) \<subseteq> set kinds \<union> fst ` set (mc_caches (fst mca)) \<and>
    mc_budget (fst (fold regStep kinds mca)) = mc_budget (fst mca) \<and> mc_scale (fst (fold regStep kinds mca)) = mc_scale (fst mca)"
  using assms
proof (induction kinds arbitrary: mca)
  case (Cons kind kinds)
  have n: "kind \<notin> fst ` set (mc_caches (fst mca))" using Cons.prems(3) by auto
  note r = regStep_sized [OF Cons.prems(2) n]
  have "fst ` set (mc_caches (fst (regStep kind mca))) \<inter> set kinds = {}" using r(2) Cons.prems(1,3) by auto
  with Cons.IH [OF _ r(1)] Cons.prems(1) have "cachesSized (fold regStep kinds (regStep kind mca)) \<and>
      fst ` set (mc_caches (fst (fold regStep kinds (regStep kind mca)))) \<subseteq> set kinds \<union> fst ` set (mc_caches (fst (regStep kind mca))) \<and>
      mc_budget (fst (fold regStep kinds (regStep kind mca))) = mc_budget (fst (regStep kind mca)) \<and>
      mc_scale (fst (fold regStep kinds (regStep kind mca))) = mc_scale (fst (regStep kind mca))" by simp
  then show ?case using r(2-4) by simp blast
qed simp

lemma registerCaches_sized:
  "cachesSized (registerCaches memoryBudget ca)" "mc_budget (fst (registerCaches memoryBudget ca)) = memoryBudget"
  "scaleOk (fst (registerCaches memoryBudget ca))"
proof -
  let ?kinds = "[MetaCacheKind, CleanMemoKind, DigestMemoKind, EvictedMemoKind]"
  let ?b = "cacheBudget memoryBudget churnBudgetFraction defaultChurnBytes"
  obtain m ca' where mca: "fold regStep ?kinds (newMemController memoryBudget, ca) = (m, ca')" by fastforce
  have "cachesSized (newMemController memoryBudget, ca)" by (simp add: cachesSized_def newMemController_def)
  from regSteps_sized [OF _ this, of ?kinds] have s: "cachesSized (m, ca')" "fst ` set (mc_caches m) \<subseteq> set ?kinds"
      "mc_budget m = memoryBudget" "mc_scale m = 1"
    unfolding mca by (simp_all add: newMemController_def)
  have eq: "registerCaches memoryBudget ca = Register ChurnKind ?b m (setBudgetOf ChurnKind ?b ca')"
    using mca by (simp add: registerCaches_def regStep_def Let_def case_prod_beta')
  have ck: "ChurnKind \<notin> fst ` set (mc_caches m)" using s(2) by auto
  have "cachesSized (m, setBudgetOf ChurnKind ?b ca')"
  proof -
    have "fst kf \<noteq> ChurnKind" if "kf \<in> set (mc_caches m)" for kf using ck imageI [OF that, of fst] by metis
    then show ?thesis using s(1) by (simp add: cachesSized_def setBudgetOf_sized(2))
  qed
  then show "cachesSized (registerCaches memoryBudget ca)"
    unfolding eq by (rule Register_sized [OF _ ck]) (simp add: budgetOf_def setBudgetOf_def)
  show "mc_budget (fst (registerCaches memoryBudget ca)) = memoryBudget" "scaleOk (fst (registerCaches memoryBudget ca))"
    unfolding eq by (simp_all add: Register_def s scaleOk_def)
qed

text \<open>Full size is the size registered.\<close>

lemma float64_int:
  assumes "0 < n" "n < 2 ^ 53" shows "float64 (of_int n) = of_int n"
proof -
  have q: "quotient_of (of_int n) = (n, 1)" by (simp add: of_int_rat quotient_of_Fract normalize_def)
  have f1: "floorlog 2 (Suc 0) = 1" by (simp add: floorlog_def)
  have "nat n < 2 ^ 53" using assms by (simp add: nat_less_iff)
  then have l: "floorlog 2 (nat n) \<le> 53" by (simp add: floorlog_le_iff)
  have b: "binade (of_int n) \<le> 52" using l by (auto simp: binade_def q Let_def f1)
  define k where "k = nat (52 - binade (of_int n))"
  define u :: rat where "u = 2 powi (binade (of_int n) - 52)"
  have "binade (of_int n) - 52 = - int k" using b by (simp add: k_def)
  then have u: "u = 1 / 2 ^ k" unfolding u_def by (simp only: power_int_minus power_int_of_nat inverse_eq_divide)
  have d: "of_int n / u = of_int (n * 2 ^ k)" by (simp add: u)
  have r: "roundEven (of_int z) = z" for z by (simp add: roundEven_def)
  have "of_int (roundEven (of_int n / u)) * u = of_int n" unfolding d r by (simp add: u)
  then show ?thesis using assms(1) by (simp add: float64_def u_def Let_def)
qed

lemma scaled_full: "0 < full \<Longrightarrow> full < 2 ^ 53 \<Longrightarrow> scaled full 1 = full"
  by (simp add: scaled_def fmul_def float64_int floatToInt_def)

section \<open>What the controller leaves alone\<close>

lemma lru_SetBudget_none:
  "lruOk shardOf c \<Longrightarrow> lruLookup shardOf (lru_SetBudget c b) k \<noteq> lruLookup shardOf c k \<Longrightarrow> lruLookup shardOf (lru_SetBudget c b) k = None"
  using lru_SetBudget_lookup [of shardOf c b k] by blast

lemma setBudgetOf_store:
  assumes "guardsOk dec K (ca_store ca)"
  shows "guardsOk dec K (ca_store (setBudgetOf kind b ca)) \<and> sameFiles (ca_store ca) (ca_store (setBudgetOf kind b ca))"
proof -
  let ?s = "ca_store ca" and ?t = "ca_store (setBudgetOf kind b ca)"
  have f: "sameFiles ?s ?t" by (simp add: setBudgetOf_def sameFiles_def Let_def split: cacheKind.split)
  have m: "memosOk ?s" "metaCoherent K ?s" "inj_on (pathOf ?s) K" using assms by (simp_all add: guardsOk_def storeOk_def)
  then have m': "memosOk ?t"
    by (auto simp: memosOk_def setBudgetOf_def Let_def lru_SetBudget_ok [THEN conjunct1] split: cacheKind.split)
  have l: "metaLookup ?t k \<in> {None, metaLookup ?s k}" for k
    using m(1) by (auto simp: metaLookup_def memosOk_def setBudgetOf_def Let_def intro: lru_SetBudget_none split: cacheKind.split option.split)
  have c: "cleanLookup ?t h \<in> {None, cleanLookup ?s h}" "digestLookup ?t h \<in> {None, digestLookup ?s h}" for h
    using m(1)
    by (auto simp: cleanLookup_def digestLookup_def memosOk_def setBudgetOf_def Let_def intro: lru_SetBudget_none split: cacheKind.split option.split)
  have "storeOk K ?t" unfolding storeOk_def metaCoherent_def
    using m m' l sameFiles_path [OF f] f unfolding metaCoherent_def sameFiles_def lookupFile_def by (metis (no_types) insertE singletonD option.distinct(1))
  from guardsOk_quiet [OF assms this] f c show ?thesis by (auto simp: sameFiles_def)
qed

lemma applyLocked_store:
  assumes "guardsOk dec K (ca_store ca)"
  shows "guardsOk dec K (ca_store (applyLocked m ca)) \<and> sameFiles (ca_store ca) (ca_store (applyLocked m ca))"
proof -
  have "guardsOk dec K (ca_store (foldl (\<lambda>ca (kind, full). setBudgetOf kind (f full) ca) ca xs)) \<and>
      sameFiles (ca_store ca) (ca_store (foldl (\<lambda>ca (kind, full). setBudgetOf kind (f full) ca) ca xs))" for f xs
    using assms
  proof (induction xs arbitrary: ca)
    case (Cons x xs)
    obtain kind full where x: "x = (kind, full)" by fastforce
    note s = setBudgetOf_store [OF Cons.prems, of kind "f full"]
    then show ?case using Cons.IH [of "setBudgetOf kind (f full) ca"] sameFiles_trans by (auto simp: x)
  qed simp
  then show ?thesis unfolding applyLocked_def .
qed

lemma tick_store:
  assumes "guardsOk dec K (ca_store (snd mca))"
  shows "guardsOk dec K (ca_store (snd (tick inUse now mca))) \<and> sameFiles (ca_store (snd mca)) (ca_store (snd (tick inUse now mca)))"
  using assms by (auto simp: tick_def poll_def shrink_def grow_def Let_def applyLocked_store split: prod.split)

section \<open>Properties\<close>

lemma pressed_settles:
  assumes "scaleOk (fst mca)" "mc_budget (fst mca) > 0"
    and "list_all (\<lambda>(inUse, now). inUse \<ge> mc_shrinkAt (fst mca)) samples" "length samples \<ge> 6"
    and "spaced memShrinkCooldown (mc_lastShrink (fst mca)) (map snd samples)"
  shows "mc_scale (fst (ticks samples mca)) = memMinScale"
proof -
  have "mc_scale (fst mca) * (51 / 100) ^ length samples \<le> 1 * (51 / 100) ^ 6"
    using assms(1,4) scaleOk_pos [OF assms(1)] by (intro mult_mono power_decreasing) (simp_all add: scaleOk_def)
  also have "\<dots> \<le> memMinScale" by (simp add: memMinScale_def power_divide)
  finally have "mc_scale (fst (ticks samples mca)) \<le> memMinScale" using pressed_scale [OF assms(1-3,5)] by simp
  then show ?thesis using ticks_scale [OF assms(1), of samples] by (simp add: scaleOk_def)
qed

lemma relieved_settles:
  assumes "scaleOk (fst mca)" "mc_budget (fst mca) > 0"
    and "list_all (\<lambda>(inUse, now). inUse < mc_shrinkAt (fst mca) \<and> inUse \<le> mc_growAt (fst mca)) samples" "length samples \<ge> 20"
    and "spaced memGrowCooldown (mc_lastGrow (fst mca)) (map snd samples)"
  shows "mc_scale (fst (ticks samples mca)) = 1"
proof -
  have "1 \<le> memMinScale * (6 / 5) ^ 20" by (simp add: memMinScale_def power_divide)
  also have "\<dots> \<le> mc_scale (fst mca) * (6 / 5) ^ length samples"
    using assms(1,4) scaleOk_pos [OF assms(1)] by (intro mult_mono power_increasing) (simp_all add: scaleOk_def)
  finally have "1 \<le> mc_scale (fst (ticks samples mca))" using relieved_scale [OF assms(1-3,5)] by simp
  then show ?thesis using ticks_scale [OF assms(1), of samples] by (simp add: scaleOk_def)
qed


text \<open>A start with a budget of a thousand bytes, where the tracker of churn is the registered cache: pressure, then relief.\<close>

definition demoCaches :: caches where
  "demoCaches = \<lparr>ca_store = emptyStore, ca_churn = newChurnTracker 9\<rparr>"

definition demoPressure :: "(int \<times> int) list" where
  "demoPressure = map (\<lambda>n. (900, 2000000000 * int n)) [0..<6]"

definition demoRelief :: "(int \<times> int) list" where
  "demoRelief = map (\<lambda>n. (0, 30000000000 * int n)) [0..<20]"

abbreviation demoFull :: int where
  "demoFull \<equiv> cacheBudget 1000 churnBudgetFraction defaultChurnBytes"

lemma share_bounds:
  assumes "0 < q" "of_int lo \<le> 999 * q" "1001 * q < of_int hi"
  shows "lo \<le> floatToInt (fmul (float64 1000) (float64 q)) \<and> floatToInt (fmul (float64 1000) (float64 q)) < hi"
proof -
  define f where "f = float64 q"
  have f: "q * (1 - 1 / 2 ^ 53) \<le> f" "f \<le> q * (1 + 1 / 2 ^ 53)"
    using fmul_bounds [OF assms(1), of 1] by (simp_all add: f_def fmul_def)
  have "0 < q * (1 - 1 / 2 ^ 53)" using assms(1) by simp
  then have "f > 0" using f(1) by linarith
  with fmul_bounds [of 1000 f] f assms(1) have "999 * q \<le> fmul 1000 f" "fmul 1000 f \<le> 1001 * q" by simp_all
  moreover have "float64 1000 = (1000 :: rat)" using float64_int [of 1000] by simp
  ultimately show ?thesis using assms(2,3) by (simp add: floatToInt_def f_def le_floor_iff floor_less_iff)
qed

lemma demoRegistered_fields:
  "mc_caches (fst (registerCaches 1000 demoCaches)) = [(ChurnKind, demoFull)]" "mc_lastShrink (fst (registerCaches 1000 demoCaches)) = None"
  "mc_lastGrow (fst (registerCaches 1000 demoCaches)) = None" "0 < demoFull" "demoFull < 2 ^ 53"
  "mc_shrinkAt (fst (registerCaches 1000 demoCaches)) \<le> 900" "0 < mc_shrinkAt (fst (registerCaches 1000 demoCaches))"
  "0 \<le> mc_growAt (fst (registerCaches 1000 demoCaches))"
  using share_bounds [of "2 / 100" 1 100] share_bounds [of "85 / 100" 1 900] share_bounds [of "65 / 100" 1 900]
  by (simp_all add: registerCaches_def demoCaches_def budgetOf_def emptyStore_def Register_def newMemController_def cacheBudget_def Let_def
      churnBudgetFraction_def memShrinkFraction_def memGrowFraction_def)

lemma pressed_lastGrow:
  assumes "mc_budget (fst mca) > 0" "list_all (\<lambda>(inUse, now). inUse \<ge> mc_shrinkAt (fst mca)) samples"
  shows "mc_lastGrow (fst (ticks samples mca)) = mc_lastGrow (fst mca)"
  using assms
proof (induction samples arbitrary: mca)
  case (Cons x samples)
  obtain inUse now where x: "x = (inUse, now)" by fastforce
  have "mc_lastGrow (fst (tick inUse now mca)) = mc_lastGrow (fst mca)"
    using Cons.prems tick_pressed [of "fst mca" inUse now "snd mca"] by (auto simp: x shrink_def Let_def)
  then show ?case using Cons.IH [of "tick inUse now mca"] Cons.prems by (simp add: x tick_fields)
qed simp


end
