(* ===== verification/ServerRun.thy ===== *)
theory ServerRun
  imports Server MemLimit
begin

text \<open>
  Runs of the server: any sequence of requests through \<^verbatim>\<open>ServeHTTP\<close> and sweeps of the eviction loop, on
  a store that was started by \<^verbatim>\<open>NewStorage\<close>.  Beside the store a run keeps what was last stored under
  each key; the abstract store the server refines is that map, of which entries may go but never
  change.
\<close>

section \<open>The data directory stays\<close>

named_theorems dir_simps \<open>operations leave the data directory where it is\<close>

lemma dir_Delete [dir_simps]: "st_dataDir (snd (Delete env key s)) = st_dataDir s"
  by (simp add: Delete_def Let_def split: sum.split)

lemma dir_load [dir_simps]: "st_dataDir (snd (loadMetadata env key f s)) = st_dataDir s"
  unfolding loadMetadata_def by (simp add: Let_def split: option.split prod.split)

lemma dir_Open [dir_simps]: "st_dataDir (snd (Open env key s)) = st_dataDir s" "st_dataDir (snd (Stat env key s)) = st_dataDir s"
    "st_dataDir (snd (OpenBody env key s)) = st_dataDir s"
  using dir_load
  by (simp_all add: Open_def Stat_def OpenBody_def split: sum.split option.split prod.split) (metis snd_conv)+

lemma dir_memos [dir_simps]:
  "st_dataDir (snd (keyKnownClean h s)) = st_dataDir s" "st_dataDir (markKeyClean h s) = st_dataDir s"
  "st_dataDir (snd (wasEvicted key s)) = st_dataDir s" "st_dataDir (snd (absentKeyReason key s)) = st_dataDir s"
proof -
  show w: "st_dataDir (snd (wasEvicted key s)) = st_dataDir s" by (simp add: wasEvicted_def Let_def split: option.split prod.split)
  show "st_dataDir (snd (keyKnownClean h s)) = st_dataDir s" "st_dataDir (markKeyClean h s) = st_dataDir s"
    by (simp_all add: keyKnownClean_def markKeyClean_def split: option.split prod.split)
  show "st_dataDir (snd (absentKeyReason key s)) = st_dataDir s"
    using w by (auto simp: absentKeyReason_def Let_def split: prod.split)
qed

lemma dir_eq: "st_dataDir (snd p) = d \<Longrightarrow> p = (a, s') \<Longrightarrow> st_dataDir s' = d"
  by simp

lemmas dir_dest = dir_Delete [THEN dir_eq] dir_Open [THEN dir_eq] dir_memos(1,3,4) [THEN dir_eq]

lemma dir_verify [dir_simps]: "st_dataDir (snd (verifyStoredDigestFor env key f m s)) = st_dataDir s"
  by (simp add: verifyStoredDigestFor_def Let_def split: prod.split)

lemma dir_heal [dir_simps]:
  "st_dataDir (snd (persistOutputID env key f out s)) = st_dataDir s"
  "st_dataDir (snd (reconstructOutputID dec env key fo s)) = st_dataDir s"
  "st_dataDir (snd (ensureOutputID dec env key om fo s)) = st_dataDir s"
proof -
  have p: "st_dataDir (snd (persistOutputID env key f out s)) = st_dataDir s" for f out
    by (simp add: persistOutputID_def writeInode_def split: prod.split option.split)
  then show "st_dataDir (snd (persistOutputID env key f out s)) = st_dataDir s" .
  show r: "st_dataDir (snd (reconstructOutputID dec env key fo s)) = st_dataDir s"
    by (simp add: reconstructOutputID_def Let_def p split: sum.split)
  show "st_dataDir (snd (ensureOutputID dec env key om fo s)) = st_dataDir s"
    using r by (cases "reconstructOutputID dec env key fo s") (simp add: ensureOutputID_def split: sum.split)
qed

lemma dir_guards [dir_simps]:
  "st_dataDir (snd (evictModuleIndexOnRead dec env key f om s)) = st_dataDir s"
  "st_dataDir (snd (evictModuleIndexOnReadByKey dec env key om s)) = st_dataDir s"
proof -
  obtain h ok where h: "extractActionHash key = (h, ok)" by fastforce
  obtain b t where t: "keyKnownClean h s = (b, t)" by fastforce
  have d: "st_dataDir t = st_dataDir s" using dir_memos(1) [THEN dir_eq, OF t] .
  show "st_dataDir (snd (evictModuleIndexOnRead dec env key f om s)) = st_dataDir s"
    by (simp add: evictModuleIndexOnRead_def h t d evictModuleIndex_def dir_simps split: prod.split)
  show "st_dataDir (snd (evictModuleIndexOnReadByKey dec env key om s)) = st_dataDir s"
    by (simp add: evictModuleIndexOnReadByKey_def h t d evictModuleIndex_def dir_simps split: prod.split sum.split)
qed

lemmas dir_dest2 = dir_dest dir_verify [THEN dir_eq] dir_heal [THEN dir_eq] dir_guards [THEN dir_eq]

lemma dir_serveObject [dir_simps]: "st_dataDir (snd (serveObject dec env key f om s)) = st_dataDir s"
  by (auto simp: serveObject_def dir_simps split: prod.split sum.split dest!: dir_dest2)

lemma dir_handleGetObject [dir_simps]: "st_dataDir (snd (handleGetObject dec env errText key s)) = st_dataDir s"
  by (auto simp: handleGetObject_def dir_simps split: prod.split sum.split readGuardVerdict.split dest!: dir_dest2)

lemma dir_handleHead [dir_simps]:
  "st_dataDir (snd (handleHeadObject env errText key s)) = st_dataDir s"
  "st_dataDir (snd (handleDeleteObject env errText key s)) = st_dataDir s"
  by (auto simp: handleHeadObject_def handleDeleteObject_def split: prod.split sum.split option.split dest!: dir_dest2)

lemma dir_storeOne [dir_simps]:
  "st_dataDir (snd (PutStream dec env key r m aud s)) = st_dataDir s"
  "st_dataDir (snd (storeOneObject dec env key r m aud s)) = st_dataDir s"
proof -
  have rt: "st_dataDir (removeTemp env t) = st_dataDir t" for t by (simp add: removeTemp_def split: option.split)
  have c: "st_dataDir (snd (putCommit env key f t)) = st_dataDir t" for f t by (simp add: putCommit_def rt Let_def split: option.split)
  have a: "st_dataDir (snd (putAttrs env key f as t)) = st_dataDir t" for f as t
    by (simp add: putAttrs_def rt c Let_def split: option.split prod.split)
  show p: "st_dataDir (snd (PutStream dec env key r m aud s)) = st_dataDir s"
    by (simp add: PutStream_def rt a Let_def split: option.split)
  show "st_dataDir (snd (storeOneObject dec env key r m aud s)) = st_dataDir s"
    using p by (cases "PutStream dec env key r m aud s") (simp add: storeOneObject_def Let_def split: option.split)
qed

lemma dir_handlePut [dir_simps]: "st_dataDir (snd (handlePutObject dec env errText key hdrs a limit body s)) = st_dataDir s"
  by (auto simp: handlePutObject_def split: prod.split option.split dest!: dir_storeOne(2) [THEN dir_eq])

lemma dir_entries [dir_simps]:
  "st_dataDir (snd (servableEntry dec env prefetch key s)) = st_dataDir s"
  "st_dataDir (snd (keepEntry (servableEntry dec env prefetch key s))) = st_dataDir s"
  "st_dataDir (snd (openVerifiedEntry env e s)) = st_dataDir s"
proof -
  show e: "st_dataDir (snd (servableEntry dec env prefetch key s)) = st_dataDir s"
    by (auto simp: servableEntry_def split: prod.split sum.split bool.split dest!: dir_dest2)
  then show "st_dataDir (snd (keepEntry (servableEntry dec env prefetch key s))) = st_dataDir s"
    by (auto simp: keepEntry_def split: prod.split sum.split)
  show "st_dataDir (snd (openVerifiedEntry env e s)) = st_dataDir s"
    by (auto simp: openVerifiedEntry_def dir_simps split: prod.split sum.split bool.split dest!: dir_dest2)
qed

lemma dir_parallel:
  assumes "\<And>x s. st_dataDir (snd (fn x s)) = st_dataDir s"
  shows "st_dataDir (snd (parallelFilter sched items fn s)) = st_dataDir s"
proof -
  have r: "st_dataDir (snd (runAll fn items is rs s)) = st_dataDir s" for "is" rs s
  proof (induction "is" arbitrary: rs s)
    case (Cons i "is")
    obtain r t where f: "fn (items ! i) s = (r, t)" by fastforce
    then show ?case using Cons.IH [of "rs[i := r]" t] assms [of "items ! i" s] by simp
  qed simp
  obtain rs t where "runAll fn items (sched (length items)) (replicate (length items) None) s = (rs, t)" by fastforce
  then show ?thesis using r [of "sched (length items)" "replicate (length items) None" s] by (simp add: parallelFilter_def)
qed

lemma dir_batchGet [dir_simps]:
  "st_dataDir (snd (handleBatchGet dec env sched ops jsonErr verb request prefetchEnabled s)) = st_dataDir s"
proof -
  have p: "st_dataDir (snd (prefetchEntries dec env sched ops req lookup es t)) = st_dataDir t" for req lookup es t
  proof -
    have b: "st_dataDir (snd (buildPrefetchEntries dec env sched keys u)) = st_dataDir u" for keys u
      unfolding buildPrefetchEntries_def by (rule dir_parallel) (rule dir_entries(2))
    show ?thesis
      by (auto simp: prefetchEntries_def split: option.split prod.split dest!: b [THEN dir_eq])
  qed
  have k: "st_dataDir (snd (parallelFilter sched keys (\<lambda>key s. keepEntry (servableEntry dec env False key s)) t)) = st_dataDir t" for keys t
    by (rule dir_parallel) (rule dir_entries(2))
  have o: "st_dataDir (snd (openVerifiedEntries env sched es t)) = st_dataDir t" for es t
    unfolding openVerifiedEntries_def by (rule dir_parallel) (rule dir_entries(3))
  show ?thesis
    by (auto simp: handleBatchGet_def Let_def split: option.split prod.split dest!: p [THEN dir_eq] k [THEN dir_eq] o [THEN dir_eq])
qed

lemma dir_batchPut [dir_simps]:
  "st_dataDir (snd (handleBatchPut dec envs errText jsonErr order committed verb a limit stream manifest s)) = st_dataDir s"
proof -
  have m: "st_dataDir (snd (putMembers dec envs errText limit aud es n items seen results t)) = st_dataDir t" for aud es n items seen results t
  proof (induction items arbitrary: n seen results t)
    case (Cons item items)
    then show ?case
      by (cases item) (auto split: option.split prod.split dest!: dir_storeOne(2) [THEN dir_eq])
  qed simp
  have b: "st_dataDir (snd (batchPutBody dec envs errText order committed limit aud es items t)) = st_dataDir t" for aud es items t
    by (auto simp: batchPutBody_def split: prod.split sum.split list.split dest!: m [THEN dir_eq])
  show ?thesis
    by (auto simp: handleBatchPut_def b split: list.split tarItem.split option.split)
qed

lemma dir_skips [dir_simps]: "st_dataDir (snd (handleSkipReport env body s)) = st_dataDir s"
proof -
  have a: "st_dataDir (snd (storedAfter env key moment t)) = st_dataDir t" for key moment t
    by (auto simp: storedAfter_def split: prod.split sum.split dest!: dir_dest)
  have "st_dataDir (snd (classifySkippedKeys env ks ago t)) = st_dataDir t" for ks ago t
  proof (induction ks arbitrary: ago t)
    case (Cons k ks)
    then show ?case
      by (auto simp: Let_def split: prod.split list.split dest!: dir_dest a [THEN dir_eq] Cons.IH [THEN dir_eq])
  qed simp
  then show ?thesis by (simp add: handleSkipReport_def split: skipBody.split)
qed

section \<open>The abstract store\<close>

text \<open>What was last stored under each key.  The store may have lost an entry; it never has another one.\<close>

definition runOk :: "decoders \<Rightarrow> string set \<Rightarrow> Storage \<Rightarrow> (string \<rightharpoonup> bytes) \<Rightarrow> bool" where
  "runOk dec K s A \<longleftrightarrow> guardsOk dec K s \<and> st_dataDir s \<noteq> [] \<and> keyFiles K s \<and> indexKeys s \<subseteq> K \<and>
     (\<forall>k \<in> K. \<forall>f. lookupFile (pathOf s k) s = Some f \<longrightarrow> A k = Some (f_body f))"

lemma runOk_shrinks:
  assumes "runOk dec K s A" "shrinks dec K s s'" "st_dataDir s' = st_dataDir s"
  shows "runOk dec K s' A"
proof -
  have p: "pathOf s' = pathOf s" using assms(2) by (simp add: shrinks_def)
  have old: "\<exists>f. lookupFile q s = Some f \<and> sameObject f f'" if "lookupFile q s' = Some f'" for q f'
    using assms(2) that unfolding shrinks_def by blast
  have "keyFiles K s'"
    unfolding keyFiles_def p
  proof (intro allI impI)
    fix q f' assume "lookupFile q s' = Some f'"
    then obtain f where f: "lookupFile q s = Some f" "f_orig f' = f_orig f" using old by (auto simp: sameObject_def)
    then show "isReservedFile (filepathBase q) \<or> (\<exists>k \<in> K. q = pathOf s k \<and> (isKeySafe k \<or> f_orig f' = Some k))"
      using assms(1) unfolding runOk_def keyFiles_def by (metis)
  qed
  moreover have "A k = Some (f_body f')" if "k \<in> K" "lookupFile (pathOf s k) s' = Some f'" for k f'
    using old [OF that(2)] that(1) assms(1) by (auto simp: runOk_def sameObject_def)
  ultimately show ?thesis using assms p by (auto simp: runOk_def shrinks_def)
qed

lemma runOk_sameFiles:
  assumes "runOk dec K s A" "guardsOk dec K s'" "sameFiles s s'"
  shows "runOk dec K s' A"
  by (rule runOk_shrinks [OF assms(1) shrinks_read [OF readStep_same [OF assms(2,3)]]]) (use assms(3) in \<open>simp add: sameFiles_def\<close>)

text \<open>An entry the key loses on purpose.\<close>

lemma runOk_forget:
  assumes "runOk dec K s A" "lookupFile (pathOf s key) s = None"
  shows "runOk dec K s (A(key := None))"
  using assms by (auto simp: runOk_def)

text \<open>An object stored.\<close>

lemma runOk_store:
  assumes "runOk dec K s A" "guardsOk dec K s'" "pathOf s' = pathOf s" "st_dataDir s' = st_dataDir s"
    and "key \<in> K" "goodKey key" "indexKeys s' \<subseteq> insert (compactKey_Key (newCompactKey key)) (indexKeys s)"
    and "f_body f = body" "isKeySafe key \<or> f_orig f = Some key"
    and "\<forall>p. lookupFile p s' = (if p = pathOf s key then Some f else lookupFile p s)"
  shows "runOk dec K s' (A(key \<mapsto> body))"
proof -
  have inj: "k = key" if "k \<in> K" "pathOf s k = pathOf s key" for k
    using assms(1,5) that unfolding runOk_def guardsOk_def storeOk_def by (meson inj_onD)
  have "keyFiles K s'"
    using assms(1,5,9,10) unfolding runOk_def keyFiles_def assms(3) by (metis option.inject)
  moreover have "indexKeys s' \<subseteq> K" using assms(1,5,6,7) by (auto simp: runOk_def goodKey_def canonicalKey_def)
  moreover have "(A(key \<mapsto> body)) k = Some (f_body g)" if "k \<in> K" "lookupFile (pathOf s k) s' = Some g" for k g
  proof (cases "k = key")
    case True
    then show ?thesis using that assms(8,10) by simp
  next
    case False
    then have "pathOf s k \<noteq> pathOf s key" using inj that(1) by blast
    then show ?thesis using that assms(1,10) False by (simp add: runOk_def)
  qed
  ultimately show ?thesis using assms(1-4) by (simp add: runOk_def)
qed

lemma runOk_kept:
  assumes "runOk dec K s A" "guardsOk dec K s'" "pathOf s' = pathOf s" "st_dataDir s' = st_dataDir s"
    and "key \<in> K" "goodKey key" "indexKeys s' \<subseteq> insert (compactKey_Key (newCompactKey key)) (indexKeys s)"
    and "\<forall>p. lookupFile p s' = lookupFile p s"
  shows "runOk dec K s' A"
  using assms unfolding runOk_def keyFiles_def by (auto simp: goodKey_def canonicalKey_def)

section \<open>Uploads\<close>

definition storedOne :: "decoders \<Rightarrow> sysEnv \<Rightarrow> string \<Rightarrow> reader \<Rightarrow> kvMap \<Rightarrow> kvMap option \<Rightarrow> Storage \<Rightarrow> (string \<rightharpoonup> bytes) \<Rightarrow> (string \<rightharpoonup> bytes)" where
  "storedOne dec env key body m aud s A = (if putStored dec env key body m aud s then A(key \<mapsto> rd_data body) else A)"

lemma storeOneObject_run:
  assumes "runOk dec K s A" "key \<in> K" "goodKey key" "putFresh env K s" "\<And>a. aud = Some a \<Longrightarrow> distinct (map fst a)"
    and "storeOneObject dec env key body m aud s = (st, s')"
  shows "runOk dec K s' (storedOne dec env key body m aud s A)"
    "putFresh env' K s \<Longrightarrow> env_ino env' \<noteq> env_ino env \<Longrightarrow> putFresh env' K s'"
proof -
  have g: "guardsOk dec K s" using assms(1) by (simp add: runOk_def)
  obtain st1 e where st: "st = (st1, e)" by fastforce
  note ok = storeOneObject_ok [OF g assms(2,4) assms(5) assms(6) [unfolded st]]
  have d: "st_dataDir s' = st_dataDir s" using dir_storeOne(2) [THEN dir_eq, OF assms(6)] .
  note base = runOk_store [OF assms(1) _ _ d assms(2,3)] runOk_kept [OF assms(1) _ _ d assms(2,3)]
  show "runOk dec K s' (storedOne dec env key body m aud s A)"
  proof (cases "putStored dec env key body m aud s")
    case True
    then obtain f where "f_body f = rd_data body" "isKeySafe key \<or> f_orig f = Some key"
        "\<forall>p. lookupFile p s' = (if p = pathOf s key then Some f else lookupFile p s)" using ok by auto
    from base(1) [OF _ _ _ this] show ?thesis using ok True by (simp add: storedOne_def)
  next
    case False
    then show ?thesis using base(2) ok by (simp add: storedOne_def)
  qed
  assume f: "putFresh env' K s" "env_ino env' \<noteq> env_ino env"
  have "lookupFile p s' = lookupFile p s \<or> p = pathOf s key \<and> (\<exists>g. lookupFile p s' = Some g \<and> f_ino g = env_ino env)" for p
    using ok by (cases "putStored dec env key body m aud s") (auto split: if_splits)
  moreover have "env_tmp env' \<noteq> pathOf s key" "pathOf s' = pathOf s" using f(1) assms(2) ok by (auto simp: putFresh_def)
  ultimately show "putFresh env' K s'"
    using f unfolding putFresh_def putEnvOk_def by (metis option.inject)
qed

text \<open>The bodies a batch stores, member by member, as \<^verbatim>\<open>handleBatchPut\<close> goes through them.\<close>

fun memberBodies :: "decoders \<Rightarrow> (nat \<Rightarrow> sysEnv) \<Rightarrow> int \<Rightarrow> kvMap option \<Rightarrow> batchPutManifestEntry list \<Rightarrow> nat \<Rightarrow> tarItem list
    \<Rightarrow> string list \<Rightarrow> Storage \<Rightarrow> (string \<rightharpoonup> bytes) \<Rightarrow> (string \<rightharpoonup> bytes)" where
  "memberBodies dec envs limit aud manifest n [] seen s A = A"
| "memberBodies dec envs limit aud manifest n (TarFail e # items) seen s A = A"
| "memberBodies dec envs limit aud manifest n (TarHdr name body # items) seen s A =
    (case findEntry name manifest of None \<Rightarrow> A
     | Some (i, e) \<Rightarrow>
       if name \<in> set seen then A
       else let r = limitReader limit body in
         memberBodies dec envs limit aud manifest (Suc n) items (name # seen)
           (snd (storeOneObject dec (envs n) (bp_Key e) r (bp_Metadata e) (cloneAudit aud) s))
           (storedOne dec (envs n) (bp_Key e) r (bp_Metadata e) (cloneAudit aud) s A))"

lemma cloneAudit_distinct: "cloneAudit aud = Some a \<Longrightarrow> distinct (map fst a)"
  by (auto simp: cloneAudit_def distinct_kvMerge)

lemma putMembers_run:
  assumes good: "\<forall>k \<in> K. goodKey k" "bp_Key ` set manifest \<subseteq> K"
  shows "runOk dec K s A \<Longrightarrow> \<forall>m \<ge> n. putFresh (envs m) K s \<Longrightarrow> inj (\<lambda>m. env_ino (envs m)) \<Longrightarrow>
    putMembers dec envs errText limit aud manifest n items seen results s = (r, s') \<Longrightarrow>
    runOk dec K s' (memberBodies dec envs limit aud manifest n items seen s A)"
proof (induction items arbitrary: n seen results s A)
  case (Cons item items)
  show ?case
  proof (cases "\<exists>name body i e. item = TarHdr name body \<and> findEntry name manifest = Some (i, e) \<and> name \<notin> set seen")
    case False
    then show ?thesis using Cons.prems by (cases item) (auto split: option.splits if_splits)
  next
    case True
    then obtain name body i e where it: "item = TarHdr name body" "findEntry name manifest = Some (i, e)" "name \<notin> set seen" by blast
    let ?r = "limitReader limit body"
    obtain st t where o: "storeOneObject dec (envs n) (bp_Key e) ?r (bp_Metadata e) (cloneAudit aud) s = (st, t)" by fastforce
    have k: "bp_Key e \<in> K" using findEntry_Some [OF it(2)] good(2) by (auto dest: nth_mem)
    have fr: "putFresh (envs n) K s" using Cons.prems(2) by blast
    have gk: "goodKey (bp_Key e)" using good(1) k by (rule bspec)
    note one = storeOneObject_run [OF Cons.prems(1) k gk fr cloneAudit_distinct o]
    have "putFresh (envs m) K t" if ge: "m \<ge> Suc n" for m
    proof (rule one(2))
      show "putFresh (envs m) K s" using Cons.prems(2) ge by simp
      show "env_ino (envs m) \<noteq> env_ino (envs n)" using injD [OF Cons.prems(3), of m n] ge by linarith
    qed
    moreover have "runOk dec K t (storedOne dec (envs n) (bp_Key e) ?r (bp_Metadata e) (cloneAudit aud) s A)"
      by (rule one(1))
    moreover obtain results' where "putMembers dec envs errText limit aud manifest (Suc n) items (name # seen) results' t = (r, s')"
      using Cons.prems(4) it o by (auto split: prod.splits)
    ultimately show ?thesis using Cons.IH [of t _ "Suc n" "name # seen"] Cons.prems(3) it o by simp
  qed
qed simp

section \<open>Requests and what they store\<close>

text \<open>The keys a request names, by its route.\<close>

fun routeKeys :: "httpRequest \<Rightarrow> route \<Rightarrow> string set" where
  "routeKeys r RouteBatchGet = (case rq_batchGet r of None \<Rightarrow> {} | Some req \<Rightarrow> set (bg_Keys req))"
| "routeKeys r RouteSkipReport =
    (case rq_skips r of SkipOk rep \<Rightarrow> if skipReport_valid rep then (\<lambda>k. gbciKeyPrefix @ k) ` set (sk_SkippedKeys rep) else {} | _ \<Rightarrow> {})"
| "routeKeys r RouteBatchPut = (case rq_manifest r of None \<Rightarrow> {} | Some es \<Rightarrow> bp_Key ` set es)"
| "routeKeys r (RouteGetObject k) = {k}"
| "routeKeys r (RouteHeadObject k) = {k}"
| "routeKeys r (RoutePutObject k) = {k}"
| "routeKeys r (RouteDeleteObject k) = {k}"
| "routeKeys r _ = {}"

definition batchStored :: "decoders \<Rightarrow> (nat \<Rightarrow> sysEnv) \<Rightarrow> int \<Rightarrow> kvMap option \<Rightarrow> httpRequest \<Rightarrow> Storage \<Rightarrow> (string \<rightharpoonup> bytes) \<Rightarrow> (string \<rightharpoonup> bytes)" where
  "batchStored dec envs limit aud r s A =
    (case (rq_tar r, rq_manifest r) of
       (TarHdr name body # items, Some es) \<Rightarrow>
         if name = ''manifest.json'' \<and> es \<noteq> [] \<and> length es \<le> maxBatchKeys \<and> manifestFault 0 [] es = None
         then memberBodies dec envs limit aud es 0 items [] s A else A
     | _ \<Rightarrow> A)"

text \<open>What is stored after the request: an upload that reaches the disk stores its body, and a delete
  that succeeds forgets the key.\<close>

definition nextStored :: "decoders \<Rightarrow> Config \<Rightarrow> serveEnv \<Rightarrow> string \<Rightarrow> httpRequest \<Rightarrow> route \<Rightarrow> answer \<Rightarrow> Storage \<Rightarrow> (string \<rightharpoonup> bytes) \<Rightarrow> (string \<rightharpoonup> bytes)" where
  "nextStored dec cfg se user r rt ans s A =
    (let env = se_envs se 0; limit = cf_MaxObjectBytes cfg; aud = auditMapFromContext (Some (auditOf se user r)) in
     case rt of
       RoutePutObject key \<Rightarrow>
         if putStored dec env key (maxBytesReader limit (rq_body r)) (metaFromHeaders env (rq_headers r)) aud s
         then A(key \<mapsto> rd_data (rq_body r)) else A
     | RouteBatchPut \<Rightarrow> if rq_method r = ''PUT'' then batchStored dec (se_envs se) limit aud r s A else A
     | RouteDeleteObject key \<Rightarrow>
         (case ans of Answer resp \<Rightarrow> if rs_status resp = 204 then A(key := None) else A | _ \<Rightarrow> A)
     | _ \<Rightarrow> A)"

text \<open>The conditions on the systems a request runs on: reads visit every attribute, every upload has its
  own fresh inode and temporary file, and the workers take every item once.\<close>

definition serveOk :: "string set \<Rightarrow> serveEnv \<Rightarrow> Storage \<Rightarrow> bool" where
  "serveOk K se s \<longleftrightarrow> readEnvOk (se_envs se 0) \<and> schedOk (se_sched se) \<and> (\<forall>n. putFresh (se_envs se n) K s) \<and> inj (\<lambda>n. env_ino (se_envs se n))"

lemma handleGetIndex_keys: "handleGetIndex now q inm (st_index s) = (resp, i) \<Longrightarrow> indexKeys (s\<lparr>st_index := i\<rparr>) = indexKeys s"
  by (auto simp: handleGetIndex_def indexKeys_def BlobGenForm_def mergePendingLocked_def Let_def split: option.splits prod.splits if_splits)

lemma classifySkippedKeys_ok:
  assumes "visitsAll (env_order env)"
  shows "guardsOk dec K s \<Longrightarrow> (\<lambda>k. gbciKeyPrefix @ k) ` set ks \<subseteq> K \<Longrightarrow> classifySkippedKeys env ks ago s = (vs, s') \<Longrightarrow>
    guardsOk dec K s' \<and> sameFiles s s'"
proof (induction ks arbitrary: ago s vs)
  case (Cons k ks)
  let ?key = "gbciKeyPrefix @ k"
  obtain why s1 where a: "absentKeyReason ?key s = (why, s1)" by fastforce
  note ok1 = absentKeyReason_ok [OF Cons.prems(1) a]
  have st: "guardsOk dec K t \<and> sameFiles s1 t" if "storedAfter env ?key m s1 = (b, t)" for m b t
    using that Stat_guards [of dec K s1 ?key env "fst (Stat env ?key s1)" "snd (Stat env ?key s1)"] ok1 Cons.prems(2) assms
    by (auto simp: storedAfter_def split: prod.splits sum.splits)
  obtain s2 vs2 where 2: "guardsOk dec K s2" "sameFiles s1 s2" "classifySkippedKeys env ks (tl ago) s2 = (vs2, s')"
    using Cons.prems(3) ok1 by (auto simp: Let_def a split: if_splits list.splits prod.splits dest: st)
  have "guardsOk dec K s' \<and> sameFiles s2 s'" using Cons.IH [OF 2(1) _ 2(3)] Cons.prems(2) by simp
  then show ?case using ok1 2(2) sameFiles_trans by blast
qed simp

lemma handleSkipReport_ok:
  assumes "guardsOk dec K s" "readEnvOk env" "routeKeys r RouteSkipReport \<subseteq> K" "handleSkipReport env (rq_skips r) s = (resp, s')"
  shows "guardsOk dec K s' \<and> sameFiles s s'"
proof (cases "\<exists>rep. rq_skips r = SkipOk rep \<and> skipReport_valid rep")
  case True
  then obtain rep where rep: "rq_skips r = SkipOk rep" "skipReport_valid rep" by blast
  obtain vs t where c: "classifySkippedKeys env (sk_SkippedKeys rep) (sk_SkippedAgo rep) s = (vs, t)" by fastforce
  have "visitsAll (env_order env)" using assms(2) by (simp add: readEnvOk_def)
  from classifySkippedKeys_ok [OF this assms(1) _ c] show ?thesis using assms(3,4) rep c by (auto simp: handleSkipReport_def)
next
  case False
  then show ?thesis using assms(1,4) by (auto simp: handleSkipReport_def split: skipBody.splits if_splits)
qed

lemma handleBatchGet_shrinks:
  assumes "guardsOk dec K s" "\<And>req. request = Some req \<Longrightarrow> set (bg_Keys req) \<subseteq> K" "indexKeys s \<subseteq> K" "readEnvOk env" "schedOk sched"
    and "handleBatchGet dec env sched ops jsonErr verb request prefetchEnabled s = (ans, s')"
  shows "shrinks dec K s s'"
proof (cases "\<exists>h manifest members complete. ans = BatchGetTar h manifest members complete")
  case True
  then obtain req where "request = Some req"
    using assms(6) by (cases request) (auto simp: handleBatchGet_def Let_def split: if_splits)
  then show ?thesis using handleBatchGet_ok [OF assms(1) _ assms(3-5)] assms(2,6) True by blast
next
  case False
  then have "s' = s" using assms(6) by (auto simp: handleBatchGet_def Let_def split: option.splits if_splits prod.splits)
  then show ?thesis using shrinks_refl [OF assms(1)] by simp
qed


lemma runOk_index:
  assumes "runOk dec K s A" "indexKeys (s\<lparr>st_index := i\<rparr>) \<subseteq> K"
  shows "runOk dec K (s\<lparr>st_index := i\<rparr>) A"
  using assms guardsOk_index [of dec K s i] by (auto simp: runOk_def keyFiles_def)

lemma runOk_read:
  assumes "runOk dec K s A" "readStep dec K key s s'" "st_dataDir s' = st_dataDir s"
  shows "runOk dec K s' A"
  by (rule runOk_shrinks [OF assms(1) shrinks_read [OF assms(2)] assms(3)])

lemma handlePutObject_run:
  assumes "runOk dec K s A" "key \<in> K" "goodKey key" "putFresh env K s"
    and "handlePutObject dec env errText key hdrs a limit body s = (resp, s')"
  shows "runOk dec K s' (if putStored dec env key (maxBytesReader limit body) (metaFromHeaders env hdrs) (auditMapFromContext a) s
    then A(key \<mapsto> rd_data body) else A)" (is "runOk dec K s' (if ?stored then _ else _)")
proof -
  have g: "guardsOk dec K s" using assms(1) by (simp add: runOk_def)
  note ok = handlePutObject_ok [OF g assms(2,4,5)]
  have d: "st_dataDir s' = st_dataDir s" using dir_handlePut [THEN dir_eq, OF assms(5)] .
  show ?thesis
  proof (cases ?stored)
    case True
    then obtain f where f: "f_body f = rd_data body" "isKeySafe key \<or> f_orig f = Some key"
        "\<forall>p. lookupFile p s' = (if p = pathOf s key then Some f else lookupFile p s)" using ok by auto
    have "runOk dec K s' (A(key \<mapsto> rd_data body))"
      by (rule runOk_store [OF assms(1) _ _ d assms(2,3) _ f]) (use ok in blast)+
    then show ?thesis using True by simp
  next
    case False
    have "runOk dec K s' A" by (rule runOk_kept [OF assms(1) _ _ d assms(2,3)]) (use ok False in auto)
    then show ?thesis using False by simp
  qed
qed

lemma handleDeleteObject_run:
  assumes "runOk dec K s A" "key \<in> K" "handleDeleteObject env errText key s = (resp, s')"
  shows "runOk dec K s' (if rs_status resp = 204 then A(key := None) else A)"
proof -
  have g: "guardsOk dec K s" using assms(1) by (simp add: runOk_def)
  note ok = handleDeleteObject_ok [OF g assms(2,3)]
  have "runOk dec K s' A"
    by (rule runOk_read [OF assms(1) readStep_guard [of dec K key]]) (use ok dir_handleHead(2) [THEN dir_eq, OF assms(3)] in auto)
  then show ?thesis using ok runOk_forget [of dec K s' A key] by auto
qed

lemma handleBatchPut_run:
  assumes "runOk dec K s A" "\<forall>k \<in> K. goodKey k" "routeKeys r RouteBatchPut \<subseteq> K"
    and "\<forall>n. putFresh (envs n) K s" "inj (\<lambda>n. env_ino (envs n))"
    and "handleBatchPut dec envs errText jsonErr order committed verb a limit (rq_tar r) (rq_manifest r) s = (ans, s')"
  shows "runOk dec K s' (if verb = ''PUT'' then batchStored dec envs limit (auditMapFromContext a) r s A else A)"
proof (cases "\<exists>body items es. verb = ''PUT'' \<and> rq_tar r = TarHdr ''manifest.json'' body # items \<and> rq_manifest r = Some es \<and>
    es \<noteq> [] \<and> length es \<le> maxBatchKeys \<and> manifestFault 0 [] es = None")
  case True
  then obtain body items es where c: "verb = ''PUT''" "rq_tar r = TarHdr ''manifest.json'' body # items" "rq_manifest r = Some es"
    "es \<noteq> []" "length es \<le> maxBatchKeys" "manifestFault 0 [] es = None" by blast
  let ?a = "auditMapFromContext a"
  obtain res t where m: "putMembers dec envs errText limit ?a es 0 items []
      (map (\<lambda>e. \<lparr>br_Key = bp_Key e, br_Status = [], br_Message = []\<rparr>) es) s = (res, t)" by fastforce
  have "s' = t" using assms(6) c m by (auto simp: handleBatchPut_def batchPutBody_def split: sum.splits prod.splits list.splits)
  moreover have "bp_Key ` set es \<subseteq> K" using assms(3) c(3) by simp
  ultimately show ?thesis
    using putMembers_run [OF assms(2) _ assms(1) _ assms(5) m] assms(4) c by (simp add: batchStored_def)
next
  case False
  then have "s' = s" using assms(6) by (auto simp: handleBatchPut_def split: list.splits tarItem.splits option.splits if_splits)
  moreover have "(if verb = ''PUT'' then batchStored dec envs limit (auditMapFromContext a) r s A else A) = A"
    using False by (auto simp: batchStored_def split: list.splits tarItem.splits option.splits)
  ultimately show ?thesis using assms(1) by simp
qed

lemma handleRoute_run:
  assumes "runOk dec K s A" "\<forall>k \<in> K. goodKey k" "routeKeys r rt \<subseteq> K" "serveOk K se s"
    and "handleRoute dec ops cfg se user r rt s = (ans, s')"
  shows "runOk dec K s' (nextStored dec cfg se user r rt ans s A)"
proof -
  have g: "guardsOk dec K s" "indexKeys s \<subseteq> K" using assms(1) by (simp_all add: runOk_def)
  have env: "readEnvOk (se_envs se 0)" "schedOk (se_sched se)" "\<forall>n. putFresh (se_envs se n) K s" "inj (\<lambda>n. env_ino (se_envs se n))"
    using assms(4) by (simp_all add: serveOk_def)
  note h = assms(5) [unfolded handleRoute_def Let_def]
  show ?thesis
  proof (cases rt)
    case RouteIndex
    then obtain resp i where i: "handleGetIndex (env_now (se_envs se 0)) (rq_query r)
        (if header r ''If-None-Match'' = [] then None else Some (header r ''If-None-Match'')) (st_index s) = (resp, i)" "s' = s\<lparr>st_index := i\<rparr>"
      using h by (auto split: prod.splits)
    have "runOk dec K s' A" unfolding i(2) by (rule runOk_index [OF assms(1)]) (simp add: handleGetIndex_keys [OF i(1)] g(2))
    then show ?thesis by (simp add: nextStored_def RouteIndex)
  next
    case RouteBatchGet
    then obtain b where b: "handleBatchGet dec (se_envs se 0) (se_sched se) ops (se_jsonErr se) (rq_method r) (rq_batchGet r) (PrefetchEnabled cfg) s = (b, s')"
      using h by (auto simp: apfst_def map_prod_def split: prod.splits)
    have "runOk dec K s' A"
    proof (rule runOk_shrinks [OF assms(1) handleBatchGet_shrinks [OF g(1) _ g(2) env(1,2) b] dir_batchGet [THEN dir_eq, OF b]])
      show "set (bg_Keys req) \<subseteq> K" if "rq_batchGet r = Some req" for req using assms(3) RouteBatchGet that by simp
    qed
    then show ?thesis by (simp add: nextStored_def RouteBatchGet)
  next
    case RouteSkipReport
    then obtain b where b: "handleSkipReport (se_envs se 0) (rq_skips r) s = (b, s')"
      using h by (auto simp: apfst_def map_prod_def split: prod.splits)
    from handleSkipReport_ok [OF g(1) env(1) assms(3) [unfolded RouteSkipReport] b] have "runOk dec K s' A"
      by (intro runOk_sameFiles [OF assms(1)]) simp_all
    then show ?thesis by (simp add: nextStored_def RouteSkipReport)
  next
    case (RouteGetObject key)
    then obtain b where b: "handleGetObject dec (se_envs se 0) (se_errText se) key s = (b, s')"
      using h by (auto simp: apfst_def map_prod_def split: prod.splits)
    have k: "key \<in> K" using assms(3) RouteGetObject by simp
    from handleGetObject_ok [OF g(1) k env(1) b] have "readStep dec K key s s'" by blast
    from runOk_read [OF assms(1) this dir_handleGetObject [THEN dir_eq, OF b]]
    show ?thesis by (simp add: nextStored_def RouteGetObject)
  next
    case (RouteHeadObject key)
    then obtain b where b: "handleHeadObject (se_envs se 0) (se_errText se) key s = (b, s')"
      using h by (auto simp: apfst_def map_prod_def split: prod.splits)
    have k: "key \<in> K" using assms(3) RouteHeadObject by simp
    from handleHeadObject_ok [OF g(1) k env(1) b] have "runOk dec K s' A" by (intro runOk_sameFiles [OF assms(1)]) simp_all
    then show ?thesis by (simp add: nextStored_def RouteHeadObject)
  next
    case RouteBatchPut
    then obtain b where "handleBatchPut dec (se_envs se) (se_errText se) (se_jsonErr se) (se_order se) (se_committed se) (rq_method r)
        (Some (auditOf se user r)) (cf_MaxObjectBytes cfg) (rq_tar r) (rq_manifest r) s = (b, s')"
      using h by (auto simp: apfst_def map_prod_def split: prod.splits)
    from handleBatchPut_run [OF assms(1,2) _ env(3,4) this] show ?thesis using assms(3) RouteBatchPut by (simp add: nextStored_def Let_def)
  next
    case (RoutePutObject key)
    then obtain b where "handlePutObject dec (se_envs se 0) (se_errText se) key (rq_headers r) (Some (auditOf se user r)) (cf_MaxObjectBytes cfg)
        (rq_body r) s = (b, s')"
      using h by (auto simp: apfst_def map_prod_def split: prod.splits)
    from handlePutObject_run [OF assms(1) _ _ _ this] show ?thesis
      using assms(2,3) env(3) RoutePutObject by (simp add: nextStored_def Let_def)
  next
    case (RouteDeleteObject key)
    then obtain b where b: "handleDeleteObject (se_envs se 0) (se_errText se) key s = (b, s')" "ans = Answer b"
      using h by (auto simp: apfst_def map_prod_def split: prod.splits)
    have k: "key \<in> K" using assms(3) RouteDeleteObject by simp
    from handleDeleteObject_run [OF assms(1) k b(1)] show ?thesis by (simp add: nextStored_def RouteDeleteObject b(2))
  next
    case RouteNone
    then show ?thesis using h assms(1) by (simp add: nextStored_def Let_def)
  qed
qed


section \<open>Sweeps and memory\<close>

lemma runOk_sweep:
  assumes "runOk dec K s A" "sweepStep dec K s u" shows "runOk dec K u A"
proof (rule runOk_shrinks [OF assms(1)])
  show "shrinks dec K s u" using assms(2) unfolding sweepStep_def shrinks_def by (metis option.distinct(1) sameObject_refl)
qed (use assms(2) in \<open>simp add: sweepStep_def\<close>)

lemma runOk_rebuild:
  assumes "runOk dec K s A" "\<forall>k \<in> K. goodKey k" shows "runOk dec K (rebuildIndex env s) A"
proof -
  have r: "guardsOk dec K s" "st_dataDir s \<noteq> []" "keyFiles K s" "indexKeys s \<subseteq> K" using assms(1) by (simp_all add: runOk_def)
  have "distinct (map fst (st_files s))" using r(1) by (simp add: guardsOk_def inoInj_def)
  note w = keyFiles_Walk_keys [OF r(3) this assms(2) r(2)]
  have "indexKeys (rebuildIndex env s) \<subseteq> K"
  proof (cases "st_index s")
    case None
    then show ?thesis by (simp add: rebuildIndex_def indexKeys_def)
  next
    case (Some idx)
    then have "\<forall>e \<in> set (ix_pendingEntries idx). compactKey_Key (ie_key e) \<in> K" using r(4) by (auto simp: indexKeys_def)
    from indexKeys_walked [OF w assms(2) this, where s = s and e = "env_epoch env"] show ?thesis by (simp add: rebuildIndex_def Some)
  qed
  then show ?thesis unfolding rebuildIndex_def by (rule runOk_index [OF assms(1)])
qed

lemma runOk_marker:
  assumes "runOk dec K s A" "\<forall>k \<in> K. goodKey k" "\<forall>p f. lookupFile p s = Some f \<longrightarrow> f_ino f \<noteq> env_ino env"
  shows "runOk dec K (recordSweepTime env s) A"
proof (cases "env_fault env SysCreateTemp")
  case None
  have r: "guardsOk dec K s" "st_dataDir s \<noteq> []" "keyFiles K s" "indexKeys s \<subseteq> K" using assms(1) by (simp_all add: runOk_def)
  let ?p = "markerPath s"
  obtain f where t: "recordSweepTime env s = setFile ?p f s"
    and f: "(\<exists>g. lookupFile ?p s = Some g \<and> f_ino f = f_ino g) \<or> lookupFile ?p s = None \<and> f_ino f = env_ino env"
    using None by (auto simp: recordSweepTime_def Let_def split: option.splits)
  have res: "isReservedFile (filepathBase ?p)" unfolding markerPath_def by (rule reserved_path(2) [OF r(2)]) simp
  have ne: "pathOf s k \<noteq> ?p" if "k \<in> K" for k
    using goodKey_not_reserved [OF r(2), of k] assms(2) that res by (auto simp: pathOf_def)
  let ?t = "setFile ?p f s"
  have path: "pathOf ?t = pathOf s" by (simp add: pathOf_def fun_eq_iff)
  have st: "storeOk K ?t"
    using r(1) ne path by (simp add: guardsOk_def storeOk_def metaCoherent_def metaLookup_def)
  have "inoInj ?t"
    using r(1) f assms(3) unfolding guardsOk_def inoInj_def
    by (auto simp: distinct_update setFile_def [of ?p f s, THEN arg_cong, of st_files] split: if_splits)
  moreover have "memoOk dec ?t g h = memoOk dec s g h" for g h by (simp add: memoOk_def digestLookup_def cleanLookup_def)
  ultimately have "guardsOk dec K ?t" using st r(1) ne path by (simp add: guardsOk_def)
  moreover have "keyFiles K ?t" using r(3) res by (auto simp: keyFiles_def path)
  moreover have "indexKeys ?t = indexKeys s" by (simp add: indexKeys_def)
  ultimately show ?thesis using assms(1) ne path unfolding t runOk_def by simp
qed (use assms(1) in \<open>simp add: recordSweepTime_def\<close>)

lemma evictionTurn_run:
  assumes "runOk dec K s A" "\<forall>k \<in> K. goodKey k" "\<forall>p f. lookupFile p s = Some f \<longrightarrow> f_ino f \<noteq> env_ino env"
  shows "runOk dec K (evictionTurn ops env maxAge maxBytes event s) A"
proof -
  have "runOk dec K (runSweep ops env maxAge maxBytes s) A"
  proof -
    have g: "guardsOk dec K s" using assms(1) by (simp add: runOk_def)
    obtain stats s' where e: "Evict ops env maxAge maxBytes s = (stats, s')" by fastforce
    obtain u where u: "sweepStep dec K s u" "s' = u \<or> s' = rebuildIndex env u" by (rule Evict_step [OF g e])
    have "runOk dec K u A" by (rule runOk_sweep [OF assms(1) u(1)])
    then have "runOk dec K s' A" using u(2) runOk_rebuild [OF _ assms(2)] by blast
    moreover have "lookupFile p s' = lookupFile p u" for p using u(2) by (auto simp: rebuildIndex_def)
    then have "lookupFile p s' = lookupFile p s \<or> lookupFile p s' = None" for p using u(1) by (simp add: sweepStep_def)
    then have "\<forall>p f. lookupFile p s' = Some f \<longrightarrow> f_ino f \<noteq> env_ino env" using assms(3) by (metis option.distinct(1))
    ultimately show ?thesis using runOk_marker [OF _ assms(2)] by (simp add: runSweep_def e)
  qed
  then show ?thesis using assms(1) by (cases event) simp_all
qed

lemma tick_run:
  assumes "runOk dec K (ca_store (snd mca)) A"
  shows "runOk dec K (ca_store (snd (tick inUse now mca))) A"
  using tick_store [of dec K mca inUse now] assms by (intro runOk_sameFiles [OF assms]) (simp_all add: runOk_def)


section \<open>Runs\<close>

text \<open>The route a request reaches, with its user; none when a probe, a full queue, wrong credentials or
  another bucket ends it before.\<close>

definition servedRoute :: "Config \<Rightarrow> bool \<Rightarrow> serveEnv \<Rightarrow> httpRequest \<Rightarrow> (string \<times> route) option" where
  "servedRoute cfg shuttingDown se r =
    (case probeAnswer shuttingDown se (rq_path r) of Some resp \<Rightarrow> None
     | None \<Rightarrow>
       if \<not> se_admitted se then None
       else case authenticate (header r ''Authorization'') cfg of Inl e \<Rightarrow> None
         | Inr user \<Rightarrow>
           let (bucket, key) = bucketAndKey (rq_path r) in
           if bucket \<noteq> cf_Bucket cfg then None else Some (user, routeOf (rq_method r) key))"

lemma ServeHTTP_route:
  "servedRoute cfg sd se r = Some (user, rt) \<Longrightarrow> ServeHTTP dec ops cfg sd se r s = handleRoute dec ops cfg se user r rt s"
  "servedRoute cfg sd se r = None \<Longrightarrow> \<exists>resp. ServeHTTP dec ops cfg sd se r s = (Answer resp, s)"
  by (auto simp: servedRoute_def ServeHTTP_def Let_def split: option.splits sum.splits if_splits prod.splits)

definition requestKeys :: "Config \<Rightarrow> bool \<Rightarrow> serveEnv \<Rightarrow> httpRequest \<Rightarrow> string set" where
  "requestKeys cfg sd se r = (case servedRoute cfg sd se r of None \<Rightarrow> {} | Some (user, rt) \<Rightarrow> routeKeys r rt)"

definition storedAfterRequest ::
    "decoders \<Rightarrow> Config \<Rightarrow> bool \<Rightarrow> serveEnv \<Rightarrow> httpRequest \<Rightarrow> answer \<Rightarrow> Storage \<Rightarrow> (string \<rightharpoonup> bytes) \<Rightarrow> (string \<rightharpoonup> bytes)" where
  "storedAfterRequest dec cfg sd se r ans s A =
    (case servedRoute cfg sd se r of None \<Rightarrow> A | Some (user, rt) \<Rightarrow> nextStored dec cfg se user r rt ans s A)"

text \<open>A directory a server can start on: the keys have files of their own, and every file is the server's
  or the object of a key.\<close>

definition startOk :: "string set \<Rightarrow> sysEnv \<Rightarrow> string \<Rightarrow> dataFiles \<Rightarrow> bool" where
  "startOk K env d files \<longleftrightarrow> inoFiles files \<and> (\<forall>f \<in> snd ` set files. f_ino f \<noteq> env_ino env) \<and> d \<noteq> [] \<and>
     inj_on (keyToPath d) K \<and> hashInj K \<and> env_fault env SysRemove = None \<and> env_fault env SysWalk = None \<and> (\<forall>k \<in> K. goodKey k) \<and>
     (\<forall>p f. map_of files p = Some f \<longrightarrow>
       isReservedFile (filepathBase p) \<or> (\<exists>k \<in> K. p = keyToPath d k \<and> (isKeySafe k \<or> f_orig f = Some k)))"

text \<open>A server with its caches, and beside it what was last stored under each key.  The tracker of
  packages may take any step of its own.\<close>

inductive serverRun :: "decoders \<Rightarrow> (compactKey, 'x) setOps \<Rightarrow> Config \<Rightarrow> string set \<Rightarrow> memController \<times> caches \<Rightarrow> (string \<rightharpoonup> bytes) \<Rightarrow> bool"
  for dec ops cfg K where
  start: "startOk K env d files \<Longrightarrow>
    NewStorage env mb entriesDefault epoch0 lockErr d woAction woNotification files = (Inr s, files') \<Longrightarrow>
    serverRun dec ops cfg K (registerCaches memoryBudget \<lparr>ca_store = s, ca_churn = newChurnTracker defaultChurnBytes\<rparr>)
      (\<lambda>k. map_option f_body (map_of files (keyToPath d k)))"
| serve: "serverRun dec ops cfg K (m, ca) A \<Longrightarrow> requestKeys cfg sd se r \<subseteq> K \<Longrightarrow> serveOk K se (ca_store ca) \<Longrightarrow>
    ServeHTTP dec ops cfg sd se r (ca_store ca) = (ans, s') \<Longrightarrow>
    serverRun dec ops cfg K (m, \<lparr>ca_store = s', ca_churn = c\<rparr>) (storedAfterRequest dec cfg sd se r ans (ca_store ca) A)"
| sweep: "serverRun dec ops cfg K (m, ca) A \<Longrightarrow> (\<forall>p f. lookupFile p (ca_store ca) = Some f \<longrightarrow> f_ino f \<noteq> env_ino env) \<Longrightarrow>
    serverRun dec ops cfg K (m, ca\<lparr>ca_store := evictionTurn ops env maxAge maxBytes event (ca_store ca)\<rparr>) A"
| memory: "serverRun dec ops cfg K mca A \<Longrightarrow> serverRun dec ops cfg K (tick inUse now mca) A"

lemma register_store:
  assumes "guardsOk dec K (ca_store ca)"
  shows "guardsOk dec K (ca_store (snd (registerCaches b ca))) \<and> sameFiles (ca_store ca) (ca_store (snd (registerCaches b ca)))"
proof -
  define reg where "reg = (\<lambda>kind (m, ca). case budgetOf kind ca of None \<Rightarrow> (m, ca) | Some full \<Rightarrow> Register kind full m ca)"
  have 1: "guardsOk dec K (ca_store (snd (reg kind mca))) \<and> sameFiles (ca_store (snd mca)) (ca_store (snd (reg kind mca)))"
    if "guardsOk dec K (ca_store (snd mca))" for kind mca
    using that setBudgetOf_store [of dec K "snd mca"] by (auto simp: reg_def Register_def split: prod.split option.split)
  have 2: "guardsOk dec K (ca_store (snd (fold reg kinds mca))) \<and> sameFiles (ca_store (snd mca)) (ca_store (snd (fold reg kinds mca)))"
    if "guardsOk dec K (ca_store (snd mca))" for kinds mca
    using that
  proof (induction kinds arbitrary: mca)
    case (Cons kind kinds)
    note s = 1 [OF Cons.prems, of kind]
    then show ?case using Cons.IH [of "reg kind mca"] sameFiles_trans by auto
  qed simp
  obtain m ca' where f: "fold reg [MetaCacheKind, CleanMemoKind, DigestMemoKind, EvictedMemoKind] (newMemController b, ca) = (m, ca')" by fastforce
  have ca': "guardsOk dec K (ca_store ca')" "sameFiles (ca_store ca) (ca_store ca')" using 2 [of "(newMemController b, ca)"] assms f by (metis snd_conv)+
  have c: "ca_store (snd (registerCaches b ca)) = ca_store ca'"
    unfolding registerCaches_def reg_def [symmetric] f Let_def prod.case by (simp add: Register_def setBudgetOf_def Let_def)
  show ?thesis unfolding c using ca' by blast
qed

lemma start_run:
  assumes "startOk K env d files" "NewStorage env mb entriesDefault epoch0 lockErr d woAction woNotification files = (Inr s, files')"
  shows "runOk dec K s (\<lambda>k. map_option f_body (map_of files (keyToPath d k)))"
proof -
  have a: "inoFiles files" "\<forall>f \<in> snd ` set files. f_ino f \<noteq> env_ino env" "d \<noteq> []" "inj_on (keyToPath d) K" "hashInj K"
    "env_fault env SysRemove = None" "env_fault env SysWalk = None" "\<forall>k \<in> K. goodKey k"
    "\<forall>p f. map_of files p = Some f \<longrightarrow> isReservedFile (filepathBase p) \<or> (\<exists>k \<in> K. p = keyToPath d k \<and> (isKeySafe k \<or> f_orig f = Some k))"
    using assms(1) by (simp_all add: startOk_def)
  have "guardsOk dec K s" using NewStorage_start [OF a(1-7) assms(2)] by blast
  moreover note k = NewStorage_keys [OF a(1-3,8,9) assms(2)]
  ultimately show ?thesis using a(3) k(1-3) by (auto simp: runOk_def dest: k(4))
qed

lemma serve_run:
  assumes "runOk dec K s A" "\<forall>k \<in> K. goodKey k" "requestKeys cfg sd se r \<subseteq> K" "serveOk K se s"
    and "ServeHTTP dec ops cfg sd se r s = (ans, s')"
  shows "runOk dec K s' (storedAfterRequest dec cfg sd se r ans s A)"
proof (cases "servedRoute cfg sd se r")
  case None
  then show ?thesis using ServeHTTP_route(2) [OF None, of dec ops s] assms(1,5) by (auto simp: storedAfterRequest_def)
next
  case (Some ur)
  obtain user rt where ur: "ur = (user, rt)" by fastforce
  have h: "handleRoute dec ops cfg se user r rt s = (ans, s')" using assms(5) unfolding ServeHTTP_route(1) [OF Some [unfolded ur]] .
  show ?thesis using handleRoute_run [OF assms(1,2) _ assms(4) h] assms(3) by (simp add: storedAfterRequest_def requestKeys_def Some ur)
qed

theorem serverRun_ok: "serverRun dec ops cfg K mca A \<Longrightarrow> runOk dec K (ca_store (snd mca)) A \<and> (\<forall>k \<in> K. goodKey k)"
proof (induction rule: serverRun.induct)
  case (start env d files mb entriesDefault epoch0 lockErr woAction woNotification s files' memoryBudget)
  let ?ca = "\<lparr>ca_store = s, ca_churn = newChurnTracker defaultChurnBytes\<rparr>"
  have r: "runOk dec K s (\<lambda>k. map_option f_body (map_of files (keyToPath d k)))" by (rule start_run [OF start])
  then have "guardsOk dec K (ca_store ?ca)" by (simp add: runOk_def)
  from register_store [OF this, of memoryBudget] runOk_sameFiles [OF r] start(1) show ?case by (simp add: startOk_def)
next
  case (serve m ca A sd se r ans s' c)
  then show ?case using serve_run [of dec K "ca_store ca" A cfg sd se r ops ans s'] by simp
next
  case (sweep m ca A env maxAge maxBytes event)
  then show ?case using evictionTurn_run [of dec K "ca_store ca" A env] by simp
next
  case (memory mca A inUse now)
  then show ?case using tick_run by blast
qed

section \<open>Properties\<close>

text \<open>(C1) The server gives back what was last stored.  Fix a set of keys that have files of their own: each is
  canonical and either plain (safe, no empty element, more than four characters after the last slash) or unsafe, no two
  share a path, and no two share an action hash.  In any run whose requests name only these keys - any
  sequence of requests, sweeps and changes of the memory budgets after a start on a directory with files of these keys
  and of the server only - a GET answered with 200, if reading the file did not fail under it, has the body last
  stored under its key, and every member of a batch answer is the body last stored under the key that names it.
  Stored means: by an upload the server reported as stored and did not keep an older object for, not deleted since
  by an answered DELETE; an entry may go, it is never another.  Every upload has a new inode and a new temporary
  name, and no removal fails in a request and no removal and no walk at the start; every other system call may.  Keys outside such a set
  can share a file (\<open>keyToPath_collision\<close>), and a read error in the middle of a GET cuts a body
  that was announced with 200.\<close>

theorem run_served_last_stored:
  assumes "serverRun dec ops cfg K (m, ca) A" "requestKeys cfg sd se r \<subseteq> K" "serveOk K se (ca_store ca)"
    and "ServeHTTP dec ops cfg sd se r (ca_store ca) = (ans, s')" "servedRoute cfg sd se r = Some (user, rt)"
  shows "(\<forall>key resp. rt = RouteGetObject key \<and> ans = Answer resp \<and> rs_status resp = 200 \<and> env_fault (se_envs se 0) SysRead = None \<longrightarrow>
      A key = Some (rs_body resp)) \<and>
    (\<forall>h manifest members complete. rt = RouteBatchGet \<and> ans = AnswerBatchGet (BatchGetTar h manifest members complete) \<longrightarrow>
      (\<forall>t \<in> set members. \<exists>k \<in> K. tm_name t = ''data/'' @ k \<and> A k = Some (tm_data t)))"
proof (intro conjI allI impI; elim conjE)
  have run: "runOk dec K (ca_store ca) A" using serverRun_ok [OF assms(1)] by simp
  then have g: "guardsOk dec K (ca_store ca)" "indexKeys (ca_store ca) \<subseteq> K"
    and A: "k \<in> K \<Longrightarrow> lookupFile (pathOf (ca_store ca) k) (ca_store ca) = Some f \<Longrightarrow> A k = Some (f_body f)" for k f
    by (simp_all add: runOk_def)
  have env: "readEnvOk (se_envs se 0)" "schedOk (se_sched se)" using assms(3) by (simp_all add: serveOk_def)
  have h: "handleRoute dec ops cfg se user r rt (ca_store ca) = (ans, s')" using assms(4) unfolding ServeHTTP_route(1) [OF assms(5)] .
  have keys: "routeKeys r rt \<subseteq> K" using assms(2,5) by (simp add: requestKeys_def)
  show "A key = Some (rs_body resp)"
    if g': "rt = RouteGetObject key" "ans = Answer resp" "rs_status resp = 200" "env_fault (se_envs se 0) SysRead = None" for key resp
  proof -
    have o: "handleGetObject dec (se_envs se 0) (se_errText se) key (ca_store ca) = (resp, s')"
      using h g'(1,2) by (auto simp: handleRoute_def Let_def apfst_def map_prod_def split: prod.splits)
    have k: "key \<in> K" using keys g'(1) by simp
    have "served dec (se_envs se 0) key (ca_store ca) resp" using handleGetObject_ok [OF g(1) k env(1) o] g'(3) by auto
    then show ?thesis using A [OF k] g'(4) by (auto simp: served_def fileReader_def bytesReader_def)
  qed
  show "\<forall>t \<in> set members. \<exists>k \<in> K. tm_name t = ''data/'' @ k \<and> A k = Some (tm_data t)"
    if g': "rt = RouteBatchGet" "ans = AnswerBatchGet (BatchGetTar hd manifest members complete)" for hd manifest members complete
  proof -
    have o: "handleBatchGet dec (se_envs se 0) (se_sched se) ops (se_jsonErr se) (rq_method r) (rq_batchGet r) (PrefetchEnabled cfg) (ca_store ca)
        = (BatchGetTar hd manifest members complete, s')"
      using h g' by (auto simp: handleRoute_def Let_def apfst_def map_prod_def split: prod.splits)
    then obtain req where req: "rq_batchGet r = Some req" by (cases "rq_batchGet r") (auto simp: handleBatchGet_def Let_def split: if_splits)
    have "set (bg_Keys req) \<subseteq> K" using keys g'(1) req by simp
    from handleBatchGet_ok [OF g(1) this g(2) env o [unfolded req]] show ?thesis using A by metis
  qed
qed


text \<open>An object without metadata under a key that is no action key is served.\<close>

lemma handleGetObject_plain:
  assumes "guardsOk dec K s" "key \<in> K" "readEnvOk env" "lookupFile (pathOf s key) s = Some f" "getMetadata f = []"
    and "\<not> snd (extractActionHash key)" "env_fault env = (\<lambda>_. None)"
  shows "\<exists>resp s'. handleGetObject dec env errText key s = (resp, s') \<and> rs_status resp = 200"
proof -
  obtain res t where o: "Open env key s = (res, t)" by fastforce
  have v: "visitsAll (env_order env)" using assms(3) by (simp add: readEnvOk_def)
  obtain om where om: "res = Inr (f, om)" using o assms(4,7) by (auto simp: Open_def osOpen_def Let_def split: prod.splits)
  have "om_Metadata om = []" using Open_guards [OF assms(1,2) v o] assms(5) by (simp add: om map_of_eq_empty_iff)
  then have d: "verifyStoredDigestFor env key f (om_Metadata om) u = (Inr True, u)" for u
    using assms(6) by (simp add: verifyStoredDigestFor_def verifyStoredDigest_def bodyMatchesStoredDigest_def kvGet_def Let_def split: prod.split)
  have "evictModuleIndexOnRead dec env key f om t = (guardServe, t)"
    using assms(6) by (cases "extractActionHash key") (simp add: evictModuleIndexOnRead_def)
  moreover have "ensureOutputID dec env key om (Some f) t = ((True, om), t)" using assms(6) by (simp add: ensureOutputID_def)
  ultimately show ?thesis by (simp add: handleGetObject_def o om serveObject_def d)
qed

definition demoKey :: string where "demoKey = ''abcde''"

definition demoFiles :: dataFiles where
  "demoFiles =
    [(versionPath ''/d'', \<lparr>f_ino = 1, f_body = bytes_of (formatInt 4 @ [CHR 0x0A]), f_attr = None, f_orig = None, f_mtime = 1, f_atime = None\<rparr>),
     (keyToPath ''/d'' demoKey, \<lparr>f_ino = 2, f_body = [1, 2], f_attr = None, f_orig = None, f_mtime = 1, f_atime = None\<rparr>)]"

definition openConfig :: Config where
  "openConfig = demoLoaded\<lparr>cf_DisableAuth := True, cf_Credentials := []\<rparr>"

definition demoServe :: serveEnv where
  "demoServe = \<lparr>se_envs = (\<lambda>n. calmEnv\<lparr>env_ino := 10 + n\<rparr>), se_sched = (\<lambda>n. [0..<n]), se_order = id, se_committed = False, se_admitted = True,
     se_errText = (\<lambda>_. []), se_jsonErr = [], se_stamp = [], se_version = []\<rparr>"

definition demoGet :: httpRequest where
  "demoGet = \<lparr>rq_method = ''GET'', rq_path = ''/b/abcde'', rq_query = [], rq_headers = [], rq_remote = [], rq_body = bytesReader [],
     rq_batchGet = None, rq_tar = [], rq_manifest = None, rq_skips = SkipTooLarge\<rparr>"

lemma demoKey_facts:
  "goodKey demoKey" "\<not> snd (extractActionHash demoKey)" "keyToPath ''/d'' demoKey = ''/d/ab/cd/e''" "isKeySafe demoKey"
  by code_simp+

lemma demo_versionPath: "versionPath ''/d'' = ''/d/.cache_version''"
  by code_simp

lemma demo_start: "startOk {demoKey} calmEnv ''/d'' demoFiles"
proof -
  have r: "isReservedFile (filepathBase (versionPath ''/d''))" unfolding versionPath_def by (rule reserved_path(2)) simp_all
  have ne: "versionPath ''/d'' \<noteq> keyToPath ''/d'' demoKey" by (simp add: demo_versionPath demoKey_facts(3))
  have "inoFiles demoFiles" using ne by (auto simp: inoFiles_def demoFiles_def)
  then show ?thesis using r demoKey_facts(1,4) by (auto simp: startOk_def demoFiles_def calmEnv_def hashInj_def split: if_splits)
qed

lemma demo_route: "servedRoute openConfig False demoServe demoGet = Some (anonymousUser, RouteGetObject demoKey)"
proof -
  have "probeAnswer False demoServe (rq_path demoGet) = None"
    by (simp add: probeAnswer_def demoGet_def healthPath_def wellKnownHealthPath_def versionRoute_def wellKnownPreUpdatePath_def)
  moreover have "authenticate auth openConfig = Inr anonymousUser" for auth by (simp add: authenticate_def openConfig_def)
  moreover have "bucketAndKey (rq_path demoGet) = (''b'', demoKey)" "routeOf (rq_method demoGet) demoKey = RouteGetObject demoKey"
    by code_simp+
  moreover have "cf_Bucket openConfig = ''b''" by (simp add: openConfig_def demoLoaded_def withDefaults_def demoConfig_def)
  moreover have "se_admitted demoServe" by (simp add: demoServe_def)
  ultimately show ?thesis by (simp add: servedRoute_def)
qed

lemma run_served_last_stored_witness:
  "\<exists>m ca resp s' A. serverRun specDecoders memOps openConfig {demoKey} (m, ca) A \<and>
     ServeHTTP specDecoders memOps openConfig False demoServe demoGet (ca_store ca) = (Answer resp, s') \<and>
     rs_status resp = 200 \<and> rs_body resp = [1, 2] \<and> A demoKey = Some (rs_body resp)"
proof -
  let ?mb = "\<lparr>mb_clean = 9, mb_meta = 9, mb_evicted = 9\<rparr>" and ?A = "\<lambda>k. map_option f_body (map_of demoFiles (keyToPath ''/d'' k))"
  let ?n = "NewStorage calmEnv ?mb True 1 None ''/d'' ''allow'' ''never'' demoFiles"
  have ver: "readCacheVersion calmEnv ''/d'' demoFiles = Inr currentCacheVersion"
    using version_roundtrip by (simp add: readCacheVersion_def demoFiles_def calmEnv_def currentCacheVersion_def)
  then have "\<exists>s. fst ?n = Inr s" by (simp add: NewStorage_def ensureCacheVersion_def Let_def calmEnv_def)
  then obtain s where n: "?n = (Inr s, snd ?n)" by (metis prod.collapse)
  have run: "runOk specDecoders {demoKey} s ?A" by (rule start_run [OF demo_start n])
  define m ca where "m = fst (registerCaches 0 \<lparr>ca_store = s, ca_churn = newChurnTracker defaultChurnBytes\<rparr>)"
    and "ca = snd (registerCaches 0 \<lparr>ca_store = s, ca_churn = newChurnTracker defaultChurnBytes\<rparr>)"
  have sr: "serverRun specDecoders memOps openConfig {demoKey} (m, ca) ?A"
    using serverRun.start [OF demo_start n, where memoryBudget = 0] by (simp add: m_def ca_def)
  have g: "guardsOk specDecoders {demoKey} (ca_store ca)" using serverRun_ok [OF sr] by (simp add: runOk_def)
  have same: "sameFiles s (ca_store ca)"
    using register_store [of specDecoders "{demoKey}" "\<lparr>ca_store = s, ca_churn = newChurnTracker defaultChurnBytes\<rparr>" 0] run by (simp add: ca_def runOk_def)
  have st: "inoFiles demoFiles" "\<forall>f \<in> snd ` set demoFiles. f_ino f \<noteq> env_ino calmEnv" "''/d'' \<noteq> []" "inj_on (keyToPath ''/d'') {demoKey}"
      "hashInj {demoKey}" "env_fault calmEnv SysRemove = None" "env_fault calmEnv SysWalk = None"
    using demo_start by (simp_all add: startOk_def)
  have temp: "\<not> isTempPath (versionPath ''/d'')" "\<not> isTempPath (keyToPath ''/d'' demoKey)"
    unfolding demo_versionPath demoKey_facts(3) by code_simp+
  then have files: "st_files s = demoFiles" using NewStorage_start [OF st n, of specDecoders] ver by (simp add: demoFiles_def)
  have dir: "st_dataDir s = ''/d''" by (rule NewStorage_parts [OF n])
  then have path: "pathOf (ca_store ca) = keyToPath ''/d''" using same by (simp add: pathOf_def fun_eq_iff sameFiles_def)
  have look: "lookupFile p (ca_store ca) = map_of demoFiles p" for p using same files by (simp add: lookupFile_def sameFiles_def)
  have ne: "versionPath ''/d'' \<noteq> keyToPath ''/d'' demoKey" "env_tmp calmEnv \<noteq> versionPath ''/d''" "env_tmp calmEnv \<noteq> keyToPath ''/d'' demoKey"
    by (simp_all add: demo_versionPath demoKey_facts(3) calmEnv_def)
  have "putFresh (se_envs demoServe n) {demoKey} (ca_store ca)" for n
    using ne by (auto simp: putFresh_def putEnvOk_def demoServe_def look path demoFiles_def split: if_splits) (simp_all add: calmEnv_def visitsAll_def)
  moreover have env: "readEnvOk (se_envs demoServe 0)" by (simp add: readEnvOk_def demoServe_def calmEnv_def visitsAll_def)
  ultimately have ok: "serveOk {demoKey} demoServe (ca_store ca)"
    by (simp add: serveOk_def) (simp add: demoServe_def schedOk_def inj_def lessThan_atLeast0)
  note rt = demo_route
  then have rk: "requestKeys openConfig False demoServe demoGet \<subseteq> {demoKey}" by (simp add: requestKeys_def)
  have "\<exists>resp s'. handleGetObject specDecoders (se_envs demoServe 0) (se_errText demoServe) demoKey (ca_store ca) = (resp, s') \<and> rs_status resp = 200"
  proof (rule handleGetObject_plain [OF g _ env _ _ demoKey_facts(2)])
    show "lookupFile (pathOf (ca_store ca) demoKey) (ca_store ca) = Some (snd (demoFiles ! 1))" using ne by (simp add: look path demoFiles_def)
    show "getMetadata (snd (demoFiles ! 1)) = []"
      by (simp add: demoFiles_def getMetadata_def readObjAttrs_def xattrGetter_def emptyObjAttrs_def kvMerge_def)
  qed (simp_all add: demoServe_def calmEnv_def)
  then obtain resp s' where "handleGetObject specDecoders (se_envs demoServe 0) (se_errText demoServe) demoKey (ca_store ca) = (resp, s')"
    and two: "rs_status resp = 200" by blast
  then have serve: "ServeHTTP specDecoders memOps openConfig False demoServe demoGet (ca_store ca) = (Answer resp, s')"
    unfolding ServeHTTP_route(1) [OF rt] by (simp add: handleRoute_def Let_def)
  have "?A demoKey = Some (rs_body resp)"
    using run_served_last_stored [OF sr rk ok serve rt] two by (simp add: demoServe_def calmEnv_def)
  moreover have "?A demoKey = Some [1, 2]" using ne by (simp add: demoFiles_def)
  ultimately show ?thesis using sr serve two by (intro exI [of _ m] exI [of _ ca] exI [of _ resp] exI [of _ s'] exI [of _ ?A]) simp
qed

end
