(* ===== verification/DiskStore.thy ===== *)
theory DiskStore
  imports Sha256 Strconv "HOL-Library.AList"
begin

text \<open>
  The cache directory on disk (\<^verbatim>\<open>cacheclient/cachedisk\<close>): the entry files, the output files and the trim.
  The directory is the list of its files, each under its subdirectory and name, with its bytes and its
  time of last use, and the stamp of the last trim.  Times are nanoseconds.  The clock and the failures of
  the file system are arguments of each operation: every call that can fail has a flag, or the count of the
  bytes that went through before it did.  Directories in place of files, which only the go command itself
  makes, are not modelled.
\<close>

section \<open>Definitions\<close>

definition HashSize :: nat where "HashSize = 32"
definition hexSize :: nat where "hexSize = HashSize * 2"
definition entrySize :: nat where "entrySize = 2 + 1 + hexSize + 1 + hexSize + 1 + 20 + 1 + 20 + 1"

definition hour :: int where "hour = 3600 * 1000000000"
definition mtimeInterval :: int where "mtimeInterval = 1 * hour"
definition trimInterval :: int where "trimInterval = 24 * hour"
definition trimLimit :: int where "trimLimit = 5 * 24 * hour"

record dfile =
  df_body :: bytes
  df_mtime :: int

type_synonym fileRef = "string \<times> string"

record diskCache =
  dc_files :: "(fileRef \<times> dfile) list"
  dc_stamp :: "bytes option"

record cacheEntry =
  ent_OutputID :: bytes
  ent_Size :: int
  ent_Time :: int

datatype missReason =
    VerifyMode | Unreadable | TooLong | FileEmpty | EntryIncomplete | InvalidHeader | DecodingID | MismatchedID
  | DecodingOutputID | ParsingSize | NegativeSize | ParsingTimestamp | NegativeTimestamp | StatFails
  | FileIncomplete | BadChecksum

datatype diskErr = IOErr | ChangedUnderfoot | VerifyPanic

text \<open>A file by its name below the directory of the cache.\<close>

definition fileName :: "bytes \<Rightarrow> string \<Rightarrow> fileRef" where
  "fileName aid key = (hexEncode [aid ! 0], hexEncode aid @ ''-'' @ key)"

definition lookupFile :: "fileRef \<Rightarrow> diskCache \<Rightarrow> dfile option" where
  "lookupFile r c = map_of (dc_files c) r"

definition storeFile :: "fileRef \<Rightarrow> dfile \<Rightarrow> diskCache \<Rightarrow> diskCache" where
  "storeFile r f c = c\<lparr>dc_files := AList.update r f (dc_files c)\<rparr>"

definition removeFile :: "fileRef \<Rightarrow> diskCache \<Rightarrow> diskCache" where
  "removeFile r c = c\<lparr>dc_files := AList.delete r (dc_files c)\<rparr>"

text \<open>A write at the start of an open file: it covers what was there and leaves the rest.\<close>

definition overwrite :: "bytes \<Rightarrow> bytes \<Rightarrow> bytes" where
  "overwrite new old = new @ drop (length new) old"

subsection \<open>Reading\<close>

definition markUsed :: "int \<Rightarrow> bool \<Rightarrow> fileRef \<Rightarrow> diskCache \<Rightarrow> diskCache" where
  "markUsed now chtimesErr file c =
    (case lookupFile file c of None \<Rightarrow> c
     | Some f \<Rightarrow> if now - df_mtime f \<ge> mtimeInterval \<and> \<not> chtimesErr then storeFile file (f\<lparr>df_mtime := now\<rparr>) c else c)"

text \<open>A padded number: the spaces before it are skipped.\<close>

definition parsePadded :: "string \<Rightarrow> int option" where
  "parsePadded s = parseInt (dropWhile (\<lambda>c. c = CHR '' '') s)"

definition parseEntry :: "bytes \<Rightarrow> bytes \<Rightarrow> missReason + cacheEntry" where
  "parseEntry aid body =
    (let entry = string_of body in
     if length entry > entrySize then Inl TooLong
     else if entry = [] then Inl FileEmpty
     else if length entry < entrySize then Inl EntryIncomplete
     else if entry ! 0 \<noteq> CHR ''v'' \<or> entry ! 1 \<noteq> CHR ''1'' \<or> entry ! 2 \<noteq> CHR '' '' \<or> entry ! (3 + hexSize) \<noteq> CHR '' '' \<or>
        entry ! (3 + hexSize + 1 + hexSize) \<noteq> CHR '' '' \<or> entry ! (3 + hexSize + 1 + hexSize + 1 + 20) \<noteq> CHR '' '' \<or>
        entry ! (entrySize - 1) \<noteq> CHR 0x0A then Inl InvalidHeader
     else
       let eid = take hexSize (drop 3 entry); entry = drop (3 + hexSize) entry;
           eout = take hexSize (drop 1 entry); entry = drop (1 + hexSize) entry;
           esize = take 20 (drop 1 entry); entry = drop (1 + 20) entry;
           etime = take 20 (drop 1 entry)
       in (case hexDecode eid of
             None \<Rightarrow> Inl DecodingID
           | Some buf \<Rightarrow>
               if buf \<noteq> aid then Inl MismatchedID
               else (case hexDecode eout of
                 None \<Rightarrow> Inl DecodingOutputID
               | Some buf \<Rightarrow>
                   (case parsePadded esize of
                      None \<Rightarrow> Inl ParsingSize
                    | Some sz \<Rightarrow>
                        if sz < 0 then Inl NegativeSize
                        else (case parsePadded etime of
                          None \<Rightarrow> Inl ParsingTimestamp
                        | Some tm \<Rightarrow>
                            if tm < 0 then Inl NegativeTimestamp
                            else Inr \<lparr>ent_OutputID = buf, ent_Size = sz, ent_Time = tm\<rparr>)))))"

record readFault =
  rf_open :: bool
  rf_chtimes :: bool
  rf_stat :: bool
  rf_read :: "nat option"

definition get :: "int \<Rightarrow> readFault \<Rightarrow> bytes \<Rightarrow> diskCache \<Rightarrow> (missReason + cacheEntry) \<times> diskCache" where
  "get now rf aid c =
    (case lookupFile (fileName aid ''a'') c of
       None \<Rightarrow> (Inl Unreadable, c)
     | Some f \<Rightarrow>
         if rf_open rf then (Inl Unreadable, c)
         else case parseEntry aid (df_body f) of
           Inl r \<Rightarrow> (Inl r, c)
         | Inr e \<Rightarrow> (Inr e, markUsed now (rf_chtimes rf) (fileName aid ''a'') c))"

definition Get :: "bool \<Rightarrow> int \<Rightarrow> readFault \<Rightarrow> bytes \<Rightarrow> diskCache \<Rightarrow> (missReason + cacheEntry) \<times> diskCache" where
  "Get verify now rf aid c = (if verify then (Inl VerifyMode, c) else get now rf aid c)"

definition OutputFile :: "int \<Rightarrow> readFault \<Rightarrow> bytes \<Rightarrow> diskCache \<Rightarrow> fileRef \<times> diskCache" where
  "OutputFile now rf out c = (let file = fileName out ''d'' in (file, markUsed now (rf_chtimes rf) file c))"

definition GetFile :: "bool \<Rightarrow> int \<Rightarrow> readFault \<Rightarrow> bytes \<Rightarrow> diskCache \<Rightarrow> (missReason + (fileRef \<times> cacheEntry)) \<times> diskCache" where
  "GetFile verify now rf aid c =
    (case Get verify now rf aid c of
       (Inl r, c) \<Rightarrow> (Inl r, c)
     | (Inr entry, c) \<Rightarrow>
         (case OutputFile now rf (ent_OutputID entry) c of
            (file, c) \<Rightarrow>
              (case lookupFile file c of
                 None \<Rightarrow> (Inl StatFails, c)
               | Some f \<Rightarrow>
                   if rf_stat rf then (Inl StatFails, c)
                   else if int (length (df_body f)) \<noteq> ent_Size entry then (Inl FileIncomplete, c)
                   else (Inr (file, entry), c))))"

text \<open>What a read of a whole file hands over: nothing of a file that is not there, the part before a failure.\<close>

definition readFile :: "readFault \<Rightarrow> fileRef \<Rightarrow> diskCache \<Rightarrow> bytes" where
  "readFile rf file c =
    (case lookupFile file c of None \<Rightarrow> [] | Some f \<Rightarrow> (case rf_read rf of None \<Rightarrow> df_body f | Some k \<Rightarrow> take k (df_body f)))"

definition GetBytes :: "bool \<Rightarrow> int \<Rightarrow> readFault \<Rightarrow> bytes \<Rightarrow> diskCache \<Rightarrow> (missReason + (bytes \<times> cacheEntry)) \<times> diskCache" where
  "GetBytes verify now rf aid c =
    (case Get verify now rf aid c of
       (Inl r, c) \<Rightarrow> (Inl r, c)
     | (Inr entry, c) \<Rightarrow>
         (case OutputFile now rf (ent_OutputID entry) c of
            (file, c) \<Rightarrow>
              let data = readFile rf file c in
              if sha256 data \<noteq> ent_OutputID entry then (Inl BadChecksum, c) else (Inr (data, entry), c)))"

subsection \<open>Writing\<close>

datatype openResult = Opened | TextBusy | OpenFails

record copyFault =
  cf_stat :: bool
  cf_reopen :: bool
  cf_open :: openResult
  cf_seek :: bool
  cf_copy :: "nat option"
  cf_lastRead :: bool
  cf_lastWrite :: bool
  cf_close :: bool
  cf_truncate :: bool
  cf_remove :: bool

text \<open>The end of a failed copy: the file is cut to nothing.\<close>

definition truncateFile :: "int \<Rightarrow> copyFault \<Rightarrow> fileRef \<Rightarrow> diskCache \<Rightarrow> diskCache" where
  "truncateFile now cf name c = (if cf_truncate cf then c else storeFile name \<lparr>df_body = [], df_mtime = now\<rparr> c)"

text \<open>The copy into an open file that holds \<open>old\<close>; \<open>file\<close> is what the reader hands over on this pass.\<close>

definition copyBody :: "int \<Rightarrow> copyFault \<Rightarrow> bytes \<Rightarrow> bytes \<Rightarrow> nat \<Rightarrow> fileRef \<Rightarrow> bytes \<Rightarrow> diskCache \<Rightarrow> diskErr option \<times> diskCache" where
  "copyBody now cf file out sz name old c =
    (let part = take (sz - 1) file; wrote = (\<lambda>bs. storeFile name \<lparr>df_body = overwrite bs old, df_mtime = now\<rparr> c) in
     if cf_seek cf then (Some IOErr, truncateFile now cf name c)
     else case cf_copy cf of
       Some k \<Rightarrow> (Some IOErr, truncateFile now cf name (wrote (take k part)))
     | None \<Rightarrow>
         if length part < sz - 1 then (Some IOErr, truncateFile now cf name (wrote part))
         else if cf_lastRead cf \<or> length file < sz then (Some IOErr, truncateFile now cf name (wrote part))
         else if sha256 (take sz file) \<noteq> out then (Some ChangedUnderfoot, truncateFile now cf name (wrote part))
         else if cf_lastWrite cf then (Some IOErr, truncateFile now cf name (wrote part))
         else if cf_close cf then (Some IOErr, if cf_remove cf then wrote (take sz file) else removeFile name c)
         else (None, wrote (take sz file)))"

definition copyFile :: "int \<Rightarrow> copyFault \<Rightarrow> bytes \<Rightarrow> bytes \<Rightarrow> nat \<Rightarrow> diskCache \<Rightarrow> diskErr option \<times> diskCache" where
  "copyFile now cf file out sz c =
    (let name = fileName out ''d''; info = (if cf_stat cf then None else lookupFile name c) in
     if (case info of None \<Rightarrow> False | Some f \<Rightarrow> length (df_body f) = sz \<and> \<not> cf_reopen cf \<and> sha256 (df_body f) = out) then (None, c)
     else case cf_open cf of
       TextBusy \<Rightarrow> (None, c)
     | OpenFails \<Rightarrow> (Some IOErr, c)
     | Opened \<Rightarrow>
         let trunc = (case info of None \<Rightarrow> False | Some f \<Rightarrow> length (df_body f) > sz);
             held = (case lookupFile name c of None \<Rightarrow> \<lparr>df_body = [], df_mtime = now\<rparr>
               | Some f \<Rightarrow> if trunc then \<lparr>df_body = [], df_mtime = now\<rparr> else f);
             c = storeFile name held c
         in if sz = 0 then (None, c) else copyBody now cf file out sz name (df_body held) c)"

record entryFault =
  ef_open :: bool
  ef_write :: "nat option"
  ef_truncate :: bool
  ef_close :: bool
  ef_remove :: bool

text \<open>The verb \<^verbatim>\<open>%20d\<close>.\<close>

definition pad20 :: "int \<Rightarrow> string" where
  "pad20 n = (let s = formatInt n in replicate (20 - length s) CHR '' '' @ s)"

definition formatEntry :: "bytes \<Rightarrow> bytes \<Rightarrow> int \<Rightarrow> int \<Rightarrow> bytes" where
  "formatEntry aid out sz now =
    bytes_of (''v1 '' @ hexEncode aid @ '' '' @ hexEncode out @ '' '' @ pad20 sz @ '' '' @ pad20 now @ [CHR 0x0A])"

text \<open>The entry is written over what the file holds, then cut to its length; a failure removes the file.\<close>

definition writeEntry :: "int \<Rightarrow> entryFault \<Rightarrow> fileRef \<Rightarrow> bytes \<Rightarrow> diskCache \<Rightarrow> diskErr option \<times> diskCache" where
  "writeEntry now ef file entry c =
    (if ef_open ef then (Some IOErr, c)
     else
       let old = (case lookupFile file c of None \<Rightarrow> [] | Some f \<Rightarrow> df_body f);
           holds = (\<lambda>bs. storeFile file \<lparr>df_body = bs, df_mtime = now\<rparr> c);
           failed = (\<lambda>c. (Some IOErr, if ef_remove ef then c else removeFile file c))
       in case ef_write ef of
         Some k \<Rightarrow> failed (holds (overwrite (take k entry) old))
       | None \<Rightarrow>
           if ef_truncate ef then failed (holds (overwrite entry old))
           else if ef_close ef then failed (holds entry)
           else (None, holds entry))"

definition putIndexEntry :: "bool \<Rightarrow> int \<Rightarrow> readFault \<Rightarrow> entryFault \<Rightarrow> bytes \<Rightarrow> bytes \<Rightarrow> nat \<Rightarrow> bool \<Rightarrow> diskCache \<Rightarrow> diskErr option \<times> diskCache" where
  "putIndexEntry verify now rf ef aid out sz allowVerify c =
    (let entry = formatEntry aid out (int sz) now in
     if verify \<and> allowVerify then
       case get now rf aid c of
         (Inr old, c) \<Rightarrow>
           if ent_OutputID old \<noteq> out \<or> ent_Size old \<noteq> int sz then (Some VerifyPanic, c)
           else writeEntry now ef (fileName aid ''a'') entry c
       | (Inl r, c) \<Rightarrow> writeEntry now ef (fileName aid ''a'') entry c
     else writeEntry now ef (fileName aid ''a'') entry c)"

record putFault =
  pf_pass :: bool
  pf_copy :: copyFault
  pf_read :: readFault
  pf_entry :: entryFault

text \<open>\<open>first\<close> and \<open>second\<close> are what the reader hands over on the pass that hashes and on the pass that copies.\<close>

definition put :: "bool \<Rightarrow> int \<Rightarrow> putFault \<Rightarrow> bytes \<Rightarrow> bytes \<Rightarrow> bytes \<Rightarrow> bool \<Rightarrow> diskCache \<Rightarrow> (diskErr + (bytes \<times> nat)) \<times> diskCache" where
  "put verify now pf aid first second allowVerify c =
    (if pf_pass pf then (Inl IOErr, c)
     else
       let sz = length first; out = sha256 first in
       case copyFile now (pf_copy pf) second out sz c of
         (Some e, c) \<Rightarrow> (Inl e, c)
       | (None, c) \<Rightarrow>
           (case putIndexEntry verify now (pf_read pf) (pf_entry pf) aid out sz allowVerify c of
              (Some e, c) \<Rightarrow> (Inl e, c)
            | (None, c) \<Rightarrow> (Inr (out, sz), c)))"

definition KeepVerified :: "bool \<Rightarrow> int \<Rightarrow> putFault \<Rightarrow> bytes \<Rightarrow> bytes \<Rightarrow> bytes \<Rightarrow> diskCache \<Rightarrow> diskErr option \<times> diskCache" where
  "KeepVerified verify now pf aid out data c =
    (case copyFile now (pf_copy pf) data out (length data) c of
       (Some e, c) \<Rightarrow> (Some e, c)
     | (None, c) \<Rightarrow> putIndexEntry verify now (pf_read pf) (pf_entry pf) aid out (length data) False c)"

subsection \<open>Trimming\<close>

definition skipTrim :: "int \<Rightarrow> bytes \<Rightarrow> bool" where
  "skipTrim now data =
    (case parseInt (trimSpace (string_of data)) of
       None \<Rightarrow> False
     | Some t \<Rightarrow> let d = now - t * 1000000000 in d < trimInterval \<and> d > - mtimeInterval)"

definition trimmable :: "string \<Rightarrow> bool" where
  "trimmable name \<longleftrightarrow> hasSuffix name ''-a'' \<or> hasSuffix name ''-d''"

text \<open>The pass over a subdirectory; \<open>stuck\<close> tells the files whose stat or removal fails.\<close>

fun trimNames :: "(fileRef \<Rightarrow> bool) \<Rightarrow> int \<Rightarrow> string \<Rightarrow> string list \<Rightarrow> diskCache \<Rightarrow> diskCache" where
  "trimNames stuck cutoff subdir [] c = c"
| "trimNames stuck cutoff subdir (name # names) c =
    (let entry = (subdir, name);
         c = (if \<not> trimmable name then c
              else case lookupFile entry c of
                None \<Rightarrow> c
              | Some info \<Rightarrow> if \<not> stuck entry \<and> df_mtime info < cutoff then removeFile entry c else c)
     in trimNames stuck cutoff subdir names c)"

record trimFault =
  tf_lock :: "bool option"
  tf_transform :: bool
  tf_rename :: bool
  tf_subdir :: "string \<Rightarrow> bool"
  tf_stuck :: "fileRef \<Rightarrow> bool"

definition trimSubdir :: "trimFault \<Rightarrow> int \<Rightarrow> string \<Rightarrow> diskCache \<Rightarrow> diskCache" where
  "trimSubdir tf cutoff subdir c =
    (if tf_subdir tf subdir then c
     else trimNames (tf_stuck tf) cutoff subdir (map (\<lambda>(r, f). snd r) (filter (\<lambda>(r, f). fst r = subdir) (dc_files c))) c)"

text \<open>The stamp is replaced under its lock: the lock may fail, as unsupported or otherwise, and so may the
  read of the stamp and the write of the new one.  \<open>others\<close> is what other commands did to the stamp since it was
  read before.  The result tells whether the trim goes on.\<close>

datatype stampResult = Stamped | StampErr | FileChanged | Unsupported

definition transformStamp :: "int \<Rightarrow> trimFault \<Rightarrow> (bytes option \<Rightarrow> bytes option) \<Rightarrow> diskCache \<Rightarrow> stampResult \<times> diskCache" where
  "transformStamp now tf others c0 =
    (let c = c0\<lparr>dc_stamp := others (dc_stamp c0)\<rparr> in
     case tf_lock tf of
       Some unsupported \<Rightarrow> ((if unsupported then Unsupported else StampErr), c)
     | None \<Rightarrow>
         if tf_transform tf then (StampErr, c)
         else if skipTrim now (case dc_stamp c of None \<Rightarrow> [] | Some data \<Rightarrow> data) then (FileChanged, c)
         else if tf_rename tf then (StampErr, c)
         else (Stamped, c\<lparr>dc_stamp := Some (bytes_of (formatInt (now div 1000000000)))\<rparr>))"

definition subdirs :: "string list" where
  "subdirs = map (\<lambda>i. hexEncode [word_of_nat i]) [0..<256]"

definition trimCutoff :: "int \<Rightarrow> int" where
  "trimCutoff now = now - trimLimit - mtimeInterval"

definition Trim :: "int \<Rightarrow> trimFault \<Rightarrow> (bytes option \<Rightarrow> bytes option) \<Rightarrow> diskCache \<Rightarrow> diskErr option \<times> diskCache" where
  "Trim now tf others c =
    (if (case dc_stamp c of None \<Rightarrow> False | Some data \<Rightarrow> skipTrim now data) then (None, c)
     else case transformStamp now tf others c of
       (Unsupported, c) \<Rightarrow> (Some IOErr, c)
     | (FileChanged, c) \<Rightarrow> (None, c)
     | (_, c) \<Rightarrow> (None, fold (trimSubdir tf (trimCutoff now)) subdirs c))"

definition Close :: "int \<Rightarrow> trimFault \<Rightarrow> (bytes option \<Rightarrow> bytes option) \<Rightarrow> diskCache \<Rightarrow> diskErr option \<times> diskCache" where
  "Close = Trim"

subsection \<open>Switches\<close>

definition godebugOn :: "string \<Rightarrow> string \<Rightarrow> bool" where
  "godebugOn settings name =
    list_ex (\<lambda>field. let f = trimSpace field in
        case indexByte f CHR ''='' of None \<Rightarrow> False | Some i \<Rightarrow> take i f = name \<and> drop (Suc i) f = ''1'')
      (splitOn CHR '','' settings)"

section \<open>Files\<close>

lemma lookup_store [simp]: "lookupFile r (storeFile q f c) = (if r = q then Some f else lookupFile r c)"
  by (simp add: lookupFile_def storeFile_def update_conv')

lemma lookup_remove [simp]: "lookupFile r (removeFile q c) = (if r = q then None else lookupFile r c)"
  by (simp add: lookupFile_def removeFile_def delete_conv')

lemma stamp_of [simp]: "dc_stamp (storeFile r f c) = dc_stamp c" "dc_stamp (removeFile r c) = dc_stamp c" "lookupFile r (c\<lparr>dc_stamp := st\<rparr>) = lookupFile r c"
  by (simp_all add: storeFile_def removeFile_def lookupFile_def)

lemma hexEncode_inj: "hexEncode xs = hexEncode ys \<longleftrightarrow> xs = ys"
  by (metis hexDecode_hexEncode option.inject)

lemma fileName_inj: "fileName xs j = fileName ys k \<Longrightarrow> length xs = length ys \<Longrightarrow> xs = ys \<and> j = k"
  by (simp add: fileName_def hexEncode_inj)

lemma fileName_key [simp]: "fileName xs ''a'' \<noteq> fileName ys ''d''" "fileName ys ''d'' \<noteq> fileName xs ''a''"
  by (auto simp: fileName_def dest: arg_cong [where f = last])

lemma overwrite_same [simp]: "length old \<le> length new \<Longrightarrow> overwrite new old = new"
  by (simp add: overwrite_def)

lemma lookup_markUsed:
  "lookupFile r (markUsed now e q c) =
    (case lookupFile r c of None \<Rightarrow> None
     | Some f \<Rightarrow> Some (if r = q \<and> now - df_mtime f \<ge> mtimeInterval \<and> \<not> e then f\<lparr>df_mtime := now\<rparr> else f))"
  by (auto simp: markUsed_def split: option.split)

text \<open>What a file holds, apart from its time.\<close>

definition bodyOf :: "fileRef \<Rightarrow> diskCache \<Rightarrow> bytes option" where
  "bodyOf r c = map_option df_body (lookupFile r c)"

lemma bodyOf_store [simp]: "bodyOf r (storeFile q f c) = (if r = q then Some (df_body f) else bodyOf r c)"
  by (simp add: bodyOf_def)

lemma bodyOf_remove [simp]: "bodyOf r (removeFile q c) = (if r = q then None else bodyOf r c)"
  by (simp add: bodyOf_def)

lemma bodyOf_markUsed [simp]: "bodyOf r (markUsed now e q c) = bodyOf r c"
  by (simp add: bodyOf_def lookup_markUsed split: option.split)

lemma bodyOf_stamp [simp]: "bodyOf r (c\<lparr>dc_stamp := st\<rparr>) = bodyOf r c"
  by (simp add: bodyOf_def)

lemma bodyOf_get [simp]: "get now rf aid c = (x, c') \<Longrightarrow> bodyOf r c' = bodyOf r c"
  by (auto simp: get_def split: option.splits sum.splits if_splits)

section \<open>Entries\<close>

lemma length_pad20:
  assumes "0 \<le> n" "n < 2 ^ 63"
  shows "length (pad20 n) = 20"
proof -
  have "nat n < 2 ^ 63" using assms by (simp add: nat_less_iff)
  then have "length (formatNat (nat n)) \<le> Suc 18" by (intro length_formatNat) simp
  then show ?thesis using assms by (simp add: pad20_def Let_def formatInt_def)
qed

lemma parsePadded_pad20:
  assumes "0 \<le> n" "n < 2 ^ 63"
  shows "parsePadded (pad20 n) = Some n"
proof -
  have "digitVal CHR '' '' = None" by code_simp
  then have "CHR '' '' \<notin> set (formatNat (nat n))" using formatNat_digits by fastforce
  then have "dropWhile (\<lambda>c. c = CHR '' '') (formatInt n) = formatInt n"
    using assms(1) by (cases "formatNat (nat n)") (auto simp: formatInt_def)
  then show ?thesis using assms by (simp add: parsePadded_def pad20_def Let_def dropWhile_append)
qed

lemma entry_shape:
  assumes "length A = 64" "length B = 64" "length C = 20" "length D = 20"
    and e: "e = ''v1 '' @ A @ '' '' @ B @ '' '' @ C @ '' '' @ D @ [CHR 0x0A]"
  shows "length e = entrySize" "take hexSize (drop 3 e) = A" "take hexSize (drop 1 (drop (3 + hexSize) e)) = B"
    "take 20 (drop 1 (drop (1 + hexSize) (drop (3 + hexSize) e))) = C"
    "take 20 (drop 1 (drop (1 + 20) (drop (1 + hexSize) (drop (3 + hexSize) e)))) = D"
    "e ! 0 = CHR ''v''" "e ! 1 = CHR ''1''" "e ! 2 = CHR '' ''" "e ! (3 + hexSize) = CHR '' ''"
    "e ! (3 + hexSize + 1 + hexSize) = CHR '' ''" "e ! (3 + hexSize + 1 + hexSize + 1 + 20) = CHR '' ''"
    "e ! (entrySize - 1) = CHR 0x0A"
  using assms(1-4) unfolding e by (simp_all add: entrySize_def hexSize_def HashSize_def nth_append nth_Cons')

lemma parseEntry_formatEntry:
  assumes "length aid = 32" "length out = 32" "0 \<le> sz" "sz < 2 ^ 63" "0 \<le> now" "now < 2 ^ 63"
  shows "parseEntry aid (formatEntry aid out sz now) = Inr \<lparr>ent_OutputID = out, ent_Size = sz, ent_Time = now\<rparr>"
proof -
  define e where "e = ''v1 '' @ hexEncode aid @ '' '' @ hexEncode out @ '' '' @ pad20 sz @ '' '' @ pad20 now @ [CHR 0x0A]"
  have "e \<noteq> []" by (simp add: e_def)
  moreover have "length (hexEncode aid) = 64" "length (hexEncode out) = 64" using assms by simp_all
  note s = entry_shape [OF this length_pad20 [OF assms(3,4)] length_pad20 [OF assms(5,6)] e_def]
  have "string_of (formatEntry aid out sz now) = e" unfolding formatEntry_def e_def by (rule string_of_bytes_of)
  ultimately show ?thesis
    using assms unfolding parseEntry_def Let_def by (simp only: s if_False simp_thms hexDecode_hexEncode option.case parsePadded_pad20) simp
qed

section \<open>What the directory promises\<close>

text \<open>An output file holds its output, or has a length no output of its name has: a reader that compares the
  length reads no wrong bytes.\<close>

definition outputOk :: "bytes \<Rightarrow> bytes \<Rightarrow> bool" where
  "outputOk out f \<longleftrightarrow> sha256 f = out \<or> (\<forall>x. sha256 x = out \<longrightarrow> length x \<noteq> length f)"

definition entryOk :: "cacheEntry \<Rightarrow> bool" where
  "entryOk e \<longleftrightarrow> (\<exists>x. sha256 x = ent_OutputID e \<and> int (length x) = ent_Size e)"

definition diskOk :: "diskCache \<Rightarrow> bool" where
  "diskOk c \<longleftrightarrow>
    (\<forall>out f. length out = 32 \<longrightarrow> bodyOf (fileName out ''d'') c = Some f \<longrightarrow> outputOk out f) \<and>
    (\<forall>aid b e. length aid = 32 \<longrightarrow> bodyOf (fileName aid ''a'') c = Some b \<longrightarrow> parseEntry aid b = Inr e \<longrightarrow> entryOk e)"

lemma outputOk_Nil: "outputOk out []"
  by (auto simp: outputOk_def)

lemma diskOk_less:
  assumes "diskOk c" "\<And>r. bodyOf r c' = bodyOf r c \<or> bodyOf r c' = None"
  shows "diskOk c'"
  using assms unfolding diskOk_def by (metis option.distinct(1))

lemma diskOk_output:
  assumes "diskOk c" "length out = 32" "\<And>r. r \<noteq> fileName out ''d'' \<Longrightarrow> bodyOf r c' = bodyOf r c"
    and "\<And>f. bodyOf (fileName out ''d'') c' = Some f \<Longrightarrow> outputOk out f"
  shows "diskOk c'"
proof -
  have "outputOk o' f" if "length o' = 32" "bodyOf (fileName o' ''d'') c' = Some f" for o' f
  proof (cases "o' = out")
    case False
    then have "fileName o' ''d'' \<noteq> fileName out ''d''" using fileName_inj [of o' _ out] that(1) assms(2) by auto
    then show ?thesis using assms(1,3) that by (simp add: diskOk_def)
  qed (use assms(4) that in simp)
  then show ?thesis using assms(1,3) by (simp add: diskOk_def)
qed

lemma diskOk_entry:
  assumes "diskOk c" "length aid = 32" "\<And>r. r \<noteq> fileName aid ''a'' \<Longrightarrow> bodyOf r c' = bodyOf r c"
    and "\<And>b e. bodyOf (fileName aid ''a'') c' = Some b \<Longrightarrow> parseEntry aid b = Inr e \<Longrightarrow> entryOk e"
  shows "diskOk c'"
proof -
  have "entryOk e" if "length i = 32" "bodyOf (fileName i ''a'') c' = Some b" "parseEntry i b = Inr e" for i b e
  proof (cases "i = aid")
    case False
    then have "fileName i ''a'' \<noteq> fileName aid ''a''" using fileName_inj [of i _ aid] that(1) assms(2) by auto
    then show ?thesis using assms(1,3) that by (auto simp: diskOk_def)
  qed (use assms(4) that in simp)
  then show ?thesis using assms(1,3) by (auto simp: diskOk_def)
qed

text \<open>The failures a copy can undo: it must be able to stat, cut and remove its own file.\<close>

definition cfOk :: "copyFault \<Rightarrow> bool" where
  "cfOk cf \<longleftrightarrow> \<not> cf_stat cf \<and> \<not> cf_truncate cf \<and> \<not> cf_remove cf"

lemma copyBody_effect:
  assumes "cfOk cf" "length old \<le> sz" "copyBody now cf file out sz name old c = (r, c')"
  shows "(\<forall>q. q \<noteq> name \<longrightarrow> bodyOf q c' = bodyOf q c) \<and>
    (if r = None then \<exists>f. bodyOf name c' = Some f \<and> sha256 f = out \<and> length f = sz
     else bodyOf name c' = Some [] \<or> bodyOf name c' = None)"
  using assms by (auto simp: copyBody_def cfOk_def truncateFile_def Let_def split: option.splits if_splits)

lemma copyFile_effect:
  assumes "cfOk cf" "copyFile now cf file out sz c = (r, c')"
  shows "(\<forall>q. q \<noteq> fileName out ''d'' \<longrightarrow> bodyOf q c' = bodyOf q c) \<and>
    (bodyOf (fileName out ''d'') c' = bodyOf (fileName out ''d'') c \<or> bodyOf (fileName out ''d'') c' \<in> {None, Some []} \<or>
     (\<exists>f. bodyOf (fileName out ''d'') c' = Some f \<and> sha256 f = out)) \<and>
    (r = None \<and> cf_open cf \<noteq> TextBusy \<longrightarrow> (\<exists>f. bodyOf (fileName out ''d'') c' = Some f \<and> (sha256 f = out \<or> sz = 0) \<and> length f = sz))"
proof (cases "cf_open cf = Opened \<and> \<not> (case lookupFile (fileName out ''d'') c of None \<Rightarrow> False
      | Some f \<Rightarrow> length (df_body f) = sz \<and> \<not> cf_reopen cf \<and> sha256 (df_body f) = out)")
  case False
  then show ?thesis using assms
    by (auto simp: copyFile_def cfOk_def Let_def bodyOf_def split: option.splits if_splits openResult.splits)
next
  case True
  define held where "held = (case lookupFile (fileName out ''d'') c of None \<Rightarrow> \<lparr>df_body = [], df_mtime = now\<rparr>
    | Some f \<Rightarrow> if length (df_body f) > sz then \<lparr>df_body = [], df_mtime = now\<rparr> else f)"
  have l: "length (df_body held) \<le> sz" by (simp add: held_def split: option.split)
  have "copyFile now cf file out sz c = (if sz = 0 then (None, storeFile (fileName out ''d'') held c)
      else copyBody now cf file out sz (fileName out ''d'') (df_body held) (storeFile (fileName out ''d'') held c))"
    using True assms(1) unfolding copyFile_def Let_def cfOk_def held_def by (auto split: option.split)
  then have eq: "(r, c') = (if sz = 0 then (None, storeFile (fileName out ''d'') held c)
      else copyBody now cf file out sz (fileName out ''d'') (df_body held) (storeFile (fileName out ''d'') held c))"
    using assms(2) by simp
  show ?thesis
  proof (cases "sz = 0")
    case True
    then show ?thesis using eq l by simp
  next
    case False
    then have "copyBody now cf file out sz (fileName out ''d'') (df_body held) (storeFile (fileName out ''d'') held c) = (r, c')" using eq by simp
    from copyBody_effect [OF assms(1) l this] show ?thesis by (auto split: if_splits)
  qed
qed

lemma copyFile_ok:
  assumes "diskOk c" "cfOk cf" "length out = 32" "copyFile now cf file out sz c = (r, c')"
  shows "diskOk c'"
proof (rule diskOk_output [OF assms(1,3)])
  show "bodyOf q c' = bodyOf q c" if "q \<noteq> fileName out ''d''" for q using copyFile_effect [OF assms(2,4)] that by blast
  show "outputOk out f" if f: "bodyOf (fileName out ''d'') c' = Some f" for f
  proof -
    have h: "bodyOf (fileName out ''d'') c = Some f \<Longrightarrow> outputOk out f" using assms(1,3) by (simp add: diskOk_def)
    have "bodyOf (fileName out ''d'') c = Some f \<or> f = [] \<or> sha256 f = out" using copyFile_effect [OF assms(2,4)] f by auto
    then show ?thesis using h outputOk_Nil unfolding outputOk_def by blast
  qed
qed

lemma writeEntry_effect:
  assumes "\<not> ef_remove ef" "writeEntry now ef r entry c = (x, c')"
  shows "(\<forall>q. q \<noteq> r \<longrightarrow> bodyOf q c' = bodyOf q c) \<and>
    (if x = None then bodyOf r c' = Some entry else bodyOf r c' = bodyOf r c \<or> bodyOf r c' = None)"
  using assms by (auto simp: writeEntry_def Let_def split: option.splits if_splits)

lemma putIndexEntry_effect:
  assumes "\<not> ef_remove ef" "putIndexEntry verify now rf ef aid out sz allowVerify c = (x, c')"
  shows "(\<forall>q. q \<noteq> fileName aid ''a'' \<longrightarrow> bodyOf q c' = bodyOf q c) \<and>
    (if x = None then bodyOf (fileName aid ''a'') c' = Some (formatEntry aid out (int sz) now)
     else bodyOf (fileName aid ''a'') c' = bodyOf (fileName aid ''a'') c \<or> bodyOf (fileName aid ''a'') c' = None)"
proof -
  obtain g d where g: "get now rf aid c = (g, d)" by fastforce
  consider "x \<noteq> None" "c' = d" | "writeEntry now ef (fileName aid ''a'') (formatEntry aid out (int sz) now) c = (x, c')"
    | "writeEntry now ef (fileName aid ''a'') (formatEntry aid out (int sz) now) d = (x, c')"
    using assms(2) by (auto simp: putIndexEntry_def Let_def g split: if_splits sum.splits)
  then show ?thesis
  proof cases
    case 1
    then show ?thesis using bodyOf_get [OF g] by auto
  next
    case 2
    from writeEntry_effect [OF assms(1) this] show ?thesis .
  next
    case 3
    from writeEntry_effect [OF assms(1) this] show ?thesis unfolding bodyOf_get [OF g] .
  qed
qed

lemma putIndexEntry_ok:
  assumes "diskOk c" "\<not> ef_remove ef" "length aid = 32" "sha256 data = out" "length data = sz" "sz < 2 ^ 63" "0 \<le> now" "now < 2 ^ 63"
    and p: "putIndexEntry verify now rf ef aid out sz allowVerify c = (x, c')"
  shows "diskOk c'"
proof (rule diskOk_entry [OF assms(1,3)])
  show "bodyOf q c' = bodyOf q c" if "q \<noteq> fileName aid ''a''" for q using putIndexEntry_effect [OF assms(2) p] that by blast
  show "entryOk e" if b: "bodyOf (fileName aid ''a'') c' = Some b" "parseEntry aid b = Inr e" for b e
  proof (cases "x = None")
    case True
    then have "b = formatEntry aid out (int sz) now" using putIndexEntry_effect [OF assms(2) p] b(1) by simp
    moreover have "length out = 32" using assms(4) by auto
    moreover have "int sz < 2 ^ 63" using assms(6) by (metis of_nat_less_iff of_nat_numeral of_nat_power)
    ultimately have "e = \<lparr>ent_OutputID = out, ent_Size = int sz, ent_Time = now\<rparr>" using parseEntry_formatEntry [of aid out "int sz" now] b(2) assms(3,7,8) by simp
    then show ?thesis using assms(4,5) by (auto simp: entryOk_def)
  next
    case False
    then have "bodyOf (fileName aid ''a'') c = Some b" using putIndexEntry_effect [OF assms(2) p] b(1) by auto
    then show ?thesis using assms(1,3) b(2) by (auto simp: diskOk_def)
  qed
qed

subsection \<open>Trimming\<close>

text \<open>What a trim takes away.\<close>

definition staleAt :: "int \<Rightarrow> fileRef \<Rightarrow> diskCache \<Rightarrow> bool" where
  "staleAt cutoff r c \<longleftrightarrow> trimmable (snd r) \<and> (\<exists>f. lookupFile r c = Some f \<and> df_mtime f < cutoff)"

lemma trimNames_lookup:
  "lookupFile r (trimNames stuck cutoff subdir names c) =
    (if fst r = subdir \<and> snd r \<in> set names \<and> \<not> stuck r \<and> staleAt cutoff r c then None else lookupFile r c)"
proof (induction stuck cutoff subdir names c rule: trimNames.induct)
  case (2 stuck cutoff subdir name names c)
  let ?c = "if \<not> trimmable name then c else case lookupFile (subdir, name) c of None \<Rightarrow> c
    | Some info \<Rightarrow> if \<not> stuck (subdir, name) \<and> df_mtime info < cutoff then removeFile (subdir, name) c else c"
  have c: "lookupFile r ?c = (if r = (subdir, name) \<and> \<not> stuck r \<and> staleAt cutoff r c then None else lookupFile r c)"
    by (auto simp: staleAt_def split: option.split)
  then have "staleAt cutoff r ?c \<longleftrightarrow> staleAt cutoff r c \<and> \<not> (r = (subdir, name) \<and> \<not> stuck r)" by (auto simp: staleAt_def)
  then show ?case using 2 [OF refl refl] c by (cases r) (simp add: Let_def del: lookup_remove split del: if_split, auto)
qed simp

lemma trimSubdir_lookup:
  "lookupFile r (trimSubdir tf cutoff subdir c) =
    (if fst r = subdir \<and> \<not> tf_subdir tf subdir \<and> \<not> tf_stuck tf r \<and> staleAt cutoff r c then None else lookupFile r c)"
proof -
  have "staleAt cutoff r c \<Longrightarrow> fst r = subdir \<Longrightarrow> snd r \<in> set (map (\<lambda>(r, f). snd r) (filter (\<lambda>(r, f). fst r = subdir) (dc_files c)))"
    by (cases r) (force simp: staleAt_def lookupFile_def dest: map_of_SomeD)
  then show ?thesis by (auto simp: trimSubdir_def trimNames_lookup simp del: set_map)
qed

lemma trimAll_lookup:
  "lookupFile r (fold (trimSubdir tf cutoff) subs c) =
    (if fst r \<in> set subs \<and> \<not> tf_subdir tf (fst r) \<and> \<not> tf_stuck tf r \<and> staleAt cutoff r c then None else lookupFile r c)"
proof (induction subs arbitrary: c)
  case (Cons s subs)
  have "staleAt cutoff r (trimSubdir tf cutoff s c) \<longleftrightarrow> staleAt cutoff r c \<and> \<not> (fst r = s \<and> \<not> tf_subdir tf s \<and> \<not> tf_stuck tf r)"
    by (auto simp: staleAt_def trimSubdir_lookup)
  then show ?case by (auto simp: Cons.IH trimSubdir_lookup)
qed simp

lemma transformStamp_lookup: "transformStamp now tf others c = (x, c') \<Longrightarrow> lookupFile r c' = lookupFile r c"
  by (auto simp: transformStamp_def Let_def split: option.splits if_splits)

lemma Trim_lookup:
  assumes "Trim now tf others c = (x, c')"
  shows "lookupFile r c' = lookupFile r c \<or> (lookupFile r c' = None \<and> staleAt (trimCutoff now) r c)"
proof -
  obtain y d where y: "transformStamp now tf others c = (y, d)" by fastforce
  note same = transformStamp_lookup [OF y]
  have "c' = c \<or> c' = d \<or> c' = fold (trimSubdir tf (trimCutoff now)) subdirs d"
    using assms y by (auto simp: Trim_def split: if_splits stampResult.splits option.splits)
  moreover have "staleAt (trimCutoff now) r d = staleAt (trimCutoff now) r c" by (simp add: staleAt_def same)
  ultimately show ?thesis using same [of r] trimAll_lookup [of r tf "trimCutoff now" subdirs d] by (auto split: if_splits)
qed

lemma Trim_bodies: "bodyOf r (snd (Trim now tf others c)) = bodyOf r c \<or> bodyOf r (snd (Trim now tf others c)) = None"
  using Trim_lookup [of now tf others c "fst (Trim now tf others c)" "snd (Trim now tf others c)" r] by (auto simp: bodyOf_def)

section \<open>Runs\<close>

datatype diskOp =
    OpPut putFault bytes bytes bytes bool
  | OpKeep putFault bytes bytes bytes
  | OpGet readFault bytes
  | OpGetFile readFault bytes
  | OpGetBytes readFault bytes
  | OpTrim trimFault "bytes option \<Rightarrow> bytes option"

definition diskStep :: "bool \<Rightarrow> int \<times> diskOp \<Rightarrow> diskCache \<Rightarrow> diskCache" where
  "diskStep verify o' c =
    (case o' of (now, op) \<Rightarrow>
     (case op of
        OpPut pf aid first second allowVerify \<Rightarrow> snd (put verify now pf aid first second allowVerify c)
      | OpKeep pf aid out data \<Rightarrow> snd (KeepVerified verify now pf aid out data c)
      | OpGet rf aid \<Rightarrow> snd (Get verify now rf aid c)
      | OpGetFile rf aid \<Rightarrow> snd (GetFile verify now rf aid c)
      | OpGetBytes rf aid \<Rightarrow> snd (GetBytes verify now rf aid c)
      | OpTrim tf others \<Rightarrow> snd (Trim now tf others c)))"

definition pfOk :: "putFault \<Rightarrow> bool" where
  "pfOk pf \<longleftrightarrow> cfOk (pf_copy pf) \<and> \<not> ef_remove (pf_entry pf)"

text \<open>The operations of a run: a clock of 64 bits, actions of 32 bytes, a body of that output where the tier
  above says it checked one, and failures that the directory can undo.\<close>

definition opOk :: "int \<times> diskOp \<Rightarrow> bool" where
  "opOk o' \<longleftrightarrow> 0 \<le> fst o' \<and> fst o' < 2 ^ 63 \<and>
    (case snd o' of
       OpPut pf aid first second allowVerify \<Rightarrow> length aid = 32 \<and> length first < 2 ^ 63 \<and> pfOk pf
     | OpKeep pf aid out data \<Rightarrow> length aid = 32 \<and> length data < 2 ^ 63 \<and> sha256 data = out \<and> pfOk pf
     | _ \<Rightarrow> True)"

definition emptyDisk :: diskCache where
  "emptyDisk = \<lparr>dc_files = [], dc_stamp = None\<rparr>"

lemma emptyDisk_ok: "diskOk emptyDisk"
  by (simp add: diskOk_def emptyDisk_def bodyOf_def lookupFile_def)

lemma reads_bodies [simp]:
  "bodyOf r (snd (Get verify now rf aid c)) = bodyOf r c"
  "bodyOf r (snd (GetFile verify now rf aid c)) = bodyOf r c"
  "bodyOf r (snd (GetBytes verify now rf aid c)) = bodyOf r c"
proof -
  show g: "bodyOf r (snd (Get verify now rf aid c)) = bodyOf r c" for r c
    using bodyOf_get [of now rf aid c "fst (get now rf aid c)" "snd (get now rf aid c)" r] by (simp add: Get_def)
  obtain x d where x: "Get verify now rf aid c = (x, d)" by fastforce
  then have "bodyOf r d = bodyOf r c" using g [of r c] by simp
  then show "bodyOf r (snd (GetFile verify now rf aid c)) = bodyOf r c" "bodyOf r (snd (GetBytes verify now rf aid c)) = bodyOf r c"
    by (auto simp: GetFile_def GetBytes_def x OutputFile_def Let_def split: sum.split option.split)
qed

lemma put_ok:
  assumes "diskOk c" "pfOk pf" "length aid = 32" "length first < 2 ^ 63" "0 \<le> now" "now < 2 ^ 63"
  shows "diskOk (snd (put verify now pf aid first second allowVerify c))"
proof (cases "pf_pass pf")
  case False
  obtain x d where d: "copyFile now (pf_copy pf) second (sha256 first) (length first) c = (x, d)" by fastforce
  have ok: "diskOk d" using copyFile_ok [OF assms(1) _ _ d] assms(2) by (simp add: pfOk_def)
  obtain y e where e: "putIndexEntry verify now (pf_read pf) (pf_entry pf) aid (sha256 first) (length first) allowVerify d = (y, e)" by fastforce
  have "diskOk e" using putIndexEntry_ok [OF ok _ assms(3) refl refl assms(4-6) e] assms(2) by (simp add: pfOk_def)
  then show ?thesis using False ok by (simp add: put_def Let_def d e split: option.split)
qed (use assms(1) in \<open>simp add: put_def\<close>)

lemma KeepVerified_ok:
  assumes "diskOk c" "pfOk pf" "length aid = 32" "length data < 2 ^ 63" "sha256 data = out" "0 \<le> now" "now < 2 ^ 63"
  shows "diskOk (snd (KeepVerified verify now pf aid out data c))"
proof -
  obtain x d where d: "copyFile now (pf_copy pf) data out (length data) c = (x, d)" by fastforce
  have "length out = 32" using assms(5) by auto
  then have ok: "diskOk d" using copyFile_ok [OF assms(1) _ _ d] assms(2) by (simp add: pfOk_def)
  obtain y e where e: "putIndexEntry verify now (pf_read pf) (pf_entry pf) aid out (length data) False d = (y, e)" by fastforce
  have "diskOk e" using putIndexEntry_ok [OF ok _ assms(3,5) refl assms(4,6,7) e] assms(2) by (simp add: pfOk_def)
  then show ?thesis using ok by (simp add: KeepVerified_def d e split: option.split)
qed

lemma diskStep_ok: "diskOk c \<Longrightarrow> opOk o' \<Longrightarrow> diskOk (diskStep verify o' c)"
  using diskOk_less [of c] Trim_bodies
  by (cases o'; cases "snd o'") (auto simp: diskStep_def opOk_def put_ok KeepVerified_ok)

lemma diskRun_ok: "diskOk c \<Longrightarrow> list_all opOk ops \<Longrightarrow> diskOk (fold (diskStep verify) ops c)"
  by (induction ops arbitrary: c) (simp_all add: diskStep_ok)

text \<open>What a lookup that names a file found there.\<close>

lemma GetFile_found:
  assumes "GetFile verify now rf aid c = (Inr (file, e), c')"
  shows "\<not> verify" "file = fileName (ent_OutputID e) ''d''"
    "\<exists>b. bodyOf (fileName aid ''a'') c = Some b \<and> parseEntry aid b = Inr e"
    "\<exists>f. bodyOf file c' = Some f \<and> int (length f) = ent_Size e"
    "c' = markUsed now (rf_chtimes rf) file (markUsed now (rf_chtimes rf) (fileName aid ''a'') c)"
  using assms by (auto simp: GetFile_def Get_def get_def OutputFile_def Let_def bodyOf_def split: if_splits sum.splits option.splits)

lemma parseEntry_length: "parseEntry aid b = Inr e \<Longrightarrow> length (ent_OutputID e) = 32"
  by (auto simp: parseEntry_def Let_def entrySize_def hexSize_def HashSize_def split: if_splits option.splits dest!: hexDecode_length)

lemma put_stored:
  assumes "pfOk pf" "cf_open (pf_copy pf) \<noteq> TextBusy" "put verify now pf aid first second allowVerify c = (Inr (out, sz), c')"
  shows "out = sha256 first" "sz = length first"
    "bodyOf (fileName aid ''a'') c' = Some (formatEntry aid out (int sz) now)"
    "\<exists>f. bodyOf (fileName out ''d'') c' = Some f \<and> sha256 f = out \<and> length f = sz"
    "q \<noteq> fileName aid ''a'' \<Longrightarrow> q \<noteq> fileName out ''d'' \<Longrightarrow> bodyOf q c' = bodyOf q c"
proof -
  obtain x d where d: "copyFile now (pf_copy pf) second (sha256 first) (length first) c = (x, d)" by fastforce
  obtain y e where e: "putIndexEntry verify now (pf_read pf) (pf_entry pf) aid (sha256 first) (length first) allowVerify d = (y, e)" by fastforce
  have r: "x = None" "y = None" "e = c'" "out = sha256 first" "sz = length first"
    using assms(3) by (auto simp: put_def Let_def d e split: if_splits option.splits)
  then show "out = sha256 first" "sz = length first" by simp_all
  have p: "cfOk (pf_copy pf)" "\<not> ef_remove (pf_entry pf)" using assms(1) by (simp_all add: pfOk_def)
  note cp = copyFile_effect [OF p(1) d] and pe = putIndexEntry_effect [OF p(2) e]
  show "bodyOf (fileName aid ''a'') c' = Some (formatEntry aid out (int sz) now)" using pe r by simp
  obtain f where "bodyOf (fileName out ''d'') d = Some f" "sha256 f = out \<or> length first = 0" "length f = sz"
    using cp r assms(2) by auto
  moreover have "length first = 0 \<Longrightarrow> length f = sz \<Longrightarrow> sha256 f = out" using r by simp
  moreover have "bodyOf (fileName out ''d'') c' = bodyOf (fileName out ''d'') d" using pe fileName_key(2) r(3) by blast
  ultimately show "\<exists>f. bodyOf (fileName out ''d'') c' = Some f \<and> sha256 f = out \<and> length f = sz" by auto
  show "bodyOf q c' = bodyOf q c" if "q \<noteq> fileName aid ''a''" "q \<noteq> fileName out ''d''"
    using cp pe r(3,4) that by metis
qed

lemma Get_result:
  "fst (Get verify now rf aid c) =
    (if verify then Inl VerifyMode
     else case bodyOf (fileName aid ''a'') c of None \<Rightarrow> Inl Unreadable | Some b \<Rightarrow> if rf_open rf then Inl Unreadable else parseEntry aid b)"
  by (simp add: Get_def get_def bodyOf_def split: option.split sum.split)

lemma int_below: "n < 2 ^ 63 \<Longrightarrow> int n < 2 ^ 63"
  by (metis of_nat_less_iff of_nat_numeral of_nat_power)

lemma Get_after_put:
  assumes "pfOk pf" "cf_open (pf_copy pf) \<noteq> TextBusy" "put verify now pf aid first second allowVerify c = (Inr (out, sz), c')"
    and "length aid = 32" "length first < 2 ^ 63" "0 \<le> now" "now < 2 ^ 63" "\<not> rf_open rf"
  shows "fst (Get False now' rf aid c') = Inr \<lparr>ent_OutputID = sha256 first, ent_Size = int (length first), ent_Time = now\<rparr>"
  using put_stored(1-3) [OF assms(1-3)] parseEntry_formatEntry [of aid "sha256 first" "int (length first)" now] assms(4-8) int_below [OF assms(5)]
  by (simp add: Get_result)

lemma lookup_bodyOf: "bodyOf r c = Some b \<Longrightarrow> \<exists>f. lookupFile r c = Some f \<and> df_body f = b"
  by (auto simp: bodyOf_def)

text \<open>Operations without failures, and one store of them.\<close>

definition noRead :: readFault where
  "noRead = \<lparr>rf_open = False, rf_chtimes = False, rf_stat = False, rf_read = None\<rparr>"

definition noPut :: putFault where
  "noPut = \<lparr>pf_pass = False,
     pf_copy = \<lparr>cf_stat = False, cf_reopen = False, cf_open = Opened, cf_seek = False, cf_copy = None, cf_lastRead = False,
       cf_lastWrite = False, cf_close = False, cf_truncate = False, cf_remove = False\<rparr>,
     pf_read = noRead,
     pf_entry = \<lparr>ef_open = False, ef_write = None, ef_truncate = False, ef_close = False, ef_remove = False\<rparr>\<rparr>"

lemma noRead_fields [simp]: "\<not> rf_open noRead" "\<not> rf_chtimes noRead" "\<not> rf_stat noRead" "rf_read noRead = None"
  by (simp_all add: noRead_def)

lemma noPut_ok: "pfOk noPut" "cf_open (pf_copy noPut) \<noteq> TextBusy" "\<not> rf_open noRead"
  by (simp_all add: pfOk_def cfOk_def noPut_def noRead_def)

lemma put_succeeds: "\<exists>c'. put False now noPut aid data data allowVerify c = (Inr (sha256 data, length data), c')"
proof -
  have "fst (copyFile now (pf_copy noPut) data (sha256 data) (length data) c) = None"
    by (auto simp: copyFile_def copyBody_def noPut_def Let_def split: option.split)
  then obtain d where d: "copyFile now (pf_copy noPut) data (sha256 data) (length data) c = (None, d)" by (metis prod.collapse)
  have "\<exists>c'. putIndexEntry False now (pf_read noPut) (pf_entry noPut) aid (sha256 data) (length data) allowVerify d = (None, c')"
    by (simp add: putIndexEntry_def writeEntry_def noPut_def Let_def)
  then show ?thesis by (auto simp: put_def Let_def d) (auto simp: noPut_def)
qed

section \<open>Properties\<close>

lemma GetFile_verified:
  assumes "diskOk c" "length aid = 32" "GetFile verify now rf aid c = (Inr (file, e), c')"
  shows "\<exists>f. bodyOf file c' = Some f \<and> sha256 f = ent_OutputID e \<and> int (length f) = ent_Size e"
proof -
  note g = GetFile_found [OF assms(3)]
  obtain b where b: "bodyOf (fileName aid ''a'') c = Some b" "parseEntry aid b = Inr e" using g(3) by blast
  obtain x where x: "sha256 x = ent_OutputID e" "int (length x) = ent_Size e"
    using assms(1,2) b unfolding diskOk_def entryOk_def by blast
  obtain f where f: "bodyOf file c' = Some f" "int (length f) = ent_Size e" using g(4) by blast
  have "bodyOf (fileName (ent_OutputID e) ''d'') c = Some f" using f(1) g(2,5) by simp
  then have "outputOk (ent_OutputID e) f" using assms(1) parseEntry_length [OF b(2)] by (simp add: diskOk_def)
  then have "sha256 f = ent_OutputID e" using x f(2) by (auto simp: outputOk_def)
  then show ?thesis using f by blast
qed

text \<open>(C34) The cache directory never hands the build a file with wrong bytes.  Take any run of stores, lookups
  and trims from an empty directory, in which any call of the file system may fail: a body whose reader changes
  between the two passes, a copy that stops half way, a last byte that cannot be written, an entry written in
  part, a removal or a stamp that fails.  As long as the code can cut and remove the file it failed on, every
  file a lookup names afterwards holds bytes of the advertised length that hash to the advertised output.\<close>

theorem disk_serves_outputs:
  assumes "list_all opOk ops" "length aid = 32"
    and "GetFile verify now rf aid (fold (diskStep verify) ops emptyDisk) = (Inr (file, e), c')"
  shows "\<exists>f. bodyOf file c' = Some f \<and> sha256 f = ent_OutputID e \<and> int (length f) = ent_Size e"
  by (rule GetFile_verified [OF diskRun_ok [OF emptyDisk_ok assms(1)] assms(2,3)])

text \<open>(C35) A stored output is found again.  When a store reports success - other than by finding the file of a
  running program in its place (\<^verbatim>\<open>ETXTBSY\<close>) - whatever failed before it on the way, a lookup of
  the action that meets no failing call answers the hash and the length of the body and the time of the store, its
  bytes read back have that hash and length, and what a lookup of any other action answers has not changed.\<close>

theorem disk_put_get:
  assumes "pfOk pf" "cf_open (pf_copy pf) \<noteq> TextBusy" "put verify now pf aid first second allowVerify c = (Inr (out, sz), c')"
    and "length aid = 32" "length first < 2 ^ 63" "0 \<le> now" "now < 2 ^ 63"
  shows "(\<exists>data d. GetBytes False later noRead aid c' =
        (Inr (data, \<lparr>ent_OutputID = sha256 first, ent_Size = int (length first), ent_Time = now\<rparr>), d) \<and>
        sha256 data = sha256 first \<and> length data = length first) \<and>
    (length other = 32 \<and> other \<noteq> aid \<longrightarrow> fst (Get False later rf other c') = fst (Get False later rf other c))"
proof -
  let ?e = "\<lparr>ent_OutputID = sha256 first, ent_Size = int (length first), ent_Time = now\<rparr>"
  note p = put_stored [OF assms(1-3)]
  have "fst (Get False later noRead aid c') = Inr ?e" by (rule Get_after_put [OF assms(1-7) noPut_ok(3)])
  then obtain d where d: "Get False later noRead aid c' = (Inr ?e, d)" by (metis prod.collapse)
  define d' where "d' = markUsed later (rf_chtimes noRead) (fileName (sha256 first) ''d'') d"
  obtain f where f: "bodyOf (fileName (sha256 first) ''d'') c' = Some f" "sha256 f = sha256 first" "length f = length first" using p(1,2,4) by blast
  have "bodyOf (fileName (sha256 first) ''d'') d' = Some f" using reads_bodies(1) [of _ False later noRead aid c'] f(1) d by (simp add: d'_def)
  then have "readFile noRead (fileName (sha256 first) ''d'') d' = f" by (auto simp: readFile_def bodyOf_def noRead_def)
  then have "GetBytes False later noRead aid c' = (Inr (f, ?e), d')" using f(2) by (simp add: GetBytes_def d OutputFile_def Let_def d'_def)
  moreover have "fst (Get False later rf other c') = fst (Get False later rf other c)" if "length other = 32" "other \<noteq> aid"
  proof -
    have "fileName other ''a'' \<noteq> fileName aid ''a''" using fileName_inj [of other _ aid] that assms(4) by auto
    then show ?thesis using p(5) [of "fileName other ''a''"] by (simp add: Get_result)
  qed
  ultimately show ?thesis using f by blast
qed

lemma disk_put_get_witness:
  "\<exists>c' data d. put False 7 noPut (replicate 32 1) [104, 105] [104, 105] True emptyDisk = (Inr (sha256 [104, 105], 2), c') \<and>
     GetBytes False 9 noRead (replicate 32 1) c' = (Inr (data, \<lparr>ent_OutputID = sha256 [104, 105], ent_Size = 2, ent_Time = 7\<rparr>), d) \<and>
     sha256 data = sha256 [104, 105] \<and> length data = 2"
proof -
  have "\<exists>c'. put False 7 noPut (replicate 32 1) [104, 105] [104, 105] True emptyDisk = (Inr (sha256 [104, 105], length [104 :: byte, 105]), c')"
    by (rule put_succeeds)
  then obtain c' where c': "put False 7 noPut (replicate 32 1) [104, 105] [104, 105] True emptyDisk = (Inr (sha256 [104, 105], length [104 :: byte, 105]), c')" by blast
  have two: "length [104 :: byte, 105] = 2" by simp
  from disk_put_get [OF noPut_ok(1,2) c', where later = 9 and rf = noRead and other = "replicate 32 2"] c' show ?thesis unfolding two by auto
qed

definition demoPut :: "int \<times> diskOp" where
  "demoPut = (7, OpPut noPut (replicate 32 1) [104, 105] [104, 105] True)"

lemma demo_found:
  "\<exists>fl e c'. GetFile False 9 noRead (replicate 32 1) (fold (diskStep False) [demoPut] emptyDisk) = (Inr (fl, e), c')"
proof -
  have "\<exists>c'. put False 7 noPut (replicate 32 1) [104, 105] [104, 105] True emptyDisk = (Inr (sha256 [104, 105], length [104 :: byte, 105]), c')"
    by (rule put_succeeds)
  then obtain c where c: "put False 7 noPut (replicate 32 1) [104, 105] [104, 105] True emptyDisk = (Inr (sha256 [104, 105], length [104 :: byte, 105]), c)" by blast
  note p = put_stored [OF noPut_ok(1,2) c]
  let ?e = "\<lparr>ent_OutputID = sha256 [104, 105], ent_Size = 2, ent_Time = 7\<rparr>"
  have "fst (Get False 9 noRead (replicate 32 1) c) = Inr ?e" using Get_after_put [OF noPut_ok(1,2) c _ _ _ _ noPut_ok(3), of 9] by simp
  then obtain d where d: "Get False 9 noRead (replicate 32 1) c = (Inr ?e, d)" by (metis prod.collapse)
  obtain f where "bodyOf (fileName (sha256 [104, 105]) ''d'') d = Some f" "length f = 2"
    using p(4) reads_bodies(1) [of _ False 9 noRead "replicate 32 1" c] d by auto
  then have "\<exists>fl c'. GetFile False 9 noRead (replicate 32 1) c = (Inr (fl, ?e), c')"
    by (auto simp: GetFile_def d OutputFile_def Let_def bodyOf_def lookup_markUsed)
  then show ?thesis using c by (auto simp: diskStep_def demoPut_def)
qed

lemma disk_serves_outputs_witness:
  "\<exists>fl e c' f. GetFile False 9 noRead (replicate 32 1) (fold (diskStep False) [demoPut] emptyDisk) = (Inr (fl, e), c') \<and>
     bodyOf fl c' = Some f \<and> sha256 f = ent_OutputID e \<and> int (length f) = ent_Size e"
proof -
  obtain fl e c' where g: "GetFile False 9 noRead (replicate 32 1) (fold (diskStep False) [demoPut] emptyDisk) = (Inr (fl, e), c')" using demo_found by blast
  have "list_all opOk [demoPut]" by (simp add: opOk_def demoPut_def noPut_ok)
  from disk_serves_outputs [OF this _ g] g show ?thesis by auto
qed

lemma delays_disk: "0 < hour" "0 < mtimeInterval"
  by (simp_all add: hour_def mtimeInterval_def)

lemma markUsed_fresh:
  assumes "lookupFile q (markUsed used False q c) = Some f"
  shows "used - mtimeInterval < df_mtime f"
  using assms delays_disk by (auto simp: lookup_markUsed split: option.splits if_splits)

lemma markUsed_newer:
  "lookupFile r (markUsed used e q c) = Some f \<Longrightarrow> \<exists>g. lookupFile r c = Some g \<and> (df_mtime f = df_mtime g \<or> df_mtime f = used)"
  by (auto simp: lookup_markUsed split: option.splits if_splits)

lemma Trim_exact:
  assumes "dc_stamp c = None \<or> \<not> skipTrim now (the (dc_stamp c))" "fst (transformStamp now tf others c) \<in> {Stamped, StampErr}"
  shows "lookupFile r (snd (Trim now tf others c)) =
    (if fst r \<in> set subdirs \<and> \<not> tf_subdir tf (fst r) \<and> \<not> tf_stuck tf r \<and> staleAt (trimCutoff now) r c then None else lookupFile r c)"
proof -
  obtain y d where y: "transformStamp now tf others c = (y, d)" by fastforce
  note same = transformStamp_lookup [OF y]
  have "snd (Trim now tf others c) = fold (trimSubdir tf (trimCutoff now)) subdirs d"
    using assms y by (auto simp: Trim_def split: option.splits)
  moreover have "staleAt (trimCutoff now) r d = staleAt (trimCutoff now) r c" by (simp add: staleAt_def same)
  ultimately show ?thesis using same by (simp add: trimAll_lookup)
qed

text \<open>(C36) A trim goes by use.  An entry and its output that a lookup answered, its \<^verbatim>\<open>os.Chtimes\<close> not
  failing, survive every trim of the next five days, whatever other commands do to the stamp.  A trim that is due and not disturbed removes exactly the
  entry files and output files nobody used for five days and an hour, and nothing else of the directory.\<close>

theorem trim_by_use:
  assumes "GetFile False used rf aid c = (Inr (fl, e), c')" "\<not> rf_chtimes rf" "now \<le> used + trimLimit"
  shows "lookupFile fl (snd (Trim now tf others c')) = lookupFile fl c' \<and>
    lookupFile (fileName aid ''a'') (snd (Trim now tf others c')) = lookupFile (fileName aid ''a'') c' \<and>
    ((dc_stamp c = None \<or> \<not> skipTrim later (the (dc_stamp c))) \<and> fst (transformStamp later tf others c) \<in> {Stamped, StampErr} \<longrightarrow>
      lookupFile r (snd (Trim later tf others c)) =
        (if fst r \<in> set subdirs \<and> \<not> tf_subdir tf (fst r) \<and> \<not> tf_stuck tf r \<and> trimmable (snd r) \<and>
            (\<exists>f. lookupFile r c = Some f \<and> df_mtime f < later - 5 * 24 * hour - hour) then None else lookupFile r c))"
proof (intro conjI impI)
  note g = GetFile_found [OF assms(1)]
  have keep: "lookupFile q (snd (Trim now tf others c')) = lookupFile q c'" if "\<And>f. lookupFile q c' = Some f \<Longrightarrow> used - mtimeInterval < df_mtime f" for q
    using Trim_lookup [of now tf others c' "fst (Trim now tf others c')" "snd (Trim now tf others c')" q] that assms(3)
    by (fastforce simp: staleAt_def trimCutoff_def)
  have c': "c' = markUsed used False fl (markUsed used False (fileName aid ''a'') c)" using g(5) assms(2) by simp
  show "lookupFile fl (snd (Trim now tf others c')) = lookupFile fl c'" by (rule keep) (use c' markUsed_fresh in blast)
  show "lookupFile (fileName aid ''a'') (snd (Trim now tf others c')) = lookupFile (fileName aid ''a'') c'"
  proof (rule keep)
    fix f assume "lookupFile (fileName aid ''a'') c' = Some f"
    then obtain h where "lookupFile (fileName aid ''a'') (markUsed used False (fileName aid ''a'') c) = Some h" "df_mtime f = df_mtime h \<or> df_mtime f = used"
      unfolding c' using markUsed_newer by blast
    then show "used - mtimeInterval < df_mtime f" using markUsed_fresh [of "fileName aid ''a''" used c h] delays_disk(2) by auto
  qed
next
  assume "(dc_stamp c = None \<or> \<not> skipTrim later (the (dc_stamp c))) \<and> fst (transformStamp later tf others c) \<in> {Stamped, StampErr}"
  then show "lookupFile r (snd (Trim later tf others c)) =
      (if fst r \<in> set subdirs \<and> \<not> tf_subdir tf (fst r) \<and> \<not> tf_stuck tf r \<and> trimmable (snd r) \<and>
          (\<exists>f. lookupFile r c = Some f \<and> df_mtime f < later - 5 * 24 * hour - hour) then None else lookupFile r c)"
    using Trim_exact [of c later tf others r] by (simp add: staleAt_def trimCutoff_def trimLimit_def mtimeInterval_def)
qed

definition noTrim :: trimFault where
  "noTrim = \<lparr>tf_lock = None, tf_transform = False, tf_rename = False, tf_subdir = (\<lambda>_. False), tf_stuck = (\<lambda>_. False)\<rparr>"

lemma trim_by_use_witness:
  "\<exists>fl e c' f. GetFile False 9 noRead (replicate 32 1) (fold (diskStep False) [demoPut] emptyDisk) = (Inr (fl, e), c') \<and>
     lookupFile fl c' = Some f \<and> lookupFile fl (snd (Trim (9 + 119 * hour) noTrim (\<lambda>x. x) c')) = Some f"
proof -
  obtain fl e c' where g: "GetFile False 9 noRead (replicate 32 1) (fold (diskStep False) [demoPut] emptyDisk) = (Inr (fl, e), c')" using demo_found by blast
  obtain f where f: "lookupFile fl c' = Some f" using GetFile_found(4) [OF g] by (auto simp: bodyOf_def)
  have "9 + 119 * hour \<le> 9 + trimLimit" by (simp add: trimLimit_def hour_def)
  from trim_by_use [OF g noRead_fields(2) this, where tf = noTrim and others = "\<lambda>x. x"] f g show ?thesis by auto
qed

end
