(* ===== verification/Archive.thy ===== *)
theory Archive
  imports Paths Strconv
begin

text \<open>
  Compiled packages (\<^verbatim>\<open>cacheclient/archive.go\<close>, \<^verbatim>\<open>buildid.go\<close>, \<^verbatim>\<open>integrity.go\<close> and the object types of
  \<^verbatim>\<open>compress.go\<close>): the members of an ar archive, the build id it carries, and the import path and source files
  in its export data.  A slice index out of range is the value \<open>PbPanic\<close>.  White space is that of ASCII, paths
  those of a system whose separator is the slash.
\<close>

section \<open>Definitions\<close>

subsection \<open>Archives\<close>

definition trimRight :: "'a \<Rightarrow> 'a list \<Rightarrow> 'a list" where
  "trimRight c s = rev (dropWhile (\<lambda>x. x = c) (rev s))"

definition arGlobalHdr :: bytes where
  "arGlobalHdr = bytes_of (''!<arch>'' @ [CHR 0x0A])"

definition arEndMark :: bytes where
  "arEndMark = bytes_of ([CHR 0x60] @ [CHR 0x0A])"

definition hdrSize :: nat where "hdrSize = 60"

text \<open>The members of an archive in turn, until one has the name.\<close>

function arSearch :: "bytes \<Rightarrow> string \<Rightarrow> bytes option" where
  "arSearch data name =
    (if length data < hdrSize then None
     else
       let rawName = trimRight CHR '' '' (string_of (take 16 data));
           rawSize = trimSpace (string_of (take 10 (drop 48 data)))
       in if take 2 (drop 58 data) \<noteq> arEndMark then None
          else (case digitsFrom 0 rawSize of
            None \<Rightarrow> None
          | Some sz \<Rightarrow>
              let body = drop hdrSize data in
              if sz > length body then None
              else if trimRight CHR ''/'' rawName = name then Some (take sz body)
              else let advance = hdrSize + sz + (if sz mod 2 \<noteq> 0 then 1 else 0) in
                if advance > length data then None else arSearch (drop advance data) name))"
  by pat_completeness auto
termination
  by (relation "measure (\<lambda>(data, name). length data)") (auto simp: hdrSize_def)

declare arSearch.simps [simp del]

definition arMember :: "bytes \<Rightarrow> string \<Rightarrow> bytes option" where
  "arMember data name = (if \<not> hasPrefix data arGlobalHdr then None else arSearch (drop (length arGlobalHdr) data) name)"

subsection \<open>Build ids\<close>

definition rawURLChar :: "nat \<Rightarrow> char" where
  "rawURLChar n = ''ABCDEFGHIJKLMNOPQRSTUVWXYZabcdefghijklmnopqrstuvwxyz0123456789-_'' ! n"

text \<open>\<^verbatim>\<open>base64.RawURLEncoding\<close>: the URL alphabet, without padding.\<close>

fun rawURLEncode :: "bytes \<Rightarrow> string" where
  "rawURLEncode [] = []"
| "rawURLEncode [a] = (let n = unat a * 65536 in [rawURLChar (n div 262144), rawURLChar (n div 4096 mod 64)])"
| "rawURLEncode [a, b] =
    (let n = unat a * 65536 + unat b * 256 in [rawURLChar (n div 262144), rawURLChar (n div 4096 mod 64), rawURLChar (n div 64 mod 64)])"
| "rawURLEncode (a # b # c # rest) =
    (let n = unat a * 65536 + unat b * 256 + unat c
     in rawURLChar (n div 262144) # rawURLChar (n div 4096 mod 64) # rawURLChar (n div 64 mod 64) # rawURLChar (n mod 64) # rawURLEncode rest)"

definition BuildIDHashSize :: nat where "BuildIDHashSize = 15"

definition ExpectedBuildIDAction :: "string \<Rightarrow> string" where
  "ExpectedBuildIDAction actionIDHex =
    (case hexDecode actionIDHex of
       None \<Rightarrow> []
     | Some raw \<Rightarrow> if length raw < BuildIDHashSize then [] else rawURLEncode (take BuildIDHashSize raw))"

definition pkgdefName :: string where "pkgdefName = ''__.PKGDEF''"

definition buildIDMarker :: bytes where
  "buildIDMarker = bytes_of (''build id '' @ [CHR 0x22])"

definition archiveBuildID :: "bytes \<Rightarrow> bool \<times> string \<times> string" where
  "archiveBuildID data =
    (case arMember data pkgdefName of
       None \<Rightarrow> (False, [], [])
     | Some pkgdef \<Rightarrow>
         let header = (case indexSub pkgdef (bytes_of ''$$'') of None \<Rightarrow> pkgdef | Some i \<Rightarrow> take i pkgdef) in
         (case indexSub header buildIDMarker of
            None \<Rightarrow> (True, [], [])
          | Some idx \<Rightarrow>
              let rest = drop (idx + length buildIDMarker) header in
              (case indexByte rest (of_char CHR 0x22) of
                 None \<Rightarrow> (True, [], [])
               | Some end' \<Rightarrow>
                   let bid = string_of (take end' rest) in
                   (case indexByte bid CHR ''/'' of
                      Some slash \<Rightarrow> (True, take slash bid, drop (Suc slash) bid)
                    | None \<Rightarrow> (True, bid, [])))))"

definition ArchiveExportInfo :: "bytes \<Rightarrow> bool \<times> string" where
  "ArchiveExportInfo data = (case archiveBuildID data of (isPkgArchive, action, _) \<Rightarrow> (isPkgArchive, action))"

definition archiveBuildIDAction :: "bytes \<Rightarrow> string" where
  "archiveBuildIDAction data = snd (ArchiveExportInfo data)"

definition BuildIDMatchesAction :: "string \<Rightarrow> bytes \<Rightarrow> string \<times> bool" where
  "BuildIDMatchesAction actionIDHex body =
    (case archiveBuildID body of (isPkg, action, content) \<Rightarrow>
       let want = ExpectedBuildIDAction actionIDHex in
       if action \<noteq> [] then (if want = [] then (action, True) else (action, action = want \<or> action = content))
       else if isPkg \<and> want \<noteq> [] then ([], False)
       else ([], True))"

subsection \<open>Integrity\<close>

definition OutputIDMatches :: "string \<Rightarrow> bytes \<Rightarrow> string \<times> bool" where
  "OutputIDMatches outputID body = (let got = hexEncode (sha256 body) in (got, equalFold got outputID))"

definition StoredDigest :: "bytes \<Rightarrow> string" where
  "StoredDigest body = hexEncode (sha256 body)"

subsection \<open>Export data\<close>

definition pbSectionString :: nat where "pbSectionString = 0"
definition pbSectionPosBase :: nat where "pbSectionPosBase = 2"
definition pbSectionPkg :: nat where "pbSectionPkg = 3"
definition pbNumSections :: nat where "pbNumSections = 10"
definition pbFlagSyncMarkers :: u32 where "pbFlagSyncMarkers = 1"
definition pbSyncRelocs :: u64 where "pbSyncRelocs = 8"
definition pbSyncReloc :: u64 where "pbSyncReloc = 9"
definition pbSyncUseReloc :: u64 where "pbSyncUseReloc = 10"
definition pbSyncUint64 :: u64 where "pbSyncUint64 = 4"
definition pbSyncString :: u64 where "pbSyncString = 5"
definition pbSyncPosBase :: u64 where "pbSyncPosBase = 13"
definition pbSyncPkgDef :: u64 where "pbSyncPkgDef = 17"

record pkgbitsPayload =
  pb_elemEndsEnds :: "nat list"
  pb_elemEnds :: "nat list"
  pb_elemData :: bytes
  pb_sync :: bool

definition leNats :: "nat \<Rightarrow> bytes \<Rightarrow> nat list" where
  "leNats n payload = map (\<lambda>i. unat (leUint32 (drop (i * 4) payload))) [0..<n]"

definition pbBody :: "u32 \<Rightarrow> bytes \<Rightarrow> pkgbitsPayload option" where
  "pbBody flags payload =
    (if length payload < pbNumSections * 4 then None
     else
       let endsEnds = leNats pbNumSections payload;
           payload = drop (pbNumSections * 4) payload;
           numElems = endsEnds ! (pbNumSections - 1)
       in if length payload < numElems * 4 then None
          else
            let ends = leNats numElems payload; payload = drop (numElems * 4) payload in
            if length payload < 8 then None
            else Some \<lparr>pb_elemEndsEnds = endsEnds, pb_elemEnds = ends, pb_elemData = take (length payload - 8) payload,
              pb_sync = (flags AND pbFlagSyncMarkers \<noteq> 0)\<rparr>)"

definition parsePkgbits :: "bytes \<Rightarrow> pkgbitsPayload option" where
  "parsePkgbits payload =
    (if length payload < 4 then None
     else
       let version = leUint32 payload; payload = drop 4 payload in
       if version \<ge> 1 then
         (if length payload < 4 then None else pbBody (leUint32 payload) (drop 4 payload))
       else pbBody 0 payload)"

definition openPkgbits :: "bytes \<Rightarrow> pkgbitsPayload option" where
  "openPkgbits data =
    (case arMember data pkgdefName of
       None \<Rightarrow> None
     | Some pkgdef \<Rightarrow>
         let marker = bytes_of (''$$B'' @ [CHR 0x0A]) in
         (case indexSub pkgdef marker of
            None \<Rightarrow> None
          | Some idx \<Rightarrow>
              (case drop (idx + length marker) pkgdef of
                 [] \<Rightarrow> None
               | c # payload \<Rightarrow>
                   if c \<noteq> of_char CHR ''u'' then None
                   else parsePkgbits (case indexSub payload (bytes_of ([CHR 0x0A] @ ''$$'' @ [CHR 0x0A])) of
                     None \<Rightarrow> payload | Some end' \<Rightarrow> take end' payload))))"

fun rawUvarint :: "u64 \<Rightarrow> nat \<Rightarrow> bytes \<Rightarrow> (u64 \<times> bytes) option" where
  "rawUvarint x s [] = None"
| "rawUvarint x s (b # r) =
    (if b < 0x80 then Some (x OR push_bit s (ucast b), r) else rawUvarint (x OR push_bit s (ucast (b AND 0x7f))) (s + 7) r)"

definition skipSync :: "bool \<Rightarrow> u64 \<Rightarrow> bytes \<Rightarrow> bytes option" where
  "skipSync sync marker r =
    (if \<not> sync then Some r
     else case rawUvarint 0 0 r of None \<Rightarrow> None | Some (v, r) \<Rightarrow> if drop_bit 8 v = marker then Some r else None)"

text \<open>A number behind the markers it must follow.\<close>

fun syncedUvarint :: "bool \<Rightarrow> u64 list \<Rightarrow> bytes \<Rightarrow> (u64 \<times> bytes) option" where
  "syncedUvarint sync [] r = rawUvarint 0 0 r"
| "syncedUvarint sync (m # ms) r = (case skipSync sync m r of None \<Rightarrow> None | Some r \<Rightarrow> syncedUvarint sync ms r)"

fun readRelocs :: "bool \<Rightarrow> nat \<Rightarrow> bytes \<Rightarrow> ((u64 \<times> u64) list \<times> bytes) option" where
  "readRelocs sync 0 r = Some ([], r)"
| "readRelocs sync (Suc n) r =
    (case syncedUvarint sync [pbSyncReloc, pbSyncUint64] r of
       None \<Rightarrow> None
     | Some (kind, r) \<Rightarrow>
         (case syncedUvarint sync [pbSyncUint64] r of
            None \<Rightarrow> None
          | Some (idx, r) \<Rightarrow> map_option (\<lambda>(rs, r). ((kind, idx) # rs, r)) (readRelocs sync n r)))"

datatype pbResult = PbString string | PbPanic

definition goIndex :: "'a list \<Rightarrow> int \<Rightarrow> 'a option" where
  "goIndex xs i = (if 0 \<le> i \<and> i < int (length xs) then Some (xs ! nat i) else None)"

text \<open>The bytes of an element, by its position among all: the end of the one before, then its own.\<close>

definition elemBytes :: "pkgbitsPayload \<Rightarrow> int \<Rightarrow> (bytes \<Rightarrow> pbResult) \<Rightarrow> pbResult" where
  "elemBytes p absIdx k =
    (case (if absIdx > 0 then goIndex (pb_elemEnds p) (absIdx - 1) else Some 0) of
       None \<Rightarrow> PbPanic
     | Some start \<Rightarrow>
         (case goIndex (pb_elemEnds p) absIdx of
            None \<Rightarrow> PbPanic
          | Some end' \<Rightarrow>
              if end' > length (pb_elemData p) \<or> start > end' then PbString []
              else k (take (end' - start) (drop start (pb_elemData p)))))"

definition sectionStart :: "pkgbitsPayload \<Rightarrow> nat \<Rightarrow> nat" where
  "sectionStart p s = (if s > 0 then pb_elemEndsEnds p ! (s - 1) else 0)"

definition sectionLen :: "pkgbitsPayload \<Rightarrow> nat \<Rightarrow> int" where
  "sectionLen p s = int (pb_elemEndsEnds p ! s) - int (sectionStart p s)"

text \<open>The string a reference of an element names.\<close>

definition resolveString :: "pkgbitsPayload \<Rightarrow> u64 \<times> u64 \<Rightarrow> pbResult" where
  "resolveString p ref =
    (if fst ref \<noteq> of_nat pbSectionString then PbString []
     else
       let strElemAbs = sint (snd ref) in
       if strElemAbs \<ge> int (pb_elemEndsEnds p ! pbSectionString) then PbString []
       else elemBytes p strElemAbs (\<lambda>bs. PbString (string_of bs)))"

text \<open>\<open>maxSlice\<close> is the longest slice the run time makes; a longer one panics.\<close>

definition readElemString :: "nat \<Rightarrow> pkgbitsPayload \<Rightarrow> u64 \<Rightarrow> bytes \<Rightarrow> pbResult" where
  "readElemString maxSlice p openingSync r =
    (case syncedUvarint (pb_sync p) [pbSyncRelocs, pbSyncUint64] r of
       None \<Rightarrow> PbString []
     | Some (nrelocs, r) \<Rightarrow>
         if unat nrelocs > maxSlice then PbPanic
         else (case readRelocs (pb_sync p) (unat nrelocs) r of
           None \<Rightarrow> PbString []
         | Some (relocs, r) \<Rightarrow>
             (case syncedUvarint (pb_sync p) [openingSync, pbSyncString, pbSyncUseReloc, pbSyncUint64] r of
                None \<Rightarrow> PbString []
              | Some (relocIdx, r) \<Rightarrow>
                  if sint relocIdx \<ge> int (length relocs) then PbString []
                  else (case goIndex relocs (uint relocIdx) of None \<Rightarrow> PbPanic | Some ref \<Rightarrow> resolveString p ref))))"

definition readSectionString :: "nat \<Rightarrow> pkgbitsPayload \<Rightarrow> nat \<Rightarrow> nat \<Rightarrow> u64 \<Rightarrow> pbResult" where
  "readSectionString maxSlice p s relIdx openingSync =
    (let absIdx = sectionStart p s + relIdx in
     if absIdx \<ge> pb_elemEndsEnds p ! s then PbString []
     else elemBytes p (int absIdx) (readElemString maxSlice p openingSync))"

definition pkgbitsImportPath :: "nat \<Rightarrow> bytes \<Rightarrow> pbResult" where
  "pkgbitsImportPath maxSlice payload =
    (case parsePkgbits payload of None \<Rightarrow> PbString [] | Some p \<Rightarrow> readSectionString maxSlice p pbSectionPkg 0 pbSyncPkgDef)"

definition parseImportPath :: "nat \<Rightarrow> bytes \<Rightarrow> pbResult" where
  "parseImportPath maxSlice data =
    (case openPkgbits data of None \<Rightarrow> PbString [] | Some p \<Rightarrow> readSectionString maxSlice p pbSectionPkg 0 pbSyncPkgDef)"

subsection \<open>Descriptions\<close>

text \<open>\<^verbatim>\<open>filepath.Ext\<close>: from the last dot of the last element.\<close>

definition filepathExt :: "string \<Rightarrow> string" where
  "filepathExt path =
    (let r = takeWhile (\<lambda>c. c \<noteq> CHR ''/'') (rev path) in
     if CHR ''.'' \<in> set r then rev (takeWhile (\<lambda>c. c \<noteq> CHR ''.'') r @ ''.'') else [])"

text \<open>The loop over the position bases; none when an element panics.\<close>

fun sourceFiles :: "nat \<Rightarrow> pkgbitsPayload \<Rightarrow> nat list \<Rightarrow> string list \<Rightarrow> string list option" where
  "sourceFiles maxSlice p [] files = Some files"
| "sourceFiles maxSlice p (i # is) files =
    (case readSectionString maxSlice p pbSectionPosBase i pbSyncPosBase of
       PbPanic \<Rightarrow> None
     | PbString full \<Rightarrow>
         if full = [] then sourceFiles maxSlice p is files
         else let base = filepathBase full in
           sourceFiles maxSlice p is (if filepathExt base = ''.go'' \<and> base \<notin> set files then files @ [base] else files))"

definition parseSourceFiles :: "nat \<Rightarrow> bytes \<Rightarrow> string list option" where
  "parseSourceFiles maxSlice data =
    (case openPkgbits data of None \<Rightarrow> Some [] | Some p \<Rightarrow> sourceFiles maxSlice p [0..<nat (sectionLen p pbSectionPosBase)] [])"

text \<open>The text before the last separator of either kind, when that is not at the start.\<close>

definition cutLastSep :: "string \<Rightarrow> string option" where
  "cutLastSep full =
    (let r = dropWhile (\<lambda>c. c \<noteq> CHR ''/'' \<and> c \<noteq> CHR 0x5C) (rev full) in
     if length r > 1 then Some (rev (tl r)) else None)"

fun sourceDir :: "nat \<Rightarrow> pkgbitsPayload \<Rightarrow> nat list \<Rightarrow> pbResult" where
  "sourceDir maxSlice p [] = PbString []"
| "sourceDir maxSlice p (i # is) =
    (case readSectionString maxSlice p pbSectionPosBase i pbSyncPosBase of
       PbPanic \<Rightarrow> PbPanic
     | PbString full \<Rightarrow>
         (case cutLastSep full of
            Some dir \<Rightarrow> if filepathExt full = ''.go'' then PbString dir else sourceDir maxSlice p is
          | None \<Rightarrow> sourceDir maxSlice p is))"

definition parseSourceDir :: "nat \<Rightarrow> bytes \<Rightarrow> pbResult" where
  "parseSourceDir maxSlice data =
    (case openPkgbits data of None \<Rightarrow> PbString [] | Some p \<Rightarrow> sourceDir maxSlice p [0..<nat (sectionLen p pbSectionPosBase)])"

definition machoMagics :: "nat list" where
  "machoMagics = [0xcffaedfe, 0xfeedface, 0xfeedfacf, 0xcefaedfe, 0xcafebabe]"

definition detectObjectType :: "bytes \<Rightarrow> string" where
  "detectObjectType data =
    (if length data \<ge> 8 \<and> take 8 data = arGlobalHdr then ''go-archive''
     else if length data \<ge> 4 \<and> take 4 data = 0x7f # bytes_of ''ELF'' then ''elf-binary''
     else if length data \<ge> 4 \<and> beNat (take 4 data) \<in> set machoMagics then ''macho-binary''
     else if length data \<ge> 2 \<and> take 2 data = bytes_of ''MZ'' then ''pe-binary''
     else if length data \<ge> 4 \<and> take 4 data = 0 # bytes_of ''go1'' then ''go-object''
     else ''unknown'')"

fun fieldsFrom :: "string \<Rightarrow> string \<Rightarrow> string list" where
  "fieldsFrom acc [] = (if acc = [] then [] else [acc])"
| "fieldsFrom acc (c # cs) =
    (if isSpaceChar c then (if acc = [] then fieldsFrom [] cs else acc # fieldsFrom [] cs) else fieldsFrom (acc @ [c]) cs)"

text \<open>\<^verbatim>\<open>strings.Fields\<close>.\<close>

definition stringsFields :: "string \<Rightarrow> string list" where
  "stringsFields s = fieldsFrom [] s"

definition goObjectPrefix :: bytes where "goObjectPrefix = bytes_of ''go object ''"

text \<open>The search for a line that begins with the prefix; a match elsewhere is skipped.\<close>

function headerLine :: "bytes \<Rightarrow> string \<times> string" where
  "headerLine window =
    (if window = [] then ([], [])
     else case indexSub window goObjectPrefix of
       None \<Rightarrow> ([], [])
     | Some idx \<Rightarrow>
         if idx > 0 \<and> window ! (idx - 1) \<noteq> 0x0A then headerLine (drop (idx + length goObjectPrefix) window)
         else
           let line = drop idx window;
               line = (case indexByte line 0x0A of None \<Rightarrow> line | Some nl \<Rightarrow> take nl line);
               fields = stringsFields (string_of line)
           in if length fields \<ge> 5 then (fields ! 4, fields ! 2 @ ''/'' @ fields ! 3) else ([], []))"
  by pat_completeness auto
termination
  by (relation "measure length") (auto simp: goObjectPrefix_def bytes_of_def)

declare headerLine.simps [simp del]

definition parseArchiveHeader :: "bytes \<Rightarrow> string \<times> string" where
  "parseArchiveHeader data = headerLine (take 1024 data)"

definition describeObject :: "nat \<Rightarrow> bytes \<Rightarrow> pbResult" where
  "describeObject maxSlice data =
    (let kind = detectObjectType data in
     case parseImportPath maxSlice data of
       PbPanic \<Rightarrow> PbPanic
     | PbString pkg \<Rightarrow> PbString (if pkg \<noteq> [] then kind @ '' '' @ pkg else kind))"

definition fileLabel :: "string list \<Rightarrow> string" where
  "fileLabel files =
    (case files of [] \<Rightarrow> [] | [f] \<Rightarrow> '' ('' @ f @ '')'' | f # fs \<Rightarrow> '' ('' @ f @ '' +'' @ formatNat (length files - 1) @ '')'')"

definition DescribeData :: "nat \<Rightarrow> bytes \<Rightarrow> pbResult" where
  "DescribeData maxSlice data =
    (let objType = detectObjectType data; (goVer, target) = parseArchiveHeader data;
         plain = PbString (if goVer \<noteq> [] \<and> target \<noteq> [] then objType @ '' '' @ goVer @ '' '' @ target else objType)
     in if objType \<noteq> ''go-archive'' then plain
        else case parseImportPath maxSlice data of
          PbPanic \<Rightarrow> PbPanic
        | PbString pkg \<Rightarrow>
            (case parseSourceFiles maxSlice data of
               None \<Rightarrow> PbPanic
             | Some files \<Rightarrow>
                 if pkg \<noteq> [] \<and> goVer \<noteq> [] \<and> target \<noteq> [] then PbString (objType @ '' '' @ pkg @ fileLabel files @ '' '' @ goVer @ '' '' @ target)
                 else if pkg \<noteq> [] then PbString (objType @ '' '' @ pkg @ fileLabel files)
                 else plain))"

section \<open>Archives\<close>

definition padTo :: "nat \<Rightarrow> string \<Rightarrow> string" where
  "padTo n s = s @ replicate (n - length s) CHR '' ''"

text \<open>A member as the archive format has it: its name, the 32 bytes of times and modes, its size, the end mark,
  its body, and a byte that makes its length even.\<close>

fun arEntry :: "string \<times> bytes \<times> bytes \<Rightarrow> bytes" where
  "arEntry (name, mid, body) =
    bytes_of (padTo 16 name) @ mid @ bytes_of (padTo 10 (formatNat (length body))) @ arEndMark @ body @ (if odd (length body) then [0x0A] else [])"

fun arOk :: "string \<times> bytes \<times> bytes \<Rightarrow> bool" where
  "arOk (name, mid, body) \<longleftrightarrow> length name \<le> 16 \<and> name \<noteq> [] \<and> last name \<noteq> CHR '' '' \<and> last name \<noteq> CHR ''/'' \<and>
    length mid = 32 \<and> length body < 10 ^ 10"

lemma dropWhile_replicate: "P c \<Longrightarrow> dropWhile P (replicate n c @ xs) = dropWhile P xs"
  by (induction n) simp_all

lemma trimRight_pad: "s \<noteq> [] \<Longrightarrow> last s \<noteq> CHR '' '' \<Longrightarrow> trimRight CHR '' '' (padTo n s) = s"
  by (cases s rule: rev_cases) (simp_all add: trimRight_def padTo_def dropWhile_replicate)

lemma trimRight_id: "s \<noteq> [] \<Longrightarrow> last s \<noteq> c \<Longrightarrow> trimRight c s = s"
  by (cases s rule: rev_cases) (simp_all add: trimRight_def)

lemma digitVal_not_space: "digitVal c \<noteq> None \<Longrightarrow> \<not> isSpaceChar c"
  by (auto simp: digitVal_def isSpaceChar_def Let_def split: if_splits)

lemma trimSpace_pad: "trimSpace (padTo n (formatNat k)) = formatNat k"
proof -
  have sp: "isSpaceChar CHR '' ''" by code_simp
  have "\<not> isSpaceChar (hd (formatNat k))" "\<not> isSpaceChar (last (formatNat k))"
    using digitVal_not_space formatNat_digits [OF hd_in_set] formatNat_digits [OF last_in_set] formatNat_not_Nil by blast+
  note c = this
  have f: "dropWhile isSpaceChar (formatNat k @ xs) = formatNat k @ xs" for xs
    using c(1) formatNat_not_Nil [of k] by (cases "formatNat k") simp_all
  have g: "dropWhile isSpaceChar (rev (formatNat k)) = rev (formatNat k)"
    using c(2) formatNat_not_Nil [of k] by (cases "formatNat k" rule: rev_cases) simp_all
  show ?thesis using sp by (simp add: trimSpace_def padTo_def dropWhile_replicate f g)
qed

lemma length_pad: "length s \<le> n \<Longrightarrow> length (padTo n s) = n"
  by (simp add: padTo_def)

lemma member_parts:
  assumes "length A = 16" "length M = 32" "length S = 10" "length E = 2" and d: "d = A @ M @ S @ E @ B @ P @ rest"
  shows "take 16 d = A" "take 10 (drop 48 d) = S" "take 2 (drop 58 d) = E" "drop hdrSize d = B @ P @ rest"
    "length d = hdrSize + length B + length P + length rest"
  using assms(1-4) unfolding d by (simp_all add: hdrSize_def)

lemma arSearch_entry:
  assumes "arOk (n, mid, body)" "length (formatNat (length body)) \<le> 10"
  shows "arSearch (arEntry (n, mid, body) @ rest) name = (if n = name then Some body else arSearch rest name)"
proof -
  define P :: bytes where "P = (if odd (length body) then [0x0A] else [])"
  define d where "d = bytes_of (padTo 16 n) @ mid @ bytes_of (padTo 10 (formatNat (length body))) @ arEndMark @ body @ P @ rest"
  have l: "length (bytes_of (padTo 16 n)) = 16" "length mid = 32" "length (bytes_of (padTo 10 (formatNat (length body)))) = 10" "length arEndMark = 2"
    using assms by (simp_all add: length_pad arEndMark_def bytes_of_def)
  note p = member_parts [OF l d_def]
  have "drop (hdrSize + length body + length P) d = drop (length body + length P) (drop hdrSize d)" by (simp add: ac_simps)
  then have dr: "drop (hdrSize + length body + length P) d = rest" unfolding p(4) by simp
  have "arSearch d name = (if n = name then Some body else arSearch rest name)"
  proof (cases "odd (length body)")
    case True
    then have "length P = 1" "length body mod 2 = 1" by (simp_all add: P_def odd_iff_mod_2_eq_one)
    then show ?thesis using assms(1) dr by (subst arSearch.simps)
      (simp add: p Let_def string_of_bytes_of trimRight_pad trimRight_id trimSpace_pad del: arEntry.simps)
  next
    case False
    then have "length P = 0" "length body mod 2 = 0" by (simp_all add: P_def)
    then show ?thesis using assms(1) dr by (subst arSearch.simps)
      (simp add: p Let_def string_of_bytes_of trimRight_pad trimRight_id trimSpace_pad del: arEntry.simps)
  qed
  then show ?thesis by (simp add: d_def P_def)
qed

lemma arSearch_entries:
  "list_all arOk ms \<Longrightarrow> arSearch (concat (map arEntry ms)) name = map_option (\<lambda>(n, mid, body). body) (find (\<lambda>(n, mid, body). n = name) ms)"
proof (induction ms)
  case Nil
  then show ?case by (simp add: arSearch.simps hdrSize_def)
next
  case (Cons m ms)
  obtain n mid body where m: "m = (n, mid, body)" by (cases m) auto
  have ok: "arOk (n, mid, body)" using Cons.prems by (simp add: m)
  then have "length (formatNat (length body)) \<le> Suc 9" by (intro length_formatNat) simp
  from arSearch_entry [OF ok, of "concat (map arEntry ms)" name] this Cons show ?case by (simp add: m del: arEntry.simps arOk.simps)
qed

lemma arMember_write:
  assumes "list_all arOk ms"
  shows "arMember (arGlobalHdr @ concat (map arEntry ms)) name = map_option (\<lambda>(n, mid, body). body) (find (\<lambda>(n, mid, body). n = name) ms)"
  using arSearch_entries [OF assms] by (simp add: arMember_def hasPrefix_def)

section \<open>Build ids\<close>

lemma rawURLChar_inj: "i < 64 \<Longrightarrow> j < 64 \<Longrightarrow> rawURLChar i = rawURLChar j \<longleftrightarrow> i = j"
proof -
  have "distinct ''ABCDEFGHIJKLMNOPQRSTUVWXYZabcdefghijklmnopqrstuvwxyz0123456789-_''" by code_simp
  then show "i < 64 \<Longrightarrow> j < 64 \<Longrightarrow> rawURLChar i = rawURLChar j \<longleftrightarrow> i = j"
    unfolding rawURLChar_def by (intro nth_eq_iff_index_eq) simp_all
qed

lemma sixbits:
  fixes n m :: nat
  assumes "n div 262144 = m div 262144" "n div 4096 mod 64 = m div 4096 mod 64" "n div 64 mod 64 = m div 64 mod 64" "n mod 64 = m mod 64"
  shows "n = m"
proof -
  have e: "k = k div 262144 * 262144 + k div 4096 mod 64 * 4096 + k div 64 mod 64 * 64 + k mod 64" for k :: nat
  proof -
    have "k div 4096 = k div 262144 * 64 + k div 4096 mod 64" using div_mult_mod_eq [of "k div 4096" 64] by (simp flip: div_mult2_eq)
    moreover have "k div 64 = k div 4096 * 64 + k div 64 mod 64" using div_mult_mod_eq [of "k div 64" 64] by (simp flip: div_mult2_eq)
    moreover have "k = k div 64 * 64 + k mod 64" by simp
    ultimately show ?thesis by linarith
  qed
  show ?thesis using assms e [of n] e [of m] by metis
qed

lemma mod64: "k mod 64 < (64 :: nat)"
  by simp

lemma threebytes:
  fixes a b c a' b' c' :: byte
  assumes "unat a * 65536 + unat b * 256 + unat c = unat a' * 65536 + unat b' * 256 + unat c'"
  shows "a = a' \<and> b = b' \<and> c = c'"
proof -
  have "unat a < 256" "unat b < 256" "unat c < 256" "unat a' < 256" "unat b' < 256" "unat c' < 256" by (rule unat_byte_bound)+
  note l = this
  have a: "unat a = unat a'" using assms l by linarith
  moreover have "unat b = unat b'" using assms a l by linarith
  ultimately show ?thesis using assms by (simp add: word_unat_eq_iff)
qed

lemma rawURLEncode_inj: "length xs = length ys \<Longrightarrow> rawURLEncode xs = rawURLEncode ys \<Longrightarrow> length xs mod 3 = 0 \<Longrightarrow> xs = ys"
proof (induction xs arbitrary: ys rule: rawURLEncode.induct)
  case (4 a b c rest)
  obtain a' b' c' rest' where y: "ys = a' # b' # c' # rest'" using "4.prems"(1) by (cases ys; cases "tl ys"; cases "tl (tl ys)") auto
  define n where "n = unat a * 65536 + unat b * 256 + unat c"
  define m where "m = unat a' * 65536 + unat b' * 256 + unat c'"
  have "unat a < 256" "unat b < 256" "unat c < 256" "unat a' < 256" "unat b' < 256" "unat c' < 256" by (rule unat_byte_bound)+
  then have "n < 64 * 262144" "m < 64 * 262144" unfolding n_def m_def by linarith+
  then have "n div 262144 < 64" "m div 262144 < 64" by (simp_all only: less_mult_imp_div_less)
  note d = this
  have "rawURLChar (n div 262144) = rawURLChar (m div 262144) \<and> rawURLChar (n div 4096 mod 64) = rawURLChar (m div 4096 mod 64) \<and>
      rawURLChar (n div 64 mod 64) = rawURLChar (m div 64 mod 64) \<and> rawURLChar (n mod 64) = rawURLChar (m mod 64)"
    using "4.prems"(2) unfolding y rawURLEncode.simps Let_def n_def [symmetric] m_def [symmetric] list.inject by blast
  then have "n div 262144 = m div 262144 \<and> n div 4096 mod 64 = m div 4096 mod 64 \<and> n div 64 mod 64 = m div 64 mod 64 \<and> n mod 64 = m mod 64"
    using rawURLChar_inj [OF d(1,2)] rawURLChar_inj [OF mod64 mod64] by blast
  then have "n = m" using sixbits by blast
  then have "a = a' \<and> b = b' \<and> c = c'" using threebytes by (simp add: n_def m_def)
  moreover have "rest = rest'" using "4.IH" [OF refl, of rest'] "4.prems" by (simp add: y Let_def)
  ultimately show ?case by (simp add: y)
qed (auto simp: length_Suc_conv)

section \<open>Properties\<close>

text \<open>(C37) The search for a member of an archive finds it.  In an archive of any members, with names of up to
  sixteen characters that do not end in a blank or a slash, a member is found by its name with exactly its
  bytes, the first of them where a name occurs twice, and a name that no member has is not found.\<close>

theorem arMember_finds:
  assumes "list_all arOk ms"
  shows "arMember (arGlobalHdr @ concat (map arEntry ms)) name =
    map_option (\<lambda>m. snd (snd m)) (find (\<lambda>m. fst m = name) ms)"
  unfolding arMember_write [OF assms] by (simp add: case_prod_unfold)

definition demoMembers :: "(string \<times> bytes \<times> bytes) list" where
  "demoMembers = [(''__.PKGDEF'', replicate 32 48, [1, 2, 3]), (''_go_.o'', replicate 32 48, [4])]"

lemma arMember_finds_witness:
  "arMember (arGlobalHdr @ concat (map arEntry demoMembers)) ''_go_.o'' = Some [4] \<and>
   arMember (arGlobalHdr @ concat (map arEntry demoMembers)) ''other'' = None"
proof -
  have "list_all arOk demoMembers" by (simp add: demoMembers_def)
  from arMember_finds [OF this, of "''_go_.o''"] arMember_finds [OF this, of "''other''"] show ?thesis by (simp add: demoMembers_def del: arEntry.simps)
qed

lemma ExpectedBuildIDAction_Some:
  assumes "hexDecode a = Some raw" "15 \<le> length raw"
  shows "ExpectedBuildIDAction a = rawURLEncode (take 15 raw)" "ExpectedBuildIDAction a \<noteq> []"
proof -
  show e: "ExpectedBuildIDAction a = rawURLEncode (take 15 raw)" using assms by (simp add: ExpectedBuildIDAction_def BuildIDHashSize_def)
  obtain x y z xs where "take 15 raw = x # y # z # xs" using assms(2)
    by (cases raw; cases "tl raw"; cases "tl (tl raw)") auto
  then show "ExpectedBuildIDAction a \<noteq> []" unfolding e by (simp add: Let_def)
qed

text \<open>(C38) The build id of a compiled package ties it to its action.  A package archive with an ordinary build id,
  one whose action field is not its content field, passes the check under an action only when it is stamped
  with that action's leading fifteen bytes: no two actions that differ there can both accept it.  A package
  archive without a build id passes under no action.\<close>

theorem buildid_binds:
  assumes "archiveBuildID body = (True, action, content)" "action \<noteq> content \<or> action = []"
    and "hexDecode a = Some ra" "15 \<le> length ra" "snd (BuildIDMatchesAction a body)"
    and "hexDecode b = Some rb" "15 \<le> length rb" "snd (BuildIDMatchesAction b body)"
  shows "action = rawURLEncode (take 15 ra) \<and> action \<noteq> [] \<and> take 15 ra = take 15 rb"
proof -
  note ea = ExpectedBuildIDAction_Some [OF assms(3,4)] and eb = ExpectedBuildIDAction_Some [OF assms(6,7)]
  have a: "action \<noteq> []" "action = rawURLEncode (take 15 ra)" using assms(1,2,5) ea by (auto simp: BuildIDMatchesAction_def Let_def split: if_splits)
  moreover have "action = rawURLEncode (take 15 rb)" using assms(1,2,8) eb by (auto simp: BuildIDMatchesAction_def Let_def split: if_splits)
  ultimately have "take 15 ra = take 15 rb" using assms(4,7) by (intro rawURLEncode_inj) simp_all
  then show ?thesis using a by simp
qed

definition demoPkgdef :: bytes where
  "demoPkgdef = bytes_of (''go object'' @ [CHR 0x0A] @ ''build id '' @ [CHR 0x22] @ ''AAAAAAAAAAAAAAAAAAAA/c'' @ [CHR 0x22] @ [CHR 0x0A] @ ''$$'')"

definition demoArchive :: bytes where
  "demoArchive = arGlobalHdr @ concat (map arEntry [(''__.PKGDEF'', replicate 32 48, demoPkgdef)])"

lemma demoArchive_id: "archiveBuildID demoArchive = (True, ''AAAAAAAAAAAAAAAAAAAA'', ''c'')"
proof -
  have "list_all arOk [(''__.PKGDEF'', replicate 32 48, demoPkgdef)]" by (simp add: demoPkgdef_def)
  from arMember_write [OF this, of pkgdefName] have m: "arMember demoArchive pkgdefName = Some demoPkgdef" by (simp add: demoArchive_def pkgdefName_def)
  have "(let header = (case indexSub demoPkgdef (bytes_of ''$$'') of None \<Rightarrow> demoPkgdef | Some i \<Rightarrow> take i demoPkgdef) in
      map_option (\<lambda>i. drop (i + length buildIDMarker) header) (indexSub header buildIDMarker)) =
      Some (bytes_of (''AAAAAAAAAAAAAAAAAAAA/c'' @ [CHR 0x22] @ [CHR 0x0A]))" by code_simp
  then show ?thesis unfolding archiveBuildID_def m by (auto simp: Let_def) code_simp
qed

lemma elemBytes_beyond: "length (pb_elemEnds p) \<le> k \<Longrightarrow> elemBytes p (int k) f = PbPanic"
proof -
  assume "length (pb_elemEnds p) \<le> k"
  then have "goIndex (pb_elemEnds p) (int k) = None" by (simp add: goIndex_def)
  then show ?thesis unfolding elemBytes_def by (simp only: option.case) (simp split: option.split)
qed

lemma buildid_binds_witness:
  "snd (BuildIDMatchesAction (hexEncode (replicate 32 0)) demoArchive) \<and>
   ''AAAAAAAAAAAAAAAAAAAA'' = rawURLEncode (take 15 (replicate 32 0)) \<and> take 15 (replicate 32 0) = take 15 (replicate 15 0 @ [1 :: byte])"
proof -
  have "replicate 15 (0 :: byte) = [0, 0, 0, 0, 0, 0, 0, 0, 0, 0, 0, 0, 0, 0, 0]" by (simp add: numeral_eq_Suc)
  then have e: "rawURLEncode (replicate 15 0) = ''AAAAAAAAAAAAAAAAAAAA''" by (simp add: rawURLChar_def)
  have m: "snd (BuildIDMatchesAction (hexEncode x) demoArchive)" if "take 15 x = replicate 15 0" "15 \<le> length x" for x
    using ExpectedBuildIDAction_Some [of "hexEncode x" x] that by (simp add: BuildIDMatchesAction_def demoArchive_id e)
  have "snd (BuildIDMatchesAction (hexEncode (replicate 32 0)) demoArchive)" "snd (BuildIDMatchesAction (hexEncode (replicate 15 0 @ [1])) demoArchive)"
    by (rule m; simp)+
  from buildid_binds [OF demoArchive_id _ hexDecode_hexEncode _ this(1) hexDecode_hexEncode _ this(2)] this(1) show ?thesis by simp
qed

text \<open>(C39) The reader of export data answers the empty string on a parse error only as long as the section table is
  in order.  With ascending section ends, an element of a section is inside the table of elements, and looking
  it up does not panic.  A package section that claims an element beyond the table does panic, with every
  payload that parses: the reader's contract to answer the empty string on any parse error does not hold.\<close>

theorem pkgbits_bounds:
  assumes "parsePkgbits payload = Some p"
  shows "(list_all (\<lambda>i. pb_elemEndsEnds p ! i \<le> pb_elemEndsEnds p ! Suc i) [0..<9] \<and> s < 10 \<and> k < pb_elemEndsEnds p ! s \<and>
      elemBytes p (int k) f = PbPanic \<longrightarrow> (\<exists>bs. f bs = PbPanic)) \<and>
    (sectionStart p pbSectionPkg < pb_elemEndsEnds p ! pbSectionPkg \<and> length (pb_elemEnds p) \<le> sectionStart p pbSectionPkg \<longrightarrow>
      pkgbitsImportPath maxSlice payload = PbPanic)"
proof (intro conjI impI; elim conjE)
  have len: "length (pb_elemEnds p) = pb_elemEndsEnds p ! 9"
    using assms by (auto simp: parsePkgbits_def pbBody_def Let_def leNats_def pbNumSections_def split: if_splits)
  assume a: "list_all (\<lambda>i. pb_elemEndsEnds p ! i \<le> pb_elemEndsEnds p ! Suc i) [0..<9]" "s < 10" "k < pb_elemEndsEnds p ! s" "elemBytes p (int k) f = PbPanic"
  have "pb_elemEndsEnds p ! s \<le> pb_elemEndsEnds p ! (s + n)" if "s + n < 10" for n
    using that
  proof (induction n)
    case (Suc n)
    then have "pb_elemEndsEnds p ! (s + n) \<le> pb_elemEndsEnds p ! Suc (s + n)" using a(1) by (simp add: list_all_iff)
    then show ?case using Suc by simp
  qed simp
  from this [of "9 - s"] have "k < length (pb_elemEnds p)" using a(2,3) len by simp
  then show "\<exists>bs. f bs = PbPanic" using a(4) by (auto simp: elemBytes_def goIndex_def split: if_splits)
next
  assume "sectionStart p pbSectionPkg < pb_elemEndsEnds p ! pbSectionPkg" "length (pb_elemEnds p) \<le> sectionStart p pbSectionPkg"
  then show "pkgbitsImportPath maxSlice payload = PbPanic"
    using assms elemBytes_beyond by (simp add: pkgbitsImportPath_def readSectionString_def Let_def)
qed

definition demoPayload :: bytes where
  "demoPayload = replicate 16 0 @ [1, 0, 0, 0] @ replicate 32 0"

lemma pkgbits_bounds_witness: "pkgbitsImportPath 1000 demoPayload = PbPanic"
proof -
  let ?p = "\<lparr>pb_elemEndsEnds = [0, 0, 0, 1, 0, 0, 0, 0, 0, 0], pb_elemEnds = [], pb_elemData = [], pb_sync = False\<rparr>"
  have p: "parsePkgbits demoPayload = Some ?p" by code_simp
  show ?thesis using pkgbits_bounds [OF p, of 0 0 "\<lambda>_. PbPanic" 1000] by (simp add: sectionStart_def pbSectionPkg_def)
qed

end
