(* ===== verification/Resilience.thy ===== *)
theory Resilience
  imports Strconv
begin

text \<open>
  How the client meets a failing server (\<^verbatim>\<open>cacheclient/web_resilience.go\<close>): the retry loop, the quiet period a
  server asks for, the probing of a server that stopped answering, and the backoff after empty batches.
  The clock, the random draws, the outcome of each request and what other operations do to the shared
  state between two attempts are arguments.  Durations are nanoseconds.  The watchdog of an attempt shows
  in its outcome: an attempt that stalls before its answer has no answer.  The body of a transient answer is
  read after the watchdog is stopped, so whether that read ends is part of the outcome, and a loop that waits in
  it for ever is the value \<open>None\<close>.
\<close>

section \<open>Definitions\<close>

definition second :: int where "second = 1000000000"
definition defaultMaxRetries :: nat where "defaultMaxRetries = 2"
definition retryBaseDelay :: int where "retryBaseDelay = 100 * 1000000"
definition retryMaxDelay :: int where "retryMaxDelay = 2 * second"
definition downProbeEvery :: int where "downProbeEvery = 5 * second"

text \<open>\<^verbatim>\<open>AdmissionWait\<close> is the wait of the server, a constant of the module both sides import.\<close>

definition answerMargin :: int where "answerMargin = 5 * second"

definition slowAnswerAfter :: "int \<Rightarrow> int" where
  "slowAnswerAfter wait = wait + answerMargin"

record resil =
  rz_shedUntil :: int
  rz_downSince :: int
  rz_probeAt :: int
  rz_shedWaits :: nat
  rz_skippedDown :: nat

definition envInt :: "string \<Rightarrow> int \<Rightarrow> int" where
  "envInt v def =
    (if v = [] then def
     else case parseInt v of None \<Rightarrow> def | Some n \<Rightarrow> if n < 0 then 0 else n)"

definition transientStatus :: "int \<Rightarrow> bool" where
  "transientStatus code \<longleftrightarrow> code \<ge> 500 \<or> code = 429"

text \<open>The hint of a \<^verbatim>\<open>Retry-After\<close> header; \<open>httpDate\<close> is \<^verbatim>\<open>http.ParseTime\<close>.  The product of the seconds wraps.\<close>

definition parseRetryAfter :: "(string \<Rightarrow> int option) \<Rightarrow> int \<Rightarrow> string \<Rightarrow> int" where
  "parseRetryAfter httpDate now v =
    (if v = [] then 0
     else case parseInt v of
       Some secs \<Rightarrow> if secs \<le> 0 then 0 else let d = wrap64 (secs * second) in if d > retryMaxDelay then retryMaxDelay else d
     | None \<Rightarrow> (case httpDate v of None \<Rightarrow> 0
         | Some t \<Rightarrow> let d = t - now in if d \<le> 0 then 0 else if d > retryMaxDelay then retryMaxDelay else d))"

definition noteShed :: "int \<Rightarrow> int \<Rightarrow> resil \<Rightarrow> resil" where
  "noteShed now retryAfter s = (let until = now + retryAfter in if rz_shedUntil s \<ge> until then s else s\<lparr>rz_shedUntil := until\<rparr>)"

definition shedRemaining :: "int \<Rightarrow> resil \<Rightarrow> int" where
  "shedRemaining now s = rz_shedUntil s - now"

definition mayAsk :: "int \<Rightarrow> resil \<Rightarrow> bool \<times> resil" where
  "mayAsk now s =
    (if rz_downSince s = 0 then (True, s)
     else if now \<ge> rz_probeAt s then (True, s\<lparr>rz_probeAt := now + downProbeEvery\<rparr>)
     else (False, s\<lparr>rz_skippedDown := rz_skippedDown s + 1\<rparr>))"

definition Down :: "resil \<Rightarrow> bool" where
  "Down s \<longleftrightarrow> rz_downSince s \<noteq> 0"

definition noteNoAnswer :: "int \<Rightarrow> resil \<Rightarrow> resil" where
  "noteNoAnswer now s =
    s\<lparr>rz_probeAt := now + downProbeEvery, rz_downSince := (if rz_downSince s = 0 then now else rz_downSince s)\<rparr>"

definition noteAnswered :: "resil \<Rightarrow> resil" where
  "noteAnswered s = s\<lparr>rz_downSince := 0\<rparr>"

text \<open>The bound of a jitter: the base shifted by the attempt, which wraps, within the largest delay.\<close>

definition jitterBound :: "nat \<Rightarrow> int" where
  "jitterBound attempt = (let d = wrap64 (retryBaseDelay * 2 ^ attempt) in if d > retryMaxDelay \<or> d \<le> 0 then retryMaxDelay else d)"

text \<open>The length of the timer a sleep waits for; \<open>draw\<close> is \<^verbatim>\<open>rand.Int64N\<close>, which answers below its argument.\<close>

definition sleepQuiet :: "(int \<Rightarrow> int) \<Rightarrow> nat \<Rightarrow> int \<Rightarrow> int" where
  "sleepQuiet draw attempt quiet = quiet + draw (jitterBound attempt + 1)"

definition sleepBackoff :: "(int \<Rightarrow> int) \<Rightarrow> nat \<Rightarrow> int \<Rightarrow> int" where
  "sleepBackoff draw attempt hint =
    (let d = draw (jitterBound attempt + 1) in
     if hint > 0 then let hint = (if hint > retryMaxDelay then retryMaxDelay else hint) in if hint > d then hint else d
     else d)"

subsection \<open>The retry loop\<close>

text \<open>An answer has its status, its \<^verbatim>\<open>Retry-After\<close> header, the time waited for it, and whether the read of the first
  4096 bytes of its body ends: it does when they arrive, when the body ends or fails before, and when the caller
  gives up meanwhile.\<close>

datatype sendResult = Answered int string int bool | SendTimeout | SendError

datatype outcome = RespStatus int | HeldBack | ErrContext | ErrTimeout | ErrSend | ErrServerDown

datatype retryEvent = Sent int | Slept int

text \<open>What an attempt finds: whether the caller gave up, the clock, the outcome, the clock after it, the
  random draws, and what other operations did to the shared state since the last attempt.\<close>

record attemptEnv =
  at_cancelled :: bool
  at_now :: int
  at_result :: sendResult
  at_done :: int
  at_draw :: "int \<Rightarrow> int"
  at_others :: "resil \<Rightarrow> resil"

definition afterAnswer :: "bool \<Rightarrow> int \<Rightarrow> int \<Rightarrow> int \<Rightarrow> resil \<Rightarrow> resil" where
  "afterAnswer critical slowAnswer waited now s = (if waited > slowAnswer \<and> critical then noteNoAnswer now s else noteAnswered s)"

definition prepend :: "retryEvent list \<Rightarrow> (outcome \<times> resil \<times> retryEvent list) option \<Rightarrow> (outcome \<times> resil \<times> retryEvent list) option" where
  "prepend tr0 res = map_option (\<lambda>(r, s, tr). (r, s, tr0 @ tr)) res"

function doRetry ::
    "(string \<Rightarrow> int option) \<Rightarrow> bool \<Rightarrow> int \<Rightarrow> nat \<Rightarrow> (nat \<Rightarrow> attemptEnv) \<Rightarrow> nat \<Rightarrow> outcome option \<Rightarrow> resil
      \<Rightarrow> (outcome \<times> resil \<times> retryEvent list) option" where
  "doRetry httpDate critical slowAnswer maxRetries script attempt prev s0 =
    (let a = script attempt; s = at_others a s0; quiet = shedRemaining (at_now a) s in
     if at_cancelled a then Some ((case prev of None \<Rightarrow> ErrContext | Some x \<Rightarrow> x), s, [])
     else if quiet > 0 then
       (let s = s\<lparr>rz_shedWaits := rz_shedWaits s + 1\<rparr> in
        if attempt \<ge> maxRetries then Some ((case prev of None \<Rightarrow> HeldBack | Some x \<Rightarrow> x), s, [])
        else prepend [Slept (sleepQuiet (at_draw a) attempt quiet)]
          (doRetry httpDate critical slowAnswer maxRetries script (Suc attempt) prev s))
     else
       (case mayAsk (at_now a) s of
          (False, s) \<Rightarrow> Some (ErrServerDown, s, [])
        | (True, s) \<Rightarrow>
            (case at_result a of
               SendTimeout \<Rightarrow> Some (ErrTimeout, noteNoAnswer (at_done a) s, [Sent (at_now a)])
             | SendError \<Rightarrow>
                 if attempt \<ge> maxRetries then Some (ErrSend, s, [Sent (at_now a)])
                 else prepend [Sent (at_now a), Slept (sleepBackoff (at_draw a) attempt 0)]
                   (doRetry httpDate critical slowAnswer maxRetries script (Suc attempt) (Some ErrSend) s)
             | Answered code hint waited drains \<Rightarrow>
                 let s = afterAnswer critical slowAnswer waited (at_done a) s in
                 if \<not> transientStatus code then Some (RespStatus code, s, [Sent (at_now a)])
                 else
                   let retryAfter = parseRetryAfter httpDate (at_done a) hint;
                       s = (if retryAfter > 0 then noteShed (at_done a) retryAfter s else s)
                   in if \<not> drains then None
                      else if attempt \<ge> maxRetries then Some (RespStatus code, s, [Sent (at_now a)])
                      else prepend [Sent (at_now a), Slept (sleepBackoff (at_draw a) attempt retryAfter)]
                        (doRetry httpDate critical slowAnswer maxRetries script (Suc attempt) (Some (RespStatus code)) s))))"
  by pat_completeness auto
termination
  by (relation "measure (\<lambda>(httpDate, critical, slowAnswer, maxRetries, script, attempt, prev, s). Suc maxRetries - attempt)") auto

declare doRetry.simps [simp del]

subsection \<open>Empty batches\<close>

record emptyBackoff =
  eb_threshold :: int
  eb_consecutive :: int
  eb_disabled :: bool

definition noteBatchEntries :: "int \<Rightarrow> emptyBackoff \<Rightarrow> emptyBackoff" where
  "noteBatchEntries n b =
    (if eb_threshold b \<le> 0 \<or> eb_disabled b then b
     else if n > 0 then b\<lparr>eb_consecutive := 0\<rparr>
     else let b = b\<lparr>eb_consecutive := eb_consecutive b + 1\<rparr> in
       if eb_consecutive b \<ge> eb_threshold b then b\<lparr>eb_disabled := True\<rparr> else b)"

definition batchProbingOff :: "emptyBackoff \<Rightarrow> bool" where
  "batchProbingOff b = eb_disabled b"

section \<open>Delays\<close>

lemma delays_pos [simp]: "0 < second" "0 < retryMaxDelay" "0 \<le> retryMaxDelay" "0 < downProbeEvery"
  by (simp_all add: second_def retryMaxDelay_def downProbeEvery_def)

lemma parseRetryAfter_le: "parseRetryAfter httpDate now v \<le> retryMaxDelay"
  by (simp add: parseRetryAfter_def Let_def split: option.split)

definition drawOk :: "(int \<Rightarrow> int) \<Rightarrow> bool" where
  "drawOk draw \<longleftrightarrow> (\<forall>n > 0. 0 \<le> draw n \<and> draw n < n)"

lemma jitterBound_range: "0 < jitterBound attempt" "jitterBound attempt \<le> retryMaxDelay"
  by (simp_all add: jitterBound_def Let_def)

lemma draw_jitter: "drawOk draw \<Longrightarrow> 0 \<le> draw (jitterBound attempt + 1) \<and> draw (jitterBound attempt + 1) \<le> retryMaxDelay"
  using jitterBound_range [of attempt] unfolding drawOk_def by (metis add_strict_increasing int_one_le_iff_zero_less order_trans zle_add1_eq_le zless_add1_eq less_imp_le)

lemma sleepBackoff_le: "drawOk draw \<Longrightarrow> 0 \<le> sleepBackoff draw attempt hint \<and> sleepBackoff draw attempt hint \<le> retryMaxDelay"
  using draw_jitter [of draw attempt] by (auto simp: sleepBackoff_def Let_def)

lemma sleepQuiet_le: "drawOk draw \<Longrightarrow> sleepQuiet draw attempt quiet \<le> quiet + retryMaxDelay"
  using draw_jitter [of draw attempt] by (simp add: sleepQuiet_def)

section \<open>A retry ends\<close>

text \<open>A clock that does not run backwards, draws in their range, and other operations that ask for no
  more quiet than a server may.\<close>

definition calmScript :: "(nat \<Rightarrow> attemptEnv) \<Rightarrow> bool" where
  "calmScript script \<longleftrightarrow> (\<forall>n. drawOk (at_draw (script n)) \<and> at_now (script n) \<le> at_done (script n) \<and> at_done (script n) \<le> at_now (script (Suc n)) \<and>
     (\<forall>s. rz_shedUntil (at_others (script n) s) \<le> max (rz_shedUntil s) (at_now (script n) + retryMaxDelay)))"

fun sleptTime :: "retryEvent list \<Rightarrow> int" where
  "sleptTime [] = 0"
| "sleptTime (Sent t # tr) = sleptTime tr"
| "sleptTime (Slept d # tr) = d + sleptTime tr"

fun sentTimes :: "retryEvent list \<Rightarrow> int list" where
  "sentTimes [] = []"
| "sentTimes (Sent t # tr) = t # sentTimes tr"
| "sentTimes (Slept d # tr) = sentTimes tr"

lemma shed_fields [simp]:
  "rz_shedUntil (snd (mayAsk now s)) = rz_shedUntil s" "rz_shedUntil (noteNoAnswer now s) = rz_shedUntil s"
  "rz_shedUntil (noteAnswered s) = rz_shedUntil s" "rz_shedUntil (afterAnswer c sl w now s) = rz_shedUntil s"
  by (simp_all add: mayAsk_def noteNoAnswer_def noteAnswered_def afterAnswer_def)

lemma noteShed_le: "d \<le> retryMaxDelay \<Longrightarrow> rz_shedUntil s \<le> now + retryMaxDelay \<Longrightarrow> rz_shedUntil (noteShed now d s) \<le> now + retryMaxDelay"
  by (simp add: noteShed_def Let_def)

text \<open>An answer whose body the loop reads to the end of the drain.\<close>

definition drainEnds :: "attemptEnv \<Rightarrow> bool" where
  "drainEnds a \<longleftrightarrow> (case at_result a of Answered code hint waited drains \<Rightarrow> transientStatus code \<longrightarrow> drains | _ \<Rightarrow> True)"

lemma prepend_eq: "prepend tr0 res = Some (r, s, tr) \<longleftrightarrow> (\<exists>tr'. res = Some (r, s, tr') \<and> tr = tr0 @ tr')"
  by (auto simp: prepend_def)

lemma prepend_None [simp]: "prepend tr0 res = None \<longleftrightarrow> res = None"
  by (simp add: prepend_def)

text \<open>An attempt ends the operation, or waits a bounded time and tries again.\<close>

lemma doRetry_step:
  assumes "calmScript script" "rz_shedUntil s0 \<le> at_now (script attempt) + retryMaxDelay"
    and "doRetry httpDate critical slowAnswer maxRetries script attempt prev s0 = Some (r, s', tr)"
  obtains (ends) "length (sentTimes tr) \<le> 1" "sleptTime tr = 0"
  | (again) prev' t tr' where "attempt < maxRetries" "rz_shedUntil t \<le> at_now (script (Suc attempt)) + retryMaxDelay"
      "doRetry httpDate critical slowAnswer maxRetries script (Suc attempt) prev' t = Some (r, s', tr')"
      "length (sentTimes tr) \<le> Suc (length (sentTimes tr'))" "sleptTime tr \<le> 2 * retryMaxDelay + sleptTime tr'"
proof -
  define a where "a = script attempt"
  define s where "s = at_others a s0"
  define quiet where "quiet = shedRemaining (at_now a) s"
  have c: "drawOk (at_draw a)" "at_now a \<le> at_done a" "at_done a \<le> at_now (script (Suc attempt))"
    using assms(1) by (auto simp: calmScript_def a_def)
  have "rz_shedUntil s \<le> max (rz_shedUntil s0) (at_now a + retryMaxDelay)" using assms(1) by (simp add: calmScript_def a_def s_def)
  then have s: "rz_shedUntil s \<le> at_now a + retryMaxDelay" using assms(2) by (simp add: a_def)
  then have q: "quiet \<le> retryMaxDelay" by (simp add: quiet_def shedRemaining_def)
  have b: "sleepBackoff (at_draw a) attempt h \<le> 2 * retryMaxDelay" for h
    using sleepBackoff_le [OF c(1), of attempt h] delays_pos(3) by linarith
  note eq = assms(3) [unfolded doRetry.simps [of httpDate critical slowAnswer maxRetries script attempt prev s0] Let_def,
      folded a_def, folded s_def, folded quiet_def]
  show thesis
  proof (cases "\<not> at_cancelled a \<and> quiet > 0 \<and> attempt < maxRetries")
    case True
    then obtain tr' where t: "doRetry httpDate critical slowAnswer maxRetries script (Suc attempt) prev (s\<lparr>rz_shedWaits := rz_shedWaits s + 1\<rparr>) = Some (r, s', tr')"
        "tr = Slept (sleepQuiet (at_draw a) attempt quiet) # tr'"
      using eq by (auto simp: prepend_eq)
    show thesis
      by (rule again [OF _ _ t(1)]) (use True t(2) sleepQuiet_le [OF c(1), of attempt quiet] q s c in auto)
  next
    case False
    obtain ok u where m: "mayAsk (at_now a) s = (ok, u)" by fastforce
    have u: "rz_shedUntil u = rz_shedUntil s" using shed_fields(1) [of "at_now a" s] by (simp add: m)
    show thesis
    proof (cases "\<not> at_cancelled a \<and> quiet \<le> 0 \<and> ok \<and> attempt < maxRetries \<and>
        (at_result a = SendError \<or> (\<exists>code h w. at_result a = Answered code h w True \<and> transientStatus code))")
      case True
      then obtain prev' h t tr' where t: "doRetry httpDate critical slowAnswer maxRetries script (Suc attempt) prev' t = Some (r, s', tr')"
          "tr = Sent (at_now a) # Slept (sleepBackoff (at_draw a) attempt h) # tr'" "rz_shedUntil t \<le> at_done a + retryMaxDelay"
        using eq m u s c(2) noteShed_le [OF parseRetryAfter_le, of "afterAnswer critical slowAnswer _ (at_done a) u"]
        by (auto simp: prepend_eq split: if_splits)
      show thesis by (rule again [OF _ _ t(1)]) (use True t(2,3) b [of h] c in auto)
    next
      case end': False
      show thesis
        by (rule ends) (use eq False end' m in \<open>auto split: sendResult.splits if_splits bool.splits\<close>)
    qed
  qed
qed

lemma doRetry_bounds:
  assumes "calmScript script" "attempt \<le> maxRetries" "rz_shedUntil s \<le> at_now (script attempt) + retryMaxDelay"
    and "doRetry httpDate critical slowAnswer maxRetries script attempt prev s = Some (r, s', tr)"
  shows "length (sentTimes tr) \<le> Suc (maxRetries - attempt) \<and> sleptTime tr \<le> int (maxRetries - attempt) * (2 * retryMaxDelay)"
  using assms(2-)
proof (induction "maxRetries - attempt" arbitrary: attempt prev s tr)
  case 0
  from assms(1) "0.prems"(2,3) show ?case by (cases rule: doRetry_step) (use "0.hyps" in auto)
next
  case (Suc n)
  from assms(1) Suc.prems(2,3) show ?case
  proof (cases rule: doRetry_step)
    case ends
    then show ?thesis by simp
  next
    case (again prev' t tr')
    have n: "n = maxRetries - Suc attempt" using Suc.hyps(2) by simp
    from Suc.hyps(1) [OF n _ again(2,3)] again(1)
    have "length (sentTimes tr') \<le> Suc n" "sleptTime tr' \<le> int n * (2 * retryMaxDelay)" by (simp_all add: n)
    moreover have "int (Suc n) * (2 * retryMaxDelay) = int n * (2 * retryMaxDelay) + 2 * retryMaxDelay" by (simp add: distrib_right)
    ultimately show ?thesis unfolding Suc.hyps(2) [symmetric] using again(4,5) by linarith
  qed
qed

text \<open>The loop returns when every drain it may come to ends.\<close>

lemma doRetry_returns:
  assumes "\<forall>n. attempt \<le> n \<and> n \<le> maxRetries \<longrightarrow> drainEnds (script n)" "attempt \<le> maxRetries"
  shows "doRetry httpDate critical slowAnswer maxRetries script attempt prev s \<noteq> None"
  using assms
proof (induction "maxRetries - attempt" arbitrary: attempt prev s)
  case 0
  have "drainEnds (script attempt)" "attempt \<ge> maxRetries" using 0 by auto
  then show ?case
    by (subst doRetry.simps) (auto simp: Let_def drainEnds_def split: prod.splits bool.splits sendResult.splits)
next
  case (Suc n)
  have d: "drainEnds (script attempt)" using Suc.prems by auto
  have again: "doRetry httpDate critical slowAnswer maxRetries script (Suc attempt) prev' t \<noteq> None" for prev' t
    using Suc.hyps(1) [of "Suc attempt"] Suc.hyps(2) Suc.prems by auto
  show ?case
    by (subst doRetry.simps) (use d again in \<open>auto simp: Let_def drainEnds_def simp del: not_None_eq split: prod.splits bool.splits sendResult.splits\<close>)
qed

section \<open>Probing a server that is down\<close>

text \<open>What happens while no answer in time comes back, in the order it takes effect: a request asks whether it may go
  out, and, later and in any order, requests are found to have no answer, or none in time.  The check of \<^verbatim>\<open>mayAsk\<close> and its
  reservation of the next probe are one step, the compare-and-swap.\<close>

datatype downEvent = AskAt int | NoAnswerAt int

fun eventTime :: "downEvent \<Rightarrow> int" where
  "eventTime (AskAt now) = now"
| "eventTime (NoAnswerAt now) = now"

text \<open>The requests that go out.\<close>

fun sentWhileDown :: "downEvent list \<Rightarrow> resil \<Rightarrow> int list \<times> resil" where
  "sentWhileDown [] s = ([], s)"
| "sentWhileDown (AskAt now # es) s =
    (case mayAsk now s of (ok, s) \<Rightarrow> (case sentWhileDown es s of (sent, s) \<Rightarrow> (if ok then now # sent else sent, s)))"
| "sentWhileDown (NoAnswerAt now # es) s = sentWhileDown es (noteNoAnswer now s)"

lemma sentWhileDown_later:
  assumes "Down s" "\<forall>e \<in> set es. rz_probeAt s \<le> eventTime e + downProbeEvery" "sorted (map eventTime es)" "sentWhileDown es s = (sent, s')"
  shows "list_all (\<lambda>t. rz_probeAt s \<le> t) sent \<and> sorted_wrt (\<lambda>t u. t + downProbeEvery \<le> u) sent \<and> Down s'"
  using assms
proof (induction es arbitrary: s sent)
  case (Cons e es)
  have le: "\<forall>e' \<in> set es. eventTime e \<le> eventTime e'" "sorted (map eventTime es)" using Cons.prems(3) by auto
  show ?case
  proof (cases e)
    case (NoAnswerAt now)
    have n: "Down (noteNoAnswer now s)" "rz_probeAt (noteNoAnswer now s) = now + downProbeEvery"
      using Cons.prems(1) by (simp_all add: noteNoAnswer_def Down_def)
    have "list_all (\<lambda>t. now + downProbeEvery \<le> t) sent \<and> sorted_wrt (\<lambda>t u. t + downProbeEvery \<le> u) sent \<and> Down s'"
      using Cons.IH [OF n(1) _ le(2), of sent] Cons.prems(4) le(1) by (simp add: NoAnswerAt n(2))
    moreover have "rz_probeAt s \<le> now + downProbeEvery" using Cons.prems(2) by (simp add: NoAnswerAt)
    ultimately show ?thesis by (auto simp: list_all_iff)
  next
    case (AskAt now)
    obtain ok t where m: "mayAsk now s = (ok, t)" by fastforce
    obtain sent' where r: "sentWhileDown es t = (sent', s')" "sent = (if ok then now # sent' else sent')"
      using Cons.prems(4) by (auto simp: AskAt m split: prod.splits)
    have t: "Down t" "ok \<Longrightarrow> rz_probeAt t = now + downProbeEvery \<and> rz_probeAt s \<le> now" "\<not> ok \<Longrightarrow> rz_probeAt t = rz_probeAt s"
      using m Cons.prems(1) by (auto simp: mayAsk_def Down_def split: if_splits)
    have "\<forall>e' \<in> set es. rz_probeAt t \<le> eventTime e' + downProbeEvery"
      using t(2,3) Cons.prems(2) le(1) by (cases ok) (auto simp: AskAt)
    with Cons.IH [OF t(1) _ le(2) r(1)] have "list_all (\<lambda>u. rz_probeAt t \<le> u) sent'" "sorted_wrt (\<lambda>t u. t + downProbeEvery \<le> u) sent'" "Down s'"
      by simp_all
    moreover have "rz_probeAt s \<le> rz_probeAt t" using t(2,3) by (cases ok) (simp_all add: downProbeEvery_def second_def)
    ultimately show ?thesis using t(2) by (cases ok) (auto simp: r(2) list_all_iff)
  qed
qed simp

lemma sentWhileDown_asked: "now \<in> set (fst (sentWhileDown es s)) \<Longrightarrow> AskAt now \<in> set es"
proof (induction es arbitrary: s)
  case (Cons e es)
  then show ?case by (cases e) (auto simp: split_def split: if_splits)
qed simp

section \<open>Properties\<close>


definition shedScript :: "bool \<Rightarrow> nat \<Rightarrow> attemptEnv" where
  "shedScript drains n = \<lparr>at_cancelled = False, at_now = int n * second, at_result = Answered 503 ''1'' 0 drains, at_done = int n * second,
     at_draw = (\<lambda>_. 0), at_others = id\<rparr>"

abbreviation calmResil :: resil where
  "calmResil \<equiv> \<lparr>rz_shedUntil = 0, rz_downSince = 0, rz_probeAt = 0, rz_shedWaits = 0, rz_skippedDown = 0\<rparr>"


text \<open>(C33) A server that stopped answering is not pressed.  From a moment the server counts as down, as long as no
  answer comes back in time, the requests that go out lie at least five seconds apart and the first waits for the next
  probe to be due, of however many requests the build makes and however many of them are in flight, whenever each is
  found to have no answer.  The events take effect in the order of their times, and the probe due at the start
  was set by one of them or earlier.\<close>

theorem down_probes_spaced:
  assumes "Down s" "sorted (map eventTime es)" "\<forall>e \<in> set es. rz_probeAt s \<le> eventTime e + 5 * second"
    and "sentWhileDown es s = (sent, s')"
  shows "sorted_wrt (\<lambda>t u. t + 5 * second \<le> u) sent \<and> list_all (\<lambda>t. rz_probeAt s \<le> t) sent \<and>
    set sent \<subseteq> {now. AskAt now \<in> set es} \<and> Down s'"
proof -
  have d: "downProbeEvery = 5 * second" by (simp add: downProbeEvery_def)
  have "set sent \<subseteq> {now. AskAt now \<in> set es}" using sentWhileDown_asked [of _ es s] assms(4) by auto
  then show ?thesis using sentWhileDown_later [OF assms(1) assms(3) [folded d] assms(2,4), unfolded d] by simp
qed

lemma down_probes_spaced_witness:
  "fst (sentWhileDown [AskAt second, AskAt (6 * second), AskAt (8 * second), AskAt (11 * second), NoAnswerAt (12 * second), AskAt (16 * second)]
     (calmResil\<lparr>rz_downSince := 1, rz_probeAt := 5 * second\<rparr>)) = [6 * second, 11 * second] \<and>
   sorted_wrt (\<lambda>t u. t + 5 * second \<le> u) [6 * second, 11 * second]"
proof -
  let ?s = "calmResil\<lparr>rz_downSince := 1, rz_probeAt := 5 * second\<rparr>"
  let ?es = "[AskAt second, AskAt (6 * second), AskAt (8 * second), AskAt (11 * second), NoAnswerAt (12 * second), AskAt (16 * second)]"
  obtain s' where a: "sentWhileDown ?es ?s = ([6 * second, 11 * second], s')"
    by (simp add: mayAsk_def noteNoAnswer_def downProbeEvery_def second_def)
  have "Down ?s" "sorted (map eventTime ?es)" "\<forall>e \<in> set ?es. rz_probeAt ?s \<le> eventTime e + 5 * second"
    by (simp_all add: Down_def second_def)
  from down_probes_spaced [OF this a] a show ?thesis by simp
qed

end
