(* ===== verification/ClientIndex.thy ===== *)
theory ClientIndex
  imports Handlers Archive Resilience
begin

text \<open>
  The client's state and its copy of the server's index (\<^verbatim>\<open>cacheclient/web.go\<close>, \<^verbatim>\<open>web_index.go\<close>,
  \<^verbatim>\<open>web_index_load.go\<close>, \<^verbatim>\<open>web_index_delta.go\<close>, \<^verbatim>\<open>index_run.go\<close>, \<^verbatim>\<open>ci.go\<close>): how the copy is read, trusted,
  brought up to date and persisted, and how the keys this process claims and drops survive a load in the
  background.  A load is two steps, its start and its end, with the changes of other goroutines between
  them.  The answers of the server, the clock and the success of file operations are arguments.
\<close>

section \<open>Definitions\<close>

subsection \<open>State\<close>

datatype counter =
    MissNotInIndex | SkippedEmptyIndex | SkippedBatchBackoff | SkippedNotInIndex | SkippedKnownMiss | Reclaimed404

record 's keysJournal =
  kj_added :: 's
  kj_dropped :: 's

text \<open>The fields of the backend its index is kept in.\<close>

record 's webBackend =
  wb_keys :: "'s keySet option"
  wb_indexEmpty :: bool
  wb_indexAuthoritative :: bool
  wb_indexKeysAtStart :: int
  wb_keysJournal :: "'s keysJournal option"
  wb_liveGen :: indexGen
  wb_deltaAt :: int
  wb_knownMiss :: "(bytes, 's) hashSet"
  wb_backoff :: emptyBackoff
  wb_indexBytes :: u64
  wb_count :: "counter \<Rightarrow> u32"

text \<open>\<^verbatim>\<open>AtomicCounter.Increment\<close>: the counters are 32 bits wide.\<close>

definition increment :: "counter \<Rightarrow> 's webBackend \<Rightarrow> 's webBackend" where
  "increment c b = b\<lparr>wb_count := (wb_count b)(c := wb_count b c + 1)\<rparr>"

definition noGen :: indexGen where
  "noGen = \<lparr>gen_epoch = 0, gen_seq = 0\<rparr>"

subsection \<open>Claims\<close>

definition addKeyLocked :: "(bytes, 's) setOps \<Rightarrow> actionHash \<Rightarrow> 's webBackend \<Rightarrow> 's webBackend" where
  "addKeyLocked ops h b =
    b\<lparr>wb_keys := keySet_Add ops (wb_keys b) h,
      wb_keysJournal := map_option (\<lambda>j. \<lparr>kj_added = set_add ops (kj_added j) h, kj_dropped = set_remove ops (kj_dropped j) h\<rparr>) (wb_keysJournal b)\<rparr>"

definition dropKeyLocked :: "(bytes, 's) setOps \<Rightarrow> actionHash \<Rightarrow> 's webBackend \<Rightarrow> 's webBackend" where
  "dropKeyLocked ops h b =
    b\<lparr>wb_keys := keySet_Remove ops (wb_keys b) h,
      wb_keysJournal := map_option (\<lambda>j. \<lparr>kj_added = set_remove ops (kj_added j) h, kj_dropped = set_add ops (kj_dropped j) h\<rparr>) (wb_keysJournal b)\<rparr>"

definition keyKnown :: "(bytes, 's) setOps \<Rightarrow> actionHash \<Rightarrow> 's webBackend \<Rightarrow> bool" where
  "keyKnown ops h b = keySet_Contains ops (wb_keys b) h"

definition reclaimAbsent :: "(bytes, 's) setOps \<Rightarrow> actionHash \<Rightarrow> 's webBackend \<Rightarrow> bool \<times> 's webBackend" where
  "reclaimAbsent ops h b =
    (let removed = keySet_Contains ops (wb_keys b) h;
         b = dropKeyLocked ops h b;
         b = (if removed then increment Reclaimed404 b else b)
     in (removed, b\<lparr>wb_knownMiss := hashSet_Add ops (wb_knownMiss b) h\<rparr>))"

definition removeClaimed :: "(bytes, 's) setOps \<Rightarrow> actionHash \<Rightarrow> 's webBackend \<Rightarrow> 's webBackend" where
  "removeClaimed ops h b = dropKeyLocked ops h b"

definition ForgetStale :: "(bytes, 's) setOps \<Rightarrow> string \<Rightarrow> 's webBackend \<Rightarrow> 's webBackend" where
  "ForgetStale ops actionID b = (case parseActionHash actionID of (h, ok) \<Rightarrow> if ok then removeClaimed ops h b else b)"

definition setLiveGen :: "indexGen \<Rightarrow> 's webBackend \<Rightarrow> 's webBackend" where
  "setLiveGen gen b = b\<lparr>wb_liveGen := gen\<rparr>"

subsection \<open>The copy on disk\<close>

text \<open>The files beside each other: the copy, its position, and the marker of the run, with their times.\<close>

record idxFiles =
  fi_blob :: "(bytes \<times> int) option"
  fi_gen :: "bytes option"
  fi_run :: "(bytes \<times> int) option"

definition indexGenFromHeader :: "(string \<Rightarrow> string) \<Rightarrow> indexGen" where
  "indexGenFromHeader h =
    (case parseUint (h ''X-Index-Epoch'') of
       None \<Rightarrow> noGen
     | Some epoch \<Rightarrow>
         (case parseUint (h ''X-Index-Seq'') of None \<Rightarrow> noGen | Some s \<Rightarrow> \<lparr>gen_epoch = of_nat epoch, gen_seq = s\<rparr>))"

definition genLine :: "indexGen \<Rightarrow> string \<Rightarrow> string" where
  "genLine gen etag = formatNat (unat (gen_epoch gen)) @ '' '' @ formatNat (gen_seq gen) @ '' '' @ etag @ [CHR 0x0A]"

text \<open>\<open>wrote\<close> tells whether the temporary file was written and renamed.\<close>

definition writeIndexGen :: "bool \<Rightarrow> string \<Rightarrow> indexGen \<Rightarrow> idxFiles \<Rightarrow> idxFiles" where
  "writeIndexGen wrote etag gen fs =
    (if gen_epoch gen = 0 \<or> etag = [] then fs\<lparr>fi_gen := None\<rparr>
     else if wrote then fs\<lparr>fi_gen := Some (bytes_of (genLine gen etag))\<rparr> else fs)"

definition readIndexGen :: "string \<Rightarrow> idxFiles \<Rightarrow> indexGen" where
  "readIndexGen etag fs =
    (case fi_gen fs of
       None \<Rightarrow> noGen
     | Some data \<Rightarrow>
         let fields = stringsFields (string_of data) in
         if length fields \<noteq> 3 \<or> fields ! 2 \<noteq> etag then noGen
         else (case (parseUint (fields ! 0), parseUint (fields ! 1)) of
           (Some epoch, Some s) \<Rightarrow> if epoch = 0 then noGen else \<lparr>gen_epoch = of_nat epoch, gen_seq = s\<rparr>
         | _ \<Rightarrow> noGen))"

definition writeIndexBlob :: "bool \<Rightarrow> int \<Rightarrow> bytes \<Rightarrow> idxFiles \<Rightarrow> idxFiles" where
  "writeIndexBlob wrote now blob fs = (if wrote then fs\<lparr>fi_blob := Some (blob, now)\<rparr> else fs)"

record 's diskIndex =
  di_blob :: "bytes option"
  di_keys :: "'s keySet"
  di_etag :: string
  di_gen :: indexGen
  di_count :: int
  di_mtime :: int

definition readDiskIndex :: "(bytes, 's) setOps \<Rightarrow> bool \<Rightarrow> idxFiles \<Rightarrow> 's diskIndex" where
  "readDiskIndex ops readErr fs =
    (let d = \<lparr>di_blob = None, di_keys = newKeySet ops 0, di_etag = [], di_gen = noGen, di_count = 0, di_mtime = zeroTime\<rparr> in
     case fi_blob fs of
       None \<Rightarrow> d
     | Some (data, mtime) \<Rightarrow>
         let d = d\<lparr>di_mtime := mtime\<rparr> in
         if readErr then d
         else (case parseIndexBlob ops data of
           Inl e \<Rightarrow> d
         | Inr (keys, etag) \<Rightarrow>
             d\<lparr>di_blob := Some data, di_keys := keys, di_etag := etag, di_count := keySet_Len ops (Some keys),
               di_gen := readIndexGen etag fs\<rparr>))"

definition diskIndex_age :: "int \<Rightarrow> 's diskIndex \<Rightarrow> int" where
  "diskIndex_age now d = timeSince now (di_mtime d)"

subsection \<open>The age of the copy\<close>

definition minute :: int where "minute = 60 * second"
definition IndexMaxAgeDefault :: int where "IndexMaxAgeDefault = 10 * minute"
definition IndexMaxAgeCI :: int where "IndexMaxAgeCI = maxDuration"
definition indexRunIdle :: int where "indexRunIdle = 5 * minute"
definition LiveDeltaInterval :: int where "LiveDeltaInterval = 2 * second"
definition persistDeltaMin :: int where "persistDeltaMin = 16384"

definition envIsTrue :: "string \<Rightarrow> bool" where
  "envIsTrue v \<longleftrightarrow> toLower (trimSpace v) \<in> {''1'', ''true'', ''yes'', ''on''}"

definition detectCI :: "(string \<Rightarrow> string) \<Rightarrow> bool" where
  "detectCI getenv \<longleftrightarrow> list_ex (\<lambda>name. envIsTrue (getenv name)) [''CI'', ''GITHUB_ACTIONS'']"

definition readIndexRunStart :: "bytes \<Rightarrow> int option" where
  "readIndexRunStart data = parseInt (string_of data)"

text \<open>The time the run of this process has used the index; the use is recorded.\<close>

definition indexRunWindow :: "int \<Rightarrow> bool \<Rightarrow> bool \<Rightarrow> idxFiles \<Rightarrow> int \<times> idxFiles" where
  "indexRunWindow now readErr wrote fs =
    (let start = (case fi_run fs of
           None \<Rightarrow> now
         | Some (data, mtime) \<Rightarrow>
             if timeSince now mtime < indexRunIdle \<and> \<not> readErr then
               (case readIndexRunStart data of None \<Rightarrow> now | Some s \<Rightarrow> if s \<le> now then s else now)
             else now);
         fs = (if wrote then fs\<lparr>fi_run := Some (bytes_of (formatInt start), now)\<rparr> else fs)
     in (timeSince now start, fs))"

definition resolveDefaultIndexMaxAge :: "bool \<Rightarrow> int \<Rightarrow> bool \<Rightarrow> bool \<Rightarrow> idxFiles \<Rightarrow> int \<times> idxFiles" where
  "resolveDefaultIndexMaxAge ci now readErr wrote fs =
    (if ci then (IndexMaxAgeCI, fs)
     else case indexRunWindow now readErr wrote fs of
       (window, fs) \<Rightarrow> (if window > IndexMaxAgeDefault then window else IndexMaxAgeDefault, fs))"

definition resolveIndexMaxAge :: "int \<Rightarrow> bool \<Rightarrow> int \<Rightarrow> bool \<Rightarrow> bool \<Rightarrow> idxFiles \<Rightarrow> int \<times> idxFiles" where
  "resolveIndexMaxAge indexMaxAge ci now readErr wrote fs =
    (if indexMaxAge \<noteq> 0 then (indexMaxAge, fs) else resolveDefaultIndexMaxAge ci now readErr wrote fs)"

subsection \<open>Asking the server\<close>

record indexReply =
  ir_body :: bytes
  ir_status :: int
  ir_gen :: indexGen
  ir_delta :: bool

text \<open>What a request for the index came to: no answer, or a status with headers and a body, and whether the
  body could not be read to its end.\<close>

datatype indexResponse = NoResponse | Response int "string \<Rightarrow> string" bytes bool

definition noReply :: indexReply where
  "noReply = \<lparr>ir_body = [], ir_status = 0, ir_gen = noGen, ir_delta = False\<rparr>"

text \<open>The reply, and whether there is an error.\<close>

definition doIndexGET :: "indexResponse \<Rightarrow> 's webBackend \<Rightarrow> (indexReply \<times> bool) \<times> 's webBackend" where
  "doIndexGET r b =
    (case r of
       NoResponse \<Rightarrow> ((noReply, True), b)
     | Response status hdr body broken \<Rightarrow>
         let reply = \<lparr>ir_body = [], ir_status = status, ir_gen = indexGenFromHeader hdr, ir_delta = (hdr ''X-Index-Delta'' = ''1'')\<rparr> in
         if status = 200 then
           (if broken then ((noReply, True), b)
            else ((reply\<lparr>ir_body := body\<rparr>, False), b\<lparr>wb_indexBytes := wb_indexBytes b + of_nat (length body)\<rparr>))
         else if status = 304 then ((reply, False), b)
         else ((reply, True), b))"

text \<open>The parameters of the query, which \<^verbatim>\<open>url.Values\<close> encodes: every request names the form, and a request for
  a delta the position.\<close>

definition indexVersionQuery :: kvMap where
  "indexVersionQuery = [(''v'', ''2''), (''hash'', ''8'')]"

definition deltaQuery :: "indexGen \<Rightarrow> kvMap" where
  "deltaQuery gen = [(''epoch'', formatNat (unat (gen_epoch gen))), (''seq'', formatNat (gen_seq gen))]"

definition addKeys :: "(bytes, 's) setOps \<Rightarrow> 's keySet \<Rightarrow> 's webBackend \<Rightarrow> 's webBackend" where
  "addKeys ops added b = b\<lparr>wb_keys := map_option (\<lambda>ks. keySet_addAll ops ks added) (wb_keys b)\<rparr>"

definition refreshLiveDelta :: "(bytes, 's) setOps \<Rightarrow> int \<Rightarrow> indexResponse \<Rightarrow> 's webBackend \<Rightarrow> bool \<times> 's webBackend" where
  "refreshLiveDelta ops now response b =
    (if timeSince now (wb_deltaAt b) < LiveDeltaInterval then (False, b)
     else if gen_epoch (wb_liveGen b) = 0 \<or> wb_keysJournal b \<noteq> None \<or> \<not> wb_indexAuthoritative b then (False, b)
     else
       (case doIndexGET response (b\<lparr>wb_deltaAt := now\<rparr>) of
          ((reply, err), b) \<Rightarrow>
            if ir_status reply = 410 then (False, setLiveGen noGen b)
            else if err \<or> \<not> ir_delta reply then (False, b)
            else (case parseIndexBlob ops (ir_body reply) of
              Inl e \<Rightarrow> (False, b)
            | Inr (added, _) \<Rightarrow> (True, setLiveGen (ir_gen reply) (addKeys ops added b)))))"

subsection \<open>Loading\<close>

text \<open>\<^verbatim>\<open>os.Chtimes\<close> on the copy, best effort: the copy's age starts again when it succeeds.\<close>

definition touchIndex :: "bool \<Rightarrow> int \<Rightarrow> idxFiles \<Rightarrow> idxFiles" where
  "touchIndex touched now fs = (if touched then fs\<lparr>fi_blob := map_option (\<lambda>(data, mtime). (data, now)) (fi_blob fs)\<rparr> else fs)"

text \<open>The copy with the delta, written back when the delta is empty or large.  The merge of a copy that parsed
  does not fail.\<close>

definition persistDelta ::
    "(bytes, 's) setOps \<Rightarrow> int \<Rightarrow> bool \<Rightarrow> bool \<Rightarrow> bool \<Rightarrow> 's diskIndex \<Rightarrow> 's keySet \<Rightarrow> indexGen \<Rightarrow> idxFiles \<Rightarrow> idxFiles" where
  "persistDelta ops now touched wroteBlob wroteGen disk added gen fs =
    (let n = keySet_Len ops (Some added) in
     if n > 0 \<and> n < persistDeltaMin then fs
     else if n = 0 then writeIndexGen wroteGen (di_etag disk) gen (touchIndex touched now fs)
     else (case mergeIndexBlob ops (case di_blob disk of None \<Rightarrow> [] | Some blob \<Rightarrow> blob) added of
       Inl e \<Rightarrow> fs
     | Inr blob \<Rightarrow>
         (case parseIndexBlob ops blob of
            Inl e \<Rightarrow> fs
          | Inr (_, etag) \<Rightarrow> writeIndexGen wroteGen etag gen (writeIndexBlob wroteBlob now blob fs))))"

text \<open>What a load installs: nothing, the set that is live already, or another.  Without a journal the last
  would stop in a nil dereference, which is the value \<open>None\<close>.\<close>

datatype 's loaded = NilKeys | LiveKeys | NewKeys "'s keySet"

definition adoptIndex :: "(bytes, 's) setOps \<Rightarrow> 's loaded \<Rightarrow> bool \<Rightarrow> 's webBackend \<Rightarrow> 's webBackend option" where
  "adoptIndex ops loaded authoritative b =
    (let j = wb_keysJournal b; b = b\<lparr>wb_keysJournal := None\<rparr> in
     case loaded of
       NilKeys \<Rightarrow> Some b
     | LiveKeys \<Rightarrow> Some (b\<lparr>wb_indexAuthoritative := authoritative\<rparr>)
     | NewKeys keys \<Rightarrow>
         let n = keySet_Len ops (Some keys) in
         (case j of
            None \<Rightarrow> None
          | Some j \<Rightarrow>
              let ks = foldl (keySet_Add ops) (Some keys) (set_values ops (kj_added j));
                  ks = foldl (keySet_Remove ops) ks (set_values ops (kj_dropped j))
              in Some (b\<lparr>wb_indexAuthoritative := authoritative, wb_keys := ks, wb_indexEmpty := (n = 0), wb_indexKeysAtStart := n\<rparr>)))"

text \<open>The start of a load: the copy becomes the live set, and a journal begins.\<close>

definition beginLoad :: "(bytes, 's) setOps \<Rightarrow> 's diskIndex \<Rightarrow> 's webBackend \<Rightarrow> 's webBackend" where
  "beginLoad ops disk b =
    b\<lparr>wb_keys := Some (di_keys disk), wb_indexAuthoritative := False, wb_indexEmpty := (di_count disk = 0),
      wb_indexKeysAtStart := di_count disk, wb_keysJournal := Some \<lparr>kj_added = set_new ops, kj_dropped = set_new ops\<rparr>\<rparr>"

datatype indexStart = DeltaLoad | Trusted | FullLoad

text \<open>What the age of the copy depends on: the option, whether the run is in CI, and the file operations on the
  marker.\<close>

record ageEnv =
  ae_indexMaxAge :: int
  ae_ci :: bool
  ae_readErr :: bool
  ae_wrote :: bool

definition maxAgeAt :: "int \<Rightarrow> ageEnv \<Rightarrow> idxFiles \<Rightarrow> int \<times> idxFiles" where
  "maxAgeAt now ae fs = resolveIndexMaxAge (ae_indexMaxAge ae) (ae_ci ae) now (ae_readErr ae) (ae_wrote ae) fs"

definition startIndexLoad :: "(bytes, 's) setOps \<Rightarrow> int \<Rightarrow> bool \<Rightarrow> ageEnv \<Rightarrow> idxFiles \<Rightarrow> 's webBackend
    \<Rightarrow> indexStart \<times> 's diskIndex \<times> idxFiles \<times> 's webBackend" where
  "startIndexLoad ops now readErr ae fs b =
    (let disk = readDiskIndex ops readErr fs; (maxAge, fs) = maxAgeAt now ae fs in
     if di_blob disk \<noteq> None \<and> gen_epoch (di_gen disk) \<noteq> 0 then (DeltaLoad, disk, fs, beginLoad ops disk b)
     else if di_blob disk \<noteq> None \<and> maxAge > 0 \<and> diskIndex_age now disk < maxAge then
       (Trusted, disk, fs, b\<lparr>wb_keys := Some (di_keys disk), wb_indexAuthoritative := True, wb_indexEmpty := (di_count disk = 0),
          wb_indexKeysAtStart := di_count disk\<rparr>)
     else (FullLoad, disk, fs, beginLoad ops disk b))"

text \<open>The outcomes of a fetch: the answers of the first and, where there is one, of the second request, whether
  the load was cancelled, and which files could be written.\<close>

record fetchEnv =
  fe_now :: int
  fe_cancelled :: bool
  fe_first :: indexResponse
  fe_second :: indexResponse
  fe_touched :: bool
  fe_wroteBlob :: bool
  fe_wroteGen :: bool

definition adoptBlob :: "(bytes, 's) setOps \<Rightarrow> fetchEnv \<Rightarrow> 's diskIndex \<Rightarrow> indexReply \<Rightarrow> idxFiles \<Rightarrow> 's webBackend
    \<Rightarrow> ('s loaded \<times> bool) \<times> idxFiles \<times> 's webBackend" where
  "adoptBlob ops fe disk reply fs b =
    (case parseIndexBlob ops (ir_body reply) of
       Inl e \<Rightarrow> ((if di_blob disk \<noteq> None then LiveKeys else NewKeys (newKeySet ops 0), False), fs, b)
     | Inr (keys, etag) \<Rightarrow>
         ((NewKeys keys, True), writeIndexGen (fe_wroteGen fe) etag (ir_gen reply) (writeIndexBlob (fe_wroteBlob fe) (fe_now fe) (ir_body reply) fs),
          setLiveGen (ir_gen reply) b))"

definition fetchIndex :: "(bytes, 's) setOps \<Rightarrow> fetchEnv \<Rightarrow> 's diskIndex \<Rightarrow> idxFiles \<Rightarrow> 's webBackend
    \<Rightarrow> ('s loaded \<times> bool) \<times> idxFiles \<times> 's webBackend" where
  "fetchIndex ops fe disk fs b =
    (case doIndexGET (fe_first fe) b of
       ((reply, err), b) \<Rightarrow>
         if err then
           (if fe_cancelled fe then ((NilKeys, False), fs, b)
            else if di_blob disk \<noteq> None then ((LiveKeys, False), fs, b)
            else ((NewKeys (newKeySet ops 0), False), fs, b))
         else if ir_status reply = 304 then
           (if di_blob disk \<noteq> None then
              ((LiveKeys, True),
               writeIndexGen (fe_wroteGen fe) (di_etag disk) (ir_gen reply) (touchIndex (fe_touched fe) (fe_now fe) fs),
               setLiveGen (ir_gen reply) b)
            else
              (case doIndexGET (fe_second fe) b of
                 ((reply, err), b) \<Rightarrow>
                   if err then (if fe_cancelled fe then ((NilKeys, False), fs, b) else ((NewKeys (newKeySet ops 0), False), fs, b))
                   else adoptBlob ops fe disk reply fs b))
         else adoptBlob ops fe disk reply fs b)"

datatype lockResult = Locked | LockCancelled | LockFailed

text \<open>\<open>fs\<close> is what the files hold when the lock is taken, which another process may have changed since the copy
  was read.\<close>

definition refreshIndex :: "(bytes, 's) setOps \<Rightarrow> lockResult \<Rightarrow> bool \<Rightarrow> fetchEnv \<Rightarrow> 's diskIndex \<Rightarrow> idxFiles \<Rightarrow> 's webBackend
    \<Rightarrow> ('s loaded \<times> bool) \<times> idxFiles \<times> 's webBackend" where
  "refreshIndex ops lock readErr fe disk fs b =
    (case lock of
       LockCancelled \<Rightarrow> ((NilKeys, False), fs, b)
     | LockFailed \<Rightarrow> fetchIndex ops fe disk fs b
     | Locked \<Rightarrow>
         let cur = readDiskIndex ops readErr fs in
         if di_blob cur = None \<or> di_mtime cur = di_mtime disk then fetchIndex ops fe disk fs b
         else ((NewKeys (di_keys cur), True), fs, setLiveGen (di_gen cur) b))"

text \<open>The end of a full load.\<close>

definition finishLoad :: "(bytes, 's) setOps \<Rightarrow> lockResult \<Rightarrow> bool \<Rightarrow> fetchEnv \<Rightarrow> 's diskIndex \<Rightarrow> idxFiles \<Rightarrow> 's webBackend
    \<Rightarrow> (idxFiles \<times> 's webBackend) option" where
  "finishLoad ops lock readErr fe disk fs b =
    (case refreshIndex ops lock readErr fe disk fs b of
       ((keys, authoritative), fs, b) \<Rightarrow> map_option (Pair fs) (adoptIndex ops keys authoritative b))"

text \<open>The end of a load by delta.\<close>

definition applyDelta :: "(bytes, 's) setOps \<Rightarrow> ageEnv \<Rightarrow> indexResponse \<Rightarrow> lockResult \<Rightarrow> bool \<Rightarrow> fetchEnv \<Rightarrow> 's diskIndex \<Rightarrow> idxFiles
    \<Rightarrow> 's webBackend \<Rightarrow> (idxFiles \<times> 's webBackend) option" where
  "applyDelta ops ae response lock readErr fe disk fs b =
    (let (maxAge, fs) = maxAgeAt (fe_now fe) ae fs; young = diskIndex_age (fe_now fe) disk < maxAge in
     case doIndexGET response b of
       ((reply, err), b) \<Rightarrow>
         if err \<and> ir_status reply \<noteq> 410 then map_option (Pair fs) (adoptIndex ops LiveKeys young b)
         else if ir_status reply = 200 \<and> ir_delta reply then
           (case parseIndexBlob ops (ir_body reply) of
              Inl e \<Rightarrow> map_option (Pair fs) (adoptIndex ops LiveKeys young b)
            | Inr (added, _) \<Rightarrow>
                let b = setLiveGen (ir_gen reply) (addKeys ops added b);
                    b = b\<lparr>wb_keysJournal := None, wb_indexAuthoritative := True, wb_indexEmpty := (keySet_Len ops (wb_keys b) = 0)\<rparr>
                in Some (persistDelta ops (fe_now fe) (fe_touched fe) (fe_wroteBlob fe) (fe_wroteGen fe) disk added (ir_gen reply) fs, b))
         else finishLoad ops lock readErr fe disk fs b)"

text \<open>The goroutine a start leaves behind; \<open>response\<close> answers the request for the delta.\<close>

definition endLoad :: "(bytes, 's) setOps \<Rightarrow> indexStart \<Rightarrow> ageEnv \<Rightarrow> indexResponse \<Rightarrow> lockResult \<Rightarrow> bool \<Rightarrow> fetchEnv \<Rightarrow> 's diskIndex
    \<Rightarrow> idxFiles \<Rightarrow> 's webBackend \<Rightarrow> (idxFiles \<times> 's webBackend) option" where
  "endLoad ops mode ae response lock readErr fe disk fs b =
    (case mode of
       Trusted \<Rightarrow> Some (fs, b)
     | FullLoad \<Rightarrow> finishLoad ops lock readErr fe disk fs b
     | DeltaLoad \<Rightarrow> applyDelta ops ae response lock readErr fe disk fs b)"

subsection \<open>Lookups\<close>

text \<open>How a lookup goes on: with a request, or as a miss without one.\<close>

datatype getRoute = BadID | Request | Probe | Skip

text \<open>\<open>loadEnd\<close> is what the load and other goroutines did to the backend until the load ended, where it ended before the
  probe was answered.\<close>

definition probeDuringLoad :: "(bytes, 's) setOps \<Rightarrow> ('s webBackend \<Rightarrow> 's webBackend) option \<Rightarrow> actionHash \<Rightarrow> 's webBackend
    \<Rightarrow> getRoute \<times> 's webBackend" where
  "probeDuringLoad ops loadEnd h b =
    (case loadEnd of
       None \<Rightarrow> (Probe, b)
     | Some f \<Rightarrow>
         let b = f b in
         if wb_indexAuthoritative b \<and> \<not> keySet_Contains ops (wb_keys b) h then (Skip, increment SkippedNotInIndex b)
         else (Probe, b))"

definition get :: "(bytes, 's) setOps \<Rightarrow> int \<Rightarrow> indexResponse \<Rightarrow> ('s webBackend \<Rightarrow> 's webBackend) option \<Rightarrow> string \<Rightarrow> 's webBackend
    \<Rightarrow> getRoute \<times> 's webBackend" where
  "get ops now response loadEnd actionID b =
    (case parseActionHash actionID of
       (h, ok) \<Rightarrow>
         if \<not> ok then (BadID, b)
         else if keyKnown ops h b then (Request, b)
         else
           (case refreshLiveDelta ops now response b of
              (applied, b) \<Rightarrow>
                if applied \<and> keyKnown ops h b then (Request, b)
                else
                  let b = increment MissNotInIndex b in
                  if hashSet_Contains ops (wb_knownMiss b) h then (Skip, increment SkippedKnownMiss b)
                  else if wb_indexAuthoritative b then
                    (Skip, increment (if wb_indexEmpty b then SkippedEmptyIndex else SkippedNotInIndex) b)
                  else if batchProbingOff (wb_backoff b) then (Skip, increment SkippedBatchBackoff b)
                  else probeDuringLoad ops loadEnd h b))"

section \<open>Claims during a load\<close>

text \<open>What the other goroutines do to the set meanwhile, and what they did last to a hash.\<close>

abbreviation claimRun :: "(bytes, 's) setOps \<Rightarrow> 's webBackend \<Rightarrow> actionHash setOp list \<Rightarrow> 's webBackend" where
  "claimRun ops \<equiv> runSetOps (\<lambda>b h. addKeyLocked ops h b) (\<lambda>b h. dropKeyLocked ops h b)"

definition lastClaim :: "(actionHash \<Rightarrow> bool option) \<Rightarrow> actionHash setOp list \<Rightarrow> actionHash \<Rightarrow> bool option" where
  "lastClaim m os = runSetOps (\<lambda>m h. m(h := Some True)) (\<lambda>m h. m(h := Some False)) m os"

fun opHash :: "'h setOp \<Rightarrow> 'h" where
  "opHash (OpAdd h) = h"
| "opHash (OpRemove h) = h"

text \<open>Hashes that differ in the bits an index of the least width keeps.\<close>

definition apart :: "actionHash \<Rightarrow> actionHash \<Rightarrow> bool" where
  "apart h x \<longleftrightarrow> maskKey (64 - indexHashBitsMin) (keyOf h) \<noteq> maskKey (64 - indexHashBitsMin) (keyOf x)"

definition keysOk :: "(bytes, 's) setOps \<Rightarrow> 's keySet \<Rightarrow> bool" where
  "keysOk ops ks \<longleftrightarrow> keySetOk ops ks \<and> ks_shift ks \<le> 64 - indexHashBitsMin"

lemma keySet_key_apart:
  assumes "ks_shift ks \<le> 64 - indexHashBitsMin" "apart h x"
  shows "keySet_key ks h \<noteq> keySet_key ks x"
proof
  assume "keySet_key ks h = keySet_key ks x"
  then have "maskKey (64 - indexHashBitsMin) (keySet_key ks h) = maskKey (64 - indexHashBitsMin) (keySet_key ks x)" by simp
  then show False using assms by (simp add: keySet_key_def maskKey_maskKey apart_def max_absorb1)
qed

lemma keySet_Add_Some:
  assumes "setLaws ops" "keysOk ops ks"
  obtains ks' where "keySet_Add ops (Some ks) x = Some ks'" "keysOk ops ks'" "ks_shift ks' = ks_shift ks"
    "\<And>h. keySet_Contains ops (Some ks') h \<longleftrightarrow> keySet_key ks h = keySet_key ks x \<or> keySet_Contains ops (Some ks) h"
  using ks.contains_add [of "(ops, ks)" x] ks.add_ok [of "(ops, ks)" x] assms
  by (auto simp: keysOk_def keySet_Add_def)

lemma keySet_Remove_Some:
  assumes "setLaws ops" "keysOk ops ks"
  obtains ks' where "keySet_Remove ops (Some ks) x = Some ks'" "keysOk ops ks'" "ks_shift ks' = ks_shift ks"
    "\<And>h. keySet_Contains ops (Some ks') h \<longleftrightarrow> keySet_key ks h \<noteq> keySet_key ks x \<and> keySet_Contains ops (Some ks) h"
  using ks.contains_remove [of "(ops, ks)" x] ks.remove_ok [of "(ops, ks)" x] assms
  by (auto simp: keysOk_def keySet_Remove_def)

lemma lastClaim_simps [simp]:
  "lastClaim m [] = m"
  "lastClaim m (OpAdd x # os) = lastClaim (m(x := Some True)) os"
  "lastClaim m (OpRemove x # os) = lastClaim (m(x := Some False)) os"
  by (simp_all add: lastClaim_def)

lemma claimRun_other [simp]:
  "wb_indexAuthoritative (claimRun ops b os) = wb_indexAuthoritative b"
  "wb_liveGen (claimRun ops b os) = wb_liveGen b"
proof (induction os arbitrary: b)
  case (Cons a os)
  { case 1 then show ?case using Cons by (cases a) (simp_all add: addKeyLocked_def dropKeyLocked_def) }
  { case 2 then show ?case using Cons by (cases a) (simp_all add: addKeyLocked_def dropKeyLocked_def) }
qed simp_all

definition journalOf :: "(bytes, 's) setOps \<Rightarrow> (actionHash \<Rightarrow> bool option) \<Rightarrow> 's keysJournal \<Rightarrow> bool" where
  "journalOf ops m j \<longleftrightarrow> (\<forall>x. (set_contains ops (kj_added j) x \<longleftrightarrow> m x = Some True) \<and> (set_contains ops (kj_dropped j) x \<longleftrightarrow> m x = Some False))"

lemma claimRun_journal:
  assumes "setLaws ops" "wb_keysJournal b = Some j" "journalOf ops m j"
  shows "\<exists>j. wb_keysJournal (claimRun ops b os) = Some j \<and> journalOf ops (lastClaim m os) j"
  using assms(2,3)
proof (induction os arbitrary: b m j)
  case (Cons a os)
  show ?case
  proof (cases a)
    case (OpAdd x)
    let ?j = "\<lparr>kj_added = set_add ops (kj_added j) x, kj_dropped = set_remove ops (kj_dropped j) x\<rparr>"
    have "wb_keysJournal (addKeyLocked ops x b) = Some ?j" using Cons.prems(1) by (simp add: addKeyLocked_def)
    moreover have "journalOf ops (m(x := Some True)) ?j"
      using Cons.prems(2) by (simp add: journalOf_def setLawsD(3,4) [OF assms(1)])
    ultimately show ?thesis using OpAdd Cons.IH by simp
  next
    case (OpRemove x)
    let ?j = "\<lparr>kj_added = set_remove ops (kj_added j) x, kj_dropped = set_add ops (kj_dropped j) x\<rparr>"
    have "wb_keysJournal (dropKeyLocked ops x b) = Some ?j" using Cons.prems(1) by (simp add: dropKeyLocked_def)
    moreover have "journalOf ops (m(x := Some False)) ?j"
      using Cons.prems(2) by (simp add: journalOf_def setLawsD(3,4) [OF assms(1)])
    ultimately show ?thesis using OpRemove Cons.IH by simp
  qed
qed auto

lemma claimRun_no_journal: "wb_keysJournal b = None \<Longrightarrow> wb_keysJournal (claimRun ops b os) = None"
proof (induction os arbitrary: b)
  case (Cons a os)
  then show ?case by (cases a) (simp_all add: addKeyLocked_def dropKeyLocked_def)
qed simp

lemma claimRun_keys:
  assumes "setLaws ops" "wb_keys b = Some ks" "keysOk ops ks"
    "\<forall>a \<in> set os. opHash a = h \<or> apart h (opHash a)"
    "keySet_Contains ops (Some ks) h \<longleftrightarrow> (case m h of None \<Rightarrow> c | Some v \<Rightarrow> v)"
  shows "\<exists>ks. wb_keys (claimRun ops b os) = Some ks \<and> keysOk ops ks \<and>
    (keySet_Contains ops (Some ks) h \<longleftrightarrow> (case lastClaim m os h of None \<Rightarrow> c | Some v \<Rightarrow> v))"
  using assms(2-)
proof (induction os arbitrary: b ks m)
  case (Cons a os)
  have ap: "x = h \<or> keySet_key ks h \<noteq> keySet_key ks x" if "opHash a = x" for x
    using Cons.prems that keySet_key_apart by (fastforce simp: keysOk_def)
  show ?case
  proof (cases a)
    case (OpAdd x)
    obtain ks' where k: "keySet_Add ops (Some ks) x = Some ks'" "keysOk ops ks'"
      "keySet_Contains ops (Some ks') h \<longleftrightarrow> keySet_key ks h = keySet_key ks x \<or> keySet_Contains ops (Some ks) h"
      using keySet_Add_Some [OF assms(1) Cons.prems(2)] by metis
    have "wb_keys (addKeyLocked ops x b) = Some ks'" using k Cons.prems(1) by (simp add: addKeyLocked_def)
    moreover have "keySet_Contains ops (Some ks') h \<longleftrightarrow> (case (m(x := Some True)) h of None \<Rightarrow> c | Some v \<Rightarrow> v)"
      using k(3) ap [of x] Cons.prems(4) OpAdd by auto
    ultimately show ?thesis using OpAdd k(2) Cons.prems(3) Cons.IH by simp
  next
    case (OpRemove x)
    obtain ks' where k: "keySet_Remove ops (Some ks) x = Some ks'" "keysOk ops ks'"
      "keySet_Contains ops (Some ks') h \<longleftrightarrow> keySet_key ks h \<noteq> keySet_key ks x \<and> keySet_Contains ops (Some ks) h"
      using keySet_Remove_Some [OF assms(1) Cons.prems(2)] by metis
    have "wb_keys (dropKeyLocked ops x b) = Some ks'" using k Cons.prems(1) by (simp add: dropKeyLocked_def)
    moreover have "keySet_Contains ops (Some ks') h \<longleftrightarrow> (case (m(x := Some False)) h of None \<Rightarrow> c | Some v \<Rightarrow> v)"
      using k(3) ap [of x] Cons.prems(4) OpRemove by auto
    ultimately show ?thesis using OpRemove k(2) Cons.prems(3) Cons.IH by simp
  qed
qed auto

lemma keySet_key_shift: "ks_shift ks' = ks_shift ks \<Longrightarrow> keySet_key ks' h = keySet_key ks h"
  by (simp add: keySet_key_def)

lemma foldl_Add_Some:
  assumes "setLaws ops" "keysOk ops ks"
  shows "\<exists>ks'. foldl (keySet_Add ops) (Some ks) xs = Some ks' \<and> keysOk ops ks' \<and> ks_shift ks' = ks_shift ks \<and>
    (\<forall>h. keySet_Contains ops (Some ks') h \<longleftrightarrow> (\<exists>x \<in> set xs. keySet_key ks h = keySet_key ks x) \<or> keySet_Contains ops (Some ks) h)"
  using assms(2)
proof (induction xs arbitrary: ks)
  case (Cons x xs)
  obtain ks1 where k: "keySet_Add ops (Some ks) x = Some ks1" "keysOk ops ks1" "ks_shift ks1 = ks_shift ks"
    "\<And>h. keySet_Contains ops (Some ks1) h \<longleftrightarrow> keySet_key ks h = keySet_key ks x \<or> keySet_Contains ops (Some ks) h"
    using keySet_Add_Some [OF assms(1) Cons.prems] by metis
  from Cons.IH [OF k(2)] show ?case using k(1,3,4) by (auto simp: keySet_key_shift [OF k(3)])
qed simp

lemma foldl_Remove_Some:
  assumes "setLaws ops" "keysOk ops ks"
  shows "\<exists>ks'. foldl (keySet_Remove ops) (Some ks) xs = Some ks' \<and> keysOk ops ks' \<and> ks_shift ks' = ks_shift ks \<and>
    (\<forall>h. keySet_Contains ops (Some ks') h \<longleftrightarrow> (\<forall>x \<in> set xs. keySet_key ks h \<noteq> keySet_key ks x) \<and> keySet_Contains ops (Some ks) h)"
  using assms(2)
proof (induction xs arbitrary: ks)
  case (Cons x xs)
  obtain ks1 where k: "keySet_Remove ops (Some ks) x = Some ks1" "keysOk ops ks1" "ks_shift ks1 = ks_shift ks"
    "\<And>h. keySet_Contains ops (Some ks1) h \<longleftrightarrow> keySet_key ks h \<noteq> keySet_key ks x \<and> keySet_Contains ops (Some ks) h"
    using keySet_Remove_Some [OF assms(1) Cons.prems] by metis
  from Cons.IH [OF k(2)] show ?case using k(1,3,4) by (auto simp: keySet_key_shift [OF k(3)])
qed simp

lemma lastClaim_touched: "lastClaim m os h \<noteq> m h \<Longrightarrow> \<exists>a \<in> set os. opHash a = h"
proof (induction os arbitrary: m)
  case (Cons a os)
  then show ?case by (cases a) (auto split: if_splits, (metis fun_upd_other opHash.simps)+)
qed simp

text \<open>The replay of the journal on the set a load brings.\<close>

lemma adoptIndex_replay:
  assumes "setLaws ops" "keysOk ops ks" "wb_keysJournal b = Some j" "journalOf ops (lastClaim (\<lambda>_. None) os) j"
    "\<forall>a \<in> set os. opHash a = h \<or> apart h (opHash a)"
  shows "\<exists>b'. adoptIndex ops (NewKeys ks) auth b = Some b' \<and> wb_keysJournal b' = None \<and> wb_indexAuthoritative b' = auth \<and>
    wb_liveGen b' = wb_liveGen b \<and>
    (keyKnown ops h b' \<longleftrightarrow> (case lastClaim (\<lambda>_. None) os h of None \<Rightarrow> keySet_Contains ops (Some ks) h | Some v \<Rightarrow> v))"
proof -
  let ?m = "lastClaim (\<lambda>_. None) os"
  have v: "x \<in> set (set_values ops (kj_added j)) \<longleftrightarrow> ?m x = Some True" "x \<in> set (set_values ops (kj_dropped j)) \<longleftrightarrow> ?m x = Some False" for x
    using assms(4) by (simp_all add: journalOf_def setLawsD(7) [OF assms(1)])
  obtain k1 where k1: "foldl (keySet_Add ops) (Some ks) (set_values ops (kj_added j)) = Some k1" "keysOk ops k1" "ks_shift k1 = ks_shift ks"
    "keySet_Contains ops (Some k1) h \<longleftrightarrow> (\<exists>x \<in> set (set_values ops (kj_added j)). keySet_key ks h = keySet_key ks x) \<or> keySet_Contains ops (Some ks) h"
    using foldl_Add_Some [OF assms(1,2)] by meson
  obtain k2 where k2: "foldl (keySet_Remove ops) (Some k1) (set_values ops (kj_dropped j)) = Some k2" "keysOk ops k2"
    "keySet_Contains ops (Some k2) h \<longleftrightarrow> (\<forall>x \<in> set (set_values ops (kj_dropped j)). keySet_key k1 h \<noteq> keySet_key k1 x) \<and> keySet_Contains ops (Some k1) h"
    using foldl_Remove_Some [OF assms(1) k1(2)] by meson
  have eq: "keySet_key ks h = keySet_key ks x \<longleftrightarrow> x = h" if "?m x \<noteq> None" for x
    using lastClaim_touched [of "\<lambda>_. None" os x] that assms(2,5) keySet_key_apart by (fastforce simp: keysOk_def)
  have "(\<exists>x \<in> set (set_values ops (kj_added j)). keySet_key ks h = keySet_key ks x) \<longleftrightarrow> ?m h = Some True"
    using eq v(1) by (metis option.distinct(1))
  moreover have "(\<forall>x \<in> set (set_values ops (kj_dropped j)). keySet_key k1 h \<noteq> keySet_key k1 x) \<longleftrightarrow> ?m h \<noteq> Some False"
    unfolding keySet_key_shift [OF k1(3)] using eq v(2) by (metis option.distinct(1))
  ultimately have "keySet_Contains ops (Some k2) h \<longleftrightarrow> (case ?m h of None \<Rightarrow> keySet_Contains ops (Some ks) h | Some v \<Rightarrow> v)"
    using k1(4) k2(3) by (auto split: option.splits)
  then show ?thesis using assms(3) k1(1) k2(1) by (simp add: adoptIndex_def Let_def keyKnown_def)
qed

section \<open>Sets read from blobs\<close>

lemma newKeySet_keysOk: "setLaws ops \<Longrightarrow> keysOk ops (newKeySet ops 0)"
  by (simp add: keysOk_def keySetOk_def newKeySet_def newSortedSet_ok)

lemma parseIndexV1_keysOk:
  assumes "setLaws ops" "parseIndexV1 ops blob etag = Inr (ks, e)" "gbciHeaderSize + 32 \<le> length blob"
  shows "keysOk ops ks"
proof -
  define sz where "sz = unat (blob ! 5)"
  define n where "n = unat (leUint64 (take 8 (drop 16 blob)))"
  have p: "sz \<ge> 8" "leUint64 (take 8 (drop 16 blob)) = of_nat ((length blob - gbciHeaderSize - 32) div sz)"
    and ks: "ks = adoptSortedKeys ops (map (\<lambda>i. take 8 (drop (gbciHeaderSize + i * sz) blob)) [0..<n])"
    using assms(2) by (auto simp: parseIndexV1_def Let_def sz_def n_def gbciHashSize_def gbciPrefixSize_def split: if_splits)
  have n: "n \<le> (length blob - gbciHeaderSize - 32) div sz" unfolding n_def p(2) by (simp add: unat_of_nat)
  have len: "length (take 8 (drop (gbciHeaderSize + i * sz) blob)) = 8" if "i < n" for i
  proof -
    have "(i + 1) * sz \<le> (length blob - gbciHeaderSize - 32) div sz * sz" using that n by (intro mult_le_mono1) simp
    also have "\<dots> \<le> length blob - gbciHeaderSize - 32" by simp
    finally show ?thesis using p(1) assms(3) by (simp add: algebra_simps)
  qed
  show ?thesis unfolding ks adoptSortedKeys_def keysOk_def
    using adoptSortedKeysAt_ok(1,2) [OF assms(1), of "map (\<lambda>i. take 8 (drop (gbciHeaderSize + i * sz) blob)) [0..<n]" 64] len
    by (simp add: maskKey_0)
qed

lemma ParseIndexV2_width:
  assumes "ParseIndexV2 blob = Inr (vals, width)"
  shows "indexHashBitsMin \<le> width"
  using assms unfolding ParseIndexV2_def Let_def
  by (simp only: not_le [symmetric] not_less de_Morgan_disj sum.simps prod.inject simp_thms split: if_split_asm sum.split_asm prod.split_asm)

lemma parseIndexBlob_keysOk:
  assumes "setLaws ops" "parseIndexBlob ops blob = Inr (ks, etag)"
  shows "keysOk ops ks"
proof (cases "blob ! 4 = gbciVersion")
  case True
  then show ?thesis using assms parseIndexV1_keysOk by (fastforce simp: parseIndexBlob_def Let_def split: if_splits)
next
  case False
  obtain vals width where p: "ParseIndexV2 blob = Inr (vals, width)"
    "ks = adoptSortedKeysAt ops (map (\<lambda>v. bePut64 (push_bit (64 - width) v)) vals) width"
    using assms(2) False by (auto simp: parseIndexBlob_def Let_def split: if_splits sum.splits)
  have w: "indexHashBitsMin \<le> width"
    by (rule ParseIndexV2_width [OF p(1)])
  have "push_bit s v AND keyMask s = push_bit s v" for s and v :: u64
    by (rule bit_word_eqI) (auto simp: keyMask_def bit_and_iff bit_push_bit_iff bit_not_iff bit_mask_iff)
  then have "maskKey s (bePut64 (push_bit s v)) = bePut64 (push_bit s v)" for s v by (simp add: maskKey_def)
  then show ?thesis using w adoptSortedKeysAt_ok(1,2) [OF assms(1), of "map (\<lambda>v. bePut64 (push_bit (64 - width) v)) vals" width]
    by (simp add: p(2) keysOk_def)
qed

lemma readDiskIndex_keysOk: "setLaws ops \<Longrightarrow> keysOk ops (di_keys (readDiskIndex ops readErr fs))"
  using parseIndexBlob_keysOk by (auto simp: readDiskIndex_def Let_def newKeySet_keysOk split: option.splits sum.splits)


section \<open>Loads\<close>

lemma doIndexGET_keeps:
  assumes "doIndexGET r b = (x, b')"
  shows "wb_keys b' = wb_keys b" "wb_keysJournal b' = wb_keysJournal b" "wb_indexAuthoritative b' = wb_indexAuthoritative b"
    "wb_knownMiss b' = wb_knownMiss b" "wb_liveGen b' = wb_liveGen b"
  using assms by (auto simp: doIndexGET_def Let_def split: indexResponse.splits if_splits)

text \<open>What a fetch leaves alone, and that a set it brings is well formed.\<close>

definition fetched :: "(bytes, 's) setOps \<Rightarrow> 's webBackend \<Rightarrow> ('s loaded \<times> bool) \<times> idxFiles \<times> 's webBackend \<Rightarrow> bool" where
  "fetched ops b r \<longleftrightarrow> (case r of ((loaded, _), _, b') \<Rightarrow>
     wb_keys b' = wb_keys b \<and> wb_keysJournal b' = wb_keysJournal b \<and> (\<forall>ks. loaded = NewKeys ks \<longrightarrow> keysOk ops ks))"

lemma adoptBlob_fetched: "setLaws ops \<Longrightarrow> fetched ops b (adoptBlob ops fe disk reply fs b)"
  by (auto simp: fetched_def adoptBlob_def setLiveGen_def newKeySet_keysOk parseIndexBlob_keysOk split: sum.splits)

lemma fetchIndex_fetched:
  assumes "setLaws ops"
  shows "fetched ops b (fetchIndex ops fe disk fs b)"
proof -
  obtain reply err b1 where d: "doIndexGET (fe_first fe) b = ((reply, err), b1)" by (metis prod.exhaust)
  obtain reply2 err2 b2 where d2: "doIndexGET (fe_second fe) b1 = ((reply2, err2), b2)" by (metis prod.exhaust)
  note k = doIndexGET_keeps [OF d] doIndexGET_keeps [OF d2]
  have "fetched ops b (adoptBlob ops fe disk reply fs b1)" "fetched ops b (adoptBlob ops fe disk reply2 fs b2)"
    using adoptBlob_fetched [OF assms, of b1] adoptBlob_fetched [OF assms, of b2] k by (auto simp: fetched_def)
  then show ?thesis using k assms by (auto simp: fetchIndex_def d d2 fetched_def setLiveGen_def newKeySet_keysOk)
qed

lemma refreshIndex_fetched: "setLaws ops \<Longrightarrow> fetched ops b (refreshIndex ops lock readErr fe disk fs b)"
  using fetchIndex_fetched [of ops b fe disk fs]
  by (auto simp: refreshIndex_def fetched_def Let_def setLiveGen_def readDiskIndex_keysOk split: lockResult.splits)

lemma journalOf_new: "setLaws ops \<Longrightarrow> journalOf ops (\<lambda>_. None) \<lparr>kj_added = set_new ops, kj_dropped = set_new ops\<rparr>"
  by (simp add: journalOf_def setLawsD(1))

text \<open>The live set at the end of a load that began with a journal.\<close>

definition claimed :: "(bytes, 's) setOps \<Rightarrow> actionHash setOp list \<Rightarrow> actionHash \<Rightarrow> bool \<Rightarrow> 's webBackend \<Rightarrow> bool" where
  "claimed ops os h c b \<longleftrightarrow>
     (\<exists>ks j. wb_keys b = Some ks \<and> keysOk ops ks \<and> wb_keysJournal b = Some j \<and> journalOf ops (lastClaim (\<lambda>_. None) os) j \<and>
       (keySet_Contains ops (Some ks) h \<longleftrightarrow> (case lastClaim (\<lambda>_. None) os h of None \<Rightarrow> c | Some v \<Rightarrow> v)))"

lemma beginLoad_claimed:
  assumes "setLaws ops" "keysOk ops (di_keys disk)" "\<forall>a \<in> set os. opHash a = h \<or> apart h (opHash a)"
  shows "claimed ops os h (keySet_Contains ops (Some (di_keys disk)) h) (claimRun ops (beginLoad ops disk b) os)"
proof -
  have b: "wb_keys (beginLoad ops disk b) = Some (di_keys disk)"
    "wb_keysJournal (beginLoad ops disk b) = Some \<lparr>kj_added = set_new ops, kj_dropped = set_new ops\<rparr>"
    by (simp_all add: beginLoad_def)
  from claimRun_journal [OF assms(1) b(2) journalOf_new [OF assms(1)], of os]
    claimRun_keys [OF assms(1) b(1) assms(2,3), where m = "\<lambda>_. None"]
  show ?thesis by (auto simp: claimed_def)
qed

text \<open>Every way a load ends without a delta leaves each hash as it was last claimed or dropped.\<close>

lemma adoptIndex_claimed:
  assumes "setLaws ops" "claimed ops os h c b" "\<forall>a \<in> set os. opHash a = h \<or> apart h (opHash a)"
    "\<And>ks. loaded = NewKeys ks \<Longrightarrow> keysOk ops ks"
  shows "\<exists>b'. adoptIndex ops loaded auth b = Some b' \<and> wb_keysJournal b' = None \<and>
    (keyKnown ops h b' \<longleftrightarrow> (case lastClaim (\<lambda>_. None) os h of None \<Rightarrow> (case loaded of NewKeys ks \<Rightarrow> keySet_Contains ops (Some ks) h | _ \<Rightarrow> c) | Some v \<Rightarrow> v))"
proof (cases loaded)
  case (NewKeys ks)
  obtain j where j: "wb_keysJournal b = Some j" "journalOf ops (lastClaim (\<lambda>_. None) os) j"
    using assms(2) by (auto simp: claimed_def)
  from adoptIndex_replay [OF assms(1) assms(4) [OF NewKeys] j assms(3), of auth] show ?thesis unfolding NewKeys by (auto split: option.splits)
qed (use assms(2) in \<open>auto simp: claimed_def adoptIndex_def Let_def keyKnown_def split: option.splits\<close>)

lemma finishLoad_claimed:
  assumes "setLaws ops" "claimed ops os h c b" "\<forall>a \<in> set os. opHash a = h \<or> apart h (opHash a)"
  shows "\<exists>fs' b'. finishLoad ops lock readErr fe disk fs b = Some (fs', b') \<and> wb_keysJournal b' = None \<and>
    (\<forall>v. lastClaim (\<lambda>_. None) os h = Some v \<longrightarrow> keyKnown ops h b' = v)"
proof -
  obtain loaded auth fs1 b1 where r: "refreshIndex ops lock readErr fe disk fs b = ((loaded, auth), fs1, b1)" by (metis prod.exhaust)
  have f: "wb_keys b1 = wb_keys b" "wb_keysJournal b1 = wb_keysJournal b" "\<And>ks. loaded = NewKeys ks \<Longrightarrow> keysOk ops ks"
    using refreshIndex_fetched [OF assms(1), of b lock readErr fe disk fs] by (auto simp: r fetched_def)
  have "claimed ops os h c b1" using assms(2) f by (simp add: claimed_def)
  from adoptIndex_claimed [OF assms(1) this assms(3), of loaded auth] f(3) show ?thesis by (auto simp: finishLoad_def r)
qed

lemma keySet_addAll_keeps:
  assumes "setLaws ops" "keysOk ops ks" "keysOk ops added"
  shows "keysOk ops (keySet_addAll ops ks added)"
    "keySet_Contains ops (Some ks) h \<Longrightarrow> keySet_Contains ops (Some (keySet_addAll ops ks added)) h"
    "keySet_Contains ops (Some added) h \<Longrightarrow> keySet_Contains ops (Some (keySet_addAll ops ks added)) h"
proof -
  have ok: "keySetOk ops ks" "keySetOk ops added" using assms(2,3) by (simp_all add: keysOk_def)
  note a = keySet_addAll_ok [OF assms(1) ok]
  show "keysOk ops (keySet_addAll ops ks added)" using a(1,2) assms(2,3) by (simp add: keysOk_def)
  have c: "keySet_Contains ops (Some s) h \<longleftrightarrow> keySet_key s h \<in> hashSetElems ops (ks_keys s)" if "keySetOk ops s" for s
    using ks.contains_iff [of "(ops, s)" h] that assms(1) by simp
  let ?m = "max (ks_shift ks) (ks_shift added)"
  have k: "keySet_key (keySet_addAll ops ks added) h = maskKey ?m (keySet_key ks h)"
    "keySet_key (keySet_addAll ops ks added) h = maskKey ?m (keySet_key added h)"
    by (simp_all add: keySet_key_def a(2) maskKey_maskKey max.commute max.left_commute)
  show "keySet_Contains ops (Some ks) h \<Longrightarrow> keySet_Contains ops (Some (keySet_addAll ops ks added)) h"
    using k(1) by (simp add: c ok a)
  show "keySet_Contains ops (Some added) h \<Longrightarrow> keySet_Contains ops (Some (keySet_addAll ops ks added)) h"
    using k(2) by (simp add: c ok a)
qed


text \<open>A delta adds to the live set, so it keeps what is claimed; a hash dropped meanwhile is known again only when a
  delta came.\<close>

definition deltaAnswer :: "(bytes, 's) setOps \<Rightarrow> indexResponse \<Rightarrow> bool" where
  "deltaAnswer ops r \<longleftrightarrow>
    (case r of NoResponse \<Rightarrow> False | Response status hdr body broken \<Rightarrow>
       status = 200 \<and> \<not> broken \<and> hdr ''X-Index-Delta'' = ''1'' \<and> (case parseIndexBlob ops body of Inl e \<Rightarrow> False | Inr _ \<Rightarrow> True))"

lemma applyDelta_claimed:
  assumes "setLaws ops" "claimed ops os h c b" "\<forall>a \<in> set os. opHash a = h \<or> apart h (opHash a)"
  shows "\<exists>fs' b'. applyDelta ops ae response lock readErr fe disk fs b = Some (fs', b') \<and> wb_keysJournal b' = None \<and>
    (\<forall>v. lastClaim (\<lambda>_. None) os h = Some v \<longrightarrow> keyKnown ops h b' = v \<or> (keyKnown ops h b' \<and> deltaAnswer ops response))"
proof -
  obtain maxAge fs1 where m: "maxAgeAt (fe_now fe) ae fs = (maxAge, fs1)" by (metis prod.exhaust)
  obtain reply err b1 where d: "doIndexGET response b = ((reply, err), b1)" by (metis prod.exhaust)
  have c1: "claimed ops os h c b1" using assms(2) doIndexGET_keeps [OF d] by (simp add: claimed_def)
  have live: "\<exists>b'. adoptIndex ops LiveKeys auth b1 = Some b' \<and> wb_keysJournal b' = None \<and>
      (\<forall>v. lastClaim (\<lambda>_. None) os h = Some v \<longrightarrow> keyKnown ops h b' = v)" for auth
    using adoptIndex_claimed [OF assms(1) c1 assms(3), of LiveKeys auth] by auto
  note full = finishLoad_claimed [OF assms(1) c1 assms(3), of lock readErr fe disk fs1]
  show ?thesis
  proof (cases "\<not> err \<and> ir_status reply = 200 \<and> ir_delta reply")
    case True
    show ?thesis
    proof (cases "parseIndexBlob ops (ir_body reply)")
      case (Inl e)
      then show ?thesis using True live by (fastforce simp: applyDelta_def m d)
    next
      case (Inr p)
      obtain added etag where p: "parseIndexBlob ops (ir_body reply) = Inr (added, etag)" using Inr by (cases p) auto
      have da: "deltaAnswer ops response" using d True p
        by (auto simp: doIndexGET_def deltaAnswer_def Let_def noReply_def split: indexResponse.splits if_splits)
      obtain ks where ks: "wb_keys b1 = Some ks" "keysOk ops ks" "lastClaim (\<lambda>_. None) os h = Some True \<Longrightarrow> keySet_Contains ops (Some ks) h"
        using c1 by (fastforce simp: claimed_def)
      show ?thesis using True p ks da keySet_addAll_keeps(2) [OF assms(1) ks(2) parseIndexBlob_keysOk [OF assms(1) p], of h]
        by (auto simp: applyDelta_def m d Let_def setLiveGen_def addKeys_def keyKnown_def)
    qed
  next
    case False
    define young where "young = (diskIndex_age (fe_now fe) disk < maxAge)"
    have "applyDelta ops ae response lock readErr fe disk fs b =
        (if err \<and> ir_status reply \<noteq> 410 then map_option (Pair fs1) (adoptIndex ops LiveKeys young b1)
         else finishLoad ops lock readErr fe disk fs1 b1)"
      using False by (auto simp: applyDelta_def m d young_def)
    then show ?thesis using live [of young] full by auto
  qed
qed

section \<open>Deltas of the server\<close>

text \<open>The answer the server gives to the client's request for a delta.\<close>

definition serverReply :: "int \<Rightarrow> indexGen \<Rightarrow> Index \<Rightarrow> indexResponse" where
  "serverReply now gen idx =
    (let r = fst (handleGetIndex now (indexVersionQuery @ deltaQuery gen) None (Some idx))
     in Response (int (rs_status r)) (kvGet (rs_headers r)) (rs_body r) False)"

lemma indexHeaders:
  "canonicalHeaderKey headerIndexEpoch = ''X-Index-Epoch''" "canonicalHeaderKey headerIndexSeq = ''X-Index-Seq''"
  "canonicalHeaderKey headerIndexDelta = ''X-Index-Delta''"
  by code_simp+

lemma delta_request:
  assumes "gen_seq gen < 2 ^ 64" "gen_epoch gen \<noteq> 0"
  shows "indexGenFromQuery (indexVersionQuery @ deltaQuery gen) = Some gen"
    "indexFormFromQuery (indexVersionQuery @ deltaQuery gen) idx = indexFormV1 gbciPrefixSize"
proof -
  have "unat (gen_epoch gen) < 2 ^ 64" using unsigned_less [of "gen_epoch gen", where ?'a = nat] by simp
  then show "indexGenFromQuery (indexVersionQuery @ deltaQuery gen) = Some gen"
    using assms by (simp add: indexGenFromQuery_def indexVersionQuery_def deltaQuery_def kvGet_def unat_eq_0)
  have "formatNat gbciPrefixSize = ''8''" by code_simp
  then show "indexFormFromQuery (indexVersionQuery @ deltaQuery gen) idx = indexFormV1 gbciPrefixSize"
    by (simp add: indexFormFromQuery_def indexVersionQuery_def kvGet_def)
qed

lemma delta_headers:
  assumes "gen_seq to < 2 ^ 64" "gen_epoch to \<noteq> 0"
  shows "indexGenFromHeader (kvGet (setIndexGenHeaders to (setHeader headerIndexDelta ''1'' ct))) = to"
    "kvGet (setIndexGenHeaders to (setHeader headerIndexDelta ''1'' ct)) ''X-Index-Delta'' = ''1''"
proof -
  have "unat (gen_epoch to) < 2 ^ 64" using unsigned_less [of "gen_epoch to", where ?'a = nat] by simp
  then show "indexGenFromHeader (kvGet (setIndexGenHeaders to (setHeader headerIndexDelta ''1'' ct))) = to"
    "kvGet (setIndexGenHeaders to (setHeader headerIndexDelta ''1'' ct)) ''X-Index-Delta'' = ''1''"
    using assms by (simp_all add: indexGenFromHeader_def setIndexGenHeaders_def setHeader_def indexHeaders kvGet_def update_conv')
qed

lemma serverReply_delta:
  assumes "DeltaForm gen (indexFormV1 gbciPrefixSize) idx = Some (blob, to)" "gen_seq gen < 2 ^ 64" "gen_epoch gen \<noteq> 0" "gen_seq to < 2 ^ 64"
  shows "\<exists>hdr. serverReply now gen idx = Response 200 hdr blob False \<and> hdr ''X-Index-Delta'' = ''1'' \<and> indexGenFromHeader hdr = to"
proof -
  have "gen_epoch to \<noteq> 0" using DeltaForm_SomeD [OF assms(1)] assms(3) by simp
  with delta_headers [OF assms(4)] show ?thesis
    using assms(1) by (simp add: serverReply_def handleGetIndex_def delta_request [OF assms(2,3)] Let_def)
qed


text \<open>What a delta blob in the client's form holds.\<close>

lemma delta_blob:
  assumes "setLaws ops" "hashList hs"
  shows "\<exists>added etag. parseIndexBlob ops (marshalForm hs (indexFormV1 gbciPrefixSize)) = Inr (added, etag) \<and> keysOk ops added \<and>
    (\<forall>h \<in> set hs. keySet_Contains ops (Some added) h)"
proof -
  have v: "validForm (indexFormV1 gbciPrefixSize)" by (simp add: validForm_def indexFormV1_def)
  obtain added etag where p: "parseIndexBlob ops (marshalForm hs (indexFormV1 gbciPrefixSize)) = Inr (added, etag)" "keySetOk ops added"
    "ks_shift added = formShift (indexFormV1 gbciPrefixSize)"
    "hashSetElems ops (ks_keys added) = (\<lambda>h. maskKey (formShift (indexFormV1 gbciPrefixSize)) (keyOf h)) ` set hs"
    using parse_marshalForm [OF assms v] by blast
  then have "\<forall>h \<in> set hs. keySet_Contains ops (Some added) h"
    using ks.contains_iff [of "(ops, added)"] assms(1) by (simp add: keySet_key_def)
  then show ?thesis using p(1) parseIndexBlob_keysOk [OF assms(1) p(1)] by blast
qed

text \<open>The live set is complete up to its position.\<close>

definition liveComplete :: "(bytes, 's) setOps \<Rightarrow> (indexGen \<times> actionHash set) set \<Rightarrow> 's webBackend \<Rightarrow> bool" where
  "liveComplete ops I b \<longleftrightarrow>
    (\<exists>ks S. wb_keys b = Some ks \<and> keysOk ops ks \<and> (wb_liveGen b, S) \<in> I \<and> (\<forall>h \<in> S. keyKnown ops h b)) \<and>
    wb_indexAuthoritative b \<and> wb_keysJournal b = None"

lemma refreshLiveDelta_complete:
  assumes "setLaws ops" "indexRun sops idx U I" "liveComplete ops I b" "gen_epoch (wb_liveGen b) = ix_addEpoch idx"
    "ix_addEpoch idx \<noteq> 0" "length (ix_added idx) < 2 ^ 56" "LiveDeltaInterval \<le> timeSince now (wb_deltaAt b)"
  shows "\<exists>b' I'. refreshLiveDelta ops now (serverReply now (wb_liveGen b) idx) b = (True, b') \<and>
    (\<forall>h \<in> advertised idx. keyKnown ops h b') \<and> indexRun sops idx U I' \<and> I \<subseteq> I' \<and> liveComplete ops I' b' \<and>
    gen_epoch (wb_liveGen b') = ix_addEpoch idx"
proof -
  obtain ks S where b: "wb_keys b = Some ks" "keysOk ops ks" "(wb_liveGen b, S) \<in> I" "\<forall>h \<in> S. keyKnown ops h b"
    "wb_indexAuthoritative b" "wb_keysJournal b = None"
    using assms(3) by (auto simp: liveComplete_def)
  note inv = indexRun_inv [OF assms(2)]
  have sq: "gen_seq (wb_liveGen b) \<le> length (ix_added idx)"
    using inv b(3) assms(4) by (fastforce simp: runInv_def logInv_def)
  define hs where "hs = sortDedupeHashes (drop (gen_seq (wb_liveGen b)) (ix_added idx))"
  define to where "to = \<lparr>gen_epoch = ix_addEpoch idx, gen_seq = length (ix_added idx)\<rparr>"
  have d: "DeltaForm (wb_liveGen b) (indexFormV1 gbciPrefixSize) idx = Some (marshalForm hs (indexFormV1 gbciPrefixSize), to)"
    using assms(4) sq by (simp add: DeltaForm_def hs_def to_def)
  have S: "S \<union> set hs = advertised idx" using runInv_delta(1) [OF inv b(3) d] by (simp add: hs_def)
  have "length hs \<le> length (ix_added idx)"
    using length_dedupeLoop [of None "sort (drop (gen_seq (wb_liveGen b)) (ix_added idx))"] by (simp add: hs_def sortDedupeHashes_def)
  moreover have "\<forall>h \<in> set hs. length h = 32" using inv S by (auto simp: runInv_def indexOk_def)
  ultimately have "hashList hs" using assms(6) by (simp add: hashList_def hs_def gbciHashSize_def)
  from delta_blob [OF assms(1) this] obtain added etag where p:
    "parseIndexBlob ops (marshalForm hs (indexFormV1 gbciPrefixSize)) = Inr (added, etag)" "keysOk ops added"
    "\<forall>h \<in> set hs. keySet_Contains ops (Some added) h" by blast
  obtain hdr where r: "serverReply now (wb_liveGen b) idx = Response 200 hdr (marshalForm hs (indexFormV1 gbciPrefixSize)) False"
    "hdr ''X-Index-Delta'' = ''1''" "indexGenFromHeader hdr = to"
    using serverReply_delta [OF d, of now] sq assms(4-6) by (auto simp: to_def)
  obtain b' where b': "refreshLiveDelta ops now (serverReply now (wb_liveGen b) idx) b = (True, b')"
    "wb_keys b' = Some (keySet_addAll ops ks added)" "wb_liveGen b' = to" "wb_indexAuthoritative b'" "wb_keysJournal b' = None"
    using assms(4,5,7) b p(1) r by (auto simp: refreshLiveDelta_def doIndexGET_def Let_def setLiveGen_def addKeys_def)
  note k = keySet_addAll_keeps [OF assms(1) b(2) p(2)]
  have known: "\<forall>h \<in> S \<union> set hs. keyKnown ops h b'"
    using k(2,3) b(1,4) b'(2) p(3) by (auto simp: keyKnown_def)
  have "indexRun sops idx U (insert (to, S \<union> set hs) I)"
    using run_delta [OF assms(2) b(3) d] by (simp add: hs_def)
  moreover have "liveComplete ops (insert (to, S \<union> set hs) I) b'"
    using b'(2-) k(1) known by (auto simp: liveComplete_def)
  ultimately show ?thesis using b'(1,3) known S by (intro exI [of _ b'] exI [of _ "insert (to, S \<union> set hs) I"]) (auto simp: to_def)
qed


section \<open>The copy\<close>

lemma fieldsFrom_word: "\<forall>c \<in> set w. \<not> isSpaceChar c \<Longrightarrow> fieldsFrom acc (w @ s) = fieldsFrom (acc @ w) s"
  by (induction w arbitrary: acc) simp_all

definition plainWord :: "string \<Rightarrow> bool" where
  "plainWord w \<longleftrightarrow> w \<noteq> [] \<and> (\<forall>c \<in> set w. \<not> isSpaceChar c)"

lemma fields_line:
  assumes "plainWord u" "plainWord v" "plainWord w"
  shows "stringsFields (u @ '' '' @ v @ '' '' @ w @ [CHR 0x0A]) = [u, v, w]"
proof -
  have sp: "isSpaceChar CHR '' ''" "isSpaceChar CHR 0x0A" by code_simp+
  show ?thesis using assms sp by (simp add: stringsFields_def plainWord_def fieldsFrom_word)
qed

lemma plainWord_formatNat: "plainWord (formatNat n)"
  using formatNat_digits digitVal_not_space formatNat_not_Nil by (auto simp: plainWord_def)

lemma plainWord_quoted: "plainWord ([CHR 0x22] @ hexEncode bs @ [CHR 0x22])"
proof -
  have "\<forall>n \<in> {..<16}. \<not> isSpaceChar (hexDigit n)" by (auto simp: isSpaceChar_def hexDigit_def)
  then have "\<forall>c \<in> set (hexEncode bs). \<not> isSpaceChar c" using set_hexEncode [of bs] by blast
  then show ?thesis by (simp add: plainWord_def isSpaceChar_def ball_Un)
qed

lemma parseIndexBlob_etag:
  assumes "parseIndexBlob ops blob = Inr (ks, etag)"
  shows "plainWord etag"
proof -
  have "etag = [CHR 0x22] @ hexEncode (drop (length blob - 32) blob) @ [CHR 0x22]"
    using assms by (auto simp: parseIndexBlob_def parseIndexV1_def Let_def split: if_splits sum.splits)
  then show ?thesis using plainWord_quoted by simp
qed

lemma readIndexGen_write:
  assumes "plainWord etag" "gen_seq gen < 2 ^ 64"
  shows "readIndexGen etag (writeIndexGen True etag gen fs) = (if gen_epoch gen = 0 then noGen else gen)"
proof (cases "gen_epoch gen = 0")
  case False
  have "unat (gen_epoch gen) < 2 ^ 64" using unsigned_less [of "gen_epoch gen", where ?'a = nat] by simp
  moreover have "stringsFields (genLine gen etag) = [formatNat (unat (gen_epoch gen)), formatNat (gen_seq gen), etag]"
    unfolding genLine_def by (rule fields_line [OF plainWord_formatNat plainWord_formatNat assms(1)])
  moreover have "etag \<noteq> []" using assms(1) by (simp add: plainWord_def)
  ultimately show ?thesis using False assms(2) by (simp add: readIndexGen_def writeIndexGen_def Let_def unat_eq_0)
qed (simp add: readIndexGen_def writeIndexGen_def)

lemma indexGenFromHeader_seq: "gen_seq (indexGenFromHeader hdr) < 2 ^ 64"
  by (auto simp: indexGenFromHeader_def noGen_def parseUint_def split: option.splits if_splits)

section \<open>Properties\<close>

text \<open>(C7) Claims survive a load.  The index loads in the background while the build stores and drops keys.  Whatever
  the copy on disk was, however the load goes (a delta, a full answer, none, one that does not parse, another
  process that was faster, a lock that failed, a cancelled load), the load ends without a panic and without a
  journal, and a hash whose last change meanwhile was a claim is known afterwards; one whose last change was a
  drop is not known, unless the server sent a delta.  The other hashes changed meanwhile are told from it by the
  bits every index keeps.\<close>

theorem index_load_keeps_claims:
  assumes "setLaws ops" "wb_keysJournal b0 = None" "startIndexLoad ops now readErr ae fs0 b0 = (mode, disk, fs, b)"
    "\<forall>a \<in> set os. opHash a = h \<or> apart h (opHash a)"
  shows "\<exists>fs' b'. endLoad ops mode ae' response lock readErr' fe disk fs1 (claimRun ops b os) = Some (fs', b') \<and>
    wb_keysJournal b' = None \<and>
    (lastClaim (\<lambda>_. None) os h = Some True \<longrightarrow> keyKnown ops h b') \<and>
    (lastClaim (\<lambda>_. None) os h = Some False \<longrightarrow> keyKnown ops h b' \<longrightarrow> mode = DeltaLoad \<and> deltaAnswer ops response)"
proof -
  have disk: "keysOk ops (di_keys disk)" and b: "b = beginLoad ops disk b0 \<or> mode = Trusted \<and> wb_keys b = Some (di_keys disk) \<and> wb_keysJournal b = None"
    using assms(1-3) readDiskIndex_keysOk [OF assms(1), of readErr fs0]
    by (auto simp: startIndexLoad_def Let_def split: prod.splits if_splits)
  show ?thesis
  proof (cases "mode = Trusted")
    case True
    then have "wb_keys b = Some (di_keys disk)" "wb_keysJournal b = None"
      using assms(2,3) by (auto simp: startIndexLoad_def Let_def split: prod.splits if_splits)
    with claimRun_keys [OF assms(1) _ disk assms(4), where b = b and m = "\<lambda>_. None"] claimRun_no_journal [of b ops os] True
    show ?thesis by (auto simp: endLoad_def keyKnown_def)
  next
    case False
    then have "claimed ops os h (keySet_Contains ops (Some (di_keys disk)) h) (claimRun ops b os)"
      using b beginLoad_claimed [OF assms(1) disk assms(4)] by blast
    from finishLoad_claimed [OF assms(1) this assms(4), of lock readErr' fe disk fs1]
      applyDelta_claimed [OF assms(1) this assms(4), of ae' response lock readErr' fe disk fs1] False
    show ?thesis by (cases mode; fastforce simp: endLoad_def)
  qed
qed


text \<open>(C6) A lookup catches up with the server.  Take any run of the server's index and a client whose live set is
  complete up to a position the server named.  As long as the server's epoch lasts, a lookup of any key the
  server advertises at this moment goes on with a request, with the server's own answer to the client's
  delta request where the key is not known yet, provided that the client knows the key or its last delta is
  two seconds old or more; it leaves the live set complete up to the position it then has.  So a key that is advertised
  can be answered as a miss without a request only within two seconds of the last delta.\<close>

theorem get_asks_for_stored:
  assumes "setLaws ops" "indexRun sops idx U I" "liveComplete ops I b" "gen_epoch (wb_liveGen b) = ix_addEpoch idx"
    "ix_addEpoch idx \<noteq> 0" "length (ix_added idx) < 2 ^ 56"
    "parseActionHash actionID = (h, True)" "h \<in> advertised idx"
    "keyKnown ops h b \<or> LiveDeltaInterval \<le> timeSince now (wb_deltaAt b)"
  shows "\<exists>b' I'. get ops now (serverReply now (wb_liveGen b) idx) loadEnd actionID b = (Request, b') \<and>
    indexRun sops idx U I' \<and> I \<subseteq> I' \<and> liveComplete ops I' b' \<and> gen_epoch (wb_liveGen b') = ix_addEpoch idx"
proof (cases "keyKnown ops h b")
  case True
  then show ?thesis using assms by (auto simp: get_def)
next
  case False
  then have t: "LiveDeltaInterval \<le> timeSince now (wb_deltaAt b)" using assms(9) by simp
  from False show ?thesis using refreshLiveDelta_complete [OF assms(1-6) t] assms(7,8) by (auto simp: get_def)
qed

definition demoBackend :: "bytes fset webBackend" where
  "demoBackend = \<lparr>wb_keys = Some (newKeySet fsetOps 0), wb_indexEmpty = False, wb_indexAuthoritative = True, wb_indexKeysAtStart = 0,
    wb_keysJournal = None, wb_liveGen = demoGen, wb_deltaAt = 0, wb_knownMiss = newSortedSet fsetOps 0,
    wb_backoff = \<lparr>eb_threshold = 0, eb_consecutive = 0, eb_disabled = False\<rparr>, wb_indexBytes = 0, wb_count = (\<lambda>_. 0)\<rparr>"

theorem get_asks_for_stored_witness:
  "\<exists>b'. get fsetOps (3 * second) (serverReply (3 * second) demoGen demoIndex) None (hexEncode demoHash) demoBackend = (Request, b')"
proof -
  have l: "liveComplete fsetOps {(demoGen, {})} demoBackend"
    by (simp add: liveComplete_def demoBackend_def newKeySet_keysOk setLaws_fsetOps)
  have g: "wb_liveGen demoBackend = demoGen" "gen_epoch demoGen = 1" by (simp_all add: demoBackend_def demoGen_def)
  have t: "LiveDeltaInterval \<le> timeSince (3 * second) (wb_deltaAt demoBackend)"
    by (simp add: demoBackend_def timeSince_def LiveDeltaInterval_def second_def maxDuration_def)
  have p: "parseActionHash (hexEncode demoHash) = (demoHash, True)"
    by (simp add: parseActionHash_def demoHash_def)
  show ?thesis
    using get_asks_for_stored [OF setLaws_fsetOps demoIndex_run l _ _ _ p _ disjI2 [OF t], of None]
    by (auto simp: g demoIndex_fields advertised_def)
qed



text \<open>A backend before its first use, an empty directory, and an empty index of the server.\<close>

definition demoFiles :: idxFiles where
  "demoFiles = \<lparr>fi_blob = None, fi_gen = None, fi_run = None\<rparr>"

definition demoAge :: ageEnv where
  "demoAge = \<lparr>ae_indexMaxAge = 1, ae_ci = False, ae_readErr = False, ae_wrote = True\<rparr>"

definition demoBlob :: bytes where
  "demoBlob = marshalForm [demoHash] (indexFormV1 gbciPrefixSize)"

definition demoFetch :: fetchEnv where
  "demoFetch = \<lparr>fe_now = 5, fe_cancelled = False, fe_first = Response 200 (\<lambda>_. []) demoBlob False,
    fe_second = NoResponse, fe_touched = True, fe_wroteBlob = True, fe_wroteGen = True\<rparr>"

lemma demoLoad_start:
  "startIndexLoad fsetOps 0 False demoAge demoFiles demoBackend =
    (FullLoad, readDiskIndex fsetOps False demoFiles, demoFiles, beginLoad fsetOps (readDiskIndex fsetOps False demoFiles) demoBackend)"
  by (simp add: startIndexLoad_def demoFiles_def demoAge_def readDiskIndex_def maxAgeAt_def resolveIndexMaxAge_def Let_def)

lemma demo_apart: "apart demoHash (replicate 32 2)"
  by code_simp


theorem index_load_keeps_claims_witness:
  "\<exists>fs' b'. endLoad fsetOps FullLoad demoAge NoResponse LockFailed False demoFetch (readDiskIndex fsetOps False demoFiles) demoFiles
     (claimRun fsetOps (beginLoad fsetOps (readDiskIndex fsetOps False demoFiles) demoBackend) [OpAdd demoHash, OpRemove (replicate 32 2)])
     = Some (fs', b') \<and> keyKnown fsetOps demoHash b'"
proof -
  have j: "wb_keysJournal demoBackend = None" by (simp add: demoBackend_def)
  have ne: "demoHash \<noteq> replicate 32 2" using demo_apart by (auto simp: apart_def)
  have os: "\<forall>a \<in> set [OpAdd demoHash, OpRemove (replicate 32 2)]. opHash a = demoHash \<or> apart demoHash (opHash a)"
    using demo_apart by simp
  have "lastClaim (\<lambda>_. None) [OpAdd demoHash, OpRemove (replicate 32 2)] demoHash = Some True" using ne by simp
  then show ?thesis
    using index_load_keeps_claims [OF setLaws_fsetOps j demoLoad_start os, where ae' = demoAge and response = NoResponse
      and lock = LockFailed and readErr' = False and fe = demoFetch and ?fs1.0 = demoFiles] by blast
qed



text \<open>A failed request for a delta does not leave the copy non-authoritative as such: a copy inside its age is trusted.\<close>

lemma applyDelta_failed_trusts:
  assumes "maxAgeAt (fe_now fe) ae fs = (maxAge, fs')"
  shows "applyDelta ops ae NoResponse lock readErr fe disk fs b =
    Some (fs', b\<lparr>wb_keysJournal := None, wb_indexAuthoritative := diskIndex_age (fe_now fe) disk < maxAge\<rparr>)"
  using assms by (simp add: applyDelta_def doIndexGET_def noReply_def adoptIndex_def Let_def)

end
