(* ===== verification/Spec2Isabelle.thy ===== *)
theory Spec2Isabelle
  imports ServerRun DiskStore ClientIndex
begin

text \<open>
  \<^bold>\<open>Verification of go-s3-server\<close>, a build-cache server for the go command (package \<^verbatim>\<open>main\<close>) and its client
  (package \<^verbatim>\<open>cacheclient\<close>).

  \<^bold>\<open>The program.\<close>  The server stores compressed build outputs as files under a data directory, with their
  metadata in an extended attribute.  A request comes in through \<^verbatim>\<open>ServeHTTP\<close>: it waits for a work slot, is
  authenticated, routed to a bucket, and handled as a read, a store, a deletion, a batch of reads or of
  stores, or a download of the index.  The index is the list of the action hashes the store holds; a client
  downloads it once, in a compressed form, and then asks for the hashes added since.  A read goes through
  guards: the stored digest is checked, a missing content address is repaired, a stored module index is
  evicted.  A sweep in the background keeps the data directory inside its budget; a controller keeps the
  caches inside the memory limit.  The client keeps a directory of its own below the remote store, retries
  and backs off from a failing server, and checks every body it is given.

  \<^bold>\<open>Theories.\<close>
  \<^item> \<^verbatim>\<open>Prelude\<close>, \<^verbatim>\<open>Strconv\<close>, \<^verbatim>\<open>Sha256\<close>: bytes and strings, the parts of the Go library the sources use, and the
    generic lemmas.
  \<^item> \<^verbatim>\<open>ActionKey\<close>, \<^verbatim>\<open>HashList\<close>, \<^verbatim>\<open>BitIO\<close>, \<^verbatim>\<open>RiceIndex\<close>, \<^verbatim>\<open>KeySets\<close>, \<^verbatim>\<open>GbciBlob\<close>: keys, hashes and the wire forms of the
    index (\<^verbatim>\<open>compactkey.go\<close>, \<^verbatim>\<open>indexv2.go\<close>, \<^verbatim>\<open>cacheclient/indexv2.go\<close>, \<^verbatim>\<open>hashset.go\<close>, \<^verbatim>\<open>indexkey.go\<close>, \<^verbatim>\<open>web_index.go\<close>).
  \<^item> \<^verbatim>\<open>IndexState\<close>, \<^verbatim>\<open>NearbyKeys\<close>: the server's index with its add log (\<^verbatim>\<open>index.go\<close>, \<^verbatim>\<open>indexdelta.go\<close>); runs of it are
    a step relation.
  \<^item> \<^verbatim>\<open>LruCache\<close>, \<^verbatim>\<open>SlotQueue\<close>, \<^verbatim>\<open>HaveFilter\<close>, \<^verbatim>\<open>IndexGuard\<close>: the bounded caches (\<^verbatim>\<open>lrucache.go\<close>), admission
    (\<^verbatim>\<open>admit.go\<close>), the Bloom filter of held keys (\<^verbatim>\<open>havefilter.go\<close>) and the recognition of a module index
    (\<^verbatim>\<open>lz4head.go\<close>, \<^verbatim>\<open>codec.go\<close>, \<^verbatim>\<open>modindex.go\<close>, \<^verbatim>\<open>contentstamp.go\<close>).
  \<^item> \<^verbatim>\<open>ObjAttrs\<close>, \<^verbatim>\<open>Paths\<close>, \<^verbatim>\<open>StorageState\<close>, \<^verbatim>\<open>StorageOps\<close>, \<^verbatim>\<open>StoreLaws\<close>: the object store (\<^verbatim>\<open>storage.go\<close>,
    \<^verbatim>\<open>storage_unix.go\<close>, \<^verbatim>\<open>metacache.go\<close> and the memos beside them).
  \<^item> \<^verbatim>\<open>ReadGuards\<close>, \<^verbatim>\<open>Handlers\<close>, \<^verbatim>\<open>Batch\<close>, \<^verbatim>\<open>Server\<close>, \<^verbatim>\<open>Config\<close>: the guards, the handlers, the batch endpoints, the way
    of a request, the configuration and the credentials.
  \<^item> \<^verbatim>\<open>Eviction\<close>, \<^verbatim>\<open>EvictionLaws\<close>, \<^verbatim>\<open>Startup\<close>, \<^verbatim>\<open>MemLimit\<close>, \<^verbatim>\<open>Churn\<close>: the sweep, the start of a store, the memory
    controller and the tracker of re-stored packages.
  \<^item> \<^verbatim>\<open>ServerRun\<close>: runs of the whole server.
  \<^item> \<^verbatim>\<open>Resilience\<close>, \<^verbatim>\<open>DiskStore\<close>, \<^verbatim>\<open>Archive\<close>: of the client, the retry loop (\<^verbatim>\<open>web_resilience.go\<close>), the cache
    directory (\<^verbatim>\<open>cachedisk\<close>) and compiled packages with their gates (\<^verbatim>\<open>archive.go\<close>, \<^verbatim>\<open>buildid.go\<close>, \<^verbatim>\<open>integrity.go\<close>).
  \<^item> \<^verbatim>\<open>ClientIndex\<close>: the client's live copy of the index (\<^verbatim>\<open>web.go\<close>, \<^verbatim>\<open>web_index.go\<close>, \<^verbatim>\<open>web_index_load.go\<close>,
    \<^verbatim>\<open>web_index_delta.go\<close>, \<^verbatim>\<open>index_run.go\<close>): claims and drops, the background load, the copy on disk, live deltas and the way of
    a lookup.  It meets the server's handler: the delta a client asks for is the one \<^verbatim>\<open>handleGetIndex\<close> answers.

  \<^bold>\<open>How the model reads.\<close>  A Go struct is a record, a method one function on it, an error a value of a sum or
  option type, a panic a value where the code can panic.  Words are kept at their width where the code
  relies on it (the bit streams, the hash filter, varints, counters that wrap).  A critical section under a
  mutex is one step; where a call gives up its lock in between (\<^verbatim>\<open>take\<close> of the slot queue) it is two.  The
  clock, random draws, the order of a map, the schedule of workers, the answers of the network and the
  failures of the file system are arguments.  Loops are structural recursion or functions with a
  termination proof.  One has fuel: the loop that drops metadata fields (\<open>dropLoop\<close>), given as many rounds as there are
  fields, which is enough for every order of the map (\<open>dropLoop_total\<close>).  A wait that may never end is the
  value \<open>None\<close> (\<open>doRetry\<close>).  Code outside the repository is a parameter with named laws: the set
  type of the containers package (\<open>setLaws\<close>, met by finite sets), the LZ4 and Zstandard decoders (\<open>decoders\<close>; where a
  theorem relies on the LZ4 decoder it is that well-formed frames come out as the format defines, \<open>lz4DecodesFrames\<close>), the
  file locks.  \<^verbatim>\<open>strings.ToUpper\<close> and \<^verbatim>\<open>strings.TrimSpace\<close> are modelled on ASCII, and of the orders \<^verbatim>\<open>sort.Slice\<close> leaves
  open the stable one is taken.  The two interfaces several components rely on are locales: \<open>dynamic_set\<close>, interpreted on the three
  set types of the client, and \<open>lossy_cache\<close>, interpreted on the LRU cache.

  \<^bold>\<open>What the theorems show.\<close>
  \<^item> The server as a whole: in any run of requests, sweeps and controller ticks from a started store, over keys that
    have files of their own, a read the disk does not interrupt answers the bytes last stored under the key or
    nothing; a batch serves only verified bodies, and a batch of stores reports the outcome of each; a failed store leaves
    the object as it was; a sweep ends inside the budget.
  \<^item> The index: blobs and deltas are complete for the position they name, the client decodes exactly the
    prefixes the server encoded, and a merge of both is their union.
  \<^item> The parts: paths stay inside the data directory, and those of plain keys do not collide (two safe keys with
    a short last element can, \<open>keyToPath_collision\<close>), the protected attributes survive a full file system, the repair touches only its own inode, slots are conserved, a cache never answers a wrong value,
    the memory controller settles and its caches follow it, the configuration and the credentials are read as documented.
  \<^item> The client: a request ends after a bounded number of attempts and a bounded wait - unless the body of a
    transient answer stalls, which nothing ends -, a dead server is not pressed, the cache directory never hands
    out wrong bytes whatever fails, as long as a file that was not written to its end can be cut and removed, a build id ties a package to its
    action.
  \<^item> Client and server together: while the server's epoch lasts, a lookup of a key the server advertises goes on with a
    request, outside the two seconds after a delta in which a lookup asks for no other; what the build claims and drops while the index loads survives the load.

  \<^bold>\<open>Bounds.\<close>  Bodies and files are shorter than \<open>2 ^ 63\<close> bytes and times fit 64 bits, as the types of the code
  have it; where a theorem needs such a bound it is a hypothesis with a witness.  In a run requests take effect
  one after the other; interleavings are modelled where the code has them as such: the slot queue, the workers
  of a batch, the changes of other operations between two attempts of the retry loop.

  \<^bold>\<open>Not modelled.\<close>  The HTTP, TLS, JSON and tar libraries; logging, metrics, the dashboard and the bandwidth,
  project and miss panels, which only report; the Windows files; process start and signals in \<^verbatim>\<open>main.go\<close>.  Of
  the client: the coalescers, the look-ahead pool and the build manifest, which are goroutines that only decide
  when a request goes out, the broker between processes and the spool of uploads, which are process and
  socket handling, and the summaries.  The manifest lists every such part with its reason.
\<close>

end
